(* ===== verification/Prelude.thy ===== *)
theory Prelude
  imports Main "HOL-Library.Word" "HOL-Library.List_Lexorder"
begin

text \<open>
  Shared vocabulary of the development: Rust's fixed-width integers, byte vectors, the
  \<open>Result\<close> type with its \<open>?\<close> operator and \<open>map_err\<close>, the big-endian conversions
  \<open>to_be_bytes\<close> and \<open>from_be_bytes\<close>, reading a prefix of a byte slice, and the generic
  list, option and word facts the component theories use.

  A byte cursor (\<open>Cursor\<close>, \<open>Reader\<close>, a running offset) is represented by the bytes it has
  not read yet; a read returns the bytes read and the new rest.
\<close>

section \<open>Types\<close>

type_synonym u8 = "8 word"
type_synonym u16 = "16 word"
type_synonym u32 = "32 word"
type_synonym u64 = "64 word"
type_synonym bytes = "u8 list"

text \<open>\<open>Result<T, E>\<close> is \<open>E + T\<close>: \<open>Inl\<close> is \<open>Err\<close>, \<open>Inr\<close> is \<open>Ok\<close>.\<close>

type_synonym ('e, 'a) result = "'e + 'a"

named_theorems result_simps \<open>unfolding rules for the Result combinators\<close>
named_theorems codec_simps \<open>lengths and inverses of byte encodings\<close>

section \<open>Results\<close>

text \<open>\<open>rbind m f\<close> is \<open>let x = m?; f(x)\<close>.\<close>

definition rbind :: "('e, 'a) result \<Rightarrow> ('a \<Rightarrow> ('e, 'b) result) \<Rightarrow> ('e, 'b) result" where
  "rbind m f = (case m of Inl e \<Rightarrow> Inl e | Inr x \<Rightarrow> f x)"

definition map_err :: "('e \<Rightarrow> 'd) \<Rightarrow> ('e, 'a) result \<Rightarrow> ('d, 'a) result" where
  "map_err f m = (case m of Inl e \<Rightarrow> Inl (f e) | Inr x \<Rightarrow> Inr x)"

definition ok_or :: "'e \<Rightarrow> 'a option \<Rightarrow> ('e, 'a) result" where
  "ok_or e m = (case m of None \<Rightarrow> Inl e | Some x \<Rightarrow> Inr x)"

text \<open>\<open>if c { return Err(e); }\<close> in front of the rest of a function body.\<close>

definition ensure :: "bool \<Rightarrow> 'e \<Rightarrow> ('e, unit) result" where
  "ensure c e = (if c then Inr () else Inl e)"

lemma rbind_simps [simp]:
  "rbind (Inl e) f = Inl e"
  "rbind (Inr x) f = f x"
  by (simp_all add: rbind_def)

lemma rbind_eq_Inr [simp]: "rbind m f = Inr y \<longleftrightarrow> (\<exists>x. m = Inr x \<and> f x = Inr y)"
  by (cases m) auto

lemma rbind_eq_Inl: "rbind m f = Inl e \<longleftrightarrow> m = Inl e \<or> (\<exists>x. m = Inr x \<and> f x = Inl e)"
  by (cases m) auto

lemma rbind_cong [fundef_cong]:
  "m = m' \<Longrightarrow> (\<And>x. m' = Inr x \<Longrightarrow> f x = f' x) \<Longrightarrow> rbind m f = rbind m' f'"
  by (cases m') auto

lemma map_err_simps [simp]:
  "map_err f (Inl e) = Inl (f e)"
  "map_err f (Inr x) = Inr x"
  by (simp_all add: map_err_def)

lemma map_err_eq_Inr [simp]: "map_err f m = Inr x \<longleftrightarrow> m = Inr x"
  by (cases m) auto

lemma map_err_eq_Inl: "map_err f m = Inl d \<longleftrightarrow> (\<exists>e. m = Inl e \<and> d = f e)"
  by (cases m) auto

lemma ok_or_simps [simp]:
  "ok_or e None = Inl e"
  "ok_or e (Some x) = Inr x"
  by (simp_all add: ok_or_def)

lemma ok_or_eq_Inr [simp]: "ok_or e m = Inr x \<longleftrightarrow> m = Some x"
  by (cases m) auto

lemma ensure_eq_Inr [simp]: "ensure c e = Inr u \<longleftrightarrow> c"
  by (cases u) (simp add: ensure_def)

lemma ensure_eq_Inl [simp]: "ensure c e = Inl d \<longleftrightarrow> \<not> c \<and> d = e"
  by (auto simp: ensure_def)

lemma ensure_simps [simp]:
  "c \<Longrightarrow> ensure c e = Inr ()"
  "\<not> c \<Longrightarrow> ensure c e = Inl e"
  by (simp_all add: ensure_def)

text \<open>A \<open>for\<close> loop that collects \<open>f(x)?\<close> for every element.\<close>

fun rmap :: "('a \<Rightarrow> ('e, 'b) result) \<Rightarrow> 'a list \<Rightarrow> ('e, 'b list) result" where
  "rmap f [] = Inr []"
| "rmap f (x # xs) = rbind (f x) (\<lambda>y. rbind (rmap f xs) (\<lambda>ys. Inr (y # ys)))"

lemma rmap_cong [fundef_cong]:
  "xs = ys \<Longrightarrow> (\<And>x. x \<in> set ys \<Longrightarrow> f x = g x) \<Longrightarrow> rmap f xs = rmap g ys"
  by (induction ys arbitrary: xs) auto

lemma rmap_Inr [simp]: "rmap (\<lambda>x. Inr (g x)) xs = Inr (map g xs)"
  by (induction xs) auto

lemma rmap_total: "(\<And>x. x \<in> set xs \<Longrightarrow> f x = Inr (g x)) \<Longrightarrow> rmap f xs = Inr (map g xs)"
  by (induction xs) auto

text \<open>Fallible operations on a mutable state (\<open>&mut self\<close>): the state is returned with the result,
  also after an error, as the caller still holds it then.\<close>

type_synonym ('s, 'e, 'a) op = "'s \<Rightarrow> ('e, 'a) result \<times> 's"

definition obind :: "('s, 'e, 'a) op \<Rightarrow> ('a \<Rightarrow> ('s, 'e, 'b) op) \<Rightarrow> ('s, 'e, 'b) op" where
  "obind m f s = (case m s of (Inl e, s') \<Rightarrow> (Inl e, s') | (Inr x, s') \<Rightarrow> f x s')"

definition oret :: "('e, 'a) result \<Rightarrow> ('s, 'e, 'a) op" where
  "oret r s = (r, s)"

lemma oret_simps [simp]: "oret r s = (r, s)"
  by (simp add: oret_def)

lemma obind_simps [simp]:
  "m s = (Inl e, s') \<Longrightarrow> obind m f s = (Inl e, s')"
  "m s = (Inr x, s') \<Longrightarrow> obind m f s = f x s'"
  by (simp_all add: obind_def)

lemma obind_oret [simp]: "obind (oret (Inr x)) f = f x" "obind (oret (Inl e)) f = oret (Inl e)"
  by (simp_all add: obind_def oret_def fun_eq_iff)

lemma obind_Inr:
  "obind m f s = (Inr y, s'') \<longleftrightarrow> (\<exists>x s'. m s = (Inr x, s') \<and> f x s' = (Inr y, s''))"
  by (auto simp: obind_def split: prod.splits sum.splits)

lemma obind_Inl:
  "obind m f s = (Inl e, s'') \<longleftrightarrow>
     m s = (Inl e, s'') \<or> (\<exists>x s'. m s = (Inr x, s') \<and> f x s' = (Inl e, s''))"
  by (auto simp: obind_def split: prod.splits sum.splits)

section \<open>Big-endian integers\<close>

text \<open>\<open>be_bytes n v\<close> are the low \<open>n\<close> bytes of \<open>v\<close>, most significant first.\<close>

fun be_bytes :: "nat \<Rightarrow> nat \<Rightarrow> bytes" where
  "be_bytes 0 v = []"
| "be_bytes (Suc n) v = be_bytes n (v div 256) @ [of_nat (v mod 256)]"

lemma be_bytes_numeral:
  "be_bytes (numeral k) v = be_bytes (pred_numeral k) (v div 256) @ [of_nat (v mod 256)]"
  by (simp only: numeral_eq_Suc be_bytes.simps)

definition be_value :: "bytes \<Rightarrow> nat" where
  "be_value bs = foldl (\<lambda>acc b. acc * 256 + unat b) 0 bs"

definition le_value :: "bytes \<Rightarrow> nat" where
  "le_value bs = be_value (rev bs)"

lemma be_value_Nil [simp]: "be_value [] = 0"
  by (simp add: be_value_def)

lemma be_value_snoc [simp]: "be_value (bs @ [b]) = be_value bs * 256 + unat b"
  by (simp add: be_value_def)

lemma foldl_be_value: "foldl (\<lambda>acc b. acc * 256 + unat b) a bs = a * 256 ^ length bs + be_value bs"
proof (induction bs rule: rev_induct)
  case Nil
  then show ?case by simp
next
  case (snoc b bs)
  then show ?case by (simp add: algebra_simps)
qed

lemma be_value_Cons: "be_value (b # bs) = unat b * 256 ^ length bs + be_value bs"
proof -
  have "be_value (b # bs) = foldl (\<lambda>acc b. acc * 256 + unat b) (unat b) bs"
    by (simp add: be_value_def)
  then show ?thesis by (simp only: foldl_be_value)
qed

lemma be_value_append: "be_value (bs @ cs) = be_value bs * 256 ^ length cs + be_value cs"
  by (induction bs) (simp_all add: be_value_Cons power_add algebra_simps)

lemma length_be_bytes [simp, codec_simps]: "length (be_bytes n v) = n"
  by (induction n arbitrary: v) auto

lemma unat_u8_lt [simp]: "unat (b :: u8) < 256"
  using unsigned_less [of b, where ?'a = nat] by simp

lemma be_value_lt: "be_value bs < 256 ^ length bs"
proof (induction bs rule: rev_induct)
  case Nil
  then show ?case by simp
next
  case (snoc b bs)
  have "be_value bs * 256 + unat b < (be_value bs + 1) * 256"
    by simp
  also have "\<dots> \<le> 256 ^ length bs * 256"
    using snoc by simp
  finally show ?case by simp
qed

lemma be_value_be_bytes: "be_value (be_bytes n v) = v mod 256 ^ n"
proof (induction n arbitrary: v)
  case 0
  then show ?case by simp
next
  case (Suc n)
  have "be_value (be_bytes (Suc n) v) = (v div 256 mod 256 ^ n) * 256 + v mod 256"
    by (simp add: Suc unat_of_nat)
  also have "\<dots> = v mod (256 * 256 ^ n)"
    by (simp add: mod_mult2_eq)
  finally show ?case by simp
qed

lemma be_value_be_bytes_lt [codec_simps]: "v < 256 ^ n \<Longrightarrow> be_value (be_bytes n v) = v"
  by (simp add: be_value_be_bytes)

lemma be_bytes_be_value: "be_bytes (length bs) (be_value bs) = bs"
proof (induction bs rule: rev_induct)
  case Nil
  then show ?case by simp
next
  case (snoc b bs)
  have "(be_value bs * 256 + unat b) div 256 = be_value bs"
    by simp
  moreover have "(be_value bs * 256 + unat b) mod 256 = unat b"
    by simp
  ultimately show ?case using snoc by simp
qed

lemma be_value_inj: "length bs = length cs \<Longrightarrow> be_value bs = be_value cs \<Longrightarrow> bs = cs"
  by (metis be_bytes_be_value)

text \<open>Comparing equal-length byte arrays (Rust's lexicographic \<open>Ord\<close>) compares the values.\<close>

lemma be_value_less_iff: "length bs = length cs \<Longrightarrow> bs < cs \<longleftrightarrow> be_value bs < be_value cs"
proof (induction bs cs rule: list_induct2)
  case Nil
  then show ?case by simp
next
  case (Cons b bs c cs)
  have step: "be_value (x # xs) < be_value (y # ys)"
    if "x < y" "length xs = length ys" for x y :: u8 and xs ys
  proof -
    have "be_value (x # xs) < (unat x + 1) * 256 ^ length xs"
      using be_value_lt [of xs] by (simp add: be_value_Cons)
    also have "\<dots> \<le> unat y * 256 ^ length xs"
      using that(1) by (intro mult_right_mono) (auto simp: word_less_nat_alt)
    finally show ?thesis using that(2) by (simp add: be_value_Cons)
  qed
  consider "b < c" | "c < b" | "b = c" by fastforce
  then show ?case
  proof cases
    case 1
    with step [OF 1 Cons.hyps] show ?thesis by simp
  next
    case 2
    with step [OF 2 Cons.hyps [symmetric]] show ?thesis by auto
  next
    case 3
    with Cons show ?thesis by (simp add: be_value_Cons)
  qed
qed

subsection \<open>The conversions of the fixed-width types\<close>

definition u16_to_be_bytes :: "u16 \<Rightarrow> bytes" where
  "u16_to_be_bytes w = be_bytes 2 (unat w)"

definition u32_to_be_bytes :: "u32 \<Rightarrow> bytes" where
  "u32_to_be_bytes w = be_bytes 4 (unat w)"

definition u64_to_be_bytes :: "u64 \<Rightarrow> bytes" where
  "u64_to_be_bytes w = be_bytes 8 (unat w)"

definition u16_from_be_bytes :: "bytes \<Rightarrow> u16" where
  "u16_from_be_bytes bs = of_nat (be_value bs)"

definition u32_from_be_bytes :: "bytes \<Rightarrow> u32" where
  "u32_from_be_bytes bs = of_nat (be_value bs)"

definition u64_from_be_bytes :: "bytes \<Rightarrow> u64" where
  "u64_from_be_bytes bs = of_nat (be_value bs)"

lemma length_uN_to_be_bytes [simp, codec_simps]:
  "length (u16_to_be_bytes a) = 2"
  "length (u32_to_be_bytes b) = 4"
  "length (u64_to_be_bytes c) = 8"
  by (simp_all add: u16_to_be_bytes_def u32_to_be_bytes_def u64_to_be_bytes_def)

lemma u16_from_to_be_bytes [simp, codec_simps]: "u16_from_be_bytes (u16_to_be_bytes w) = w"
  using unsigned_less [of w, where ?'a = nat] by (simp add: u16_from_be_bytes_def u16_to_be_bytes_def be_value_be_bytes)

lemma u32_from_to_be_bytes [simp, codec_simps]: "u32_from_be_bytes (u32_to_be_bytes w) = w"
  using unsigned_less [of w, where ?'a = nat] by (simp add: u32_from_be_bytes_def u32_to_be_bytes_def be_value_be_bytes)

lemma u64_from_to_be_bytes [simp, codec_simps]: "u64_from_be_bytes (u64_to_be_bytes w) = w"
  using unsigned_less [of w, where ?'a = nat] by (simp add: u64_from_be_bytes_def u64_to_be_bytes_def be_value_be_bytes)

lemma uN_to_from_be_bytes [codec_simps]:
  "length bs = 2 \<Longrightarrow> u16_to_be_bytes (u16_from_be_bytes bs) = bs"
  "length bs = 4 \<Longrightarrow> u32_to_be_bytes (u32_from_be_bytes bs) = bs"
  "length bs = 8 \<Longrightarrow> u64_to_be_bytes (u64_from_be_bytes bs) = bs"
  using be_value_lt [of bs] be_bytes_be_value [of bs]
  by (simp_all add: u16_from_be_bytes_def u16_to_be_bytes_def u32_from_be_bytes_def
      u32_to_be_bytes_def u64_from_be_bytes_def u64_to_be_bytes_def unat_of_nat)

lemma uN_to_be_bytes_inject [simp]:
  "u16_to_be_bytes a = u16_to_be_bytes a' \<longleftrightarrow> a = a'"
  "u32_to_be_bytes b = u32_to_be_bytes b' \<longleftrightarrow> b = b'"
  "u64_to_be_bytes c = u64_to_be_bytes c' \<longleftrightarrow> c = c'"
  by (metis u16_from_to_be_bytes) (metis u32_from_to_be_bytes, metis u64_from_to_be_bytes)

section \<open>Reading a byte slice\<close>

text \<open>\<open>read_slice e n rest\<close> is \<open>read_bytes\<close>, \<open>take_slice\<close>: it fails with \<open>e\<close> when fewer
  than \<open>n\<close> bytes are left.\<close>

definition read_slice :: "'e \<Rightarrow> nat \<Rightarrow> bytes \<Rightarrow> ('e, bytes \<times> bytes) result" where
  "read_slice e n rest = (if length rest < n then Inl e else Inr (take n rest, drop n rest))"

lemma read_slice_append [simp, codec_simps]:
  "length bs = n \<Longrightarrow> read_slice e n (bs @ rest) = Inr (bs, rest)"
  by (simp add: read_slice_def)

lemma read_slice_all [simp]: "length bs = n \<Longrightarrow> read_slice e n bs = Inr (bs, [])"
  by (simp add: read_slice_def)

lemma read_slice_Inr:
  "read_slice e n bs = Inr (xs, rest) \<longleftrightarrow> bs = xs @ rest \<and> length xs = n"
  by (auto simp: read_slice_def)

lemma read_slice_Inl: "read_slice e n bs = Inl d \<longleftrightarrow> length bs < n \<and> d = e"
  by (auto simp: read_slice_def)

lemma read_slice_short: "length bs < n \<Longrightarrow> read_slice e n bs = Inl e"
  by (simp add: read_slice_def)

text \<open>A byte string with a fixed-width prefix determines prefix and rest.\<close>

lemma prefix_inject: "length xs = length ys \<Longrightarrow> xs @ as = ys @ bs \<longleftrightarrow> xs = ys \<and> as = bs"
  by simp

end
