(* ===== verification/Crypto_Core.thy ===== *)
theory Crypto_Core
  imports Prelude
begin

text \<open>
  Model of \<open>crates/crypto-core\<close>: canonical length-prefixed encoding, digests, the SHA-256 hash
  with domain separation, the pluggable \<open>CryptoBackend\<close> trait with its two backends, and the
  hash commitments.

  The primitives \<open>sha2::Sha256\<close> and \<open>sha3::Shake256\<close> are third-party code and appear as the
  arguments \<open>sha256\<close> (bytes to 32 bytes) and \<open>shake256\<close> (bytes and output length to bytes). Nothing
  is assumed of them but their output length; security statements name the two inputs of
  \<open>sha256\<close> that would collide.

  A value of type \<open>option\<close> is a computation that may panic: \<open>None\<close> is the panic.
  \<open>len_prefixed\<close> is the encoding of a byte string that is shorter than \<open>2 ^ 32\<close> bytes, which
  holds for every domain separator of the workspace (lemma \<open>domains_fit_u32\<close>).
\<close>

section \<open>Errors and digests\<close>

datatype crypto_core_error =
    CC_InvalidLength
  | CC_MalformedEncoding
  | CC_InvalidCommitment
  | CC_RngFailure
  | CC_InvalidInput

definition DIGEST_LEN :: nat where
  "DIGEST_LEN = 32"

text \<open>\<open>Digest([u8; 32])\<close>; \<open>digest_wf\<close> is the array length the Rust type fixes. The
  constant-time comparison \<open>ct_eq\<close> is equality of the bytes.\<close>

datatype digest = Digest (digest_bytes: bytes)

definition digest_wf :: "digest \<Rightarrow> bool" where
  "digest_wf d \<longleftrightarrow> length (digest_bytes d) = DIGEST_LEN"

definition digest_ZERO :: digest where
  "digest_ZERO = Digest (replicate DIGEST_LEN 0)"

definition digest_ct_eq :: "digest \<Rightarrow> digest \<Rightarrow> bool" where
  "digest_ct_eq a b \<longleftrightarrow> digest_bytes a = digest_bytes b"

lemma digest_ct_eq_iff [simp]: "digest_ct_eq a b \<longleftrightarrow> a = b"
  by (cases a; cases b) (simp add: digest_ct_eq_def)

section \<open>Canonical encoding\<close>

definition fits_u32 :: "bytes \<Rightarrow> bool" where
  "fits_u32 bs \<longleftrightarrow> length bs < 2 ^ 32"

definition len_prefixed :: "bytes \<Rightarrow> bytes" where
  "len_prefixed bs = u32_to_be_bytes (of_nat (length bs)) @ bs"

definition encode_length_prefixed :: "bytes \<Rightarrow> bytes \<Rightarrow> bytes option" where
  "encode_length_prefixed bs out =
     (if length bs < 2 ^ 32 then Some (out @ u32_to_be_bytes (of_nat (length bs)) @ bs) else None)"

lemma encode_length_prefixed_eq:
  "fits_u32 bs \<Longrightarrow> encode_length_prefixed bs out = Some (out @ len_prefixed bs)"
  by (simp add: encode_length_prefixed_def fits_u32_def len_prefixed_def)

lemma length_len_prefixed [simp, codec_simps]: "length (len_prefixed bs) = 4 + length bs"
  by (simp add: len_prefixed_def)

lemma len_prefixed_cancel:
  assumes "fits_u32 a" "fits_u32 b" and eq: "len_prefixed a @ x = len_prefixed b @ y"
  shows "a = b \<and> x = y"
proof -
  have "u32_to_be_bytes (of_nat (length a)) @ (a @ x) = u32_to_be_bytes (of_nat (length b)) @ (b @ y)"
    using eq by (simp add: len_prefixed_def)
  then have lens: "(of_nat (length a) :: u32) = of_nat (length b)" and rest: "a @ x = b @ y"
    by (simp_all add: prefix_inject)
  have "unat (of_nat (length a) :: u32) = length a" "unat (of_nat (length b) :: u32) = length b"
    using assms(1,2) by (simp_all add: fits_u32_def unat_of_nat)
  with lens have "length a = length b" by metis
  with rest show ?thesis by simp
qed

section \<open>Hashing with domain separation\<close>

text \<open>\<open>Sha256Hash::hash_domain\<close> (hash.rs): the domain is length-prefixed, the data is not.\<close>

definition Sha256Hash_hash :: "(bytes \<Rightarrow> bytes) \<Rightarrow> bytes \<Rightarrow> bytes" where
  "Sha256Hash_hash sha256 data = sha256 data"

definition Sha256Hash_hash_domain :: "(bytes \<Rightarrow> bytes) \<Rightarrow> bytes \<Rightarrow> bytes \<Rightarrow> bytes" where
  "Sha256Hash_hash_domain sha256 domain data = Sha256Hash_hash sha256 (len_prefixed domain @ data)"

lemma hash_domain_collision:
  assumes "Sha256Hash_hash_domain sha256 d x = Sha256Hash_hash_domain sha256 e y"
    and "fits_u32 d" "fits_u32 e" and "(d, x) \<noteq> (e, y)"
  shows "len_prefixed d @ x \<noteq> len_prefixed e @ y \<and>
    sha256 (len_prefixed d @ x) = sha256 (len_prefixed e @ y)"
  using assms len_prefixed_cancel [of d e x y]
  by (auto simp: Sha256Hash_hash_domain_def Sha256Hash_hash_def)

section \<open>Backends\<close>

definition ascii :: "string \<Rightarrow> bytes" where
  "ascii s = map of_char s"

definition DOMAIN_HASH :: bytes where "DOMAIN_HASH = ascii ''private-payment-auth/hash/v2''"
definition DOMAIN_COMMIT :: bytes where "DOMAIN_COMMIT = ascii ''private-payment-auth/commit/v2''"
definition DOMAIN_FS :: bytes where "DOMAIN_FS = ascii ''private-payment-auth/fs/v2''"
definition DOMAIN_CIRCUIT :: bytes where "DOMAIN_CIRCUIT = ascii ''private-payment-auth/circuit/v2''"
definition DOMAIN_POLICY :: bytes where "DOMAIN_POLICY = ascii ''private-payment-auth/policy/v2''"
definition DOMAIN_PAYMENT :: bytes where "DOMAIN_PAYMENT = ascii ''private-payment-auth/payment/v2''"
definition DOMAIN_MPCITH_VIEW :: bytes where
  "DOMAIN_MPCITH_VIEW = ascii ''private-payment-auth/mpcith/view/v2''"

definition crypto_core_domains :: "bytes list" where
  "crypto_core_domains =
     [DOMAIN_HASH, DOMAIN_COMMIT, DOMAIN_FS, DOMAIN_CIRCUIT, DOMAIN_POLICY, DOMAIN_PAYMENT,
      DOMAIN_MPCITH_VIEW]"

lemmas DOMAIN_defs = DOMAIN_HASH_def DOMAIN_COMMIT_def DOMAIN_FS_def DOMAIN_CIRCUIT_def
  DOMAIN_POLICY_def DOMAIN_PAYMENT_def DOMAIN_MPCITH_VIEW_def

lemma domains_fit_u32: "d \<in> set crypto_core_domains \<Longrightarrow> fits_u32 d"
  by (auto simp: crypto_core_domains_def DOMAIN_defs ascii_def fits_u32_def)

definition BACKEND_ID_LEN :: nat where
  "BACKEND_ID_LEN = 16"

definition Sha256Backend_ID :: bytes where
  "Sha256Backend_ID = ascii ''sha256-v1'' @ replicate 7 0"

definition Shake256Backend_ID :: bytes where
  "Shake256Backend_ID = ascii ''shake256-v1'' @ replicate 5 0"

lemma backend_ids: "length Sha256Backend_ID = BACKEND_ID_LEN"
  "length Shake256Backend_ID = BACKEND_ID_LEN" "Sha256Backend_ID \<noteq> Shake256Backend_ID"
  by (simp_all add: Sha256Backend_ID_def Shake256Backend_ID_def BACKEND_ID_LEN_def ascii_def)

text \<open>\<open>GenericDigest::new\<close> panics on a wrong length, \<open>from_slice\<close> reports it.\<close>

definition GenericDigest_new :: "nat \<Rightarrow> bytes \<Rightarrow> bytes option" where
  "GenericDigest_new digest_len bs = (if length bs = digest_len then Some bs else None)"

definition GenericDigest_from_slice :: "nat \<Rightarrow> bytes \<Rightarrow> (crypto_core_error, bytes) result" where
  "GenericDigest_from_slice digest_len bs =
     (if length bs \<noteq> digest_len then Inl CC_InvalidLength else Inr bs)"

text \<open>The framing of domain-separated hashing. The data length is cast with \<open>as u32\<close>, so it
  wraps for data of \<open>2 ^ 32\<close> bytes or more.\<close>

definition frame :: "bytes \<Rightarrow> bytes \<Rightarrow> bytes" where
  "frame domain data = len_prefixed domain @ u32_to_be_bytes (of_nat (length data)) @ data"

lemma frame_inject:
  "fits_u32 d \<Longrightarrow> fits_u32 e \<Longrightarrow> frame d x = frame e y \<longleftrightarrow> d = e \<and> x = y"
  unfolding frame_def
  using len_prefixed_cancel [of d e "u32_to_be_bytes (of_nat (length x)) @ x"
      "u32_to_be_bytes (of_nat (length y)) @ y"]
  by (auto simp: prefix_inject)

definition Sha256Backend_hash :: "(bytes \<Rightarrow> bytes) \<Rightarrow> bytes \<Rightarrow> bytes" where
  "Sha256Backend_hash sha256 data = sha256 data"

definition Sha256Backend_hash_domain :: "(bytes \<Rightarrow> bytes) \<Rightarrow> bytes \<Rightarrow> bytes \<Rightarrow> bytes" where
  "Sha256Backend_hash_domain sha256 domain data = sha256 (frame domain data)"

text \<open>The loop of \<open>Sha256Backend::expand\<close>: append blocks until \<open>out_len\<close> bytes are there.
  Each block has 32 bytes, so \<open>out_len\<close> rounds are enough; the argument \<open>fuel\<close> bounds them.\<close>

fun expand_loop :: "(bytes \<Rightarrow> bytes) \<Rightarrow> bytes \<Rightarrow> bytes \<Rightarrow> nat \<Rightarrow> nat \<Rightarrow> u32 \<Rightarrow> bytes \<Rightarrow> bytes option" where
  "expand_loop sha256 domain data out_len 0 counter out =
     (if length out < out_len then None else Some out)"
| "expand_loop sha256 domain data out_len (Suc fuel) counter out =
     (if length out < out_len
      then expand_loop sha256 domain data out_len fuel (counter + 1)
             (out @ sha256 (len_prefixed domain @ u32_to_be_bytes counter @ data))
      else Some out)"

definition Sha256Backend_expand :: "(bytes \<Rightarrow> bytes) \<Rightarrow> bytes \<Rightarrow> bytes \<Rightarrow> nat \<Rightarrow> bytes option" where
  "Sha256Backend_expand sha256 domain data out_len =
     map_option (take out_len) (expand_loop sha256 domain data out_len out_len 0 [])"

definition Shake256Backend_hash :: "(bytes \<Rightarrow> nat \<Rightarrow> bytes) \<Rightarrow> bytes \<Rightarrow> bytes" where
  "Shake256Backend_hash shake256 data = shake256 (frame DOMAIN_HASH data) 32"

definition Shake256Backend_hash_domain :: "(bytes \<Rightarrow> nat \<Rightarrow> bytes) \<Rightarrow> bytes \<Rightarrow> bytes \<Rightarrow> bytes" where
  "Shake256Backend_hash_domain shake256 domain data = shake256 (frame domain data) 32"

definition Shake256Backend_expand :: "(bytes \<Rightarrow> nat \<Rightarrow> bytes) \<Rightarrow> bytes \<Rightarrow> bytes \<Rightarrow> nat \<Rightarrow> bytes option" where
  "Shake256Backend_expand shake256 domain data out_len = Some (shake256 (frame domain data) out_len)"

section \<open>Commitments\<close>

definition RANDOMNESS_LEN :: nat where
  "RANDOMNESS_LEN = 32"

definition CommitmentRandomness_new :: "bytes \<Rightarrow> (crypto_core_error, bytes) result" where
  "CommitmentRandomness_new bs = (if length bs \<noteq> RANDOMNESS_LEN then Inl CC_InvalidLength else Inr bs)"

text \<open>\<open>generate_random_bytes\<close>: the generator \<open>try_fill\<close> is an argument; it returns the bytes
  and its next state, or fails.\<close>

definition generate_random_bytes ::
    "('g \<Rightarrow> nat \<Rightarrow> (bytes \<times> 'g) option) \<Rightarrow> 'g \<Rightarrow> nat \<Rightarrow> (crypto_core_error, bytes \<times> 'g) result" where
  "generate_random_bytes try_fill g n = ok_or CC_RngFailure (try_fill g n)"

definition CommitmentRandomness_generate ::
    "('g \<Rightarrow> nat \<Rightarrow> (bytes \<times> 'g) option) \<Rightarrow> 'g \<Rightarrow> (crypto_core_error, bytes \<times> 'g) result" where
  "CommitmentRandomness_generate try_fill g = generate_random_bytes try_fill g RANDOMNESS_LEN"

text \<open>The provided method \<open>CryptoBackend::commit\<close>, over the backend's \<open>hash\<close>; it panics when
  the randomness or the message has \<open>2 ^ 32\<close> bytes or more.\<close>

definition backend_commit :: "(bytes \<Rightarrow> bytes) \<Rightarrow> bytes \<Rightarrow> bytes \<Rightarrow> bytes option" where
  "backend_commit hash msg randomness =
     Option.bind (encode_length_prefixed randomness []) (\<lambda>input.
       if length msg < 2 ^ 32
       then Some (hash (input @ u32_to_be_bytes (of_nat (length msg)) @ msg))
       else None)"

definition commit :: "(bytes \<Rightarrow> bytes) \<Rightarrow> bytes \<Rightarrow> bytes \<Rightarrow> bytes option" where
  "commit hash message randomness = backend_commit hash message randomness"

definition open_commitment :: "(bytes \<Rightarrow> bytes) \<Rightarrow> bytes \<Rightarrow> bytes \<Rightarrow> bytes \<Rightarrow> bool option" where
  "open_commitment hash commitment message randomness =
     map_option (\<lambda>c. c = commitment) (commit hash message randomness)"

text \<open>The message that is hashed.\<close>

definition commit_input :: "bytes \<Rightarrow> bytes \<Rightarrow> bytes" where
  "commit_input msg randomness = len_prefixed randomness @ len_prefixed msg"

lemma commit_eq:
  "fits_u32 msg \<Longrightarrow> fits_u32 r \<Longrightarrow> commit hash msg r = Some (hash (commit_input msg r))"
  by (simp add: commit_def backend_commit_def encode_length_prefixed_eq commit_input_def
      fits_u32_def len_prefixed_def)

lemma commit_Some:
  "commit hash msg r = Some c \<longleftrightarrow> fits_u32 msg \<and> fits_u32 r \<and> c = hash (commit_input msg r)"
  by (auto simp: commit_def backend_commit_def encode_length_prefixed_def commit_input_def
      fits_u32_def len_prefixed_def bind_eq_Some_conv split: if_splits)

lemma commit_input_inject:
  "fits_u32 m \<Longrightarrow> fits_u32 r \<Longrightarrow> fits_u32 m' \<Longrightarrow> fits_u32 r' \<Longrightarrow>
   commit_input m r = commit_input m' r' \<longleftrightarrow> m = m' \<and> r = r'"
  unfolding commit_input_def
  using len_prefixed_cancel [of r r' "len_prefixed m" "len_prefixed m'"]
    len_prefixed_cancel [of m m' "[]" "[]"] by auto

section \<open>The backend contract\<close>

text \<open>What the trait \<open>CryptoBackend\<close> promises its clients: digests of the fixed length, and an
  \<open>expand\<close> that returns exactly the bytes asked for.\<close>

locale crypto_backend =
  fixes digest_len :: nat
    and hash :: "bytes \<Rightarrow> bytes"
    and hash_domain :: "bytes \<Rightarrow> bytes \<Rightarrow> bytes"
    and expand :: "bytes \<Rightarrow> bytes \<Rightarrow> nat \<Rightarrow> bytes option"
  assumes length_hash: "length (hash x) = digest_len"
    and length_hash_domain: "length (hash_domain d x) = digest_len"
    and expand_returns: "\<exists>out. expand d x n = Some out \<and> length out = n"
begin

lemma digest_never_panics:
  "GenericDigest_new digest_len (hash x) = Some (hash x)"
  "GenericDigest_new digest_len (hash_domain d x) = Some (hash_domain d x)"
  by (simp_all add: GenericDigest_new_def length_hash length_hash_domain)

lemma length_commit: "commit hash m r = Some c \<Longrightarrow> length c = digest_len"
  by (auto simp: commit_Some length_hash)

lemma open_commit: "commit hash m r = Some c \<Longrightarrow> open_commitment hash c m r = Some True"
  by (simp add: open_commitment_def)

lemma open_binding:
  assumes "open_commitment hash c m r = Some True" "open_commitment hash c m' r' = Some True"
    and "(m, r) \<noteq> (m', r')"
  shows "commit_input m r \<noteq> commit_input m' r' \<and> hash (commit_input m r) = hash (commit_input m' r')"
  using assms commit_input_inject [of m r m' r']
  by (auto simp: open_commitment_def commit_Some)

end

text \<open>The contracts of the two third-party primitives.\<close>

locale sha256_primitive =
  fixes sha256 :: "bytes \<Rightarrow> bytes"
  assumes length_sha256: "length (sha256 x) = 32"
begin

lemma expand_loop_returns:
  "out_len \<le> length out + 32 * fuel \<Longrightarrow>
   \<exists>res. expand_loop sha256 d x out_len fuel counter out = Some res \<and> out_len \<le> length res"
  by (induction fuel arbitrary: counter out) (auto simp: length_sha256 not_less)

lemma expand_length: "\<exists>out. Sha256Backend_expand sha256 d x n = Some out \<and> length out = n"
  using expand_loop_returns [of n "[]" n d x 0] by (auto simp: Sha256Backend_expand_def)

end

locale shake256_primitive =
  fixes shake256 :: "bytes \<Rightarrow> nat \<Rightarrow> bytes"
  assumes length_shake256: "length (shake256 x n) = n"

sublocale sha256_primitive \<subseteq> sha_backend: crypto_backend 32 "Sha256Backend_hash sha256"
  "Sha256Backend_hash_domain sha256" "Sha256Backend_expand sha256"
  by unfold_locales
    (simp_all add: Sha256Backend_hash_def Sha256Backend_hash_domain_def length_sha256 expand_length)

sublocale shake256_primitive \<subseteq> shake_backend: crypto_backend 32 "Shake256Backend_hash shake256"
  "Shake256Backend_hash_domain shake256" "Shake256Backend_expand shake256"
  by unfold_locales
    (simp_all add: Shake256Backend_hash_def Shake256Backend_hash_domain_def
      Shake256Backend_expand_def length_shake256)

text \<open>A concrete function of the right length, the 32 low bytes of the input, for examples.\<close>

definition low32 :: "bytes \<Rightarrow> bytes" where
  "low32 x = be_bytes 32 (be_value x)"

definition low_bytes :: "bytes \<Rightarrow> nat \<Rightarrow> bytes" where
  "low_bytes x n = be_bytes n (be_value x)"

interpretation low32: sha256_primitive low32
  by unfold_locales (simp add: low32_def)

interpretation low_bytes: shake256_primitive low_bytes
  by unfold_locales (simp add: low_bytes_def)

section \<open>Properties\<close>

text \<open>\<open>Sha256Backend::expand\<close> always returns, and returns exactly \<open>out_len\<close> bytes, when the
  hash has 32 bytes: the loop ends before its counter can matter.\<close>

theorem sha256_expand_total:
  assumes "\<And>x. length (sha256 x) = 32"
  shows "\<exists>out. Sha256Backend_expand sha256 domain data out_len = Some out \<and> length out = out_len"
  by (rule sha256_primitive.expand_length) (simp add: sha256_primitive.intro assms)

theorem sha256_expand_total_witness:
  "\<exists>out. Sha256Backend_expand low32 DOMAIN_FS [1, 2, 3] 70 = Some out \<and> length out = 70"
  by (rule sha256_expand_total) (simp add: low32_def)

text \<open>C35: a commitment opens under two different (message, randomness) pairs only if the hash
  collides on the two framed inputs: the commitment is binding, and the framing of
  \<open>CryptoBackend::commit\<close> is unambiguous.\<close>

theorem commitment_binding:
  assumes "open_commitment (Sha256Backend_hash sha256) c m r = Some True"
    and "open_commitment (Sha256Backend_hash sha256) c m' r' = Some True"
    and "(m, r) \<noteq> (m', r')"
  shows "commit_input m r \<noteq> commit_input m' r' \<and>
    sha256 (commit_input m r) = sha256 (commit_input m' r')"
  using assms commit_input_inject [of m r m' r']
  by (auto simp: open_commitment_def commit_Some Sha256Backend_hash_def)

theorem commitment_binding_witness:
  "commit_input [1] [7] \<noteq> commit_input [2] [7] \<and>
   (\<lambda>x :: bytes. replicate 32 (0 :: u8)) (commit_input [1] [7]) =
   (\<lambda>x :: bytes. replicate 32 (0 :: u8)) (commit_input [2] [7])"
  using commitment_binding [of "\<lambda>x. replicate 32 0" "replicate 32 0" "[1]" "[7]" "[2]" "[7]"]
  by (simp add: open_commitment_def commit_eq fits_u32_def Sha256Backend_hash_def)

end
