(* ===== verification/Prime_Field.thy ===== *)
theory Prime_Field
  imports Prelude "HOL-Library.Numeral_Type"
begin

text \<open>
  The prime field is third-party code (\<open>ark_ff::PrimeField\<close>, \<open>ark_ed25519::Fr\<close>), so it is a
  parameter: a commutative ring type \<open>'f\<close> with the operations the sources call,
  \<open>into_bigint\<close>, \<open>from_bigint\<close> and \<open>inverse\<close>. \<open>F::from(n)\<close> is the ring's \<open>of_nat n\<close>. Two
  locales state what the code relies on:
  \<^item> \<open>field_ops\<close>: \<open>into_bigint\<close> is the canonical representative below the modulus;
  \<^item> \<open>prime_field\<close>: every non-zero element has an inverse. Fermat's little theorem, on which
    the policy compiler's zero test rests, is derived from it.

  \<open>fr\<close> is the ring of integers modulo the order of the ed25519 scalar field
  (\<open>secret-sharing/src/field.rs\<close>, \<open>MODULUS_BE\<close>) and interprets \<open>field_ops\<close>. \<open>fp\<close> is a prime
  field of 67 bits, large enough for the 64-bit range check, and interprets \<open>prime_field\<close>; its
  modulus is shown prime by an elementary Pocklington certificate.
\<close>

section \<open>The interface\<close>

definition from_bigint :: "nat \<Rightarrow> nat \<Rightarrow> ('f::comm_ring_1) option" where
  "from_bigint modulus n = (if n < modulus then Some (of_nat n) else None)"

locale field_ops =
  fixes modulus :: nat
    and into_bigint :: "'f::comm_ring_1 \<Rightarrow> nat"
  assumes modulus_gt_1: "1 < modulus"
    and into_bigint_lt: "into_bigint x < modulus"
    and of_nat_into_bigint: "of_nat (into_bigint x) = x"
    and into_bigint_of_nat: "n < modulus \<Longrightarrow> into_bigint (of_nat n) = n"
begin

lemma into_bigint_0: "into_bigint 0 = 0"
  using into_bigint_of_nat [of 0] modulus_gt_1 by simp

lemma of_nat_modulus: "of_nat modulus = (0 :: 'f)"
proof -
  define m where "m = into_bigint (of_nat modulus :: 'f)"
  have m: "m < modulus" "of_nat m = (of_nat modulus :: 'f)"
    by (simp_all add: m_def into_bigint_lt of_nat_into_bigint)
  have "of_nat (modulus - m) = (0 :: 'f)"
    using m by (simp add: of_nat_diff)
  then have "m = 0"
    using into_bigint_of_nat [of "modulus - m"] m(1) into_bigint_0 by (cases "m = 0") auto
  with m(2) show ?thesis by simp
qed

lemma of_nat_mod_modulus: "of_nat (n mod modulus) = (of_nat n :: 'f)"
proof -
  have "(of_nat n :: 'f) = of_nat (modulus * (n div modulus) + n mod modulus)" by simp
  also have "\<dots> = of_nat (n mod modulus)"
    by (simp only: of_nat_add of_nat_mult of_nat_modulus) simp
  finally show ?thesis by simp
qed

lemma into_bigint_of_nat_mod: "into_bigint (of_nat n) = n mod modulus"
  using into_bigint_of_nat [of "n mod modulus"] modulus_gt_1 by (simp add: of_nat_mod_modulus)

lemma of_nat_eq_iff_mod: "(of_nat a :: 'f) = of_nat b \<longleftrightarrow> a mod modulus = b mod modulus"
  by (metis into_bigint_of_nat_mod of_nat_mod_modulus)

lemma of_nat_eq_iff_lt: "a < modulus \<Longrightarrow> b < modulus \<Longrightarrow> (of_nat a :: 'f) = of_nat b \<longleftrightarrow> a = b"
  by (simp add: of_nat_eq_iff_mod)

lemma into_bigint_inj: "into_bigint x = into_bigint y \<Longrightarrow> x = y"
  by (metis of_nat_into_bigint)

lemma from_into_bigint: "from_bigint modulus (into_bigint x) = Some x"
  by (simp add: from_bigint_def into_bigint_lt of_nat_into_bigint)

lemma from_bigint_Some:
  "from_bigint modulus n = Some x \<longleftrightarrow> n < modulus \<and> n = into_bigint (x :: 'f)"
  by (auto simp: from_bigint_def into_bigint_of_nat of_nat_into_bigint)

lemma UNIV_field: "(UNIV :: 'f set) = of_nat ` {..<modulus}"
  using of_nat_into_bigint into_bigint_lt by (metis UNIV_eq_I imageI lessThan_iff)

lemma finite_field: "finite (UNIV :: 'f set)"
  unfolding UNIV_field by simp

lemma card_field: "card (UNIV :: 'f set) = modulus"
proof -
  have "inj_on (of_nat :: nat \<Rightarrow> 'f) {..<modulus}"
    by (auto intro!: inj_onI simp: of_nat_eq_iff_lt)
  then show ?thesis unfolding UNIV_field by (simp add: card_image)
qed

end

locale prime_field = field_ops modulus into_bigint
  for modulus :: nat and into_bigint :: "'f::comm_ring_1 \<Rightarrow> nat" +
  fixes inverse_op :: "'f \<Rightarrow> 'f option"
  assumes inverse_zero: "inverse_op 0 = None"
    and inverse_nonzero: "x \<noteq> 0 \<Longrightarrow> \<exists>y. inverse_op x = Some y \<and> x * y = 1"
begin

lemma inverse_Some: "inverse_op x = Some y \<Longrightarrow> x * y = 1"
  using inverse_zero inverse_nonzero [of x] by (cases "x = 0") auto

lemma mult_eq_0_iff_field: "(x :: 'f) * y = 0 \<longleftrightarrow> x = 0 \<or> y = 0"
proof
  assume xy: "x * y = 0"
  show "x = 0 \<or> y = 0"
  proof (rule disjCI)
    assume "y \<noteq> 0"
    then obtain z where "y * z = 1" using inverse_nonzero by blast
    then have "x = x * y * z" by (simp add: mult.assoc)
    with xy show "x = 0" by simp
  qed
qed auto

lemma prod_nonzero:
  "finite A \<Longrightarrow> (\<And>a. a \<in> A \<Longrightarrow> f a \<noteq> (0 :: 'f)) \<Longrightarrow> prod f A \<noteq> 0"
proof (induction A rule: finite_induct)
  case empty
  show ?case by simp
next
  case (insert a A)
  then show ?case by (simp add: mult_eq_0_iff_field)
qed

text \<open>Fermat's little theorem.\<close>

lemma fermat:
  assumes x: "(x :: 'f) \<noteq> 0"
  shows "x ^ (modulus - 1) = 1"
proof -
  let ?U = "UNIV - {0} :: 'f set"
  let ?P = "\<Prod>y\<in>?U. y"
  have fin: "finite ?U" using finite_field by (rule finite_subset [rotated]) simp
  have card: "card ?U = modulus - 1" using card_field by (simp add: card_Diff_singleton)
  have cancel: "a = b" if "x * a = x * b" for a b :: 'f
    using that mult_eq_0_iff_field [of x "a - b"] x by (simp add: algebra_simps)
  have inj: "inj_on ((*) x) ?U" by (auto intro: inj_onI cancel)
  have img: "(*) x ` ?U = ?U"
  proof (rule endo_inj_surj [OF fin _ inj])
    show "(*) x ` ?U \<subseteq> ?U" using x by (auto simp: mult_eq_0_iff_field)
  qed
  have "?P = (\<Prod>y\<in>?U. x * y)"
    using prod.reindex [OF inj, of "\<lambda>y. y"] img by simp
  also have "\<dots> = x ^ (modulus - 1) * ?P"
    using card by (simp add: prod.distrib)
  finally have eq: "(x ^ (modulus - 1) - 1) * ?P = 0" by (simp add: algebra_simps)
  have "?P \<noteq> 0" using prod_nonzero [OF fin, of "\<lambda>y. y"] by simp
  then have "x ^ (modulus - 1) - 1 = 0"
    using eq unfolding mult_eq_0_iff_field by blast
  then show ?thesis by simp
qed

lemma fermat_indicator: "(x :: 'f) ^ (modulus - 1) = (if x = 0 then 0 else 1)"
  using fermat modulus_gt_1 by (simp add: power_0_left)

end

section \<open>Primality certificates\<close>

definition is_prime :: "nat \<Rightarrow> bool" where
  "is_prime n \<longleftrightarrow> 1 < n \<and> (\<forall>d. d dvd n \<longrightarrow> d = 1 \<or> d = n)"

lemma is_prime_coprime:
  assumes "is_prime p" and "0 < k" and "k < p"
  shows "coprime k p"
proof -
  have "gcd k p dvd p" by simp
  then have "gcd k p = 1 \<or> gcd k p = p"
    using assms(1) unfolding is_prime_def by blast
  moreover have "gcd k p \<noteq> p"
    using assms(2,3) dvd_imp_le [of "gcd k p" k] by fastforce
  ultimately show ?thesis by (simp add: coprime_iff_gcd_eq_1)
qed

lemma pow_dvd_gcd:
  fixes b r :: int
  assumes k: "r dvd b ^ k - 1" and f: "r dvd b ^ F - 1" and "0 < k"
  shows "r dvd b ^ gcd k F - 1"
proof -
  have one: "r dvd (b ^ m) ^ x - 1" if "r dvd b ^ m - 1" for m x
  proof -
    have "(b ^ m) mod r = 1 mod r"
      using that by (simp add: mod_eq_dvd_iff)
    then have "((b ^ m) ^ x) mod r = 1 mod r"
      by (metis power_mod power_one)
    then show ?thesis by (simp add: mod_eq_dvd_iff)
  qed
  obtain x y where xy: "k * x = F * y + gcd k F"
    using bezout_nat [of k F] \<open>0 < k\<close> by auto
  have "r dvd b ^ (F * y + gcd k F) - 1"
    using one [OF k, of x] by (simp add: xy [symmetric] power_mult)
  moreover have "r dvd (b ^ (F * y) - 1) * b ^ gcd k F"
    using one [OF f, of y] by (simp add: power_mult)
  ultimately have "r dvd (b ^ (F * y + gcd k F) - 1) - (b ^ (F * y) - 1) * b ^ gcd k F"
    by (rule dvd_diff)
  then show ?thesis by (simp add: power_add algebra_simps)
qed

lemma order_le:
  fixes b r :: int
  assumes r: "1 < r" and F: "r dvd b ^ F - 1" "0 < F"
    and ord: "\<And>k. 0 < k \<Longrightarrow> k < F \<Longrightarrow> \<not> r dvd b ^ k - 1"
  shows "int F < r"
proof -
  have cop: "coprime (b ^ i) r" for i
  proof -
    have "coprime (b ^ F) r"
    proof (rule coprimeI)
      fix d assume "d dvd b ^ F" and "d dvd r"
      then have "d dvd b ^ F - (b ^ F - 1)"
        using F(1) dvd_trans dvd_diff by blast
      then show "is_unit d" by simp
    qed
    then have "coprime b r" using \<open>0 < F\<close> by simp
    then show ?thesis by simp
  qed
  let ?f = "\<lambda>i. b ^ i mod r"
  have "inj_on ?f {..<F}"
  proof (rule linorder_inj_onI')
    fix i j assume ij: "i < j" "i \<in> {..<F}" "j \<in> {..<F}"
    show "?f i \<noteq> ?f j"
    proof
      assume "?f i = ?f j"
      then have "r dvd b ^ j - b ^ i" by (metis mod_eq_dvd_iff)
      moreover have "b ^ j - b ^ i = b ^ i * (b ^ (j - i) - 1)"
        using ij by (simp add: algebra_simps flip: power_add)
      ultimately have "r dvd b ^ (j - i) - 1"
        using cop [of i] by (metis coprime_commute coprime_dvd_mult_right_iff)
      moreover have "0 < j - i" "j - i < F" using ij by auto
      ultimately show False using ord by blast
    qed
  qed
  moreover have "?f ` {..<F} \<subseteq> {1..<r}"
  proof
    fix y assume "y \<in> ?f ` {..<F}"
    then obtain i where i: "y = ?f i" by blast
    have "\<not> r dvd b ^ i"
    proof
      assume "r dvd b ^ i"
      then have "is_unit r" using cop [of i] by (meson coprime_common_divisor dvd_refl)
      with r show False by simp
    qed
    then have "?f i \<noteq> 0" by (simp add: dvd_eq_mod_eq_0)
    moreover have "0 \<le> ?f i" "?f i < r" using r by auto
    ultimately show "y \<in> {1..<r}" using i by auto
  qed
  ultimately have "card {..<F} \<le> card {1..<r}"
    by (metis card_image card_mono finite_atLeastLessThan_int)
  then show ?thesis using r by simp
qed

lemma pocklington:
  fixes N F :: nat and b :: int
  assumes N: "1 < N" "N \<le> F * F" and F: "int N dvd b ^ F - 1" "0 < F"
    and qs: "\<And>g. g dvd F \<Longrightarrow> g \<noteq> F \<Longrightarrow> \<exists>m\<in>M. g dvd m"
    and cop: "\<And>m. m \<in> M \<Longrightarrow> coprime (b ^ m - 1) (int N)"
  shows "is_prime N"
proof -
  have big: "F < r" if r: "r dvd N" "1 < r" for r
  proof -
    have "int F < int r"
    proof (rule order_le)
      show "int r dvd b ^ F - 1" using F(1) r(1) by (meson dvd_trans int_dvd_int_iff)
      show "\<not> int r dvd b ^ k - 1" if k: "0 < k" "k < F" for k
      proof
        assume "int r dvd b ^ k - 1"
        then have g: "int r dvd b ^ gcd k F - 1"
          using F(1) r(1) k(1) pow_dvd_gcd by (meson dvd_trans int_dvd_int_iff)
        have "gcd k F \<noteq> F" using k dvd_imp_le [of "gcd k F" k] by fastforce
        then obtain m where m: "m \<in> M" "gcd k F dvd m" using qs [of "gcd k F"] by auto
        then obtain c where c: "m = gcd k F * c" by (auto elim: dvdE)
        have "b ^ gcd k F - 1 dvd b ^ m - 1"
          by (simp add: c power_mult power_diff_1_eq)
        then have "int r dvd b ^ m - 1" using g dvd_trans by blast
        moreover have "int r dvd int N" using r(1) by simp
        ultimately have "is_unit (int r)" using cop [OF m(1)] by (meson coprime_common_divisor)
        with r(2) show False by simp
      qed
    qed (use r F in auto)
    then show ?thesis by simp
  qed
  have "d = 1 \<or> d = N" if d: "d dvd N" for d
  proof (rule ccontr)
    assume nd: "\<not> (d = 1 \<or> d = N)"
    from d obtain e where e: "N = d * e" by (auto elim: dvdE)
    have "d \<noteq> 0" "e \<noteq> 0" "e \<noteq> 1" using nd e N(1) by (auto intro!: Nat.gr0I)
    with nd have "1 < d" "1 < e" by auto
    then have "F < d" "F < e" using big [of d] big [of e] e by auto
    then have "F * F < d * e" by (simp add: mult_strict_mono)
    with N(2) e show False by simp
  qed
  with N(1) show ?thesis by (auto simp: is_prime_def)
qed


text \<open>One step of a certificate checks a single multiplication with its quotient.\<close>

definition pw :: "nat \<Rightarrow> nat \<Rightarrow> nat \<Rightarrow> nat \<Rightarrow> bool" where
  "pw N b e x \<longleftrightarrow> b ^ e mod N = x mod N"

lemma pw_base: "pw N b 1 b"
  by (simp add: pw_def)

lemma pw_sq:
  assumes "pw N b e x" "x * x = k * N + r" "2 * e = f"
  shows "pw N b f r"
proof -
  have "b ^ f mod N = (b ^ e mod N) * (b ^ e mod N) mod N"
    by (simp add: assms(3) [symmetric] mod_mult_eq mult_2 power_add)
  also have "\<dots> = x * x mod N"
    using assms(1) by (simp add: pw_def mod_mult_eq)
  finally show ?thesis by (simp add: pw_def assms(2))
qed

lemma pw_dvd:
  assumes "pw N b e x"
  shows "int N dvd int b ^ e - int x"
proof -
  have "int (b ^ e) mod int N = int x mod int N"
    using assms by (metis of_nat_mod pw_def)
  then show ?thesis by (simp add: mod_eq_dvd_iff)
qed

lemma pw_coprime:
  assumes "pw N b e x" "(x - 1) * c = k * N + 1"
  shows "coprime (int b ^ e - 1) (int N)"
proof (rule coprimeI)
  fix d assume d: "d dvd int b ^ e - 1" "d dvd int N"
  have "1 < x" using assms(2) by (cases "x - 1") auto
  have "d dvd int b ^ e - int x" using pw_dvd [OF assms(1)] d(2) dvd_trans by blast
  with d(1) have "d dvd (int b ^ e - 1) - (int b ^ e - int x)" by (rule dvd_diff)
  then have "d dvd int (x - 1)" using \<open>1 < x\<close> by (simp add: of_nat_diff)
  then have "d dvd int ((x - 1) * c)" by simp
  moreover have "d dvd int (k * N)" using d(2) by simp
  ultimately have "d dvd int ((x - 1) * c) - int (k * N)" by (rule dvd_diff)
  then show "is_unit d" unfolding assms(2) by simp
qed

lemma dvd_two_power: "g dvd (2 :: nat) ^ Suc n \<Longrightarrow> g \<noteq> 2 ^ Suc n \<Longrightarrow> g dvd 2 ^ n"
proof (induction n arbitrary: g)
  case 0
  then have "g \<le> 2" "g \<noteq> 0" "g \<noteq> 2" using dvd_imp_le [of g 2] by auto
  then have "g = 1" by simp
  then show ?case by simp
next
  case (Suc n)
  show ?case
  proof (cases "even g")
    case True
    then obtain h where h: "g = 2 * h" by (auto elim: evenE)
    with Suc have "h dvd 2 ^ n" by simp
    with h show ?thesis by simp
  next
    case False
    then have "coprime g 2" by simp
    then have "coprime g (2 ^ Suc (Suc n))" by (rule coprime_power_right_iff [THEN iffD2, OF disjI1])
    with Suc.prems(1) have "g = 1" by (metis coprime_common_divisor dvd_refl nat_dvd_1_iff_1)
    then show ?thesis by simp
  qed
qed

lemma proth_prime:
  fixes N b x :: nat
  assumes "1 < N" "N \<le> 2 ^ Suc n * 2 ^ Suc n" "pw N b (2 ^ Suc n) 1" "pw N b (2 ^ n) x"
    "(x - 1) * c = k * N + 1"
  shows "is_prime N"
proof (rule pocklington [where F = "2 ^ Suc n" and M = "{2 ^ n}" and b = "int b"])
  show "int N dvd int b ^ 2 ^ Suc n - 1" using pw_dvd [OF assms(3)] by simp
  show "\<exists>m\<in>{2 ^ n}. g dvd m" if "g dvd 2 ^ Suc n" "g \<noteq> 2 ^ Suc n" for g :: nat
    using dvd_two_power [OF that] by simp
  show "coprime (int b ^ m - 1) (int N)" if "m \<in> {2 ^ n}" for m
    using pw_coprime [OF assms(4,5)] that by simp
qed (use assms in simp_all)

lemmas pw_arith = arith_simps rel_simps diff_nat_numeral nat_numeral_diff_1
  Num.add_num_simps Num.mult_num_simps le_num_simps less_num_simps eq_num_simps
  simp_thms one_add_one numeral_times_numeral numeral_plus_numeral

definition fp_modulus :: nat where
  "fp_modulus = 73786976689975197697"

lemma prime_fp_modulus: "is_prime fp_modulus"
proof -
  let ?N = "73786976689975197697" and ?b = "4464671607079789119"
  have s0: "pw ?N ?b 1 ?b" by (rule pw_base)
  have s1: "pw ?N ?b 2 7314932281362298399"
    by (rule pw_sq [OF s0, of 270146487269922146]) (simp_all only: pw_arith)
  have s2: "pw ?N ?b 4 33554159295943857196"
    by (rule pw_sq [OF s1, of 725171794282038165]) (simp_all only: pw_arith)
  have s3: "pw ?N ?b 8 24919431618857673818"
    by (rule pw_sq [OF s2, of 15258540958902567734]) (simp_all only: pw_arith)
  have s4: "pw ?N ?b 16 33351777523710837311"
    by (rule pw_sq [OF s3, of 8415822141839977829]) (simp_all only: pw_arith)
  have s5: "pw ?N ?b 32 53682708810513906262"
    by (rule pw_sq [OF s4, of 15075032395821519147]) (simp_all only: pw_arith)
  have s6: "pw ?N ?b 64 60915618910763216516"
    by (rule pw_sq [OF s5, of 39056122835101296224]) (simp_all only: pw_arith)
  have s7: "pw ?N ?b 128 28025093129173332013"
    by (rule pw_sq [OF s6, of 50289533380291970019]) (simp_all only: pw_arith)
  have s8: "pw ?N ?b 256 13897005922040619872"
    by (rule pw_sq [OF s7, of 10644233984525681801]) (simp_all only: pw_arith)
  have s9: "pw ?N ?b 512 762387989004339030"
    by (rule pw_sq [OF s8, of 2617355829724224682]) (simp_all only: pw_arith)
  have s10: "pw ?N ?b 1024 58749243941288111024"
    by (rule pw_sq [OF s9, of 7877209120793908]) (simp_all only: pw_arith)
  have s11: "pw ?N ?b 2048 3501204947284128536"
    by (rule pw_sq [OF s10, of 46776190304892921320]) (simp_all only: pw_arith)
  have s12: "pw ?N ?b 4096 16660739677744631679"
    by (rule pw_sq [OF s11, of 166132787014599361]) (simp_all only: pw_arith)
  have s13: "pw ?N ?b 8192 70087426390836782894"
    by (rule pw_sq [OF s12, of 3761913810019088851]) (simp_all only: pw_arith)
  have s14: "pw ?N ?b 16384 33224248846478578581"
    by (rule pw_sq [OF s13, of 66573365090297149615]) (simp_all only: pw_arith)
  have s15: "pw ?N ?b 32768 71564617805430748384"
    by (rule pw_sq [OF s14, of 14959966662554746841]) (simp_all only: pw_arith)
  have s16: "pw ?N ?b 65536 28805098884486107504"
    by (rule pw_sq [OF s15, of 69409193212454646416]) (simp_all only: pw_arith)
  have s17: "pw ?N ?b 131072 19547078001151272861"
    by (rule pw_sq [OF s16, of 11244988736037366115]) (simp_all only: pw_arith)
  have s18: "pw ?N ?b 262144 63012227459399323733"
    by (rule pw_sq [OF s17, of 5178261470021756404]) (simp_all only: pw_arith)
  have s19: "pw ?N ?b 524288 1171026005350247819"
    by (rule pw_sq [OF s18, of 53810861855443406510]) (simp_all only: pw_arith)
  have s20: "pw ?N ?b 1048576 50577182011145734147"
    by (rule pw_sq [OF s19, of 18584606209958262]) (simp_all only: pw_arith)
  have s21: "pw ?N ?b 2097152 45845621781125609615"
    by (rule pw_sq [OF s20, of 34668060068872615802]) (simp_all only: pw_arith)
  have s22: "pw ?N ?b 4194304 46360210346963120801"
    by (rule pw_sq [OF s21, of 28484986521795996992]) (simp_all only: pw_arith)
  have s23: "pw ?N ?b 8388608 61021805437157420543"
    by (rule pw_sq [OF s22, of 29128027733743278914]) (simp_all only: pw_arith)
  have s24: "pw ?N ?b 16777216 70827649491069754981"
    by (rule pw_sq [OF s23, of 50465013012468319644]) (simp_all only: pw_arith)
  have s25: "pw ?N ?b 33554432 57816551596947105142"
    by (rule pw_sq [OF s24, of 67987010140115824227]) (simp_all only: pw_arith)
  have s26: "pw ?N ?b 67108864 21551361468948902775"
    by (rule pw_sq [OF s25, of 45302759220064345837]) (simp_all only: pw_arith)
  have s27: "pw ?N ?b 134217728 2662427457245282239"
    by (rule pw_sq [OF s26, of 6294622736974094738]) (simp_all only: pw_arith)
  have s28: "pw ?N ?b 268435456 69496448462725371792"
    by (rule pw_sq [OF s27, of 96067358808815857]) (simp_all only: pw_arith)
  have s29: "pw ?N ?b 536870912 49006784220314620878"
    by (rule pw_sq [OF s28, of 65455403725579410738]) (simp_all only: pw_arith)
  have s30: "pw ?N ?b 1073741824 22202098650623786158"
    by (rule pw_sq [OF s29, of 32548628597528263958]) (simp_all only: pw_arith)
  have s31: "pw ?N ?b 2147483648 52346693524260055490"
    by (rule pw_sq [OF s30, of 6680490333180992642]) (simp_all only: pw_arith)
  have s32: "pw ?N ?b 4294967296 9944565495910133155"
    by (rule pw_sq [OF s31, of 37136313829959289185]) (simp_all only: pw_arith)
  have s33: "pw ?N ?b 8589934592 73786976689975197696"
    by (rule pw_sq [OF s32, of 1340268802690790857]) (simp_all only: pw_arith)
  have s34: "pw ?N ?b 17179869184 1"
    by (rule pw_sq [OF s33, of 73786976689975197695]) (simp_all only: pw_arith)
  have e: "2 ^ 33 = (8589934592 :: nat)" "2 ^ Suc 33 = (17179869184 :: nat)"
    by simp_all
  have p: "pw ?N ?b (2 ^ Suc 33) 1" "pw ?N ?b (2 ^ 33) 73786976689975197696"
    using s34 s33 by (simp_all only: e)
  show ?thesis
    unfolding fp_modulus_def
    by (rule proth_prime [OF _ _ p, of 36893488344987598848 36893488344987598847]) (simp_all only: e pw_arith)
qed

section \<open>The instances\<close>

text \<open>The inverse computed by the extended Euclidean algorithm.\<close>

definition bezout_inverse :: "nat \<Rightarrow> ('f::comm_ring_1 \<Rightarrow> nat) \<Rightarrow> 'f \<Rightarrow> 'f option" where
  "bezout_inverse m into_big x =
     (let n = into_big x
      in if gcd n m = 1 then Some (of_int (fst (bezw n m))) else None)"

context field_ops
begin

lemma bezout_inverse_Some:
  assumes "bezout_inverse modulus into_bigint x = Some y"
  shows "x * y = 1"
proof -
  define n where "n = into_bigint x"
  have g: "gcd n modulus = 1" and y: "y = of_int (fst (bezw n modulus))"
    using assms by (auto simp: bezout_inverse_def n_def Let_def split: if_splits)
  have "fst (bezw n modulus) * int n + snd (bezw n modulus) * int modulus = 1"
    using bezw_aux [of n modulus] g by simp
  then have "of_int (fst (bezw n modulus) * int n + snd (bezw n modulus) * int modulus) = (1 :: 'f)"
    by simp
  then show ?thesis
    by (simp add: y of_nat_modulus of_nat_into_bigint n_def mult.commute)
qed

lemma bezout_inverse_coprime:
  "coprime (into_bigint x) modulus \<Longrightarrow> \<exists>y. bezout_inverse modulus into_bigint x = Some y \<and> x * y = 1"
  using bezout_inverse_Some [of x] by (auto simp: bezout_inverse_def Let_def coprime_iff_gcd_eq_1)

lemma bezout_inverse_diff:
  assumes "\<And>d. 0 < d \<Longrightarrow> d \<le> n \<Longrightarrow> coprime d modulus" "n < modulus" "a \<le> n" "b \<le> n" "a \<noteq> b"
  shows "\<exists>y. bezout_inverse modulus into_bigint (of_nat a - of_nat b) = Some y \<and> (of_nat a - of_nat b) * y = 1"
proof (rule bezout_inverse_coprime)
  show "coprime (into_bigint (of_nat a - of_nat b)) modulus"
  proof (cases "b \<le> a")
    case True
    then show ?thesis using assms into_bigint_of_nat [of "a - b"] by (simp add: of_nat_diff)
  next
    case False
    have "of_nat a - of_nat b = (of_nat (modulus - (b - a)) :: 'f)"
      using False assms by (simp add: of_nat_diff of_nat_modulus)
    then have eq: "into_bigint (of_nat a - of_nat b) = modulus - (b - a)"
      using into_bigint_of_nat [of "modulus - (b - a)"] False assms by simp
    have "coprime (b - a) modulus" using False assms(1) [of "b - a"] assms(4) by simp
    moreover have "gcd (modulus - (b - a)) modulus = gcd (b - a) modulus"
      using assms by (intro gcd_diff2_nat) simp
    ultimately show ?thesis unfolding eq by (simp add: coprime_iff_gcd_eq_1)
  qed
qed

lemma prime_field_bezout:
  assumes "is_prime modulus"
  shows "prime_field modulus into_bigint (bezout_inverse modulus into_bigint)"
proof unfold_locales
  show "bezout_inverse modulus into_bigint 0 = None"
    using modulus_gt_1 by (simp add: bezout_inverse_def into_bigint_0)
  fix x :: 'f
  assume "x \<noteq> 0"
  then have "into_bigint x \<noteq> 0" using into_bigint_inj [of x 0] into_bigint_0 by auto
  then have "coprime (into_bigint x) modulus"
    using assms into_bigint_lt by (intro is_prime_coprime) auto
  then show "\<exists>y. bezout_inverse modulus into_bigint x = Some y \<and> x * y = 1"
    by (rule bezout_inverse_coprime)
qed

end

text \<open>The numeral types of the library are the integers modulo their cardinality.\<close>

lemma field_ops_bit1:
  assumes card: "int CARD('a::finite bit1) = int m"
  shows "field_ops m (\<lambda>x :: 'a bit1. nat (Rep_bit1 x))"
proof
  show "1 < m" using bit1.size1 [where 'a = 'a] unfolding card by simp
  fix x :: "'a bit1" and n :: nat
  have ge: "0 \<le> Rep_bit1 x" using Rep_bit1 [of x] by simp
  show "nat (Rep_bit1 x) < m" using bit1.Rep_less_n [of x] ge card by linarith
  show "of_nat (nat (Rep_bit1 x)) = x"
    using ge unfolding bit1.of_nat_eq by (simp only: int_nat_eq if_True bit1.Rep_mod bit1.Rep_inverse)
  assume "n < m"
  then have "int n mod int CARD('a bit1) = int n" unfolding card by simp
  then show "nat (Rep_bit1 (of_nat n :: 'a bit1)) = n"
    unfolding bit1.of_nat_eq bit1.Rep_Abs_mod by simp
qed

text \<open>The order of the ed25519 scalar field and the integers modulo it.\<close>

definition fr_modulus :: nat where
  "fr_modulus = 7237005577332262213973186563042994240857116359379907606001950938285454250989"

type_synonym fr = "7237005577332262213973186563042994240857116359379907606001950938285454250989"

definition fr_into_bigint :: "fr \<Rightarrow> nat" where
  "fr_into_bigint x = nat (Rep_bit1 x)"

definition fr_inverse :: "fr \<Rightarrow> fr option" where
  "fr_inverse = bezout_inverse fr_modulus fr_into_bigint"

lemma card_fr: "int CARD(fr) = int fr_modulus"
  by (simp add: fr_modulus_def)

lemma fr_into_bigint_eq: "fr_into_bigint = (\<lambda>x. nat (Rep_bit1 x))"
  by (simp add: fun_eq_iff fr_into_bigint_def)

interpretation fr: field_ops fr_modulus fr_into_bigint
  unfolding fr_into_bigint_eq by (rule field_ops_bit1 [OF card_fr])

text \<open>A prime field of 67 bits.\<close>

type_synonym fp = "73786976689975197697"

definition fp_into_bigint :: "fp \<Rightarrow> nat" where
  "fp_into_bigint x = nat (Rep_bit1 x)"

definition fp_inverse :: "fp \<Rightarrow> fp option" where
  "fp_inverse = bezout_inverse fp_modulus fp_into_bigint"

lemma card_fp: "int CARD(fp) = int fp_modulus"
  by (simp add: fp_modulus_def)

lemma fp_into_bigint_eq: "fp_into_bigint = (\<lambda>x. nat (Rep_bit1 x))"
  by (simp add: fun_eq_iff fp_into_bigint_def)

interpretation fp_ops: field_ops fp_modulus fp_into_bigint
  unfolding fp_into_bigint_eq by (rule field_ops_bit1 [OF card_fp])

interpretation fp: prime_field fp_modulus fp_into_bigint fp_inverse
  unfolding fp_inverse_def by (rule fp_ops.prime_field_bezout [OF prime_fp_modulus])

end
