(* ===== verification/Secret_Sharing.thy ===== *)
theory Secret_Sharing
  imports Prime_Field Crypto_Core
begin

text \<open>
  Model of \<open>crates/secret-sharing\<close>: conversion between byte strings and field elements, the
  \<open>Share\<close> record with its canonical encoding, and Shamir's \<open>split\<close> and \<open>reconstruct\<close>.

  The field type \<open>Fr\<close> is the parameter \<open>'f\<close> with \<open>into_bigint\<close> and \<open>inverse_op\<close>
  (theory \<open>Prime_Field\<close>); the random generator is a state \<open>'g\<close> with \<open>fill_bytes\<close>. \<open>usize\<close>
  values are \<open>nat\<close>. \<open>SS_Panic\<close> stands for the \<open>expect\<close> calls; the theorems show that it is never
  the result.
\<close>

section \<open>Errors and the share type\<close>

datatype secret_sharing_error =
    SS_InvalidThreshold
  | SS_InvalidShareCount
  | SS_ThresholdGreaterThanCount
  | SS_EmptyInput
  | SS_InsufficientShares
  | SS_DuplicateShareIndex
  | SS_InvalidShareIndex
  | SS_IncompatibleMetadata
  | SS_MalformedEncoding
  | SS_InvalidFieldElement
  | SS_RngFailure
  | SS_ReconstructionFailure
  | SS_SecretTooLargeForField
  | SS_Panic

definition SHARE_VERSION :: u8 where
  "SHARE_VERSION = 1"

record 'f share =
  sh_version :: u8
  sh_threshold :: u32
  sh_share_count :: u32
  sh_index :: u32
  sh_value :: 'f

definition Share_new :: "u32 \<Rightarrow> u32 \<Rightarrow> u32 \<Rightarrow> 'f \<Rightarrow> (secret_sharing_error, 'f share) result" where
  "Share_new threshold share_count index value =
     (if index = 0 then Inl SS_InvalidShareIndex
      else Inr \<lparr>sh_version = SHARE_VERSION, sh_threshold = threshold, sh_share_count = share_count,
                sh_index = index, sh_value = value\<rparr>)"

section \<open>Field elements and bytes\<close>

definition FIELD_ELEMENT_SIZE :: nat where
  "FIELD_ELEMENT_SIZE = 32"

definition MODULUS_BE :: bytes where
  "MODULUS_BE =
    [0x10, 0x00, 0x00, 0x00, 0x00, 0x00, 0x00, 0x00, 0x00, 0x00, 0x00, 0x00, 0x00, 0x00, 0x00, 0x00,
     0x14, 0xde, 0xf9, 0xde, 0xa2, 0xf7, 0x9c, 0xd6, 0x58, 0x12, 0x63, 0x1a, 0x5c, 0xf5, 0xd3, 0xed]"

lemma MODULUS_BE_value: "length MODULUS_BE = FIELD_ELEMENT_SIZE" "be_value MODULUS_BE = fr_modulus"
  by (simp_all add: MODULUS_BE_def FIELD_ELEMENT_SIZE_def be_value_def fr_modulus_def)

text \<open>The four little-endian 64-bit limbs of \<open>BigInt::new\<close>; \<open>from_bigint\<close> fails at or above the
  modulus and the code calls \<open>expect\<close> on it.\<close>

definition limbs_from_be :: "bytes \<Rightarrow> u64 list" where
  "limbs_from_be buf =
     map (\<lambda>i. let start = (3 - i) * 8; chunk = take 8 (drop start buf) in u64_from_be_bytes chunk)
       [0, 1, 2, 3]"

definition bigint_of_limbs :: "u64 list \<Rightarrow> nat" where
  "bigint_of_limbs limbs = foldr (\<lambda>l acc. unat l + 2 ^ 64 * acc) limbs 0"

definition exact_element_from_be :: "bytes \<Rightarrow> (secret_sharing_error, 'f::comm_ring_1) result" where
  "exact_element_from_be buf = ok_or SS_Panic (from_bigint fr_modulus (bigint_of_limbs (limbs_from_be buf)))"

definition element_from_be_bytes :: "bytes \<Rightarrow> (secret_sharing_error, 'f::comm_ring_1) result" where
  "element_from_be_bytes bs =
     (if length bs > FIELD_ELEMENT_SIZE then Inl SS_SecretTooLargeForField
      else let buf = replicate (FIELD_ELEMENT_SIZE - length bs) 0 @ bs
           in if buf \<ge> MODULUS_BE then Inl SS_SecretTooLargeForField
              else exact_element_from_be buf)"

text \<open>\<open>into_bigint().to_bytes_le()\<close> has 32 bytes; reversed, they are the big-endian bytes.\<close>

definition element_to_be_bytes :: "('f \<Rightarrow> nat) \<Rightarrow> 'f \<Rightarrow> bytes" where
  "element_to_be_bytes into_bigint x = be_bytes FIELD_ELEMENT_SIZE (into_bigint x)"

fun random_element_loop ::
    "('g \<Rightarrow> nat \<Rightarrow> bytes \<times> 'g) \<Rightarrow> nat \<Rightarrow> 'g \<Rightarrow> (secret_sharing_error, 'f::comm_ring_1 \<times> 'g) result" where
  "random_element_loop fill_bytes 0 g = Inl SS_RngFailure"
| "random_element_loop fill_bytes (Suc n) g =
     (let (buf, g') = fill_bytes g FIELD_ELEMENT_SIZE
      in if buf < MODULUS_BE then rbind (exact_element_from_be buf) (\<lambda>x. Inr (x, g'))
         else random_element_loop fill_bytes n g')"

definition random_element ::
    "('g \<Rightarrow> nat \<Rightarrow> bytes \<times> 'g) \<Rightarrow> 'g \<Rightarrow> (secret_sharing_error, 'f::comm_ring_1 \<times> 'g) result" where
  "random_element fill_bytes g = random_element_loop fill_bytes 1024 g"

section \<open>Canonical encoding of shares\<close>

definition ENCODED_SHARE_SIZE :: nat where
  "ENCODED_SHARE_SIZE = 13 + FIELD_ELEMENT_SIZE"

definition MAX_SHARE_COUNT :: nat where
  "MAX_SHARE_COUNT = 1000"

definition Share_encode :: "('f \<Rightarrow> nat) \<Rightarrow> 'f share \<Rightarrow> bytes" where
  "Share_encode into_bigint s =
     [sh_version s] @ u32_to_be_bytes (sh_threshold s) @ u32_to_be_bytes (sh_share_count s) @
     u32_to_be_bytes (sh_index s) @ element_to_be_bytes into_bigint (sh_value s)"

definition Share_decode :: "bytes \<Rightarrow> (secret_sharing_error, 'f::comm_ring_1 share) result" where
  "Share_decode bs =
     (if length bs \<noteq> ENCODED_SHARE_SIZE then Inl SS_MalformedEncoding
      else if bs ! 0 \<noteq> SHARE_VERSION then Inl SS_MalformedEncoding
      else
        let threshold = u32_from_be_bytes (take 4 (drop 1 bs));
            share_count = u32_from_be_bytes (take 4 (drop 5 bs));
            index = u32_from_be_bytes (take 4 (drop 9 bs))
        in rbind (map_err (\<lambda>_. SS_InvalidFieldElement) (element_from_be_bytes (drop 13 bs))) (\<lambda>value.
           if threshold = 0 \<or> share_count = 0 then Inl SS_MalformedEncoding
           else if unat share_count > MAX_SHARE_COUNT then Inl SS_MalformedEncoding
           else if index = 0 \<or> index > share_count then Inl SS_InvalidShareIndex
           else Inr \<lparr>sh_version = SHARE_VERSION, sh_threshold = threshold,
                     sh_share_count = share_count, sh_index = index, sh_value = value\<rparr>))"

section \<open>Shamir sharing\<close>

definition canonical_secret_bytes :: "bytes \<Rightarrow> (secret_sharing_error, bytes) result" where
  "canonical_secret_bytes bs =
     (if bs = [] then Inl SS_EmptyInput
      else let stripped = dropWhile (\<lambda>b. b = 0) bs
           in if stripped = [] then Inr [0] else Inr stripped)"

fun draw_coefficients ::
    "('g \<Rightarrow> nat \<Rightarrow> bytes \<times> 'g) \<Rightarrow> nat \<Rightarrow> 'g \<Rightarrow> (secret_sharing_error, 'f::comm_ring_1 list \<times> 'g) result" where
  "draw_coefficients fill_bytes 0 g = Inr ([], g)"
| "draw_coefficients fill_bytes (Suc n) g =
     rbind (random_element fill_bytes g) (\<lambda>(c, g').
     rbind (draw_coefficients fill_bytes n g') (\<lambda>(cs, g''). Inr (c # cs, g'')))"

text \<open>Horner evaluation: \<open>for coeff in coefficients.iter().rev() { value = value * x + coeff }\<close>.\<close>

definition eval_poly :: "'f::comm_ring_1 list \<Rightarrow> 'f \<Rightarrow> 'f" where
  "eval_poly coefficients x = foldl (\<lambda>value coeff. value * x + coeff) 0 (rev coefficients)"

definition u32_try_from :: "nat \<Rightarrow> (secret_sharing_error, u32) result" where
  "u32_try_from n = (if n < 2 ^ 32 then Inr (of_nat n) else Inl SS_Panic)"

definition split ::
    "('g \<Rightarrow> nat \<Rightarrow> bytes \<times> 'g) \<Rightarrow> bytes \<Rightarrow> nat \<Rightarrow> nat \<Rightarrow> 'g \<Rightarrow>
     (secret_sharing_error, 'f::comm_ring_1 share list \<times> 'g) result" where
  "split fill_bytes secret threshold share_count g =
     (if threshold \<le> 1 then Inl SS_InvalidThreshold
      else if share_count = 0 \<or> share_count > MAX_SHARE_COUNT then Inl SS_InvalidShareCount
      else if threshold > share_count then Inl SS_ThresholdGreaterThanCount
      else
        rbind (canonical_secret_bytes secret) (\<lambda>secret_bytes.
        rbind (map_err (\<lambda>_. SS_SecretTooLargeForField) (element_from_be_bytes secret_bytes)) (\<lambda>secret_element.
        rbind (draw_coefficients fill_bytes (threshold - 1) g) (\<lambda>(random, g').
        let coefficients = secret_element # random in
        rbind (u32_try_from threshold) (\<lambda>threshold_u32.
        rbind (u32_try_from share_count) (\<lambda>share_count_u32.
        rbind (rmap (\<lambda>index. Share_new threshold_u32 share_count_u32 (of_nat index)
                                (eval_poly coefficients (of_nat index)))
                 [1..<share_count + 1]) (\<lambda>shares.
        Inr (shares, g'))))))))"

fun lagrange_loop ::
    "('f::comm_ring_1 \<Rightarrow> 'f option) \<Rightarrow> nat \<Rightarrow> 'f \<Rightarrow> nat \<Rightarrow> 'f share list \<Rightarrow> 'f \<Rightarrow>
     (secret_sharing_error, 'f) result" where
  "lagrange_loop inverse_op i xi j [] lagrange = Inr lagrange"
| "lagrange_loop inverse_op i xi j (sj # rest) lagrange =
     (if i = j then lagrange_loop inverse_op i xi (Suc j) rest lagrange
      else let xj = of_nat (unat (sh_index sj)) in
        rbind (ok_or SS_ReconstructionFailure (inverse_op (xj - xi))) (\<lambda>inv.
        lagrange_loop inverse_op i xi (Suc j) rest (lagrange * (xj * inv))))"

fun interpolate_loop ::
    "('f::comm_ring_1 \<Rightarrow> 'f option) \<Rightarrow> 'f share list \<Rightarrow> nat \<Rightarrow> 'f share list \<Rightarrow> 'f \<Rightarrow>
     (secret_sharing_error, 'f) result" where
  "interpolate_loop inverse_op used i [] secret = Inr secret"
| "interpolate_loop inverse_op used i (si # rest) secret =
     rbind (lagrange_loop inverse_op i (of_nat (unat (sh_index si))) 0 used 1) (\<lambda>lagrange.
     interpolate_loop inverse_op used (Suc i) rest (secret + sh_value si * lagrange))"

definition duplicate_index :: "'f share list \<Rightarrow> bool" where
  "duplicate_index shares =
     list_ex (\<lambda>i. list_ex (\<lambda>s. sh_index s = sh_index (shares ! (i - 1))) (drop i shares)) [1..<length shares]"

definition reconstruct ::
    "('f::comm_ring_1 \<Rightarrow> nat) \<Rightarrow> ('f \<Rightarrow> 'f option) \<Rightarrow> 'f share list \<Rightarrow> (secret_sharing_error, bytes) result" where
  "reconstruct into_bigint inverse_op shares =
     (if shares = [] then Inl SS_EmptyInput
      else if length shares > MAX_SHARE_COUNT then Inl SS_InvalidShareCount
      else let first = hd shares in
      if list_ex (\<lambda>s. sh_version s \<noteq> sh_version first \<or> sh_threshold s \<noteq> sh_threshold first
                       \<or> sh_share_count s \<noteq> sh_share_count first) shares
      then Inl SS_IncompatibleMetadata
      else let threshold = unat (sh_threshold first) in
      if list_ex (\<lambda>s. sh_index s = 0 \<or> unat (sh_index s) > unat (sh_share_count first)) shares
      then Inl SS_InvalidShareIndex
      else if duplicate_index shares then Inl SS_DuplicateShareIndex
      else if length shares < threshold then Inl SS_InsufficientShares
      else let used = take threshold shares in
        rbind (interpolate_loop inverse_op used 0 used 0) (\<lambda>secret.
        let bs = element_to_be_bytes into_bigint secret; stripped = dropWhile (\<lambda>b. b = 0) bs
        in if stripped = [] then Inr [0] else Inr stripped))"

section \<open>Field conversions are exact\<close>

lemma bigint_of_limbs_value:
  assumes len: "length buf = 32"
  shows "bigint_of_limbs (limbs_from_be buf) = be_value buf"
proof -
  define a where "a = take 8 buf"
  define b where "b = take 8 (drop 8 buf)"
  define c where "c = take 8 (drop 16 buf)"
  define d where "d = drop 24 buf"
  have buf: "buf = a @ b @ c @ d"
    by (metis a_def b_def c_def d_def append_take_drop_id drop_drop numeral_plus_numeral
        add_num_simps(2,3,4,5,6) numeral_Bit0)
  have lens: "length a = 8" "length b = 8" "length c = 8" "length d = 8"
    using len by (simp_all add: a_def b_def c_def d_def)
  have u: "unat (u64_from_be_bytes x) = be_value x" if "length x = 8" for x
    using be_value_lt [of x] that by (simp add: u64_from_be_bytes_def unat_of_nat)
  have "bigint_of_limbs (limbs_from_be buf)
      = be_value d + 2 ^ 64 * (be_value c + 2 ^ 64 * (be_value b + 2 ^ 64 * be_value a))"
    using lens by (simp add: bigint_of_limbs_def limbs_from_be_def buf u)
  also have "\<dots> = be_value buf"
    by (simp add: buf be_value_append lens algebra_simps)
  finally show ?thesis .
qed

lemma be_value_padded: "be_value (replicate n 0 @ bs) = be_value bs"
  by (induction n) (simp_all add: be_value_Cons)

lemma exact_element_from_be_eq:
  assumes "length buf = 32" "buf < MODULUS_BE"
  shows "exact_element_from_be buf = Inr (of_nat (be_value buf))"
proof -
  have "be_value buf < fr_modulus"
    using assms be_value_less_iff [of buf MODULUS_BE] MODULUS_BE_value by (simp add: FIELD_ELEMENT_SIZE_def)
  then show ?thesis
    by (simp add: exact_element_from_be_def bigint_of_limbs_value assms(1) from_bigint_def)
qed

text \<open>The conversion accepts exactly the byte strings below the modulus and never panics.\<close>

lemma element_from_be_bytes_eq:
  "element_from_be_bytes bs =
     (if length bs \<le> 32 \<and> be_value bs < fr_modulus then Inr (of_nat (be_value bs))
      else Inl SS_SecretTooLargeForField)"
proof (cases "length bs \<le> 32")
  case True
  let ?buf = "replicate (32 - length bs) 0 @ bs"
  have len: "length ?buf = length MODULUS_BE" using True MODULUS_BE_value by (simp add: FIELD_ELEMENT_SIZE_def)
  have lt: "?buf < MODULUS_BE \<longleftrightarrow> be_value bs < fr_modulus"
    using be_value_less_iff [OF len] by (simp add: be_value_padded MODULUS_BE_value)
  show ?thesis
  proof (cases "be_value bs < fr_modulus")
    case lt': True
    then have "exact_element_from_be ?buf = Inr (of_nat (be_value ?buf))"
      using len lt MODULUS_BE_value by (intro exact_element_from_be_eq) (simp_all add: FIELD_ELEMENT_SIZE_def)
    then show ?thesis using True lt' lt
      by (simp add: element_from_be_bytes_def FIELD_ELEMENT_SIZE_def be_value_padded not_le [symmetric] del: not_le)
  next
    case False
    then show ?thesis using True lt by (simp add: element_from_be_bytes_def FIELD_ELEMENT_SIZE_def not_less [symmetric] del: not_less)
  qed
next
  case False
  then show ?thesis by (simp add: element_from_be_bytes_def FIELD_ELEMENT_SIZE_def)
qed

lemma fr_modulus_lt: "fr_modulus < 256 ^ 32"
  by (simp add: fr_modulus_def)

lemma length_element_to_be_bytes [simp]: "length (element_to_be_bytes into_big x) = 32"
  by (simp add: element_to_be_bytes_def FIELD_ELEMENT_SIZE_def)

lemma be_value_element_to_be_bytes:
  "into_big x < fr_modulus \<Longrightarrow> be_value (element_to_be_bytes into_big x) = into_big x"
  using fr_modulus_lt by (simp add: element_to_be_bytes_def FIELD_ELEMENT_SIZE_def be_value_be_bytes)

lemma element_roundtrip:
  assumes "field_ops fr_modulus into_big"
  shows "element_from_be_bytes (element_to_be_bytes into_big x) = Inr x"
  using field_ops.into_bigint_lt [OF assms, of x] field_ops.of_nat_into_bigint [OF assms, of x]
  by (simp add: element_from_be_bytes_eq be_value_element_to_be_bytes)

lemma element_roundtrip':
  assumes "field_ops fr_modulus into_big" "length bs = 32" "element_from_be_bytes bs = Inr x"
  shows "element_to_be_bytes into_big x = bs"
proof -
  have "into_big x = be_value bs"
    using assms(2,3) field_ops.into_bigint_of_nat [OF assms(1)]
    by (auto simp: element_from_be_bytes_eq split: if_splits)
  then show ?thesis
    using be_bytes_be_value [of bs] assms(2) by (simp add: element_to_be_bytes_def FIELD_ELEMENT_SIZE_def)
qed

section \<open>Share encoding\<close>

text \<open>The shares \<open>decode\<close> accepts.\<close>

definition share_wf :: "'f share \<Rightarrow> bool" where
  "share_wf s \<longleftrightarrow> sh_version s = SHARE_VERSION \<and> sh_threshold s \<noteq> 0 \<and> sh_share_count s \<noteq> 0 \<and>
     unat (sh_share_count s) \<le> MAX_SHARE_COUNT \<and> sh_index s \<noteq> 0 \<and> sh_index s \<le> sh_share_count s"

lemma Share_decode_encode:
  assumes "field_ops fr_modulus into_big" "share_wf s"
  shows "Share_decode (Share_encode into_big s) = Inr s"
proof -
  let ?v = "element_to_be_bytes into_big (sh_value s)"
  have bs: "Share_encode into_big s =
      [sh_version s] @ u32_to_be_bytes (sh_threshold s) @ u32_to_be_bytes (sh_share_count s) @
      u32_to_be_bytes (sh_index s) @ ?v"
    by (simp add: Share_encode_def)
  have len: "length (Share_encode into_big s) = ENCODED_SHARE_SIZE"
    by (simp add: bs ENCODED_SHARE_SIZE_def FIELD_ELEMENT_SIZE_def)
  have parts: "take 4 (drop 1 (Share_encode into_big s)) = u32_to_be_bytes (sh_threshold s)"
    "take 4 (drop 5 (Share_encode into_big s)) = u32_to_be_bytes (sh_share_count s)"
    "take 4 (drop 9 (Share_encode into_big s)) = u32_to_be_bytes (sh_index s)"
    "drop 13 (Share_encode into_big s) = ?v" "Share_encode into_big s ! 0 = sh_version s"
    by (simp_all add: bs)
  show ?thesis
    using assms(2) unfolding Share_decode_def parts len
    by (auto simp: element_roundtrip [OF assms(1)] share_wf_def not_less Let_def)
qed

lemma split_45:
  assumes "length bs = 45"
  shows "bs = [bs ! 0] @ take 4 (drop 1 bs) @ take 4 (drop 5 bs) @ take 4 (drop 9 bs) @ drop 13 bs"
proof -
  have "bs = take 1 bs @ take 4 (drop 1 bs) @ take 4 (drop 4 (drop 1 bs)) @
      take 4 (drop 4 (drop 4 (drop 1 bs))) @ drop 4 (drop 4 (drop 4 (drop 1 bs)))"
    by (metis append_take_drop_id)
  moreover have "take 1 bs = [bs ! 0]" using assms by (cases bs) auto
  ultimately show ?thesis by (simp add: add.commute)
qed

lemma Share_encode_decode:
  assumes "field_ops fr_modulus into_big" "Share_decode bs = Inr s"
  shows "share_wf s \<and> Share_encode into_big s = bs"
proof -
  have len: "length bs = 45" and b0: "bs ! 0 = SHARE_VERSION"
    and val: "element_from_be_bytes (drop 13 bs) = Inr (sh_value s)"
    and s: "sh_version s = SHARE_VERSION" "sh_threshold s = u32_from_be_bytes (take 4 (drop 1 bs))"
      "sh_share_count s = u32_from_be_bytes (take 4 (drop 5 bs))"
      "sh_index s = u32_from_be_bytes (take 4 (drop 9 bs))"
    and wf: "share_wf s"
    using assms(2)
    by (auto simp: Share_decode_def Let_def ENCODED_SHARE_SIZE_def FIELD_ELEMENT_SIZE_def
        share_wf_def not_less split: if_splits)
  have "element_to_be_bytes into_big (sh_value s) = drop 13 bs"
    using element_roundtrip' [OF assms(1) _ val] len by simp
  then have "Share_encode into_big s =
      [bs ! 0] @ take 4 (drop 1 bs) @ take 4 (drop 5 bs) @ take 4 (drop 9 bs) @ drop 13 bs"
    using len b0 by (simp add: Share_encode_def s uN_to_from_be_bytes)
  then show ?thesis using split_45 [OF len] wf by simp
qed

section \<open>Polynomial interpolation over a commutative ring\<close>

lemma eval_poly_Nil [simp]: "eval_poly [] x = 0"
  by (simp add: eval_poly_def)

lemma eval_poly_Cons [simp]: "eval_poly (c # cs) x = eval_poly cs x * x + c"
  by (simp add: eval_poly_def)

lemma eval_poly_0: "eval_poly (c # cs) 0 = c"
  by simp

text \<open>Functions that are polynomials with at most \<open>n\<close> coefficients.\<close>

definition poly_fun :: "nat \<Rightarrow> ('f::comm_ring_1 \<Rightarrow> 'f) \<Rightarrow> bool" where
  "poly_fun n f \<longleftrightarrow> (\<exists>cs. length cs = n \<and> f = eval_poly cs)"

lemma poly_fun_eval: "poly_fun (length cs) (eval_poly cs)"
  by (auto simp: poly_fun_def)

lemma poly_fun_Suc: "poly_fun n f \<Longrightarrow> poly_fun (Suc n) f"
proof -
  have pad: "eval_poly (cs @ [0]) = eval_poly cs" for cs :: "'a list"
    by (induction cs) (auto simp: fun_eq_iff)
  show "poly_fun n f \<Longrightarrow> poly_fun (Suc n) f"
    unfolding poly_fun_def by (metis length_append_singleton pad)
qed

lemma poly_fun_mono: "m \<le> n \<Longrightarrow> poly_fun m f \<Longrightarrow> poly_fun n f"
  by (induction rule: dec_induct) (auto intro: poly_fun_Suc)

lemma poly_fun_add: "poly_fun n f \<Longrightarrow> poly_fun n g \<Longrightarrow> poly_fun n (\<lambda>x. f x + g x)"
proof -
  have "eval_poly (map2 (+) cs ds) = (\<lambda>x. eval_poly cs x + eval_poly ds x)"
    if "length cs = length ds" for cs ds :: "'a list"
    using that by (induction cs ds rule: list_induct2) (auto simp: fun_eq_iff algebra_simps)
  note add = this
  assume "poly_fun n f" "poly_fun n g"
  then obtain cs ds where "length cs = n" "f = eval_poly cs" "length ds = n" "g = eval_poly ds"
    by (auto simp: poly_fun_def)
  then show "poly_fun n (\<lambda>x. f x + g x)"
    using add [of cs ds] by (auto simp: poly_fun_def intro!: exI [of _ "map2 (+) cs ds"])
qed

lemma poly_fun_smult: "poly_fun n f \<Longrightarrow> poly_fun n (\<lambda>x. a * f x)"
proof -
  have "eval_poly (map ((*) a) cs) = (\<lambda>x. a * eval_poly cs x)" for cs
    by (induction cs) (auto simp: fun_eq_iff algebra_simps)
  then show "poly_fun n f \<Longrightarrow> poly_fun n (\<lambda>x. a * f x)"
    unfolding poly_fun_def by (metis length_map)
qed

lemma poly_fun_const: "poly_fun (Suc n) (\<lambda>x. c)"
proof (induction n)
  case 0
  have "eval_poly [c] = (\<lambda>x. c)" by (simp add: fun_eq_iff)
  then show ?case unfolding poly_fun_def by (intro exI [of _ "[c]"]) simp
next
  case (Suc n)
  then show ?case by (rule poly_fun_Suc)
qed

lemma poly_fun_linear: "poly_fun n f \<Longrightarrow> poly_fun (Suc n) (\<lambda>x. (a - x) * f x)"
proof -
  assume f: "poly_fun n f"
  then obtain cs where cs: "length cs = n" "f = eval_poly cs" by (auto simp: poly_fun_def)
  have "poly_fun (Suc n) (eval_poly (0 # cs))"
    using poly_fun_eval [of "0 # cs"] cs(1) by simp
  moreover have "eval_poly (0 # cs) = (\<lambda>x. x * f x)" by (simp add: cs(2) fun_eq_iff mult.commute)
  ultimately have "poly_fun (Suc n) (\<lambda>x. x * f x)" by simp
  moreover have "poly_fun (Suc n) (\<lambda>x. a * f x)" by (intro poly_fun_smult poly_fun_Suc f)
  ultimately have "poly_fun (Suc n) (\<lambda>x. a * f x + (- 1) * (x * f x))"
    by (intro poly_fun_add [of _ "\<lambda>x. a * f x"] poly_fun_smult [of _ "\<lambda>x. x * f x"])
  then show ?thesis by (simp add: algebra_simps)
qed

lemma poly_fun_sum:
  "finite I \<Longrightarrow> (\<And>i. i \<in> I \<Longrightarrow> poly_fun (Suc n) (f i)) \<Longrightarrow> poly_fun (Suc n) (\<lambda>x. \<Sum>i\<in>I. f i x)"
  by (induction I rule: finite_induct) (auto intro: poly_fun_const poly_fun_add)

lemma poly_fun_prod_linear:
  "finite J \<Longrightarrow> poly_fun (Suc (card J)) (\<lambda>x. \<Prod>j\<in>J. (a j - x) * b j)"
proof (induction J rule: finite_induct)
  case empty
  show ?case using poly_fun_const [of 0 1] by simp
next
  case (insert j J)
  then have "poly_fun (Suc (card (insert j J))) (\<lambda>x. b j * ((a j - x) * (\<Prod>j\<in>J. (a j - x) * b j)))"
    by (simp add: poly_fun_linear poly_fun_smult)
  moreover have "(\<lambda>x. b j * ((a j - x) * (\<Prod>j\<in>J. (a j - x) * b j)))
      = (\<lambda>x. \<Prod>j\<in>insert j J. (a j - x) * b j)"
    using insert by (simp add: fun_eq_iff algebra_simps)
  ultimately show ?case by simp
qed

text \<open>Synthetic division, and uniqueness of interpolation when the differences of the nodes are
  not zero divisors.\<close>

lemma synthetic_division:
  "\<exists>ds. length ds = length cs \<and> (\<forall>x. eval_poly (c # cs) x = (x - a) * eval_poly ds x + eval_poly (c # cs) a)
    \<and> (set ds \<subseteq> {0} \<longrightarrow> eval_poly (c # cs) a = 0 \<longrightarrow> set (c # cs) \<subseteq> {0})"
proof (induction cs arbitrary: c)
  case Nil
  show ?case by simp
next
  case (Cons d cs)
  obtain ds where ds: "length ds = length cs"
    "\<And>x. eval_poly (d # cs) x = (x - a) * eval_poly ds x + eval_poly (d # cs) a"
    "set ds \<subseteq> {0} \<Longrightarrow> eval_poly (d # cs) a = 0 \<Longrightarrow> set (d # cs) \<subseteq> {0}"
    using Cons.IH by blast
  let ?ds = "eval_poly (d # cs) a # ds"
  have ring: "((x - a) * E + D) * x + c = (x - a) * (E * x + D) + (D * a + c)" for x D E
    by (simp add: algebra_simps)
  have "eval_poly (c # d # cs) x = (x - a) * eval_poly ?ds x + eval_poly (c # d # cs) a" for x
  proof -
    have "eval_poly (c # d # cs) x = eval_poly (d # cs) x * x + c" by (rule eval_poly_Cons)
    also have "\<dots> = ((x - a) * eval_poly ds x + eval_poly (d # cs) a) * x + c"
      by (subst ds(2)) (rule refl)
    also have "\<dots> = (x - a) * (eval_poly ds x * x + eval_poly (d # cs) a) + (eval_poly (d # cs) a * a + c)"
      by (rule ring)
    finally show ?thesis by (simp only: eval_poly_Cons)
  qed
  note eq = this
  show ?case
  proof (intro exI [of _ ?ds] conjI allI impI)
    show "length ?ds = length (d # cs)" using ds(1) by simp
    show "set (c # d # cs) \<subseteq> {0}" if "set ?ds \<subseteq> {0}" "eval_poly (c # d # cs) a = 0"
      using ds(3) that eval_poly_Cons [of c "d # cs" a] by (auto simp del: eval_poly_Cons)
  qed (rule eq)
qed

lemma eval_poly_zeros: "set cs \<subseteq> {0} \<Longrightarrow> eval_poly cs x = 0"
  by (induction cs) auto

lemma eval_poly_roots:
  assumes "length cs \<le> length xs" "\<And>x. x \<in> set xs \<Longrightarrow> eval_poly cs x = 0"
    and "sorted_wrt (\<lambda>a b. \<forall>y. (b - a) * y = 0 \<longrightarrow> y = 0) xs"
  shows "set cs \<subseteq> {0 :: 'f::comm_ring_1}"
  using assms
proof (induction xs arbitrary: cs)
  case Nil
  then show ?case by simp
next
  case (Cons a xs)
  show ?case
  proof (cases cs)
    case Nil
    then show ?thesis by simp
  next
    case cs: (Cons c cs')
    obtain ds where ds: "length ds = length cs'"
      "\<And>x. eval_poly cs x = (x - a) * eval_poly ds x + eval_poly cs a"
      "set ds \<subseteq> {0} \<Longrightarrow> eval_poly cs a = 0 \<Longrightarrow> set cs \<subseteq> {0}"
      using synthetic_division [of cs' c a] cs by blast
    have a0: "eval_poly cs a = 0" using Cons.prems(2) by simp
    have "eval_poly ds x = 0" if "x \<in> set xs" for x
      using Cons.prems(2,3) ds(2) [of x] a0 that by auto
    then have "set ds \<subseteq> {0}"
      using Cons.IH [of ds] Cons.prems(1,3) ds(1) cs by auto
    then show ?thesis using ds(3) a0 by blast
  qed
qed

lemma eval_poly_unique:
  assumes "length cs \<le> length xs" "\<And>x. x \<in> set xs \<Longrightarrow> eval_poly cs x = 0"
    and "sorted_wrt (\<lambda>a b. \<forall>y. (b - a) * y = 0 \<longrightarrow> y = 0) xs"
  shows "eval_poly cs z = (0 :: 'f::comm_ring_1)"
  by (rule eval_poly_zeros [OF eval_poly_roots [OF assms]])

text \<open>The Lagrange basis. The nodes are \<open>x i\<close> for \<open>i < n\<close>; \<open>iv\<close> gives the inverses of their
  differences.\<close>

definition lagrange_basis ::
    "nat \<Rightarrow> (nat \<Rightarrow> 'f::comm_ring_1) \<Rightarrow> ('f \<Rightarrow> 'f) \<Rightarrow> nat \<Rightarrow> 'f \<Rightarrow> 'f" where
  "lagrange_basis n x iv i z = (\<Prod>j\<in>{..<n} - {i}. (x j - z) * iv (x j - x i))"

lemma lagrange_basis_poly: "i < n \<Longrightarrow> poly_fun n (lagrange_basis n x iv i)"
  using poly_fun_prod_linear [of "{..<n} - {i}" x "\<lambda>j. iv (x j - x i)"]
  unfolding lagrange_basis_def by simp

lemma lagrange_basis_value:
  assumes "\<And>i j. i < n \<Longrightarrow> j < n \<Longrightarrow> i \<noteq> j \<Longrightarrow> (x j - x i) * iv (x j - x i) = 1"
    and "i < n" "k < n"
  shows "lagrange_basis n x iv i (x k) = (if i = k then 1 else 0)"
  unfolding lagrange_basis_def using assms by (auto intro!: prod_zero bexI [of _ k])

lemma lagrange_sum_poly: "0 < n \<Longrightarrow> poly_fun n (\<lambda>z. \<Sum>i<n. v i * lagrange_basis n x iv i z)"
  by (cases n) (auto intro!: poly_fun_sum poly_fun_smult lagrange_basis_poly simp del: sum.lessThan_Suc)

lemma lagrange_sum_value:
  assumes "\<And>i j. i < n \<Longrightarrow> j < n \<Longrightarrow> i \<noteq> j \<Longrightarrow> (x j - x i) * iv (x j - x i) = 1" and "k < n"
  shows "(\<Sum>i<n. v i * lagrange_basis n x iv i (x k)) = v k"
proof -
  have "(\<Sum>i<n. v i * lagrange_basis n x iv i (x k)) = (\<Sum>i<n. if i = k then v i else 0)"
    using assms by (intro sum.cong) (auto simp: lagrange_basis_value)
  then show ?thesis using assms(2) by simp
qed


lemma lagrange_at_zero:
  fixes x :: "nat \<Rightarrow> 'f::comm_ring_1" and iv :: "'f \<Rightarrow> 'f"
  assumes len: "length cs \<le> n" and n: "0 < n"
    and iv: "\<And>i j. i < n \<Longrightarrow> j < n \<Longrightarrow> i \<noteq> j \<Longrightarrow> (x j - x i) * iv (x j - x i) = 1"
  shows "(\<Sum>i<n. eval_poly cs (x i) * (\<Prod>j\<in>{..<n} - {i}. x j * iv (x j - x i))) = eval_poly cs 0"
proof -
  let ?s = "\<lambda>z. \<Sum>i<n. eval_poly cs (x i) * lagrange_basis n x iv i z"
  have "poly_fun n (\<lambda>z. ?s z + (- 1) * eval_poly cs z)"
    by (intro poly_fun_add [of _ ?s] lagrange_sum_poly n poly_fun_smult [of _ "eval_poly cs"]
        poly_fun_mono [OF len poly_fun_eval])
  then obtain ds where ds: "length ds = n" "(\<lambda>z. ?s z + (- 1) * eval_poly cs z) = eval_poly ds"
    by (auto simp: poly_fun_def)
  have zero: "eval_poly ds (x k) = 0" if "k < n" for k
    using fun_cong [OF ds(2), of "x k"] lagrange_sum_value [of n x iv, OF iv that, of "\<lambda>i. eval_poly cs (x i)"]
    by simp
  have reg: "\<forall>y. (x j - x i) * y = 0 \<longrightarrow> y = 0" if "i < n" "j < n" "i \<noteq> j" for i j
    using iv [OF that] by (metis mult.assoc mult.commute mult.left_neutral mult_zero_right)
  have "eval_poly ds 0 = 0"
  proof (rule eval_poly_unique [where xs = "map x [0..<n]"])
    show "sorted_wrt (\<lambda>a b. \<forall>y. (b - a) * y = 0 \<longrightarrow> y = 0) (map x [0..<n])"
      unfolding sorted_wrt_iff_nth_less
    proof (intro allI impI)
      fix i j y
      assume ij: "i < j" "j < length (map x [0..<n])" and y: "(map x [0..<n] ! j - map x [0..<n] ! i) * y = 0"
      then have "i < n" "j < n" "i \<noteq> j" by auto
      with y reg [of i j] show "y = 0" by simp
    qed
  qed (use ds(1) zero in auto)
  then have "?s 0 = eval_poly cs 0" using fun_cong [OF ds(2), of 0] by simp
  then show ?thesis by (simp add: lagrange_basis_def)
qed

section \<open>The reconstruction loops\<close>

abbreviation x_coord :: "'f share \<Rightarrow> 'f::comm_ring_1" where
  "x_coord s \<equiv> of_nat (unat (sh_index s))"

text \<open>Inverses of the differences of share indices up to \<open>n\<close>. In a field of characteristic
  above \<open>n\<close> they exist.\<close>

definition index_inverses :: "('f::comm_ring_1 \<Rightarrow> 'f option) \<Rightarrow> nat \<Rightarrow> bool" where
  "index_inverses inverse_op n \<longleftrightarrow>
     (\<forall>a b. a \<le> n \<and> b \<le> n \<and> a \<noteq> b \<longrightarrow>
        (\<exists>y. inverse_op (of_nat a - of_nat b) = Some y \<and> (of_nat a - of_nat b) * y = 1))"

lemma lagrange_loop_eq:
  assumes "\<And>k. k < length ss \<Longrightarrow> i \<noteq> j + k \<Longrightarrow> inverse_op (x_coord (ss ! k) - xi) \<noteq> None"
  shows "lagrange_loop inverse_op i xi j ss acc =
    Inr (acc * (\<Prod>k\<in>{k. k < length ss \<and> j + k \<noteq> i}.
          x_coord (ss ! k) * the (inverse_op (x_coord (ss ! k) - xi))))"
  using assms
proof (induction ss arbitrary: j acc)
  case Nil
  then show ?case by simp
next
  case (Cons s ss)
  let ?t = "\<lambda>k. x_coord ((s # ss) ! k) * the (inverse_op (x_coord ((s # ss) ! k) - xi))"
  let ?K = "{k. k < length ss \<and> Suc j + k \<noteq> i}"
  have IH: "lagrange_loop inverse_op i xi (Suc j) ss acc' = Inr (acc' * (\<Prod>k\<in>?K. ?t (Suc k)))" for acc'
  proof -
    have "inverse_op (x_coord (ss ! k) - xi) \<noteq> None" if "k < length ss" "i \<noteq> Suc j + k" for k
      using Cons.prems [of "Suc k"] that by simp
    from Cons.IH [OF this, where acc = acc'] show ?thesis by simp
  qed
  have set: "{k. k < length (s # ss) \<and> j + k \<noteq> i} = (if j = i then {} else {0}) \<union> Suc ` ?K"
  proof (rule set_eqI)
    fix k
    show "k \<in> {k. k < length (s # ss) \<and> j + k \<noteq> i} \<longleftrightarrow> k \<in> (if j = i then {} else {0}) \<union> Suc ` ?K"
      by (cases k) auto
  qed
  have prod: "(\<Prod>k\<in>{k. k < length (s # ss) \<and> j + k \<noteq> i}. ?t k)
      = (if j = i then 1 else ?t 0) * (\<Prod>k\<in>?K. ?t (Suc k))"
    unfolding set by (subst prod.union_disjoint) (auto simp: prod.reindex)
  show ?case
  proof (cases "i = j")
    case True
    then show ?thesis using IH [of acc] prod by simp
  next
    case False
    then obtain v where v: "inverse_op (x_coord s - xi) = Some v"
      using Cons.prems [of 0] by auto
    then show ?thesis using IH [of "acc * (x_coord s * v)"] prod False by (simp add: mult.assoc)
  qed
qed

lemma interpolate_loop_eq:
  assumes "\<And>i. i < length ss \<Longrightarrow>
      lagrange_loop inverse_op (i0 + i) (x_coord (ss ! i)) 0 used 1 = Inr (l (i0 + i))"
  shows "interpolate_loop inverse_op used i0 ss acc =
    Inr (acc + (\<Sum>i<length ss. sh_value (ss ! i) * l (i0 + i)))"
  using assms
proof (induction ss arbitrary: i0 acc)
  case Nil
  then show ?case by simp
next
  case (Cons s ss)
  have "interpolate_loop inverse_op used (Suc i0) ss (acc + sh_value s * l i0) =
      Inr (acc + sh_value s * l i0 + (\<Sum>i<length ss. sh_value (ss ! i) * l (Suc i0 + i)))"
    by (rule Cons.IH) (use Cons.prems [of "Suc _"] in auto)
  then show ?case using Cons.prems [of 0] by (simp add: sum.lessThan_Suc_shift add.assoc del: sum.lessThan_Suc)
qed

lemma interpolate_correct:
  fixes used :: "'f::comm_ring_1 share list"
  assumes inv: "index_inverses inverse_op N"
    and idx: "\<And>s. s \<in> set used \<Longrightarrow> unat (sh_index s) \<le> N"
    and dist: "distinct (map sh_index used)"
    and val: "\<And>s. s \<in> set used \<Longrightarrow> sh_value s = eval_poly cs (x_coord s)"
    and len: "length cs \<le> length used" and ne: "used \<noteq> []"
  shows "interpolate_loop inverse_op used 0 used 0 = Inr (eval_poly cs 0)"
proof -
  let ?n = "length used"
  let ?x = "\<lambda>i. x_coord (used ! i) :: 'f"
  let ?inv = "\<lambda>d. the (inverse_op d)"
  have ex: "\<exists>y. inverse_op (?x j - ?x i) = Some y \<and> (?x j - ?x i) * y = 1"
    if "i < ?n" "j < ?n" "i \<noteq> j" for i j
  proof -
    have "unat (sh_index (used ! j)) \<noteq> unat (sh_index (used ! i))"
      using dist that by (auto simp: distinct_conv_nth word_unat_eq_iff)
    moreover have "unat (sh_index (used ! j)) \<le> N" "unat (sh_index (used ! i)) \<le> N"
      using idx that by simp_all
    ultimately show ?thesis using inv unfolding index_inverses_def by blast
  qed
  have set: "{k. k < ?n \<and> 0 + k \<noteq> i} = {..<?n} - {i}" for i by auto
  have "lagrange_loop inverse_op i (?x i) 0 used 1 =
      Inr (\<Prod>j\<in>{..<?n} - {i}. ?x j * ?inv (?x j - ?x i))" if "i < ?n" for i
    using lagrange_loop_eq [of used i 0 inverse_op "?x i" 1] ex that unfolding set by fastforce
  then have "interpolate_loop inverse_op used 0 used 0 =
      Inr (0 + (\<Sum>i<?n. sh_value (used ! i) * (\<Prod>j\<in>{..<?n} - {i}. ?x j * ?inv (?x j - ?x i))))"
    using interpolate_loop_eq [of used inverse_op 0 used
        "\<lambda>i. \<Prod>j\<in>{..<?n} - {i}. ?x j * ?inv (?x j - ?x i)" 0] by simp
  also have "(\<Sum>i<?n. sh_value (used ! i) * (\<Prod>j\<in>{..<?n} - {i}. ?x j * ?inv (?x j - ?x i)))
      = (\<Sum>i<?n. eval_poly cs (?x i) * (\<Prod>j\<in>{..<?n} - {i}. ?x j * ?inv (?x j - ?x i)))"
    using val by (intro sum.cong) auto
  also have "\<dots> = eval_poly cs 0"
    using ex ne by (intro lagrange_at_zero len) fastforce+
  finally show ?thesis by simp
qed

lemma duplicate_index_iff: "duplicate_index shares \<longleftrightarrow> \<not> distinct (map sh_index shares)"
proof
  assume "duplicate_index shares"
  then obtain i s where i: "i \<in> {1..<length shares}" and s: "s \<in> set (drop i shares)"
    and eq: "sh_index s = sh_index (shares ! (i - 1))"
    by (auto simp: duplicate_index_def list_ex_iff)
  from s obtain k where k: "k < length shares - i" "s = shares ! (i + k)"
    by (auto simp: in_set_conv_nth)
  then have "i + k < length shares" "i - 1 < length shares" "i + k \<noteq> i - 1"
    "sh_index (shares ! (i + k)) = sh_index (shares ! (i - 1))"
    using i eq by auto
  then show "\<not> distinct (map sh_index shares)"
    unfolding distinct_conv_nth by (metis length_map nth_map)
next
  assume "\<not> distinct (map sh_index shares)"
  then obtain a b where "a < length shares" "b < length shares" "a \<noteq> b"
    "sh_index (shares ! a) = sh_index (shares ! b)"
    by (auto simp: distinct_conv_nth)
  then obtain a b where ab: "a < b" "b < length shares" "sh_index (shares ! b) = sh_index (shares ! a)"
    by (metis nat_neq_iff)
  then have "shares ! b \<in> set (drop (Suc a) shares)"
    by (auto simp: in_set_conv_nth intro!: exI [of _ "b - Suc a"])
  then show "duplicate_index shares"
    using ab by (auto simp: duplicate_index_def list_ex_iff intro!: bexI [of _ "Suc a"] bexI [of _ "shares ! b"])
qed

text \<open>The canonical form of a secret and of the reconstructed element agree.\<close>

lemma be_value_dropWhile: "be_value (dropWhile (\<lambda>b. b = 0) bs) = be_value bs"
  by (induction bs) (simp_all add: be_value_Cons)

lemma replicate_takeWhile_zero: "replicate (length bs - length (dropWhile (\<lambda>b. b = 0) bs)) 0 @ dropWhile (\<lambda>b. b = 0) bs = bs"
proof (induction bs)
  case Nil
  then show ?case by simp
next
  case (Cons b bs)
  have "length (dropWhile (\<lambda>b. b = 0) bs) \<le> length bs" by (rule length_dropWhile_le)
  with Cons show ?case by (simp add: Suc_diff_le)
qed

lemma dropWhile_zero_unique:
  fixes as bs :: bytes
  assumes "be_value as = be_value bs"
  shows "dropWhile (\<lambda>b. b = 0) as = dropWhile (\<lambda>b. b = 0) bs"
proof -
  let ?n = "max (length as) (length bs)"
  have "replicate (?n - length as) 0 @ as = replicate (?n - length bs) 0 @ bs"
    by (rule be_value_inj) (auto simp: be_value_padded assms)
  moreover have "dropWhile (\<lambda>b. b = 0) (replicate n 0 @ xs) = dropWhile (\<lambda>b. b = 0) xs" for n and xs :: bytes
    by (induction n) auto
  ultimately show ?thesis by metis
qed

lemma be_value_zeros: "\<forall>b\<in>set bs. b = 0 \<Longrightarrow> be_value bs = 0"
  by (induction bs) (simp_all add: be_value_Cons)

lemma canonical_secret_bytes_value:
  "canonical_secret_bytes bs = Inr c \<Longrightarrow> be_value c = be_value bs \<and> length c \<le> length bs"
  using be_value_dropWhile [of bs] length_dropWhile_le [of "\<lambda>b. b = 0" bs]
  by (auto simp: canonical_secret_bytes_def Let_def be_value_Cons Suc_le_eq be_value_zeros split: if_splits)

lemma canonical_of_element:
  assumes "field_ops fr_modulus into_big" "canonical_secret_bytes secret = Inr c"
    and "element_from_be_bytes c = Inr x"
  shows "(let stripped = dropWhile (\<lambda>b. b = 0) (element_to_be_bytes into_big x)
          in if stripped = [] then Inr [0] else Inr stripped) = Inr c"
proof -
  have lt: "be_value c < fr_modulus" and x: "x = of_nat (be_value c)"
    using assms(3) by (auto simp: element_from_be_bytes_eq split: if_splits)
  have "be_value (element_to_be_bytes into_big x) = be_value secret"
    using field_ops.into_bigint_of_nat [OF assms(1) lt] lt canonical_secret_bytes_value [OF assms(2)]
    by (simp add: x be_value_element_to_be_bytes)
  from dropWhile_zero_unique [OF this] show ?thesis
    using assms(2) by (auto simp: canonical_secret_bytes_def Let_def split: if_splits)
qed

section \<open>Splitting\<close>

text \<open>What a successful \<open>split\<close> returns: the evaluations of one polynomial, whose constant term is
  the secret, at \<open>1..=share_count\<close>.\<close>

lemma rmap_Share_new:
  assumes "n < 2 ^ 32"
  shows "rmap (\<lambda>i. Share_new t c (of_nat i) (f i)) [1..<n + 1] =
    Inr (map (\<lambda>i. \<lparr>sh_version = SHARE_VERSION, sh_threshold = t, sh_share_count = c,
                    sh_index = of_nat i, sh_value = f i\<rparr>) [1..<n + 1])"
proof (rule rmap_total)
  fix i assume i: "i \<in> set [1..<n + 1]"
  then have bounds: "1 \<le> i" "i < 2 ^ 32" using assms by auto
  then have "unat (of_nat i :: u32) = i" by (simp add: unat_of_nat)
  then have "(of_nat i :: u32) \<noteq> 0" using bounds(1) by (metis not_one_le_zero unsigned_0)
  then show "Share_new t c (of_nat i) (f i) = Inr \<lparr>sh_version = SHARE_VERSION, sh_threshold = t,
      sh_share_count = c, sh_index = of_nat i, sh_value = f i\<rparr>"
    by (simp add: Share_new_def)
qed

lemma length_draw_coefficients:
  "draw_coefficients fill n g = Inr (cs, g') \<Longrightarrow> length cs = n"
  by (induction n arbitrary: g cs g') auto

lemma split_shape:
  assumes "split fill secret t n g = Inr (shares, g')"
  obtains c x cs where "2 \<le> t" "t \<le> n" "n \<le> MAX_SHARE_COUNT"
    "canonical_secret_bytes secret = Inr c" "element_from_be_bytes c = Inr x" "length cs = t - 1"
    "shares = map (\<lambda>i. \<lparr>sh_version = SHARE_VERSION, sh_threshold = of_nat t,
        sh_share_count = of_nat n, sh_index = of_nat i,
        sh_value = eval_poly (x # cs) (of_nat i)\<rparr>) [1..<n + 1]"
proof -
  have n: "2 \<le> t" "t \<le> n" "n \<le> MAX_SHARE_COUNT" "n < 2 ^ 32"
    using assms by (auto simp: split_def MAX_SHARE_COUNT_def split: if_splits)
  from assms n obtain c x cs where cx: "canonical_secret_bytes secret = Inr c"
      "element_from_be_bytes c = Inr x" "draw_coefficients fill (t - 1) g = Inr (cs, g')"
    and sh: "rmap (\<lambda>i. Share_new (of_nat t) (of_nat n) (of_nat i) (eval_poly (x # cs) (of_nat i)))
      [1..<n + 1] = Inr shares"
    by (auto simp: split_def u32_try_from_def Let_def simp del: upt_Suc eval_poly_Cons
        split: if_splits prod.splits)
  show thesis
    using that [OF n(1-3) cx(1,2) length_draw_coefficients [OF cx(3)]] sh
    unfolding rmap_Share_new [OF n(4)] by simp
qed

section \<open>Properties of the sharing\<close>

text \<open>A selection of distinct shares of one \<open>split\<close> passes every check of \<open>reconstruct\<close> up to the
  threshold.\<close>

lemma selection_facts:
  assumes split: "split fill secret t n g = Inr (shares, g')"
    and sel: "set sel \<subseteq> set shares" "distinct (map sh_index sel)"
  shows "length sel \<le> MAX_SHARE_COUNT"
    and "s \<in> set sel \<Longrightarrow> sh_version s = SHARE_VERSION \<and> unat (sh_threshold s) = t \<and>
      unat (sh_share_count s) = n \<and> sh_index s \<noteq> 0 \<and> unat (sh_index s) \<le> n"
proof -
  obtain c x cs where n: "2 \<le> t" "t \<le> n" "n \<le> MAX_SHARE_COUNT"
    and sh: "shares = map (\<lambda>i. \<lparr>sh_version = SHARE_VERSION, sh_threshold = of_nat t,
        sh_share_count = of_nat n, sh_index = of_nat i,
        sh_value = eval_poly (x # cs) (of_nat i)\<rparr>) [1..<n + 1]"
    using split by (rule split_shape)
  have u: "unat (of_nat k :: u32) = k" if "k \<le> n" for k
    using that n(3) by (simp add: unat_of_nat MAX_SHARE_COUNT_def)
  have facts: "sh_version s = SHARE_VERSION \<and> unat (sh_threshold s) = t \<and>
      unat (sh_share_count s) = n \<and> unat (sh_index s) \<in> {1..n}" if "s \<in> set sel" for s
  proof -
    have "s \<in> set shares" using that sel(1) by blast
    then obtain i where i: "1 \<le> i" "i \<le> n" and s: "s = \<lparr>sh_version = SHARE_VERSION, sh_threshold = of_nat t,
        sh_share_count = of_nat n, sh_index = of_nat i, sh_value = eval_poly (x # cs) (of_nat i)\<rparr>"
      unfolding sh by (auto simp del: upt_Suc eval_poly_Cons)
    show ?thesis using i n(2) by (simp add: s u)
  qed
  have "distinct (map (\<lambda>s. unat (sh_index s)) sel)"
    using sel(2) by (auto simp: distinct_map inj_on_def word_unat_eq_iff)
  then have "length sel = card (set (map (\<lambda>s. unat (sh_index s)) sel))"
    by (metis distinct_card length_map)
  also have "\<dots> \<le> card {1..n}" using facts by (intro card_mono) auto
  finally show "length sel \<le> MAX_SHARE_COUNT" using n(3) by simp
  show "sh_version s = SHARE_VERSION \<and> unat (sh_threshold s) = t \<and>
      unat (sh_share_count s) = n \<and> sh_index s \<noteq> 0 \<and> unat (sh_index s) \<le> n" if "s \<in> set sel"
    using facts [OF that] by auto
qed

lemma reconstruct_selection:
  assumes split: "split fill secret t n g = Inr (shares, g')"
    and sel: "set sel \<subseteq> set shares" "distinct (map sh_index sel)" "sel \<noteq> []"
  shows "reconstruct into_big inverse_op sel =
    (if length sel < t then Inl SS_InsufficientShares
     else rbind (interpolate_loop inverse_op (take t sel) 0 (take t sel) 0) (\<lambda>secret.
       let bs = element_to_be_bytes into_big secret; stripped = dropWhile (\<lambda>b. b = 0) bs
       in if stripped = [] then Inr [0] else Inr stripped))"
proof -
  note f = selection_facts [OF split sel(1,2)]
  have hd: "hd sel \<in> set sel" using sel(3) by simp
  have meta: "\<not> list_ex (\<lambda>s. sh_version s \<noteq> sh_version (hd sel) \<or> sh_threshold s \<noteq> sh_threshold (hd sel)
      \<or> sh_share_count s \<noteq> sh_share_count (hd sel)) sel"
    using f(2) [OF hd] f(2) by (auto simp: list_ex_iff word_unat_eq_iff)
  have idx: "\<not> list_ex (\<lambda>s. sh_index s = 0 \<or> unat (sh_index s) > unat (sh_share_count (hd sel))) sel"
    using f(2) [OF hd] f(2) by (fastforce simp: list_ex_iff)
  have "\<not> duplicate_index sel" using sel(2) by (simp add: duplicate_index_iff)
  then show ?thesis
    using f(1) f(2) [OF hd] meta idx sel(3) by (simp add: reconstruct_def Let_def)
qed

text \<open>C16: any \<open>threshold\<close> or more distinct shares of a split, in any order, reconstruct the
  secret, up to the leading zero bytes that \<open>split\<close> strips. The hypotheses on the field are that
  \<open>into_bigint\<close> is the canonical representative and that differences of share indices are
  invertible.\<close>

theorem reconstruct_split:
  assumes ops: "field_ops fr_modulus into_big" and inv: "index_inverses inverse_op n"
    and split: "split fill secret t n g = Inr (shares, g')"
    and sel: "set sel \<subseteq> set shares" "distinct (map sh_index sel)" "t \<le> length sel"
  shows "reconstruct into_big inverse_op sel = canonical_secret_bytes secret"
proof -
  obtain c x cs where t: "2 \<le> t" and c: "canonical_secret_bytes secret = Inr c"
    and x: "element_from_be_bytes c = Inr x" and cs: "length cs = t - 1"
    and sh: "shares = map (\<lambda>i. \<lparr>sh_version = SHARE_VERSION, sh_threshold = of_nat t,
        sh_share_count = of_nat n, sh_index = of_nat i,
        sh_value = eval_poly (x # cs) (of_nat i)\<rparr>) [1..<n + 1]" and n: "n \<le> MAX_SHARE_COUNT"
    using split by (rule split_shape)
  have val: "sh_value s = eval_poly (x # cs) (x_coord s)" if "s \<in> set sel" for s
  proof -
    have "s \<in> set shares" using that sel(1) by blast
    then obtain i where i: "1 \<le> i" "i \<le> n" and s: "s = \<lparr>sh_version = SHARE_VERSION, sh_threshold = of_nat t,
        sh_share_count = of_nat n, sh_index = of_nat i, sh_value = eval_poly (x # cs) (of_nat i)\<rparr>"
      unfolding sh by (auto simp del: upt_Suc eval_poly_Cons)
    have "unat (of_nat i :: u32) = i" using i(2) n by (simp add: unat_of_nat MAX_SHARE_COUNT_def)
    then show ?thesis by (simp only: s share.select_convs)
  qed
  have "sel \<noteq> []" using sel(3) t by auto
  moreover have "interpolate_loop inverse_op (take t sel) 0 (take t sel) 0 = Inr (eval_poly (x # cs) 0)"
  proof (rule interpolate_correct [OF inv])
    show "distinct (map sh_index (take t sel))" using sel(2) by (simp flip: take_map)
    show "unat (sh_index s) \<le> n" if "s \<in> set (take t sel)" for s
      using selection_facts(2) [OF split sel(1,2)] that in_set_takeD by fast
    show "sh_value s = eval_poly (x # cs) (x_coord s)" if "s \<in> set (take t sel)" for s
      using val that in_set_takeD by fast
  qed (use cs t sel(3) \<open>sel \<noteq> []\<close> in auto)
  ultimately show ?thesis
    using reconstruct_selection [OF split sel(1,2)] sel(3) canonical_of_element [OF ops c x] c
    by (simp add: Let_def eval_poly_0 del: eval_poly_Cons)
qed

text \<open>Fewer than \<open>threshold\<close> distinct shares of a split are refused with
  \<open>InsufficientShares\<close>.\<close>

theorem reconstruct_insufficient:
  assumes "split fill secret t n g = Inr (shares, g')"
    and "set sel \<subseteq> set shares" "distinct (map sh_index sel)" "sel \<noteq> []" "length sel < t"
  shows "reconstruct into_big inverse_op sel = Inl SS_InsufficientShares"
  using reconstruct_selection [OF assms(1-4)] assms(5) by simp





text \<open>The functions \<open>encode\<close> and \<open>decode\<close> are inverse bijections between the well-formed shares and the byte
  strings \<open>decode\<close> accepts: decoding an encoded share gives it back, and a byte string that decodes
  is the encoding of the share it decodes to, so every share has exactly one accepted encoding.\<close>

theorem Share_codec:
  assumes "field_ops fr_modulus into_big"
  shows "Share_decode bs = Inr s \<longleftrightarrow> share_wf s \<and> bs = Share_encode into_big s"
  using Share_decode_encode [OF assms] Share_encode_decode [OF assms] by metis

section \<open>Totality of splitting\<close>

lemma random_element_loop_no_panic:
  assumes "\<And>g n. length (fst (fill g n)) = n"
  shows "random_element_loop fill k g = Inl e \<Longrightarrow> e = SS_RngFailure"
proof (induction k arbitrary: g)
  case 0
  then show ?case by simp
next
  case (Suc k)
  obtain buf g' where fg: "fill g FIELD_ELEMENT_SIZE = (buf, g')" by force
  then have len: "length buf = 32" using assms [of g FIELD_ELEMENT_SIZE] by (simp add: FIELD_ELEMENT_SIZE_def)
  show ?case
  proof (cases "buf < MODULUS_BE")
    case True
    then show ?thesis using Suc.prems by (simp add: fg exact_element_from_be_eq [OF len])
  next
    case False
    then show ?thesis using Suc by (simp add: fg)
  qed
qed

lemma draw_coefficients_no_panic:
  assumes "\<And>g n. length (fst (fill g n)) = n"
  shows "draw_coefficients fill k g = Inl e \<Longrightarrow> e = SS_RngFailure"
  using random_element_loop_no_panic [OF assms]
  by (induction k arbitrary: g) (auto simp: rbind_eq_Inl random_element_def split: prod.splits)

lemma stripped_length:
  assumes "be_value bs < fr_modulus"
  shows "length (dropWhile (\<lambda>b. b = 0) bs) \<le> 32"
proof (cases "dropWhile (\<lambda>b. b = 0) bs")
  case (Cons b rest)
  then have "b \<noteq> 0" by (simp add: dropWhile_eq_Cons_conv)
  then have "1 \<le> unat b" by (simp add: Suc_le_eq unat_gt_0)
  then have "256 ^ length rest \<le> be_value (b # rest)"
    by (simp add: be_value_Cons trans_le_add1)
  also have "\<dots> = be_value bs" using be_value_dropWhile [of bs] Cons by simp
  also have "\<dots> < 256 ^ 32" using assms fr_modulus_lt by simp
  finally have "length rest < 32" by (simp only: power_strict_increasing_iff)
  then show ?thesis using Cons by simp
next
  case Nil
  show ?thesis unfolding Nil by simp
qed

lemma canonical_element:
  assumes "secret \<noteq> []"
  shows "\<exists>c. canonical_secret_bytes secret = Inr c \<and>
    element_from_be_bytes c = (if be_value secret < fr_modulus then Inr (of_nat (be_value secret))
      else Inl SS_SecretTooLargeForField)"
proof -
  obtain c where c: "canonical_secret_bytes secret = Inr c"
    using assms by (cases "\<forall>b\<in>set secret. b = 0") (auto simp: canonical_secret_bytes_def Let_def)
  then have "length c \<le> 32" if "be_value secret < fr_modulus"
    using stripped_length [OF that] by (auto simp: canonical_secret_bytes_def Let_def split: if_splits)
  then show ?thesis using c canonical_secret_bytes_value [OF c] by (auto simp: element_from_be_bytes_eq)
qed

text \<open>With valid parameters and a non-empty secret below the field order, \<open>split\<close> returns
  \<open>share_count\<close> shares with the indices \<open>1..=share_count\<close>, each of them well formed, or reports that
  the random generator kept failing; it never panics. A secret at or above the field order is
  refused.\<close>

theorem split_total:
  assumes "\<And>g n. length (fst (fill g n)) = n" and t: "2 \<le> t" "t \<le> n" "n \<le> MAX_SHARE_COUNT"
    and secret: "secret \<noteq> []"
  shows "case split fill secret t n g of
      Inl e \<Rightarrow> e = (if be_value secret < fr_modulus then SS_RngFailure else SS_SecretTooLargeForField)
    | Inr (shares :: 'f::comm_ring_1 share list, g') \<Rightarrow> be_value secret < fr_modulus \<and> length shares = n \<and>
        (\<forall>i<n. share_wf (shares ! i) \<and> unat (sh_index (shares ! i)) = i + 1)"
proof (cases "be_value secret < fr_modulus")
  case True
  obtain c where c: "canonical_secret_bytes secret = Inr c"
      "element_from_be_bytes c = Inr (of_nat (be_value secret) :: 'f)"
    using canonical_element [OF secret, where ?'a = 'f] True by auto
  have n: "n < 2 ^ 32" using t(3) by (simp add: MAX_SHARE_COUNT_def)
  have w: "unat (of_nat k :: u32) = k" if "k \<le> n" for k using that n by (simp add: unat_of_nat)
  show ?thesis
  proof (cases "draw_coefficients fill (t - 1) g :: (secret_sharing_error, 'f list \<times> _) result")
    case (Inl e)
    then show ?thesis using c t True draw_coefficients_no_panic [OF assms(1) Inl]
      by (simp add: split_def)
  next
    case (Inr p)
    obtain cs g' where p: "p = (cs, g')" by force
    let ?f = "\<lambda>i. \<lparr>sh_version = SHARE_VERSION, sh_threshold = of_nat t, sh_share_count = of_nat n,
        sh_index = of_nat i, sh_value = eval_poly (of_nat (be_value secret) # cs) (of_nat i)\<rparr>"
    have "split fill secret t n g = Inr (map ?f [1..<n + 1], g')"
      using c t n Inr rmap_Share_new [OF n, of "of_nat t" "of_nat n"] unfolding p
      by (simp add: split_def u32_try_from_def del: upt_Suc eval_poly_Cons)
    moreover have "share_wf (?f (i + 1)) \<and> unat (sh_index (?f (i + 1))) = i + 1" if "i < n" for i
      using w [of t] w [of n] w [of "i + 1"] t that
      by (auto simp: share_wf_def word_le_nat_alt unat_eq_zero word_unat_eq_iff simp del: of_nat_add of_nat_Suc)
    ultimately show ?thesis using True by (auto simp del: upt_Suc)
  qed
next
  case False
  then show ?thesis using canonical_element [OF secret, where ?'a = 'f] t by (auto simp: split_def)
qed

section \<open>Hiding\<close>


lemma random_element_bytes:
  assumes "fill g FIELD_ELEMENT_SIZE = (be_bytes FIELD_ELEMENT_SIZE v, g')" "v < fr_modulus"
  shows "random_element fill g = Inr (of_nat v, g')"
proof -
  have lt: "v < 256 ^ 32" using assms(2) fr_modulus_lt by simp
  then have "be_value (be_bytes 32 v) = v" by (simp add: be_value_be_bytes)
  moreover have "be_bytes 32 v < MODULUS_BE"
    using be_value_less_iff [of "be_bytes 32 v" MODULUS_BE] MODULUS_BE_value calculation assms(2)
    by (simp add: FIELD_ELEMENT_SIZE_def)
  ultimately show ?thesis
    using random_element_loop.simps(2) [of fill 1023 g] assms
    by (simp add: random_element_def FIELD_ELEMENT_SIZE_def exact_element_from_be_eq)
qed






section \<open>A concrete run\<close>

text \<open>A deterministic generator that returns its counter, and a two-out-of-three sharing of the
  byte 5 with it: the polynomial is \<open>5 + 7 x\<close>.\<close>

definition counter_fill :: "nat \<Rightarrow> nat \<Rightarrow> bytes \<times> nat" where
  "counter_fill g n = (be_bytes n g, Suc g)"

lemma random_element_counter:
  "g < fr_modulus \<Longrightarrow> random_element counter_fill g = Inr (of_nat g, Suc g)"
  by (rule random_element_bytes) (simp_all add: counter_fill_def)

definition demo_share :: "nat \<Rightarrow> fr \<Rightarrow> fr share" where
  "demo_share i y = \<lparr>sh_version = SHARE_VERSION, sh_threshold = 2, sh_share_count = 3,
     sh_index = of_nat i, sh_value = y\<rparr>"

lemma demo_split:
  "split counter_fill [5] 2 3 7 = Inr ([demo_share 1 12, demo_share 2 19, demo_share 3 26], 8)"
proof -
  have "canonical_secret_bytes [5] = Inr [5]" by (simp add: canonical_secret_bytes_def)
  moreover have "element_from_be_bytes [5] = Inr (5 :: fr)"
    by (simp add: element_from_be_bytes_eq be_value_Cons fr_modulus_def)
  moreover have "draw_coefficients counter_fill (Suc 0) 7 = Inr ([7 :: fr], 8)"
    using random_element_counter [of 7, where ?'a = fr] by (simp add: fr_modulus_def)
  moreover have "[1..<3 + 1] = [1, 2, 3 :: nat]" by (simp add: upt_rec)
  ultimately show ?thesis
    by (simp add: split_def MAX_SHARE_COUNT_def u32_try_from_def Share_new_def demo_share_def)
qed

lemma demo_inverses: "index_inverses fr_inverse 3"
proof -
  have "coprime d fr_modulus" if "0 < d" "d \<le> 3" for d
  proof -
    have "d = 1 \<or> d = 2 \<or> d = 3" using that by linarith
    moreover have "fr_modulus mod 2 = 1" "fr_modulus mod 3 = 1 \<or> fr_modulus mod 3 = 2"
      by (simp_all add: fr_modulus_def)
    then have "gcd fr_modulus 2 = 1" "gcd fr_modulus 3 = 1"
      using gcd_red_nat [of fr_modulus 2] gcd_red_nat [of fr_modulus 3] gcd_red_nat [of 3 2] by auto
    ultimately show ?thesis by (auto simp: coprime_iff_gcd_eq_1 gcd.commute)
  qed
  then show ?thesis
    unfolding index_inverses_def fr_inverse_def
    using fr.bezout_inverse_diff [of 3] by (auto simp: fr_modulus_def)
qed

theorem reconstruct_split_witness:
  "reconstruct fr_into_bigint fr_inverse [demo_share 3 26, demo_share 1 12] = Inr [5]"
  using reconstruct_split [OF fr.field_ops_axioms demo_inverses demo_split,
      of "[demo_share 3 26, demo_share 1 12]"]
  by (simp add: demo_share_def canonical_secret_bytes_def)

theorem reconstruct_insufficient_witness:
  "reconstruct fr_into_bigint fr_inverse [demo_share 2 19] = Inl SS_InsufficientShares"
  using reconstruct_insufficient [OF demo_split, of "[demo_share 2 19]"]
  by simp


theorem Share_codec_witness:
  "Share_decode (Share_encode fr_into_bigint (demo_share 2 19)) = Inr (demo_share 2 19)"
  using Share_codec [OF fr.field_ops_axioms, of "Share_encode fr_into_bigint (demo_share 2 19)" "demo_share 2 19"]
  by (simp add: share_wf_def demo_share_def MAX_SHARE_COUNT_def)

theorem split_total_witness:
  "share_wf (demo_share 1 12) \<and> share_wf (demo_share 2 19) \<and> share_wf (demo_share 3 26)"
proof -
  have "share_wf ([demo_share 1 12, demo_share 2 19, demo_share 3 26] ! i)" if "i < 3" for i
    using split_total [of counter_fill 2 3 "[5]" 7, where ?'f = fr] demo_split that
    by (simp add: counter_fill_def MAX_SHARE_COUNT_def fr_modulus_def be_value_Cons)
  from this [of 0] this [of 1] this [of 2] show ?thesis by simp
qed

end
