(* ===== verification/Mpc.thy ===== *)
theory Mpc
  imports Prime_Field
begin

text \<open>
  Model of \<open>crates/mpc\<close>: additive sharing among \<open>party_count\<close> parties, Beaver triples from the
  local trusted provider, arithmetic on shared values, and the simulator that runs all parties.

  A \<open>Share<F>\<close> and a \<open>PublicValue<F>\<close> wrap one field element and are that element here.
  \<open>F::rand\<close> is the parameter \<open>rand\<close> on the generator state; the trait object
  \<open>dyn TripleProvider\<close> is the parameter \<open>next_triple\<close> on the provider state. What clients rely on
  is the locale \<open>triple_provider\<close>, interpreted on the \<open>LocalTrustedTripleProvider\<close>.
\<close>

section \<open>Data\<close>

datatype mpc_error =
    Mpc_InvalidPartyCount
  | Mpc_InvalidPartyId
  | Mpc_DuplicateParty
  | Mpc_MissingParty
  | Mpc_ContextMismatch
  | Mpc_InvalidShare
  | Mpc_InsufficientShares
  | Mpc_TripleExhaustion
  | Mpc_TripleReuse
  | Mpc_RngFailure
  | Mpc_InvalidOperation
  | Mpc_RevealMisuse

datatype 'f shared_value = SharedValue (shares: "'f list")

definition from_shares :: "'f list \<Rightarrow> (mpc_error, 'f shared_value) result" where
  "from_shares ss = (if ss = [] then Inl Mpc_InvalidShare else Inr (SharedValue ss))"

abbreviation sv_len :: "'f shared_value \<Rightarrow> nat" where
  "sv_len x \<equiv> length (shares x)"

record share_context =
  party_count :: nat
  execution_id :: u64
  domain :: u8

definition ShareContext_new :: "nat \<Rightarrow> u64 \<Rightarrow> u8 \<Rightarrow> (mpc_error, share_context) result" where
  "ShareContext_new n e d =
     (if n \<le> 1 then Inl Mpc_InvalidPartyCount
      else Inr \<lparr>party_count = n, execution_id = e, domain = d\<rparr>)"

section \<open>Sharing\<close>

text \<open>The loop \<open>for _ in 1..party_count\<close>, with the running sum.\<close>

fun share_loop :: "('g \<Rightarrow> 'f::comm_ring_1 \<times> 'g) \<Rightarrow> nat \<Rightarrow> 'f \<Rightarrow> 'f list \<Rightarrow> 'g \<Rightarrow> 'f \<times> 'f list \<times> 'g" where
  "share_loop rand 0 random_sum acc g = (random_sum, acc, g)"
| "share_loop rand (Suc n) random_sum acc g =
     (let (r, g') = rand g in share_loop rand n (random_sum + r) (acc @ [r]) g')"

definition share_input ::
    "('g \<Rightarrow> 'f::comm_ring_1 \<times> 'g) \<Rightarrow> share_context \<Rightarrow> 'f \<Rightarrow> ('g, mpc_error, 'f list) op" where
  "share_input rand ctx secret g =
     (if party_count ctx \<le> 1 then (Inl Mpc_InvalidPartyCount, g)
      else let (random_sum, ss, g') = share_loop rand (party_count ctx - 1) 0 [] g
           in (Inr (ss @ [secret - random_sum]), g'))"

definition mpc_reconstruct :: "share_context \<Rightarrow> 'f::comm_ring_1 list \<Rightarrow> (mpc_error, 'f) result" where
  "mpc_reconstruct ctx ss =
     (if length ss < party_count ctx then Inl Mpc_InsufficientShares
      else if length ss > party_count ctx then Inl Mpc_InvalidOperation
      else Inr (foldl (+) 0 ss))"

section \<open>Beaver triples\<close>

record 'f beaver_triple =
  bt_a :: "'f shared_value"
  bt_b :: "'f shared_value"
  bt_c :: "'f shared_value"

record 'g triple_provider_state =
  tp_ctx :: share_context
  tp_rng :: 'g
  next_id :: u64
  issued_ids :: "u64 set"

definition TripleProvider_new :: "share_context \<Rightarrow> 'g \<Rightarrow> (mpc_error, 'g triple_provider_state) result" where
  "TripleProvider_new ctx rng =
     (if party_count ctx \<le> 1 then Inl Mpc_InvalidPartyCount
      else Inr \<lparr>tp_ctx = ctx, tp_rng = rng, next_id = 0, issued_ids = {}\<rparr>)"

definition issue_id :: "('g triple_provider_state, mpc_error, u64) op" where
  "issue_id p =
     (if next_id p = - 1 then (Inl Mpc_TripleExhaustion, p)
      else let id = next_id p + 1 in
        if id - 1 \<in> issued_ids p then (Inl Mpc_TripleReuse, p)
        else (Inr (id - 1), p\<lparr>issued_ids := insert (id - 1) (issued_ids p), next_id := id\<rparr>))"

definition shared_from ::
    "('g \<Rightarrow> 'f::comm_ring_1 \<times> 'g) \<Rightarrow> share_context \<Rightarrow> 'f \<Rightarrow> ('g, mpc_error, 'f shared_value) op" where
  "shared_from rand ctx v =
     obind (share_input rand ctx v) (\<lambda>ss. oret (map_err (\<lambda>_. Mpc_InvalidShare) (from_shares ss)))"

text \<open>\<open>&mut self.rng\<close>: an operation on the generator inside the provider.\<close>

definition on_rng :: "('g, 'e, 'a) op \<Rightarrow> ('g triple_provider_state, 'e, 'a) op" where
  "on_rng m p = (let (r, g) = m (tp_rng p) in (r, p\<lparr>tp_rng := g\<rparr>))"

definition next_triple ::
    "('g \<Rightarrow> 'f::comm_ring_1 \<times> 'g) \<Rightarrow> ('g triple_provider_state, mpc_error, 'f beaver_triple) op" where
  "next_triple rand =
     obind issue_id (\<lambda>_.
     obind (on_rng (\<lambda>g. let (x, g') = rand g in (Inr x, g'))) (\<lambda>a_value.
     obind (on_rng (\<lambda>g. let (x, g') = rand g in (Inr x, g'))) (\<lambda>b_value.
     let c_value = a_value * b_value in (\<lambda>p.
     obind (on_rng (shared_from rand (tp_ctx p) a_value)) (\<lambda>a.
     obind (on_rng (shared_from rand (tp_ctx p) b_value)) (\<lambda>b.
     obind (on_rng (shared_from rand (tp_ctx p) c_value)) (\<lambda>c.
     oret (Inr \<lparr>bt_a = a, bt_b = b, bt_c = c\<rparr>)))) p))))"

section \<open>Arithmetic on shared values\<close>

definition add_public :: "'f::comm_ring_1 shared_value \<Rightarrow> 'f \<Rightarrow> 'f shared_value" where
  "add_public x delta =
     SharedValue (case shares x of [] \<Rightarrow> [] | s # rest \<Rightarrow> (s + delta) # rest)"

definition add_secret ::
    "'f::comm_ring_1 shared_value \<Rightarrow> 'f shared_value \<Rightarrow> (mpc_error, 'f shared_value) result" where
  "add_secret x y =
     (if sv_len x \<noteq> sv_len y then Inl Mpc_ContextMismatch
      else Inr (SharedValue (map (\<lambda>(a, b). a + b) (zip (shares x) (shares y)))))"

definition mul_public :: "'f::comm_ring_1 shared_value \<Rightarrow> 'f \<Rightarrow> 'f shared_value" where
  "mul_public x scale = SharedValue (map (\<lambda>s. s * scale) (shares x))"

definition sum_shares :: "'f::comm_ring_1 list \<Rightarrow> 'f" where
  "sum_shares ss = foldl (+) 0 ss"

definition beaver_shares :: "'f::comm_ring_1 beaver_triple \<Rightarrow> 'f \<Rightarrow> 'f \<Rightarrow> 'f list" where
  "beaver_shares t d e =
     map (\<lambda>((i, ci), (bi, ai)).
         let z = ci + d * bi + e * ai in if i = 0 then z + d * e else z)
       (zip (enumerate 0 (shares (bt_c t))) (zip (shares (bt_b t)) (shares (bt_a t))))"

definition mul_secret ::
    "('p, mpc_error, 'f::comm_ring_1 beaver_triple) op \<Rightarrow> 'f shared_value \<Rightarrow> 'f shared_value \<Rightarrow>
     ('p, mpc_error, 'f shared_value) op" where
  "mul_secret next_triple_op x y p =
     (if sv_len x \<noteq> sv_len y then (Inl Mpc_ContextMismatch, p)
      else obind next_triple_op (\<lambda>t.
        if sv_len (bt_a t) \<noteq> sv_len x \<or> sv_len (bt_b t) \<noteq> sv_len x \<or> sv_len (bt_c t) \<noteq> sv_len x
        then oret (Inl Mpc_ContextMismatch)
        else
          let d = sum_shares (map (\<lambda>(xi, ai). xi - ai) (zip (shares x) (shares (bt_a t))));
              e = sum_shares (map (\<lambda>(yi, bi). yi - bi) (zip (shares y) (shares (bt_b t))))
          in oret (Inr (SharedValue (beaver_shares t d e)))) p)"

section \<open>The simulator\<close>

record ('p, 'g) mpc_simulator =
  sim_ctx :: share_context
  sim_provider :: 'p
  sim_rng :: 'g

definition Simulator_new :: "share_context \<Rightarrow> 'p \<Rightarrow> 'g \<Rightarrow> (mpc_error, ('p, 'g) mpc_simulator) result" where
  "Simulator_new ctx provider rng =
     (if party_count ctx \<le> 1 then Inl Mpc_InvalidPartyCount
      else Inr \<lparr>sim_ctx = ctx, sim_provider = provider, sim_rng = rng\<rparr>)"

definition sim_input ::
    "('g \<Rightarrow> 'f::comm_ring_1 \<times> 'g) \<Rightarrow> 'f \<Rightarrow> (('p, 'g) mpc_simulator, mpc_error, 'f shared_value) op" where
  "sim_input rand secret sim =
     (let (r, g) = share_input rand (sim_ctx sim) secret (sim_rng sim)
      in (rbind r (\<lambda>ss. map_err (\<lambda>_. Mpc_InvalidShare) (from_shares ss)), sim\<lparr>sim_rng := g\<rparr>))"

definition sim_reveal :: "('p, 'g) mpc_simulator \<Rightarrow> 'f::comm_ring_1 shared_value \<Rightarrow> (mpc_error, 'f) result" where
  "sim_reveal sim x =
     (if sv_len x \<noteq> party_count (sim_ctx sim) then Inl Mpc_RevealMisuse
      else mpc_reconstruct (sim_ctx sim) (shares x))"

definition sim_add ::
    "'f::comm_ring_1 shared_value \<Rightarrow> 'f shared_value \<Rightarrow> (mpc_error, 'f shared_value) result" where
  "sim_add x y = add_secret x y"

definition sim_mul ::
    "('p, mpc_error, 'f::comm_ring_1 beaver_triple) op \<Rightarrow> 'f shared_value \<Rightarrow> 'f shared_value \<Rightarrow>
     (('p, 'g) mpc_simulator, mpc_error, 'f shared_value) op" where
  "sim_mul next_triple_op x y sim =
     (let (r, p) = mul_secret next_triple_op x y (sim_provider sim) in (r, sim\<lparr>sim_provider := p\<rparr>))"

text \<open>The counting \<open>TranscriptHook\<close> of the crate.\<close>

definition record_operation :: "nat \<Rightarrow> nat" where
  "record_operation recorded_events = recorded_events + 1"

definition record_reveal :: "nat \<Rightarrow> nat" where
  "record_reveal recorded_events = recorded_events + 1"

section \<open>The value of a shared value\<close>

definition sv_value :: "'f::comm_ring_1 shared_value \<Rightarrow> 'f" where
  "sv_value x = sum_list (shares x)"

definition is_sharing :: "nat \<Rightarrow> 'f::comm_ring_1 \<Rightarrow> 'f shared_value \<Rightarrow> bool" where
  "is_sharing n v x \<longleftrightarrow> sv_len x = n \<and> sv_value x = v"

lemma foldl_sum_list: "foldl (+) (a :: 'f::comm_ring_1) xs = a + sum_list xs"
  by (induction xs arbitrary: a) (simp_all add: add.assoc)

lemma sum_shares_eq: "sum_shares ss = sum_list ss"
  by (simp add: sum_shares_def foldl_sum_list)

lemma share_loop_spec:
  "share_loop rand n s acc g = (s', ss, g') \<Longrightarrow>
     \<exists>rs. ss = acc @ rs \<and> length rs = n \<and> s' = s + sum_list rs"
proof (induction n arbitrary: s acc g)
  case 0
  then show ?case by simp
next
  case (Suc n)
  obtain r g1 where r: "rand g = (r, g1)" by force
  with Suc.prems have "share_loop rand n (s + r) (acc @ [r]) g1 = (s', ss, g')" by simp
  from Suc.IH [OF this] obtain rs where "ss = acc @ r # rs" "length rs = n" "s' = s + r + sum_list rs" by auto
  then show ?case by (intro exI [of _ "r # rs"]) (simp add: add.assoc)
qed

lemma share_input_spec:
  assumes "2 \<le> party_count ctx"
  shows "\<exists>rs g'. share_input rand ctx v g = (Inr (rs @ [v - sum_list rs]), g') \<and> length rs = party_count ctx - 1"
proof -
  obtain s' ss g' where l: "share_loop rand (party_count ctx - 1) 0 [] g = (s', ss, g')"
    by (metis prod_cases3)
  from share_loop_spec [OF this] show ?thesis using assms l by (auto simp: share_input_def)
qed

lemma shared_from_spec:
  assumes "2 \<le> party_count ctx"
  shows "\<exists>x g'. shared_from rand ctx v g = (Inr x, g') \<and> is_sharing (party_count ctx) v x"
proof -
  obtain rs g' where "share_input rand ctx v g = (Inr (rs @ [v - sum_list rs]), g')"
      "length rs = party_count ctx - 1"
    using share_input_spec [OF assms, of rand v g] by blast
  then show ?thesis
    using assms by (auto simp: shared_from_def from_shares_def is_sharing_def sv_value_def)
qed

lemma sim_input_spec:
  assumes "2 \<le> party_count (sim_ctx sim)"
  shows "\<exists>x g'. sim_input rand v sim = (Inr x, sim\<lparr>sim_rng := g'\<rparr>) \<and> is_sharing (party_count (sim_ctx sim)) v x"
proof -
  obtain rs g' where "share_input rand (sim_ctx sim) v (sim_rng sim) = (Inr (rs @ [v - sum_list rs]), g')"
      "length rs = party_count (sim_ctx sim) - 1"
    using share_input_spec [OF assms, of rand v "sim_rng sim"] by blast
  then show ?thesis
    using assms by (auto simp: sim_input_def from_shares_def is_sharing_def sv_value_def)
qed

lemma mpc_reconstruct_spec:
  "mpc_reconstruct ctx ss =
     (if length ss = party_count ctx then Inr (sum_list ss)
      else if length ss < party_count ctx then Inl Mpc_InsufficientShares else Inl Mpc_InvalidOperation)"
  by (simp add: mpc_reconstruct_def foldl_sum_list)

lemma sim_reveal_sharing:
  "is_sharing (party_count (sim_ctx sim)) v x \<Longrightarrow> sim_reveal sim x = Inr v"
  by (simp add: sim_reveal_def mpc_reconstruct_spec is_sharing_def sv_value_def)

lemma add_public_sharing:
  "is_sharing n v x \<Longrightarrow> 0 < n \<Longrightarrow> is_sharing n (v + c) (add_public x c)"
  by (cases "shares x") (auto simp: is_sharing_def add_public_def sv_value_def)

lemma mul_public_sharing: "is_sharing n v x \<Longrightarrow> is_sharing n (v * c) (mul_public x c)"
proof -
  have "sum_list (map (\<lambda>s. s * c) ss) = sum_list ss * c" for ss
    by (induction ss) (simp_all add: algebra_simps)
  then show "is_sharing n v x \<Longrightarrow> is_sharing n (v * c) (mul_public x c)"
    by (auto simp: is_sharing_def mul_public_def sv_value_def)
qed

lemma sum_list_zip_add:
  "length xs = length ys \<Longrightarrow> sum_list (map (\<lambda>(a, b). a + b) (zip xs ys)) = sum_list xs + (sum_list ys :: 'f::comm_ring_1)"
  by (induction xs ys rule: list_induct2) (auto simp: algebra_simps)

lemma sum_list_zip_diff:
  "length xs = length ys \<Longrightarrow> sum_list (map (\<lambda>(a, b). a - b) (zip xs ys)) = sum_list xs - (sum_list ys :: 'f::comm_ring_1)"
  by (induction xs ys rule: list_induct2) (auto simp: algebra_simps)

lemma add_secret_sharing:
  assumes "is_sharing n v x" "is_sharing n w y"
  shows "\<exists>z. add_secret x y = Inr z \<and> is_sharing n (v + w) z"
  using assms by (auto simp: add_secret_def is_sharing_def sv_value_def sum_list_zip_add)

section \<open>Beaver multiplication\<close>

definition triple_ok :: "nat \<Rightarrow> 'f::comm_ring_1 beaver_triple \<Rightarrow> bool" where
  "triple_ok n t \<longleftrightarrow> sv_len (bt_a t) = n \<and> sv_len (bt_b t) = n \<and> sv_len (bt_c t) = n \<and>
     sv_value (bt_c t) = sv_value (bt_a t) * sv_value (bt_b t)"

text \<open>All parties but the first add \<open>c + d b + e a\<close>; the first adds \<open>d e\<close> too.\<close>

lemma beaver_tail:
  assumes "length cs = length bs" "length bs = length as" "0 < k"
  shows "sum_list (map (\<lambda>((i, ci), (bi, ai)). let z = ci + d * bi + e * ai in if i = 0 then z + d * e else z)
      (zip (enumerate k cs) (zip bs as))) = sum_list cs + d * sum_list bs + e * (sum_list as :: 'f::comm_ring_1)"
  using assms
proof (induction cs bs as arbitrary: k rule: list_induct3)
  case Nil
  then show ?case by simp
next
  case (Cons c cs b bs a as)
  then show ?case by (simp add: algebra_simps)
qed

lemma beaver_shares_sum:
  assumes "sv_len (bt_a t) = n" "sv_len (bt_b t) = n" "sv_len (bt_c t) = n" "0 < n"
  shows "length (beaver_shares t d e) = n"
    and "sum_list (beaver_shares t d e) =
      sv_value (bt_c t) + d * sv_value (bt_b t) + e * sv_value (bt_a t) + d * e"
proof -
  show "length (beaver_shares t d e) = n" using assms by (simp add: beaver_shares_def)
  obtain a as b bs c cs where "shares (bt_a t) = a # as" "shares (bt_b t) = b # bs" "shares (bt_c t) = c # cs"
    using assms by (metis length_0_conv neq_Nil_conv not_less0)
  then show "sum_list (beaver_shares t d e) =
      sv_value (bt_c t) + d * sv_value (bt_b t) + e * sv_value (bt_a t) + d * e"
    using assms beaver_tail [of cs bs as 1 d e]
    by (simp add: beaver_shares_def sv_value_def algebra_simps)
qed

text \<open>The contract of \<open>TripleProvider\<close>: from a state that satisfies \<open>inv\<close> every triple it hands
  out is a sharing of some \<open>a\<close>, \<open>b\<close> and \<open>a b\<close> among \<open>parties\<close> parties, and \<open>remaining\<close> further
  calls are sure to succeed.\<close>

locale triple_provider =
  fixes next_op :: "('p, mpc_error, 'f::comm_ring_1 beaver_triple) op"
    and parties :: nat
    and pinv :: "'p \<Rightarrow> bool"
    and remaining :: "'p \<Rightarrow> nat"
  assumes parties_pos: "0 < parties"
    and next_inv: "pinv p \<Longrightarrow> next_op p = (r, p') \<Longrightarrow> pinv p'"
    and next_ok: "pinv p \<Longrightarrow> next_op p = (Inr t, p') \<Longrightarrow> triple_ok parties t"
    and next_remaining: "pinv p \<Longrightarrow> 0 < remaining p \<Longrightarrow>
      \<exists>t p'. next_op p = (Inr t, p') \<and> remaining p \<le> Suc (remaining p')"
begin

lemma mul_secret_inv: "pinv p \<Longrightarrow> mul_secret next_op x y p = (r, p') \<Longrightarrow> pinv p'"
proof -
  assume p: "pinv p" and m: "mul_secret next_op x y p = (r, p')"
  obtain q p1 where "next_op p = (q, p1)" by force
  then show "pinv p'" using m next_inv [OF p] p
    by (cases q) (auto simp: mul_secret_def Let_def split: if_splits)
qed

lemma mul_secret_sharing:
  assumes p: "pinv p" and x: "is_sharing parties v x" and y: "is_sharing parties w y"
    and m: "mul_secret next_op x y p = (r, p')"
  shows "(\<exists>z. r = Inr z \<and> is_sharing parties (v * w) z) \<or> (\<exists>e. r = Inl e \<and> next_op p = (Inl e, p'))"
proof -
  obtain q p1 where q: "next_op p = (q, p1)" by force
  show ?thesis
  proof (cases q)
    case (Inl e)
    then show ?thesis using m q x y by (auto simp: mul_secret_def is_sharing_def)
  next
    case (Inr t)
    have t: "sv_len (bt_a t) = parties" "sv_len (bt_b t) = parties" "sv_len (bt_c t) = parties"
      "sv_value (bt_c t) = sv_value (bt_a t) * sv_value (bt_b t)"
      using next_ok [OF p] q Inr by (auto simp: triple_ok_def)
    let ?d = "v - sv_value (bt_a t)" and ?e = "w - sv_value (bt_b t)"
    have "r = Inr (SharedValue (beaver_shares t ?d ?e))"
      using m q Inr x y t
      by (simp add: mul_secret_def is_sharing_def Let_def sum_shares_eq sum_list_zip_diff sv_value_def [symmetric])
    moreover have "is_sharing parties (v * w) (SharedValue (beaver_shares t ?d ?e))"
      using beaver_shares_sum [OF t(1-3) parties_pos] t(4)
      by (simp add: is_sharing_def sv_value_def [of "SharedValue _"] algebra_simps)
    ultimately show ?thesis by blast
  qed
qed

lemma mul_secret_progress:
  assumes p: "pinv p" "0 < remaining p" and x: "is_sharing parties v x" and y: "is_sharing parties w y"
  shows "\<exists>z p'. mul_secret next_op x y p = (Inr z, p') \<and> is_sharing parties (v * w) z \<and> pinv p' \<and>
    remaining p \<le> Suc (remaining p')"
proof -
  obtain t p' where t: "next_op p = (Inr t, p')" "remaining p \<le> Suc (remaining p')"
    using next_remaining [OF p] by blast
  obtain r p'' where m: "mul_secret next_op x y p = (r, p'')" by force
  have "p'' = p'" using m t(1) x y by (auto simp: mul_secret_def is_sharing_def Let_def split: if_splits)
  then show ?thesis
    using mul_secret_sharing [OF p(1) x y m] mul_secret_inv [OF p(1) m] m t by auto
qed

end

section \<open>The local trusted provider meets the contract\<close>

text \<open>The ids issued so far are exactly the ones below \<open>next_id\<close>.\<close>

definition provider_inv :: "nat \<Rightarrow> 'g triple_provider_state \<Rightarrow> bool" where
  "provider_inv n p \<longleftrightarrow> 2 \<le> n \<and> party_count (tp_ctx p) = n \<and> issued_ids p = {i. i < next_id p}"

definition provider_remaining :: "'g triple_provider_state \<Rightarrow> nat" where
  "provider_remaining p = 2 ^ 64 - 1 - unat (next_id p)"

lemma unat_max: "unat (- 1 :: u64) = 2 ^ 64 - 1"
  by (simp add: unsigned_minus_1_eq_mask mask_eq_exp_minus_1)

lemma unat_succ: "x \<noteq> - 1 \<Longrightarrow> unat (x + 1) = Suc (unat (x :: u64))"
proof -
  assume "x \<noteq> - 1"
  then have "unat x + 1 < 2 ^ 64"
    using unsigned_less [of x, where ?'a = nat] word_unat_eq_iff [of x "- 1"] by (simp add: unat_max)
  then show ?thesis by (simp add: unat_add_lem [of x 1, symmetric] unat_word_ariths(1))
qed

lemma issue_id_step:
  assumes "provider_inv n p" "next_id p \<noteq> - 1"
  shows "issue_id p = (Inr (next_id p), p\<lparr>issued_ids := insert (next_id p) (issued_ids p), next_id := next_id p + 1\<rparr>)"
    and "provider_inv n (p\<lparr>issued_ids := insert (next_id p) (issued_ids p), next_id := next_id p + 1\<rparr>)"
proof -
  show "issue_id p = (Inr (next_id p), p\<lparr>issued_ids := insert (next_id p) (issued_ids p), next_id := next_id p + 1\<rparr>)"
    using assms by (simp add: issue_id_def provider_inv_def Let_def)
  have "insert (next_id p) {i. i < next_id p} = {i. i < next_id p + 1}"
    using unat_succ [OF assms(2)] by (auto simp: word_less_nat_alt word_unat_eq_iff less_Suc_eq)
  then show "provider_inv n (p\<lparr>issued_ids := insert (next_id p) (issued_ids p), next_id := next_id p + 1\<rparr>)"
    using assms(1) by (simp add: provider_inv_def)
qed

lemma issue_id_exhausted: "next_id p = - 1 \<Longrightarrow> issue_id p = (Inl Mpc_TripleExhaustion, p)"
  by (simp add: issue_id_def)

lemma provider_inv_rng [simp]: "provider_inv n (p\<lparr>tp_rng := g\<rparr>) \<longleftrightarrow> provider_inv n p"
  by (simp add: provider_inv_def)

lemma next_triple_step:
  assumes p: "provider_inv n p" "next_id p \<noteq> - 1"
  shows "\<exists>t g. next_triple rand p = (Inr t, p\<lparr>issued_ids := insert (next_id p) (issued_ids p),
      next_id := next_id p + 1, tp_rng := g\<rparr>) \<and> triple_ok n t"
proof -
  let ?p = "\<lambda>g. p\<lparr>issued_ids := insert (next_id p) (issued_ids p), next_id := next_id p + 1, tp_rng := g\<rparr>"
  have n: "2 \<le> party_count (tp_ctx p)" "party_count (tp_ctx p) = n" using p(1) by (simp_all add: provider_inv_def)
  obtain av g1 where a: "rand (tp_rng p) = (av, g1)" by force
  obtain bv g2 where b: "rand g1 = (bv, g2)" by force
  obtain sa g3 where sa: "shared_from rand (tp_ctx p) av g2 = (Inr sa, g3)" "is_sharing n av sa"
    using shared_from_spec [OF n(1)] n(2) by metis
  obtain sb g4 where sb: "shared_from rand (tp_ctx p) bv g3 = (Inr sb, g4)" "is_sharing n bv sb"
    using shared_from_spec [OF n(1)] n(2) by metis
  obtain sc g5 where sc: "shared_from rand (tp_ctx p) (av * bv) g4 = (Inr sc, g5)" "is_sharing n (av * bv) sc"
    using shared_from_spec [OF n(1)] n(2) by metis
  have "next_triple rand p = (Inr \<lparr>bt_a = sa, bt_b = sb, bt_c = sc\<rparr>, ?p g5)"
    by (simp add: next_triple_def obind_def issue_id_step(1) [OF p] on_rng_def a b sa(1) sb(1) sc(1))
  moreover have "triple_ok n \<lparr>bt_a = sa, bt_b = sb, bt_c = sc\<rparr>"
    using sa(2) sb(2) sc(2) by (simp add: triple_ok_def is_sharing_def)
  ultimately show ?thesis by blast
qed

lemma next_triple_exhausted: "next_id p = - 1 \<Longrightarrow> next_triple rand p = (Inl Mpc_TripleExhaustion, p)"
  by (simp add: next_triple_def obind_def issue_id_exhausted)

lemma next_triple_cases:
  assumes p: "provider_inv n p" and n: "next_triple rand p = (r, p')"
  shows "provider_inv n p'" and "r = Inr t \<Longrightarrow> triple_ok n t"
proof -
  have "provider_inv n p' \<and> (\<forall>t. r = Inr t \<longrightarrow> triple_ok n t)"
  proof (cases "next_id p = - 1")
    case True
    then show ?thesis using next_triple_exhausted [of p rand] n p by auto
  next
    case False
    then show ?thesis using next_triple_step [OF p False, of rand] issue_id_step(2) [OF p False] n by auto
  qed
  then show "provider_inv n p'" "r = Inr t \<Longrightarrow> triple_ok n t" by auto
qed

interpretation ltp: triple_provider "next_triple rand" "Suc (Suc k)" "provider_inv (Suc (Suc k))" provider_remaining
  for rand :: "'g \<Rightarrow> 'f::comm_ring_1 \<times> 'g" and k
proof unfold_locales
  show "0 < Suc (Suc k)" by simp
  fix p r p' t
  assume p: "provider_inv (Suc (Suc k)) (p :: 'g triple_provider_state)"
  show "next_triple rand p = (r, p') \<Longrightarrow> provider_inv (Suc (Suc k)) p'" by (rule next_triple_cases(1) [OF p])
  show "next_triple rand p = (Inr t, p') \<Longrightarrow> triple_ok (Suc (Suc k)) t"
    using next_triple_cases(2) [OF p] by blast
  assume "0 < provider_remaining p"
  then have ne: "next_id p \<noteq> - 1" by (auto simp: provider_remaining_def unat_max)
  then have "unat (next_id p + 1) = Suc (unat (next_id p))" by (rule unat_succ)
  then show "\<exists>t p'. next_triple rand p = (Inr t, p') \<and> provider_remaining p \<le> Suc (provider_remaining p')"
    using next_triple_step [OF p ne, of rand] by (auto simp: provider_remaining_def)
qed

lemma TripleProvider_new_inv:
  "TripleProvider_new ctx g = Inr p \<Longrightarrow> provider_inv (party_count ctx) p \<and> provider_remaining p = 2 ^ 64 - 1"
  by (auto simp: TripleProvider_new_def provider_inv_def provider_remaining_def split: if_splits)

section \<open>Properties\<close>

text \<open>A value put into the simulator and revealed again is the value, and revealing anything but
  one share per party is refused.\<close>

theorem input_reveal:
  assumes "2 \<le> party_count (sim_ctx sim)"
  shows "\<exists>x sim'. sim_input rand v sim = (Inr x, sim') \<and> sim_reveal sim' x = Inr v \<and>
    (\<forall>ss. length ss \<noteq> party_count (sim_ctx sim) \<longrightarrow> sim_reveal sim' (SharedValue ss :: 'f::comm_ring_1 shared_value) = Inl Mpc_RevealMisuse)"
proof -
  obtain x g' where x: "sim_input rand v sim = (Inr x, sim\<lparr>sim_rng := g'\<rparr>)"
      "is_sharing (party_count (sim_ctx sim)) v x"
    using sim_input_spec [OF assms, of rand v] by blast
  then have "sim_reveal (sim\<lparr>sim_rng := g'\<rparr>) x = Inr v" by (intro sim_reveal_sharing) simp
  then show ?thesis using x(1) by (auto simp: sim_reveal_def)
qed

text \<open>C17: with the local trusted provider, multiplying two shared values by Beaver's protocol and
  revealing the result gives the product; the only error is that the 64-bit triple counter is used
  up.\<close>

theorem mul_reveal:
  fixes sim :: "('g triple_provider_state, 'h) mpc_simulator" and x :: "'f::comm_ring_1 shared_value"
  assumes "provider_inv (party_count (sim_ctx sim)) (sim_provider sim)"
    and "is_sharing (party_count (sim_ctx sim)) v x" "is_sharing (party_count (sim_ctx sim)) w y"
  shows "case sim_mul (next_triple rand) x y sim of
      (Inr z, sim') \<Rightarrow> sim_reveal sim' z = Inr (v * w) \<and> provider_inv (party_count (sim_ctx sim)) (sim_provider sim')
    | (Inl e, sim') \<Rightarrow> e = Mpc_TripleExhaustion \<and> next_id (sim_provider sim) = - 1 \<and> sim' = sim"
proof -
  obtain k where k: "party_count (sim_ctx sim) = Suc (Suc k)"
    using assms(1) by (auto simp: provider_inv_def dest: le_Suc_ex)
  note a = assms [unfolded k]
  obtain r p' where m: "mul_secret (next_triple rand) x y (sim_provider sim) = (r, p')" by force
  have inv: "provider_inv (Suc (Suc k)) p'" by (rule ltp.mul_secret_inv [OF a(1) m])
  from ltp.mul_secret_sharing [OF a m] show ?thesis
  proof (elim disjE exE conjE)
    fix z assume z: "r = Inr z" "is_sharing (Suc (Suc k)) (v * w) z"
    then have "sim_reveal (sim\<lparr>sim_provider := p'\<rparr>) z = Inr (v * w)"
      by (intro sim_reveal_sharing) (simp add: k)
    then show ?thesis using m z inv by (simp add: sim_mul_def k)
  next
    fix e assume e: "r = Inl e" "next_triple rand (sim_provider sim) = (Inl e, p')"
    then have ex: "next_id (sim_provider sim) = - 1" using next_triple_step [OF a(1), of rand] by fastforce
    then show ?thesis using e m next_triple_exhausted [OF ex, of rand] by (simp add: sim_mul_def)
  qed
qed

primrec issue_ids :: "nat \<Rightarrow> 'g triple_provider_state \<Rightarrow> (mpc_error, u64) result list" where
  "issue_ids 0 p = []"
| "issue_ids (Suc k) p = (let (r, p') = issue_id p in r # issue_ids k p')"

lemma issue_ids_from:
  assumes "provider_inv n p"
  shows "issue_ids k p = map (\<lambda>i. if i < 2 ^ 64 - 1 then Inr (of_nat i) else Inl Mpc_TripleExhaustion)
    (map (\<lambda>j. min (unat (next_id p) + j) (2 ^ 64 - 1)) [0..<k])"
  using assms
proof (induction k arbitrary: p)
  case 0
  then show ?case by simp
next
  case (Suc k)
  show ?case
  proof (cases "next_id p = - 1")
    case True
    then show ?thesis
      using Suc.IH [OF Suc.prems]
      by (simp add: issue_id_exhausted unat_max upt_conv_Cons map_Suc_upt [symmetric] del: upt_Suc)
  next
    case False
    then have "unat (next_id p) < 2 ^ 64 - 1"
      using unsigned_less [of "next_id p", where ?'a = nat] word_unat_eq_iff [of "next_id p" "- 1"]
      by (simp add: unat_max)
    then show ?thesis
      using Suc.IH [OF issue_id_step(2) [OF Suc.prems False]] issue_id_step(1) [OF Suc.prems False]
      by (simp add: unat_succ [OF False] upt_conv_Cons map_Suc_upt [symmetric] del: upt_Suc)
  qed
qed

text \<open>A provider hands out the identifiers \<open>0, 1, 2, ...\<close>, each once: the result of \<open>k\<close> calls
  of \<open>issue_id\<close> on a new provider is this sequence, with \<open>TripleExhaustion\<close> from the last
  64-bit value on. \<open>TripleReuse\<close> is never the result.\<close>

theorem issue_ids_sequence:
  assumes "TripleProvider_new ctx g = Inr p" "k < 2 ^ 64"
  shows "issue_ids k p = map (\<lambda>i. Inr (of_nat i)) [0..<k]"
  using issue_ids_from [of "party_count ctx" p k] TripleProvider_new_inv [OF assms(1)] assms
  by (auto simp: TripleProvider_new_def split: if_splits)

definition tape_rand :: "'f list \<Rightarrow> 'f \<times> 'f list" where
  "tape_rand g = (hd g, tl g)"

definition shares_of_tape :: "nat \<Rightarrow> 'f::comm_ring_1 \<Rightarrow> 'f list \<Rightarrow> 'f list" where
  "shares_of_tape n s rs =
     (case fst (share_input tape_rand \<lparr>party_count = n, execution_id = 0, domain = 0\<rparr> s rs) of
        Inr ss \<Rightarrow> ss | Inl e \<Rightarrow> [])"

lemma share_loop_tape: "length rs = n \<Longrightarrow> share_loop tape_rand n s acc rs = (s + sum_list rs, acc @ rs, [])"
  by (induction n arbitrary: rs s acc) (auto simp: tape_rand_def length_Suc_conv add.assoc)

lemma shares_of_tape_eq:
  "2 \<le> n \<Longrightarrow> length rs = n - 1 \<Longrightarrow> shares_of_tape n s rs = rs @ [s - sum_list rs]"
  by (simp add: shares_of_tape_def share_input_def share_loop_tape)

lemma sum_list_list_update:
  "j < length xs \<Longrightarrow> sum_list (xs[j := y]) = sum_list xs - xs ! j + (y :: 'f::comm_ring_1)"
  by (induction xs arbitrary: j) (auto simp: algebra_simps split: nat.splits)

text \<open>C19: perfect privacy of additive sharing. Consider the sharing of \<open>s\<close> with the random elements
  \<open>rs\<close>, and let the party \<open>j\<close> keep its share. Every other secret \<open>s'\<close> is consistent with the shares
  of all other parties, with exactly one choice of random elements.\<close>

theorem sharing_private:
  assumes n: "2 \<le> n" and rs: "length rs = n - 1" and j: "j < n"
  shows "\<exists>!rs'. length rs' = n - 1 \<and>
    (\<forall>i<n. i \<noteq> j \<longrightarrow> shares_of_tape n s' rs' ! i = shares_of_tape n s rs ! i)"
proof (cases "j = n - 1")
  case True
  have "rs' = rs" if "length rs' = n - 1" "\<forall>i<n. i \<noteq> j \<longrightarrow> shares_of_tape n s' rs' ! i = shares_of_tape n s rs ! i" for rs'
  proof (rule nth_equalityI)
    fix i assume "i < length rs'"
    then show "rs' ! i = rs ! i" using that(2) [rule_format, of i] that(1) True rs n by (simp add: shares_of_tape_eq nth_append)
  qed (use that rs in simp)
  then show ?thesis using True rs n by (intro ex1I [of _ rs]) (auto simp: shares_of_tape_eq nth_append)
next
  case False
  then have j': "j < length rs" using j rs by simp
  let ?rs = "rs[j := rs ! j + (s' - s)]"
  have sum: "s' - sum_list ?rs = s - sum_list rs" using sum_list_list_update [OF j'] by simp
  show ?thesis
  proof (rule ex1I [of _ ?rs])
    show "length ?rs = n - 1 \<and> (\<forall>i<n. i \<noteq> j \<longrightarrow> shares_of_tape n s' ?rs ! i = shares_of_tape n s rs ! i)"
      using rs n sum by (auto simp: shares_of_tape_eq nth_append)
    fix rs' assume h: "length rs' = n - 1 \<and> (\<forall>i<n. i \<noteq> j \<longrightarrow> shares_of_tape n s' rs' ! i = shares_of_tape n s rs ! i)"
    have eq: "rs' ! i = rs ! i" if "i < n - 1" "i \<noteq> j" for i
      using h that rs n by (auto simp: shares_of_tape_eq nth_append dest!: spec [of _ i])
    have upd: "rs' = rs[j := rs' ! j]"
      by (rule nth_equalityI) (use h rs eq j' in \<open>auto simp: nth_list_update\<close>)
    have "s' - sum_list rs' = s - sum_list rs"
      using h False j rs n by (auto simp: shares_of_tape_eq nth_append dest!: spec [of _ "n - 1"])
    moreover have "sum_list rs' = sum_list rs - rs ! j + rs' ! j"
      by (subst upd) (rule sum_list_list_update [OF j'])
    moreover have "b = a + (s' - s)" if "s' - S' = s - S" "S' = S - a + b" for S S' a b :: 'a
      using that by (simp add: algebra_simps)
    ultimately have "rs' ! j = rs ! j + (s' - s)" by blast
    then show "rs' = ?rs" using upd by simp
  qed
qed

section \<open>Concrete runs\<close>

text \<open>Two parties, the generator that reads a tape, the field \<open>fp\<close>.\<close>

definition demo_ctx :: share_context where
  "demo_ctx = \<lparr>party_count = 2, execution_id = 7, domain = 1\<rparr>"

definition demo_provider :: "fp list triple_provider_state" where
  "demo_provider = \<lparr>tp_ctx = demo_ctx, tp_rng = [3, 4, 10, 11, 12], next_id = 0, issued_ids = {}\<rparr>"

definition demo_sim :: "(fp list triple_provider_state, fp list) mpc_simulator" where
  "demo_sim = \<lparr>sim_ctx = demo_ctx, sim_provider = demo_provider, sim_rng = [5]\<rparr>"

theorem input_reveal_witness:
  "\<exists>x sim'. sim_input tape_rand 9 demo_sim = (Inr x, sim') \<and> sim_reveal sim' x = Inr 9"
  using input_reveal [of demo_sim tape_rand 9] by (auto simp: demo_sim_def demo_ctx_def)

theorem mul_reveal_witness:
  "\<exists>z sim'. sim_mul (next_triple tape_rand) (SharedValue [2, 4]) (SharedValue [1, 6]) demo_sim = (Inr z, sim') \<and>
     sim_reveal sim' z = Inr 42"
  using mul_reveal [of demo_sim 6 "SharedValue [2, 4]" 7 "SharedValue [1, 6]" tape_rand]
  by (simp add: demo_sim_def demo_ctx_def demo_provider_def provider_inv_def is_sharing_def sv_value_def
      split: prod.splits sum.splits)

theorem issue_ids_sequence_witness: "issue_ids 3 demo_provider = [Inr 0, Inr 1, Inr 2]"
  using issue_ids_sequence [of demo_ctx "[3, 4, 10, 11, 12]" demo_provider 3]
  by (simp add: TripleProvider_new_def demo_ctx_def demo_provider_def upt_rec)

theorem sharing_private_witness:
  "\<exists>!rs'. length rs' = 2 \<and> (\<forall>i<3. i \<noteq> 1 \<longrightarrow> shares_of_tape 3 (8 :: fp) rs' ! i = shares_of_tape 3 1 [5, 6] ! i)"
  using sharing_private [of 3 "[5, 6 :: fp]" 1 8 1] by simp

end
