(* ===== verification/Circuit.thy ===== *)
theory Circuit
  imports Mpc
begin

text \<open>
  Model of \<open>crates/circuit\<close> without its wire format (theory \<open>Circuit_Encoding\<close>): nodes and circuits
  with \<open>validate\<close>, the \<open>CircuitBuilder\<close>, the clear-text evaluator \<open>evaluate_reference\<close>, the
  evaluator \<open>evaluate_mpc\<close> on shared values, and the transcript hook.

  \<open>CE_Panic\<close> stands for an out-of-range index and for the \<open>expect\<close> on the node count.
\<close>

section \<open>Nodes and circuits\<close>

datatype circuit_error =
    CE_InvalidReference
  | CE_ForwardReference
  | CE_MissingOutput
  | CE_InvalidInputCount
  | CE_MalformedNode
  | CE_MpcFault
  | CE_UnsupportedVersion
  | CE_TrailingBytes
  | CE_UnexpectedEnd
  | CE_ExcessiveSize
  | CE_Panic

type_synonym node_id = u32

abbreviation as_usize :: "node_id \<Rightarrow> nat" where
  "as_usize i \<equiv> unat i"

datatype 'f node =
    SecretInput
  | PublicInput
  | Constant 'f
  | Add node_id node_id
  | Mul node_id node_id

fun operands :: "'f node \<Rightarrow> (node_id \<times> node_id) option" where
  "operands (Add a b) = Some (a, b)"
| "operands (Mul a b) = Some (a, b)"
| "operands _ = None"

definition is_leaf :: "'f node \<Rightarrow> bool" where
  "is_leaf n \<longleftrightarrow> operands n = None"

record 'f circuit =
  c_nodes :: "'f node list"
  c_num_secret :: nat
  c_num_public :: nat
  c_outputs :: "node_id list"

definition check_operand :: "nat \<Rightarrow> nat \<Rightarrow> node_id \<Rightarrow> (circuit_error, unit) result" where
  "check_operand len index operand =
     (let pos = as_usize operand in
      if pos \<ge> len then Inl CE_InvalidReference
      else if pos \<ge> index then Inl CE_ForwardReference
      else Inr ())"

fun validate_nodes :: "nat \<Rightarrow> nat \<Rightarrow> 'f node list \<Rightarrow> (circuit_error, unit) result" where
  "validate_nodes len index [] = Inr ()"
| "validate_nodes len index (node # rest) =
     (case operands node of
        None \<Rightarrow> validate_nodes len (Suc index) rest
      | Some (a, b) \<Rightarrow>
          rbind (check_operand len index a) (\<lambda>_.
          rbind (check_operand len index b) (\<lambda>_.
          validate_nodes len (Suc index) rest)))"

definition secret_leaves :: "'f node list \<Rightarrow> nat" where
  "secret_leaves nodes = length (filter (\<lambda>n. case n of SecretInput \<Rightarrow> True | _ \<Rightarrow> False) nodes)"

definition public_leaves :: "'f node list \<Rightarrow> nat" where
  "public_leaves nodes = length (filter (\<lambda>n. case n of PublicInput \<Rightarrow> True | _ \<Rightarrow> False) nodes)"

definition validate :: "'f circuit \<Rightarrow> (circuit_error, unit) result" where
  "validate c =
     rbind (validate_nodes (length (c_nodes c)) 0 (c_nodes c)) (\<lambda>_.
     if secret_leaves (c_nodes c) \<noteq> c_num_secret c \<or> public_leaves (c_nodes c) \<noteq> c_num_public c
     then Inl CE_InvalidInputCount
     else if c_outputs c = [] then Inl CE_MissingOutput
     else if list_ex (\<lambda>output. as_usize output \<ge> length (c_nodes c)) (c_outputs c)
     then Inl CE_InvalidReference
     else Inr ())"

section \<open>The builder\<close>

record 'f builder =
  b_nodes :: "'f node list"
  b_num_secret :: nat
  b_num_public :: nat
  b_outputs :: "node_id list"

definition Builder_new :: "'f builder" where
  "Builder_new = \<lparr>b_nodes = [], b_num_secret = 0, b_num_public = 0, b_outputs = []\<rparr>"

definition next_node_id :: "'f builder \<Rightarrow> (circuit_error, node_id) result" where
  "next_node_id b =
     (if length (b_nodes b) < 2 ^ 32 then Inr (of_nat (length (b_nodes b))) else Inl CE_Panic)"

definition check_defined :: "'f builder \<Rightarrow> node_id \<Rightarrow> (circuit_error, unit) result" where
  "check_defined b nid = (if as_usize nid \<ge> length (b_nodes b) then Inl CE_InvalidReference else Inr ())"

definition push :: "'f node \<Rightarrow> ('f builder, circuit_error, node_id) op" where
  "push node b =
     (case next_node_id b of
        Inl e \<Rightarrow> (Inl e, b)
      | Inr nid \<Rightarrow> (Inr nid, b\<lparr>b_nodes := b_nodes b @ [node]\<rparr>))"

definition b_secret_input :: "('f builder, circuit_error, node_id) op" where
  "b_secret_input b = push SecretInput (b\<lparr>b_num_secret := b_num_secret b + 1\<rparr>)"

definition b_public_input :: "('f builder, circuit_error, node_id) op" where
  "b_public_input b = push PublicInput (b\<lparr>b_num_public := b_num_public b + 1\<rparr>)"

definition b_constant :: "'f \<Rightarrow> ('f builder, circuit_error, node_id) op" where
  "b_constant v = push (Constant v)"

definition b_add :: "node_id \<Rightarrow> node_id \<Rightarrow> ('f builder, circuit_error, node_id) op" where
  "b_add x y b =
     obind (oret (check_defined b x)) (\<lambda>_.
     obind (oret (check_defined b y)) (\<lambda>_. push (Add x y))) b"

definition b_mul :: "node_id \<Rightarrow> node_id \<Rightarrow> ('f builder, circuit_error, node_id) op" where
  "b_mul x y b =
     obind (oret (check_defined b x)) (\<lambda>_.
     obind (oret (check_defined b y)) (\<lambda>_. push (Mul x y))) b"

definition b_output :: "node_id \<Rightarrow> ('f builder, circuit_error, unit) op" where
  "b_output nid b =
     (case check_defined b nid of
        Inl e \<Rightarrow> (Inl e, b)
      | Inr _ \<Rightarrow> (Inr (), b\<lparr>b_outputs := b_outputs b @ [nid]\<rparr>))"

definition build :: "'f builder \<Rightarrow> (circuit_error, 'f circuit) result" where
  "build b =
     (let c = \<lparr>c_nodes = b_nodes b, c_num_secret = b_num_secret b, c_num_public = b_num_public b,
               c_outputs = b_outputs b\<rparr>
      in rbind (validate c) (\<lambda>_. Inr c))"

section \<open>Evaluation in the clear\<close>

definition index_at :: "'a list \<Rightarrow> nat \<Rightarrow> (circuit_error, 'a) result" where
  "index_at xs i = (if i < length xs then Inr (xs ! i) else Inl CE_Panic)"

fun eval_nodes ::
    "'f::comm_ring_1 list \<Rightarrow> 'f list \<Rightarrow> 'f node list \<Rightarrow> nat \<Rightarrow> nat \<Rightarrow> 'f list \<Rightarrow> (circuit_error, 'f list) result" where
  "eval_nodes secret_inputs public_inputs [] next_secret next_public values = Inr values"
| "eval_nodes secret_inputs public_inputs (node # rest) next_secret next_public values =
     (case node of
        SecretInput \<Rightarrow> rbind (index_at secret_inputs next_secret) (\<lambda>v.
          eval_nodes secret_inputs public_inputs rest (next_secret + 1) next_public (values @ [v]))
      | PublicInput \<Rightarrow> rbind (index_at public_inputs next_public) (\<lambda>v.
          eval_nodes secret_inputs public_inputs rest next_secret (next_public + 1) (values @ [v]))
      | Constant c \<Rightarrow> eval_nodes secret_inputs public_inputs rest next_secret next_public (values @ [c])
      | Add a b \<Rightarrow> rbind (index_at values (as_usize a)) (\<lambda>x. rbind (index_at values (as_usize b)) (\<lambda>y.
          eval_nodes secret_inputs public_inputs rest next_secret next_public (values @ [x + y])))
      | Mul a b \<Rightarrow> rbind (index_at values (as_usize a)) (\<lambda>x. rbind (index_at values (as_usize b)) (\<lambda>y.
          eval_nodes secret_inputs public_inputs rest next_secret next_public (values @ [x * y]))))"

definition evaluate_reference ::
    "'f::comm_ring_1 circuit \<Rightarrow> 'f list \<Rightarrow> 'f list \<Rightarrow> (circuit_error, 'f list) result" where
  "evaluate_reference c secret_inputs public_inputs =
     (if length secret_inputs \<noteq> c_num_secret c \<or> length public_inputs \<noteq> c_num_public c
      then Inl CE_InvalidInputCount
      else rbind (eval_nodes secret_inputs public_inputs (c_nodes c) 0 0 []) (\<lambda>values.
        rmap (\<lambda>id. index_at values (as_usize id)) (c_outputs c)))"

section \<open>The transcript hook\<close>

datatype transcript_event =
    EvInput node_id
  | EvOperation node_id
  | EvOpen node_id
  | EvOutput node_id

record transcript_hook =
  th_events :: "transcript_event list"
  th_enabled :: bool

definition TranscriptHook_new :: transcript_hook where
  "TranscriptHook_new = \<lparr>th_events = [], th_enabled = True\<rparr>"

definition TranscriptHook_disabled :: transcript_hook where
  "TranscriptHook_disabled = \<lparr>th_events = [], th_enabled = False\<rparr>"

definition TranscriptHook_record :: "transcript_event \<Rightarrow> transcript_hook \<Rightarrow> transcript_hook" where
  "TranscriptHook_record ev h = (if th_enabled h then h\<lparr>th_events := th_events h @ [ev]\<rparr> else h)"

text \<open>The closure \<open>record\<close> of \<open>evaluate_mpc\<close> on the optional hook.\<close>

definition record_opt :: "transcript_event \<Rightarrow> transcript_hook option \<Rightarrow> transcript_hook option" where
  "record_opt ev hook = map_option (TranscriptHook_record ev) hook"

section \<open>Evaluation on shared values\<close>

type_synonym ('p, 'g) mpc_state = "('p, 'g) mpc_simulator \<times> transcript_hook option"

definition on_sim :: "(('p, 'g) mpc_simulator, mpc_error, 'a) op \<Rightarrow> (('p, 'g) mpc_state, circuit_error, 'a) op" where
  "on_sim m st = (case st of (sim, hook) \<Rightarrow>
     let (r, sim') = m sim in (map_err (\<lambda>_. CE_MpcFault) r, (sim', hook)))"

definition on_hook :: "transcript_event \<Rightarrow> (('p, 'g) mpc_state, circuit_error, unit) op" where
  "on_hook ev st = (case st of (sim, hook) \<Rightarrow> (Inr (), (sim, record_opt ev hook)))"

definition eval_node_mpc ::
    "('g \<Rightarrow> 'f::comm_ring_1 \<times> 'g) \<Rightarrow> ('p, mpc_error, 'f beaver_triple) op \<Rightarrow> 'f list \<Rightarrow> 'f list \<Rightarrow>
     nat \<Rightarrow> 'f node \<Rightarrow> nat \<Rightarrow> nat \<Rightarrow> 'f shared_value list \<Rightarrow>
     (('p, 'g) mpc_state, circuit_error, nat \<times> nat \<times> 'f shared_value) op" where
  "eval_node_mpc rand next_op secret_inputs public_inputs index node next_secret next_public values =
     (let node_id = of_nat index in
      case node of
        SecretInput \<Rightarrow>
          obind (oret (index_at secret_inputs next_secret)) (\<lambda>v.
          obind (on_sim (sim_input rand v)) (\<lambda>x.
          obind (on_hook (EvInput node_id)) (\<lambda>_. oret (Inr (next_secret + 1, next_public, x)))))
      | PublicInput \<Rightarrow>
          obind (oret (index_at public_inputs next_public)) (\<lambda>v.
          obind (on_sim (sim_input rand v)) (\<lambda>x.
          obind (on_hook (EvInput node_id)) (\<lambda>_. oret (Inr (next_secret, next_public + 1, x)))))
      | Constant c \<Rightarrow>
          obind (on_sim (sim_input rand c)) (\<lambda>x.
          obind (on_hook (EvInput node_id)) (\<lambda>_. oret (Inr (next_secret, next_public, x))))
      | Add a b \<Rightarrow>
          obind (oret (index_at values (as_usize a))) (\<lambda>x.
          obind (oret (index_at values (as_usize b))) (\<lambda>y.
          obind (oret (map_err (\<lambda>_. CE_MpcFault) (add_secret x y))) (\<lambda>z.
          obind (on_hook (EvOperation node_id)) (\<lambda>_. oret (Inr (next_secret, next_public, z))))))
      | Mul a b \<Rightarrow>
          obind (oret (index_at values (as_usize a))) (\<lambda>x.
          obind (oret (index_at values (as_usize b))) (\<lambda>y.
          obind (on_sim (sim_mul next_op x y)) (\<lambda>z.
          obind (on_hook (EvOperation node_id)) (\<lambda>_. oret (Inr (next_secret, next_public, z)))))))"

fun eval_nodes_mpc ::
    "('g \<Rightarrow> 'f::comm_ring_1 \<times> 'g) \<Rightarrow> ('p, mpc_error, 'f beaver_triple) op \<Rightarrow> 'f list \<Rightarrow> 'f list \<Rightarrow>
     nat \<Rightarrow> 'f node list \<Rightarrow> nat \<Rightarrow> nat \<Rightarrow> 'f shared_value list \<Rightarrow>
     (('p, 'g) mpc_state, circuit_error, 'f shared_value list) op" where
  "eval_nodes_mpc rand next_op secret_inputs public_inputs index [] next_secret next_public values = oret (Inr values)"
| "eval_nodes_mpc rand next_op secret_inputs public_inputs index (node # rest) next_secret next_public values =
     obind (eval_node_mpc rand next_op secret_inputs public_inputs index node next_secret next_public values)
       (\<lambda>(next_secret', next_public', x).
          eval_nodes_mpc rand next_op secret_inputs public_inputs (Suc index) rest next_secret' next_public'
            (values @ [x]))"

definition record_outputs :: "node_id list \<Rightarrow> (('p, 'g) mpc_state, circuit_error, unit) op" where
  "record_outputs ids st = (case st of (sim, hook) \<Rightarrow> (Inr (), (sim, fold (\<lambda>id. record_opt (EvOutput id)) ids hook)))"

definition evaluate_mpc ::
    "('g \<Rightarrow> 'f::comm_ring_1 \<times> 'g) \<Rightarrow> ('p, mpc_error, 'f beaver_triple) op \<Rightarrow> 'f circuit \<Rightarrow> 'f list \<Rightarrow> 'f list \<Rightarrow>
     (('p, 'g) mpc_state, circuit_error, 'f shared_value list) op" where
  "evaluate_mpc rand next_op c secret_inputs public_inputs =
     (if length secret_inputs \<noteq> c_num_secret c \<or> length public_inputs \<noteq> c_num_public c
      then oret (Inl CE_InvalidInputCount)
      else obind (eval_nodes_mpc rand next_op secret_inputs public_inputs 0 (c_nodes c) 0 0 []) (\<lambda>values.
        obind (oret (rmap (\<lambda>id. index_at values (as_usize id)) (c_outputs c))) (\<lambda>outputs.
        obind (record_outputs (c_outputs c)) (\<lambda>_. oret (Inr outputs)))))"

definition reveal_output ::
    "('p, 'g) mpc_simulator \<Rightarrow> node_id \<Rightarrow> 'f::comm_ring_1 shared_value \<Rightarrow> transcript_hook option \<Rightarrow>
     (mpc_error, 'f) result \<times> transcript_hook option" where
  "reveal_output sim nid x hook =
     (case sim_reveal sim x of
        Inl e \<Rightarrow> (Inl e, hook)
      | Inr v \<Rightarrow> (Inr v, record_opt (EvOpen nid) hook))"

section \<open>What validation accepts\<close>

lemma secret_leaves_simps [simp]:
  "secret_leaves [] = 0"
  "secret_leaves (n # ns) = secret_leaves [n] + secret_leaves ns"
  "secret_leaves (ns @ ms) = secret_leaves ns + secret_leaves ms"
  "secret_leaves [SecretInput] = 1" "secret_leaves [PublicInput] = 0" "secret_leaves [Constant c] = 0"
  "secret_leaves [Add a b] = 0" "secret_leaves [Mul a b] = 0"
  by (simp_all add: secret_leaves_def)

lemma public_leaves_simps [simp]:
  "public_leaves [] = 0"
  "public_leaves (n # ns) = public_leaves [n] + public_leaves ns"
  "public_leaves (ns @ ms) = public_leaves ns + public_leaves ms"
  "public_leaves [SecretInput] = 0" "public_leaves [PublicInput] = 1" "public_leaves [Constant c] = 0"
  "public_leaves [Add a b] = 0" "public_leaves [Mul a b] = 0"
  by (simp_all add: public_leaves_def)

declare secret_leaves_simps(2) [simp del] public_leaves_simps(2) [simp del]

text \<open>Operands point to earlier nodes: the node list is in topological order.\<close>

definition node_wf :: "nat \<Rightarrow> 'f node \<Rightarrow> bool" where
  "node_wf k n \<longleftrightarrow> (case operands n of None \<Rightarrow> True | Some (a, b) \<Rightarrow> as_usize a < k \<and> as_usize b < k)"

definition nodes_wf :: "'f node list \<Rightarrow> bool" where
  "nodes_wf nodes \<longleftrightarrow> (\<forall>i<length nodes. node_wf i (nodes ! i))"

definition circuit_wf :: "'f circuit \<Rightarrow> bool" where
  "circuit_wf c \<longleftrightarrow> nodes_wf (c_nodes c) \<and> c_num_secret c = secret_leaves (c_nodes c) \<and>
     c_num_public c = public_leaves (c_nodes c) \<and> c_outputs c \<noteq> [] \<and>
     (\<forall>i\<in>set (c_outputs c). as_usize i < length (c_nodes c))"

lemma node_wf_simps [simp]:
  "node_wf k SecretInput" "node_wf k PublicInput" "node_wf k (Constant c)"
  "node_wf k (Add a b) \<longleftrightarrow> as_usize a < k \<and> as_usize b < k"
  "node_wf k (Mul a b) \<longleftrightarrow> as_usize a < k \<and> as_usize b < k"
  by (simp_all add: node_wf_def)

lemma nodes_wf_Nil [simp]: "nodes_wf []"
  by (simp add: nodes_wf_def)

lemma nodes_wf_snoc [simp]: "nodes_wf (ns @ [n]) \<longleftrightarrow> nodes_wf ns \<and> node_wf (length ns) n"
  by (auto simp: nodes_wf_def nth_append less_Suc_eq)

lemma check_operand_Inr: "k \<le> len \<Longrightarrow> check_operand len k a = Inr () \<longleftrightarrow> as_usize a < k"
  by (auto simp: check_operand_def Let_def)

lemma all_less_Suc_shift: "(\<forall>i<Suc m. P i) \<longleftrightarrow> P 0 \<and> (\<forall>i<m. P (Suc i))"
  by (metis less_Suc_eq_0_disj)

lemma validate_nodes_Inr:
  "k + length ns \<le> len \<Longrightarrow> validate_nodes len k ns = Inr () \<longleftrightarrow> (\<forall>i<length ns. node_wf (k + i) (ns ! i))"
proof (induction ns arbitrary: k)
  case Nil
  then show ?case by simp
next
  case (Cons n ns)
  then have IH: "validate_nodes len (Suc k) ns = Inr () \<longleftrightarrow> (\<forall>i<length ns. node_wf (Suc (k + i)) (ns ! i))" by simp
  show ?case using Cons.prems
    by (auto simp: all_less_Suc_shift node_wf_def IH check_operand_Inr split: option.splits prod.splits)
qed

lemma validate_iff: "validate c = Inr () \<longleftrightarrow> circuit_wf c"
  using validate_nodes_Inr [of 0 "c_nodes c" "length (c_nodes c)"]
  by (force simp: validate_def circuit_wf_def nodes_wf_def list_ex_iff)

section \<open>The builder invariant\<close>

definition builder_inv :: "'f builder \<Rightarrow> bool" where
  "builder_inv b \<longleftrightarrow> nodes_wf (b_nodes b) \<and> length (b_nodes b) \<le> 2 ^ 32 \<and>
     b_num_secret b = secret_leaves (b_nodes b) \<and> b_num_public b = public_leaves (b_nodes b) \<and>
     (\<forall>i\<in>set (b_outputs b). as_usize i < length (b_nodes b))"

lemma builder_inv_new: "builder_inv Builder_new"
  by (simp add: builder_inv_def Builder_new_def)

lemma push_Inr:
  "push n b = (Inr i, b') \<longleftrightarrow>
     length (b_nodes b) < 2 ^ 32 \<and> i = of_nat (length (b_nodes b)) \<and> b' = b\<lparr>b_nodes := b_nodes b @ [n]\<rparr>"
  by (auto simp: push_def next_node_id_def)

lemma push_Inl: "push n b = (Inl e, b') \<longleftrightarrow> \<not> length (b_nodes b) < 2 ^ 32 \<and> e = CE_Panic \<and> b' = b"
  by (auto simp: push_def next_node_id_def)

lemma as_usize_new: "length ns < 2 ^ 32 \<Longrightarrow> as_usize (of_nat (length ns)) = length ns"
  by (simp add: unat_of_nat)

lemma check_defined_Inr [simp]: "check_defined b i = Inr () \<longleftrightarrow> as_usize i < length (b_nodes b)"
  by (auto simp: check_defined_def)

lemma check_defined_Inl [simp]:
  "check_defined b i = Inl e \<longleftrightarrow> \<not> as_usize i < length (b_nodes b) \<and> e = CE_InvalidReference"
  by (auto simp: check_defined_def)

lemma b_add_Inr:
  "b_add x y b = (Inr i, b') \<longleftrightarrow>
     as_usize x < length (b_nodes b) \<and> as_usize y < length (b_nodes b) \<and> push (Add x y) b = (Inr i, b')"
  by (auto simp: b_add_def obind_Inr oret_def)

lemma b_mul_Inr:
  "b_mul x y b = (Inr i, b') \<longleftrightarrow>
     as_usize x < length (b_nodes b) \<and> as_usize y < length (b_nodes b) \<and> push (Mul x y) b = (Inr i, b')"
  by (auto simp: b_mul_def obind_Inr oret_def)

lemma b_output_Inr:
  "b_output i b = (Inr (), b') \<longleftrightarrow>
     as_usize i < length (b_nodes b) \<and> b' = b\<lparr>b_outputs := b_outputs b @ [i]\<rparr>"
  by (auto simp: b_output_def split: sum.splits)

lemmas builder_ops = b_secret_input_def b_public_input_def b_constant_def b_add_Inr b_mul_Inr b_output_Inr push_Inr

lemma builder_inv_push:
  "builder_inv b \<Longrightarrow> node_wf (length (b_nodes b)) n \<Longrightarrow> length (b_nodes b) < 2 ^ 32 \<Longrightarrow>
   builder_inv (b\<lparr>b_nodes := b_nodes b @ [n], b_num_secret := b_num_secret b + secret_leaves [n],
     b_num_public := b_num_public b + public_leaves [n]\<rparr>)"
  by (auto simp: builder_inv_def less_SucI)

text \<open>Every operation keeps the invariant, whatever it is given and also when it fails, apart from
  the overflow of the node count, where the process stops.\<close>

datatype 'f builder_call =
    Call_secret_input | Call_public_input | Call_constant 'f
  | Call_add node_id node_id | Call_mul node_id node_id | Call_output node_id

fun run_call :: "'f builder_call \<Rightarrow> ('f builder, circuit_error, unit) op" where
  "run_call Call_secret_input = obind b_secret_input (\<lambda>_. oret (Inr ()))"
| "run_call Call_public_input = obind b_public_input (\<lambda>_. oret (Inr ()))"
| "run_call (Call_constant v) = obind (b_constant v) (\<lambda>_. oret (Inr ()))"
| "run_call (Call_add x y) = obind (b_add x y) (\<lambda>_. oret (Inr ()))"
| "run_call (Call_mul x y) = obind (b_mul x y) (\<lambda>_. oret (Inr ()))"
| "run_call (Call_output x) = b_output x"

inductive builder_reachable :: "'f builder \<Rightarrow> bool" where
  new: "builder_reachable Builder_new"
| step: "builder_reachable b \<Longrightarrow> run_call call b = (r, b') \<Longrightarrow> r \<noteq> Inl CE_Panic \<Longrightarrow> builder_reachable b'"

lemma run_call_inv:
  assumes b: "builder_inv b" and r: "run_call call b = (r, b')" "r \<noteq> Inl CE_Panic"
  shows "builder_inv b'"
proof (cases call)
  case Call_secret_input
  then show ?thesis using r b
    by (auto simp: b_secret_input_def obind_def push_def next_node_id_def builder_inv_def less_SucI split: if_splits)
next
  case Call_public_input
  then show ?thesis using r b
    by (auto simp: b_public_input_def obind_def push_def next_node_id_def builder_inv_def less_SucI split: if_splits)
next
  case (Call_constant v)
  then show ?thesis using r builder_inv_push [OF b, of "Constant v"]
    by (auto simp: b_constant_def obind_def push_def next_node_id_def split: if_splits)
next
  case (Call_add x y)
  then show ?thesis using r b builder_inv_push [OF b, of "Add x y"]
    by (auto simp: b_add_def obind_def push_def next_node_id_def check_defined_def split: if_splits)
next
  case (Call_mul x y)
  then show ?thesis using r b builder_inv_push [OF b, of "Mul x y"]
    by (auto simp: b_mul_def obind_def push_def next_node_id_def check_defined_def split: if_splits)
next
  case (Call_output x)
  then show ?thesis using r b
    by (auto simp: b_output_def check_defined_def builder_inv_def split: if_splits)
qed

lemma builder_reachable_inv: "builder_reachable b \<Longrightarrow> builder_inv b"
  by (induction rule: builder_reachable.induct) (auto intro: builder_inv_new run_call_inv)

lemma build_inv:
  assumes "builder_inv b"
  shows "build b = (if b_outputs b = [] then Inl CE_MissingOutput
    else Inr \<lparr>c_nodes = b_nodes b, c_num_secret = b_num_secret b, c_num_public = b_num_public b,
           c_outputs = b_outputs b\<rparr>)"
proof -
  let ?c = "\<lparr>c_nodes = b_nodes b, c_num_secret = b_num_secret b, c_num_public = b_num_public b,
           c_outputs = b_outputs b\<rparr>"
  have ok: "validate_nodes (length (b_nodes b)) 0 (b_nodes b) = Inr ()"
    using assms by (simp add: validate_nodes_Inr builder_inv_def nodes_wf_def)
  then show ?thesis
    using assms validate_iff [of ?c]
    by (auto simp: build_def Let_def builder_inv_def circuit_wf_def validate_def)
qed

text \<open>C21: whatever sequence of calls a client makes on a builder, \<open>build\<close> returns the circuit or
  \<open>MissingOutput\<close> when no output was declared, and the circuit passes \<open>validate\<close>.\<close>

theorem build_reachable:
  assumes "builder_reachable b"
  shows "if b_outputs b = [] then build b = Inl CE_MissingOutput
    else \<exists>c. build b = Inr c \<and> validate c = Inr () \<and> c_nodes c = b_nodes b \<and> c_outputs c = b_outputs b"
  using build_inv [OF builder_reachable_inv [OF assms]] builder_reachable_inv [OF assms]
  by (auto simp: validate_iff circuit_wf_def builder_inv_def)

section \<open>The values of the nodes\<close>

text \<open>The value of one node from the inputs, the numbers of leaves before it and the values before
  it, and the values of a node list. This is the specification both evaluators implement.\<close>

fun node_value :: "'f::comm_ring_1 list \<Rightarrow> 'f list \<Rightarrow> nat \<Rightarrow> nat \<Rightarrow> 'f list \<Rightarrow> 'f node \<Rightarrow> 'f" where
  "node_value sec pub ns np vs SecretInput = sec ! ns"
| "node_value sec pub ns np vs PublicInput = pub ! np"
| "node_value sec pub ns np vs (Constant c) = c"
| "node_value sec pub ns np vs (Add a b) = vs ! as_usize a + vs ! as_usize b"
| "node_value sec pub ns np vs (Mul a b) = vs ! as_usize a * vs ! as_usize b"

fun trace_from :: "'f::comm_ring_1 list \<Rightarrow> 'f list \<Rightarrow> 'f node list \<Rightarrow> nat \<Rightarrow> nat \<Rightarrow> 'f list \<Rightarrow> 'f list" where
  "trace_from sec pub [] ns np vs = vs"
| "trace_from sec pub (n # rest) ns np vs =
     trace_from sec pub rest (ns + secret_leaves [n]) (np + public_leaves [n])
       (vs @ [node_value sec pub ns np vs n])"

definition trace :: "'f::comm_ring_1 list \<Rightarrow> 'f list \<Rightarrow> 'f node list \<Rightarrow> 'f list" where
  "trace sec pub nodes = trace_from sec pub nodes 0 0 []"

lemma trace_from_append:
  "trace_from sec pub (xs @ ys) ns np vs =
     trace_from sec pub ys (ns + secret_leaves xs) (np + public_leaves xs) (trace_from sec pub xs ns np vs)"
proof (induction xs arbitrary: ns np vs)
  case Nil
  then show ?case by simp
next
  case (Cons n xs)
  then show ?case by (simp add: secret_leaves_simps(2) [of n xs] public_leaves_simps(2) [of n xs] add.assoc)
qed

lemma trace_Nil [simp]: "trace sec pub [] = []"
  by (simp add: trace_def)

lemma trace_snoc:
  "trace sec pub (nodes @ [n]) = trace sec pub nodes @
     [node_value sec pub (secret_leaves nodes) (public_leaves nodes) (trace sec pub nodes) n]"
  by (simp add: trace_def trace_from_append)

lemma length_trace_from [simp]: "length (trace_from sec pub nodes ns np vs) = length vs + length nodes"
  by (induction nodes arbitrary: ns np vs) simp_all

lemma length_trace [simp]: "length (trace sec pub nodes) = length nodes"
  by (simp add: trace_def)

lemma trace_from_prefix: "\<exists>ws. trace_from sec pub nodes ns np vs = vs @ ws"
proof (induction nodes arbitrary: ns np vs)
  case Nil
  then show ?case by simp
next
  case (Cons n nodes)
  then show ?case by (metis append.assoc trace_from.simps(2))
qed

lemma trace_append_nth: "i < length nodes \<Longrightarrow> trace sec pub (nodes @ ms) ! i = trace sec pub nodes ! i"
proof -
  assume i: "i < length nodes"
  obtain ws where "trace sec pub (nodes @ ms) = trace sec pub nodes @ ws"
    using trace_from_prefix by (metis trace_def trace_from_append)
  then show ?thesis using i by (simp add: nth_append)
qed

text \<open>The nodes a position \<open>k\<close> in a node list can hold when \<open>S\<close> and \<open>P\<close> inputs are given.\<close>

fun nodes_ok :: "nat \<Rightarrow> nat \<Rightarrow> 'f node list \<Rightarrow> nat \<Rightarrow> nat \<Rightarrow> nat \<Rightarrow> bool" where
  "nodes_ok S P [] ns np k = True"
| "nodes_ok S P (n # rest) ns np k =
     (node_wf k n \<and> (n = SecretInput \<longrightarrow> ns < S) \<and> (n = PublicInput \<longrightarrow> np < P) \<and>
      nodes_ok S P rest (ns + secret_leaves [n]) (np + public_leaves [n]) (Suc k))"

lemma nodes_ok_wf:
  assumes "\<And>i. i < length nodes \<Longrightarrow> node_wf (k + i) (nodes ! i)"
    and "ns + secret_leaves nodes \<le> S" "np + public_leaves nodes \<le> P"
  shows "nodes_ok S P nodes ns np k"
  using assms
proof (induction nodes arbitrary: ns np k)
  case Nil
  then show ?case by simp
next
  case (Cons n nodes)
  have wf: "node_wf k n" using Cons.prems(1) [of 0] by simp
  have "node_wf (Suc k + i) (nodes ! i)" if "i < length nodes" for i
    using Cons.prems(1) [of "Suc i"] that by simp
  from Cons.IH [OF this, where ns = "ns + secret_leaves [n]" and np = "np + public_leaves [n]"] Cons.prems(2,3) wf
  show ?case
    by (auto simp: secret_leaves_simps(2) [of n nodes] public_leaves_simps(2) [of n nodes])
qed

lemma eval_nodes_eq:
  "nodes_ok (length sec) (length pub) nodes ns np (length vs) \<Longrightarrow>
   eval_nodes sec pub nodes ns np vs = Inr (trace_from sec pub nodes ns np vs)"
proof (induction nodes arbitrary: ns np vs)
  case Nil
  then show ?case by simp
next
  case (Cons n nodes)
  show ?case using Cons.prems Cons.IH [of _ _ "vs @ [node_value sec pub ns np vs n]"]
    by (cases n) (auto simp: index_at_def)
qed

definition inputs_fit :: "'f circuit \<Rightarrow> 'f list \<Rightarrow> 'f list \<Rightarrow> bool" where
  "inputs_fit c sec pub \<longleftrightarrow> length sec = c_num_secret c \<and> length pub = c_num_public c"

lemma circuit_nodes_ok:
  assumes "circuit_wf c" "inputs_fit c sec pub"
  shows "nodes_ok (length sec) (length pub) (c_nodes c) 0 0 0"
  using assms by (intro nodes_ok_wf) (auto simp: circuit_wf_def nodes_wf_def inputs_fit_def)

lemma outputs_index:
  "circuit_wf c \<Longrightarrow> length vs = length (c_nodes c) \<Longrightarrow>
   rmap (\<lambda>i. index_at vs (as_usize i)) (c_outputs c) = Inr (map (\<lambda>i. vs ! as_usize i) (c_outputs c))"
  by (intro rmap_total) (auto simp: index_at_def circuit_wf_def)

definition circuit_outputs :: "'f::comm_ring_1 circuit \<Rightarrow> 'f list \<Rightarrow> 'f list \<Rightarrow> 'f list" where
  "circuit_outputs c sec pub = map (\<lambda>i. trace sec pub (c_nodes c) ! as_usize i) (c_outputs c)"

lemma evaluate_reference_eq:
  "circuit_wf c \<Longrightarrow> inputs_fit c sec pub \<Longrightarrow> evaluate_reference c sec pub = Inr (circuit_outputs c sec pub)"
  using eval_nodes_eq [of sec pub "c_nodes c" 0 0 "[]"] circuit_nodes_ok [of c sec pub]
  by (auto simp: evaluate_reference_def inputs_fit_def circuit_outputs_def outputs_index trace_def)

text \<open>The equations that characterise the values: one per node.\<close>

definition solves :: "'f::comm_ring_1 list \<Rightarrow> 'f list \<Rightarrow> 'f node list \<Rightarrow> 'f list \<Rightarrow> bool" where
  "solves sec pub nodes vs \<longleftrightarrow> length vs = length nodes \<and>
     (\<forall>i<length nodes. vs ! i = node_value sec pub (secret_leaves (take i nodes)) (public_leaves (take i nodes)) vs (nodes ! i))"

lemma node_value_cong:
  "node_wf k n \<Longrightarrow> (\<And>i. i < k \<Longrightarrow> vs ! i = ws ! i) \<Longrightarrow> node_value sec pub ns np vs n = node_value sec pub ns np ws n"
  by (cases n) auto

lemma solves_trace: "nodes_wf nodes \<Longrightarrow> solves sec pub nodes (trace sec pub nodes)"
proof (induction nodes rule: rev_induct)
  case Nil
  then show ?case by (simp add: solves_def)
next
  case (snoc n nodes)
  let ?w = "node_value sec pub (secret_leaves nodes) (public_leaves nodes) (trace sec pub nodes) n"
  have cong: "node_value sec pub a b (trace sec pub nodes @ [?w]) m = node_value sec pub a b (trace sec pub nodes) m"
    if "node_wf k m" "k \<le> length nodes" for a b m k
    by (rule node_value_cong [OF that(1)]) (use that(2) in \<open>auto simp: nth_append\<close>)
  show ?case
    unfolding solves_def trace_snoc
  proof (intro conjI allI impI)
    fix i assume i: "i < length (nodes @ [n])"
    show "(trace sec pub nodes @ [?w]) ! i = node_value sec pub (secret_leaves (take i (nodes @ [n])))
        (public_leaves (take i (nodes @ [n]))) (trace sec pub nodes @ [?w]) ((nodes @ [n]) ! i)"
    proof (cases "i < length nodes")
      case True
      then have "node_wf i (nodes ! i)" using snoc.prems by (auto simp: nodes_wf_def nth_append dest!: spec [of _ i])
      then show ?thesis using True snoc by (simp add: nth_append solves_def cong)
    next
      case False
      then have "i = length nodes" using i by simp
      then show ?thesis using snoc.prems cong [of "length nodes" n] by (simp add: nth_append)
    qed
  qed simp
qed

lemma solves_unique:
  assumes wf: "nodes_wf nodes" and v: "solves sec pub nodes vs" and w: "solves sec pub nodes ws"
  shows "vs = ws"
proof (rule nth_equalityI)
  show "length vs = length ws" using v w by (simp add: solves_def)
  have "i < length nodes \<Longrightarrow> vs ! i = ws ! i" for i
  proof (induction i rule: less_induct)
    case (less i)
    have "node_value sec pub a b vs (nodes ! i) = node_value sec pub a b ws (nodes ! i)" for a b
      by (rule node_value_cong [of i]) (use less wf in \<open>auto simp: nodes_wf_def\<close>)
    then show ?case using less.prems v w by (simp add: solves_def)
  qed
  then show "i < length vs \<Longrightarrow> vs ! i = ws ! i" for i using v by (simp add: solves_def)
qed

text \<open>C20: on a circuit that passes \<open>validate\<close>, with input slices of the declared lengths, the
  reference evaluator never indexes out of range and returns the outputs of the unique assignment
  of values to nodes that satisfies the equation of every node.\<close>

theorem evaluate_reference_correct:
  assumes "validate c = Inr ()" "length sec = c_num_secret c" "length pub = c_num_public c"
  shows "\<exists>vs. (\<forall>ws. solves sec pub (c_nodes c) ws \<longleftrightarrow> ws = vs) \<and>
    evaluate_reference c sec pub = Inr (map (\<lambda>i. vs ! as_usize i) (c_outputs c))"
proof (intro exI conjI allI)
  have wf: "circuit_wf c" using assms(1) by (simp add: validate_iff)
  then have n: "nodes_wf (c_nodes c)" by (simp add: circuit_wf_def)
  show "solves sec pub (c_nodes c) ws \<longleftrightarrow> ws = trace sec pub (c_nodes c)" for ws
    using solves_trace [OF n] solves_unique [OF n] by metis
  show "evaluate_reference c sec pub = Inr (map (\<lambda>i. trace sec pub (c_nodes c) ! as_usize i) (c_outputs c))"
    using evaluate_reference_eq [OF wf] assms(2,3) by (simp add: inputs_fit_def circuit_outputs_def)
qed

section \<open>The shared evaluation refines the clear one\<close>

definition node_event :: "nat \<Rightarrow> 'f node \<Rightarrow> transcript_event" where
  "node_event k n = (if is_leaf n then EvInput (of_nat k) else EvOperation (of_nat k))"

fun node_events :: "nat \<Rightarrow> 'f node list \<Rightarrow> transcript_event list" where
  "node_events k [] = []"
| "node_events k (n # rest) = node_event k n # node_events (Suc k) rest"

definition mul_count :: "'f node list \<Rightarrow> nat" where
  "mul_count nodes = length (filter (\<lambda>n. case n of Mul _ _ \<Rightarrow> True | _ \<Rightarrow> False) nodes)"

lemma mul_count_simps [simp]:
  "mul_count [] = 0" "mul_count (SecretInput # ns) = mul_count ns" "mul_count (PublicInput # ns) = mul_count ns"
  "mul_count (Constant c # ns) = mul_count ns" "mul_count (Add a b # ns) = mul_count ns"
  "mul_count (Mul a b # ns) = Suc (mul_count ns)"
  by (simp_all add: mul_count_def)

lemma mul_count_le: "mul_count nodes \<le> length nodes"
  by (simp add: mul_count_def)

lemma list_all2_nth_index:
  "list_all2 R vs xs \<Longrightarrow> i < length vs \<Longrightarrow> \<exists>x. index_at xs i = Inr x \<and> R (vs ! i) x"
  by (auto simp: index_at_def list_all2_conv_all_nth)

lemma on_sim_input:
  assumes "2 \<le> party_count (sim_ctx sim)"
  shows "\<exists>x g'. on_sim (sim_input rand v) (sim, hook) = (Inr x, (sim\<lparr>sim_rng := g'\<rparr>, hook)) \<and>
    is_sharing (party_count (sim_ctx sim)) v x"
  using sim_input_spec [OF assms, of rand v] by (auto simp: on_sim_def)

context triple_provider
begin

definition sim_ok :: "('p, 'g) mpc_simulator \<Rightarrow> bool" where
  "sim_ok sim \<longleftrightarrow> pinv (sim_provider sim) \<and> party_count (sim_ctx sim) = parties \<and> 2 \<le> parties"

lemma on_sim_mul:
  assumes "sim_ok sim" "is_sharing parties v x" "is_sharing parties w y"
  shows "(\<exists>z sim'. on_sim (sim_mul next_op x y) (sim, hook) = (Inr z, (sim', hook)) \<and> sim_ok sim' \<and>
      is_sharing parties (v * w) z \<and> remaining (sim_provider sim) - 1 \<le> remaining (sim_provider sim')) \<or>
    (\<exists>st. on_sim (sim_mul next_op x y) (sim, hook) = (Inl CE_MpcFault, st) \<and> remaining (sim_provider sim) = 0)"
proof -
  let ?p = "sim_provider sim"
  have p: "pinv ?p" using assms(1) by (simp add: sim_ok_def)
  obtain r p' where m: "mul_secret next_op x y ?p = (r, p')" by force
  have ok: "sim_ok (sim\<lparr>sim_provider := p'\<rparr>)"
    using assms(1) mul_secret_inv [OF p m] by (simp add: sim_ok_def)
  show ?thesis
  proof (cases "remaining ?p = 0")
    case True
    then show ?thesis using mul_secret_sharing [OF p assms(2,3) m] m ok
      by (auto simp: on_sim_def sim_mul_def)
  next
    case False
    then show ?thesis using mul_secret_progress [OF p _ assms(2,3)] m ok
      by (auto simp: on_sim_def sim_mul_def)
  qed
qed

text \<open>One node: either it yields a sharing of the node's value, or it is a multiplication and the
  provider had no triple left.\<close>

lemma eval_node_mpc_refines:
  assumes sim: "sim_ok sim" and vs: "list_all2 (is_sharing parties) vs xs"
    and ok: "node_wf (length vs) n" "n = SecretInput \<longrightarrow> ns < length sec" "n = PublicInput \<longrightarrow> np < length pub"
  shows "(\<exists>x sim'. eval_node_mpc rand next_op sec pub k n ns np xs (sim, hook) =
        (Inr (ns + secret_leaves [n], np + public_leaves [n], x), (sim', record_opt (node_event k n) hook)) \<and>
      sim_ok sim' \<and> is_sharing parties (node_value sec pub ns np vs n) x \<and>
      remaining (sim_provider sim) - mul_count [n] \<le> remaining (sim_provider sim')) \<or>
    (\<exists>st. eval_node_mpc rand next_op sec pub k n ns np xs (sim, hook) = (Inl CE_MpcFault, st) \<and>
      remaining (sim_provider sim) < mul_count [n])"
proof -
  have n2: "2 \<le> party_count (sim_ctx sim)" "party_count (sim_ctx sim) = parties"
    using sim by (simp_all add: sim_ok_def)
  have inp: "\<exists>x g'. on_sim (sim_input rand v) (sim, hook) = (Inr x, (sim\<lparr>sim_rng := g'\<rparr>, hook)) \<and> is_sharing parties v x"
    for v using on_sim_input [OF n2(1)] n2(2) by simp
  have ok': "sim_ok (sim\<lparr>sim_rng := g'\<rparr>)" for g' using sim by (simp add: sim_ok_def)
  show ?thesis
  proof (cases n)
    case SecretInput
    then show ?thesis using inp [of "sec ! ns"] ok ok'
      by (auto simp: eval_node_mpc_def obind_def on_hook_def index_at_def node_event_def is_leaf_def)
  next
    case PublicInput
    then show ?thesis using inp [of "pub ! np"] ok ok'
      by (auto simp: eval_node_mpc_def obind_def on_hook_def index_at_def node_event_def is_leaf_def)
  next
    case (Constant c)
    then show ?thesis using inp [of c] ok'
      by (auto simp: eval_node_mpc_def obind_def on_hook_def node_event_def is_leaf_def)
  next
    case (Add a b)
    obtain x y where x: "index_at xs (as_usize a) = Inr x" "is_sharing parties (vs ! as_usize a) x"
      and y: "index_at xs (as_usize b) = Inr y" "is_sharing parties (vs ! as_usize b) y"
      using list_all2_nth_index [OF vs, of "as_usize a"] list_all2_nth_index [OF vs, of "as_usize b"] ok(1) Add by auto
    obtain z where "add_secret x y = Inr z" "is_sharing parties (vs ! as_usize a + vs ! as_usize b) z"
      using add_secret_sharing [OF x(2) y(2)] by blast
    then show ?thesis using Add x y sim
      by (auto simp: eval_node_mpc_def obind_def on_hook_def node_event_def is_leaf_def)
  next
    case (Mul a b)
    obtain x y where x: "index_at xs (as_usize a) = Inr x" "is_sharing parties (vs ! as_usize a) x"
      and y: "index_at xs (as_usize b) = Inr y" "is_sharing parties (vs ! as_usize b) y"
      using list_all2_nth_index [OF vs, of "as_usize a"] list_all2_nth_index [OF vs, of "as_usize b"] ok(1) Mul by auto
    from on_sim_mul [OF sim x(2) y(2), of hook] show ?thesis using Mul x y
      by (elim disjE exE conjE) (auto simp: eval_node_mpc_def obind_def on_hook_def node_event_def is_leaf_def)
  qed
qed

lemma eval_nodes_mpc_refines:
  assumes "sim_ok sim" "list_all2 (is_sharing parties) vs xs"
    and "nodes_ok (length sec) (length pub) nodes ns np (length vs)"
  shows "(\<exists>xs' sim'. eval_nodes_mpc rand next_op sec pub k nodes ns np xs (sim, hook) =
        (Inr xs', (sim', fold record_opt (node_events k nodes) hook)) \<and>
      sim_ok sim' \<and> list_all2 (is_sharing parties) (trace_from sec pub nodes ns np vs) xs') \<or>
    (\<exists>st. eval_nodes_mpc rand next_op sec pub k nodes ns np xs (sim, hook) = (Inl CE_MpcFault, st) \<and>
      remaining (sim_provider sim) < mul_count nodes)"
  using assms
proof (induction nodes arbitrary: sim vs xs ns np k hook)
  case Nil
  then show ?case by simp
next
  case (Cons n nodes)
  have count: "mul_count (n # nodes) = mul_count [n] + mul_count nodes" by (simp add: mul_count_def)
  have "(\<exists>x sim'. eval_node_mpc rand next_op sec pub k n ns np xs (sim, hook) =
        (Inr (ns + secret_leaves [n], np + public_leaves [n], x), (sim', record_opt (node_event k n) hook)) \<and>
      sim_ok sim' \<and> is_sharing parties (node_value sec pub ns np vs n) x \<and>
      remaining (sim_provider sim) - mul_count [n] \<le> remaining (sim_provider sim')) \<or>
    (\<exists>st. eval_node_mpc rand next_op sec pub k n ns np xs (sim, hook) = (Inl CE_MpcFault, st) \<and>
      remaining (sim_provider sim) < mul_count [n])"
    using Cons.prems by (intro eval_node_mpc_refines) auto
  then show ?case
  proof (elim disjE exE conjE)
    fix x sim'
    assume e: "eval_node_mpc rand next_op sec pub k n ns np xs (sim, hook) =
        (Inr (ns + secret_leaves [n], np + public_leaves [n], x), (sim', record_opt (node_event k n) hook))"
      and ok: "sim_ok sim'" and x: "is_sharing parties (node_value sec pub ns np vs n) x"
      and rem: "remaining (sim_provider sim) - mul_count [n] \<le> remaining (sim_provider sim')"
    have "list_all2 (is_sharing parties) (vs @ [node_value sec pub ns np vs n]) (xs @ [x])"
      using Cons.prems(2) x by (simp add: list_all2_appendI)
    from Cons.IH [OF ok this, of "ns + secret_leaves [n]" "np + public_leaves [n]" "Suc k"
        "record_opt (node_event k n) hook"] Cons.prems(3)
    show ?thesis using e rem count by (auto simp: obind_def)
  next
    fix st assume "eval_node_mpc rand next_op sec pub k n ns np xs (sim, hook) = (Inl CE_MpcFault, st)"
      "remaining (sim_provider sim) < mul_count [n]"
    then show ?thesis using count by (simp add: obind_def)
  qed
qed

lemma evaluate_mpc_refines:
  assumes "circuit_wf c" "inputs_fit c sec pub" "sim_ok sim"
  shows "(\<exists>ys sim'. evaluate_mpc rand next_op c sec pub (sim, hook) =
        (Inr ys, (sim', fold record_opt (node_events 0 (c_nodes c) @ map EvOutput (c_outputs c)) hook)) \<and>
      sim_ok sim' \<and> list_all2 (is_sharing parties) (circuit_outputs c sec pub) ys) \<or>
    (\<exists>st. evaluate_mpc rand next_op c sec pub (sim, hook) = (Inl CE_MpcFault, st) \<and>
      remaining (sim_provider sim) < mul_count (c_nodes c))"
proof -
  have fit: "\<not> (length sec \<noteq> c_num_secret c \<or> length pub \<noteq> c_num_public c)"
    using assms(2) by (simp add: inputs_fit_def)
  from eval_nodes_mpc_refines [OF assms(3), of "[]" "[]" sec pub "c_nodes c" 0 0 rand 0 hook]
    circuit_nodes_ok [OF assms(1,2)]
  consider xs sim' where "eval_nodes_mpc rand next_op sec pub 0 (c_nodes c) 0 0 [] (sim, hook) =
        (Inr xs, (sim', fold record_opt (node_events 0 (c_nodes c)) hook))" "sim_ok sim'"
      "list_all2 (is_sharing parties) (trace sec pub (c_nodes c)) xs"
    | st where "eval_nodes_mpc rand next_op sec pub 0 (c_nodes c) 0 0 [] (sim, hook) = (Inl CE_MpcFault, st)"
      "remaining (sim_provider sim) < mul_count (c_nodes c)"
    by (auto simp: trace_def)
  then show ?thesis
  proof cases
    case 1
    have len: "length xs = length (c_nodes c)" using list_all2_lengthD [OF 1(3)] by simp
    have "list_all2 (is_sharing parties) (circuit_outputs c sec pub) (map (\<lambda>i. xs ! as_usize i) (c_outputs c))"
      using 1(3) assms(1) len
      by (auto simp: circuit_outputs_def list_all2_conv_all_nth circuit_wf_def)
    then show ?thesis
      using 1 fit outputs_index [OF assms(1) len]
      by (auto simp: evaluate_mpc_def obind_def record_outputs_def fold_map comp_def)
  next
    case 2
    then show ?thesis using fit by (auto simp: evaluate_mpc_def obind_def)
  qed
qed

end

text \<open>C6: running a valid circuit under MPC with a new trusted provider always succeeds, and
  revealing its outputs gives exactly the outputs of the reference evaluator. The provider's 64-bit
  counter cannot run out on a circuit whose nodes have 32-bit ids.\<close>

theorem evaluate_mpc_correct:
  fixes c :: "'f::comm_ring_1 circuit" and rand :: "'g \<Rightarrow> 'f \<times> 'g"
  assumes "validate c = Inr ()" "length sec = c_num_secret c" "length pub = c_num_public c"
    and "length (c_nodes c) \<le> 2 ^ 32"
    and "TripleProvider_new ctx g = Inr p" "Simulator_new ctx p g' = Inr sim"
  shows "\<exists>ys sim' hook' outs. evaluate_mpc rand (next_triple rand) c sec pub (sim, hook) = (Inr ys, (sim', hook')) \<and>
    evaluate_reference c sec pub = Inr outs \<and> rmap (sim_reveal sim') ys = Inr outs"
proof -
  have wf: "circuit_wf c" "inputs_fit c sec pub"
    using assms(1-3) by (simp_all add: validate_iff inputs_fit_def)
  obtain k where k: "party_count ctx = Suc (Suc k)"
    using assms(5) by (auto simp: TripleProvider_new_def dest: le_Suc_ex split: if_splits)
      (metis Suc_leI le_Suc_ex not_less_eq_eq plus_nat.simps(2) One_nat_def)
  have sim: "sim = \<lparr>sim_ctx = ctx, sim_provider = p, sim_rng = g'\<rparr>"
    using assms(6) by (simp add: Simulator_new_def split: if_splits)
  note inv = TripleProvider_new_inv [OF assms(5)]
  have ok: "ltp.sim_ok k sim" using inv k by (simp add: ltp.sim_ok_def sim)
  have "mul_count (c_nodes c) \<le> provider_remaining (sim_provider sim)"
    using mul_count_le [of "c_nodes c"] assms(4) inv by (simp add: sim)
  then obtain ys sim' where ys: "evaluate_mpc rand (next_triple rand) c sec pub (sim, hook) =
        (Inr ys, (sim', fold record_opt (node_events 0 (c_nodes c) @ map EvOutput (c_outputs c)) hook))"
      "ltp.sim_ok k sim'" "list_all2 (is_sharing (Suc (Suc k))) (circuit_outputs c sec pub) ys"
    using ltp.evaluate_mpc_refines [OF wf ok, of rand rand hook] by fastforce
  have rev: "rmap (sim_reveal sim') ys = Inr vs" if "list_all2 (is_sharing (Suc (Suc k))) vs ys" for vs
    using that
    by (induction rule: list_all2_induct) (use ys(2) in \<open>auto simp: ltp.sim_ok_def intro!: sim_reveal_sharing\<close>)
  show ?thesis using ys(1) rev [OF ys(3)] evaluate_reference_eq [OF wf] by blast
qed

text \<open>The transcript of an MPC evaluation is determined by the circuit alone: one event per
  node, in order, then one per output. It does not depend on inputs, shares or randomness.\<close>

theorem transcript_of_circuit:
  fixes c :: "'f::comm_ring_1 circuit" and rand :: "'g \<Rightarrow> 'f \<times> 'g"
  assumes "validate c = Inr ()"
    and "provider_inv (party_count (sim_ctx sim)) (sim_provider sim)"
    and "evaluate_mpc rand (next_triple rand) c sec pub (sim, Some TranscriptHook_new) = (Inr ys, (sim', hook'))"
  shows "hook' = Some \<lparr>th_events = node_events 0 (c_nodes c) @ map EvOutput (c_outputs c), th_enabled = True\<rparr>"
proof -
  have fit: "inputs_fit c sec pub"
    using assms(3) by (auto simp: evaluate_mpc_def inputs_fit_def split: if_splits)
  obtain k where k: "party_count (sim_ctx sim) = Suc (Suc k)"
    using assms(2) by (auto simp: provider_inv_def dest: le_Suc_ex)
  have "ltp.sim_ok k sim" using assms(2) k by (simp add: ltp.sim_ok_def)
  then have "hook' = fold record_opt (node_events 0 (c_nodes c) @ map EvOutput (c_outputs c)) (Some TranscriptHook_new)"
    using ltp.evaluate_mpc_refines [of c sec pub k sim rand rand "Some TranscriptHook_new"] fit assms(1,3)
    by (auto simp: validate_iff)
  moreover have "fold record_opt evs (Some \<lparr>th_events = es, th_enabled = True\<rparr>) =
      Some \<lparr>th_events = es @ evs, th_enabled = True\<rparr>" for es evs
    by (induction evs arbitrary: es) (simp_all add: record_opt_def TranscriptHook_record_def)
  ultimately show ?thesis by (simp add: TranscriptHook_new_def)
qed

section \<open>A concrete circuit\<close>

text \<open>The circuit \<open>(x + 3) * y\<close> for a secret \<open>x\<close> and a public \<open>y\<close>.\<close>

definition demo_builder :: "fp builder" where
  "demo_builder = \<lparr>b_nodes = [SecretInput, PublicInput, Constant 3, Add 0 2, Mul 3 1],
     b_num_secret = 1, b_num_public = 1, b_outputs = [4]\<rparr>"

definition demo_circuit :: "fp circuit" where
  "demo_circuit = \<lparr>c_nodes = [SecretInput, PublicInput, Constant 3, Add 0 2, Mul 3 1],
     c_num_secret = 1, c_num_public = 1, c_outputs = [4]\<rparr>"

lemmas run_call_eval = b_secret_input_def b_public_input_def b_constant_def b_add_def b_mul_def b_output_def
  push_def next_node_id_def check_defined_def obind_def Builder_new_def

lemma demo_builder_reachable: "builder_reachable demo_builder"
proof -
  have "builder_reachable \<lparr>b_nodes = [SecretInput], b_num_secret = 1, b_num_public = 0, b_outputs = []\<rparr>"
    by (rule builder_reachable.step [OF builder_reachable.new, of Call_secret_input "Inr ()"])
       (simp_all add: run_call_eval)
  then have "builder_reachable \<lparr>b_nodes = [SecretInput, PublicInput], b_num_secret = 1, b_num_public = 1, b_outputs = []\<rparr>"
    by (rule builder_reachable.step [of _ Call_public_input "Inr ()"]) (simp_all add: run_call_eval)
  then have "builder_reachable \<lparr>b_nodes = [SecretInput, PublicInput, Constant 3], b_num_secret = 1, b_num_public = 1,
      b_outputs = []\<rparr>"
    by (rule builder_reachable.step [of _ "Call_constant 3" "Inr ()"]) (simp_all add: run_call_eval)
  then have "builder_reachable \<lparr>b_nodes = [SecretInput, PublicInput, Constant 3, Add 0 2], b_num_secret = 1,
      b_num_public = 1, b_outputs = []\<rparr>"
    by (rule builder_reachable.step [of _ "Call_add 0 2" "Inr ()"]) (simp_all add: run_call_eval)
  then have "builder_reachable \<lparr>b_nodes = [SecretInput, PublicInput, Constant 3, Add 0 2, Mul 3 1], b_num_secret = 1,
      b_num_public = 1, b_outputs = []\<rparr>"
    by (rule builder_reachable.step [of _ "Call_mul 3 1" "Inr ()"]) (simp_all add: run_call_eval)
  then show ?thesis unfolding demo_builder_def
    by (rule builder_reachable.step [of _ "Call_output 4" "Inr ()"]) (simp_all add: run_call_eval)
qed

theorem build_reachable_witness: "\<exists>c. build demo_builder = Inr c \<and> validate c = Inr ()"
  using build_reachable [OF demo_builder_reachable] by (auto simp: demo_builder_def)

lemma demo_circuit_valid: "validate demo_circuit = Inr ()"
  by (simp add: demo_circuit_def validate_def check_operand_def secret_leaves_def public_leaves_def)

theorem evaluate_reference_correct_witness:
  "\<exists>vs. solves [4] [2] (c_nodes demo_circuit) vs \<and> evaluate_reference demo_circuit [4] [2] = Inr [vs ! 4]"
  using evaluate_reference_correct [OF demo_circuit_valid, of "[4]" "[2]"] by (auto simp: demo_circuit_def)

definition demo_sim3 :: "(fp list triple_provider_state, fp list) mpc_simulator" where
  "demo_sim3 = \<lparr>sim_ctx = demo_ctx, sim_provider = demo_provider, sim_rng = [5, 6, 7]\<rparr>"

theorem evaluate_mpc_correct_witness:
  "\<exists>ys sim' hook' outs. evaluate_mpc tape_rand (next_triple tape_rand) demo_circuit [4] [2] (demo_sim3, None) = (Inr ys, (sim', hook')) \<and>
    evaluate_reference demo_circuit [4] [2] = Inr outs \<and> rmap (sim_reveal sim') ys = Inr outs"
  by (rule evaluate_mpc_correct [OF demo_circuit_valid, of _ _ demo_ctx "[3, 4, 10, 11, 12]" demo_provider "[5, 6, 7]"])
     (simp_all add: demo_circuit_def demo_ctx_def demo_provider_def demo_sim3_def TripleProvider_new_def Simulator_new_def)

lemma demo_run:
  "\<exists>ys sim' hook'. evaluate_mpc tape_rand (next_triple tape_rand) demo_circuit [4] [2] (demo_sim3, Some TranscriptHook_new)
     = (Inr ys, (sim', hook'))"
proof -
  have wf: "circuit_wf demo_circuit" "inputs_fit demo_circuit [4] [2]"
    using demo_circuit_valid by (simp_all add: validate_iff inputs_fit_def demo_circuit_def)
  have "ltp.sim_ok 0 demo_sim3"
    by (simp add: ltp.sim_ok_def demo_sim3_def demo_ctx_def demo_provider_def provider_inv_def)
  from ltp.evaluate_mpc_refines [OF wf this, of tape_rand tape_rand "Some TranscriptHook_new"]
  show ?thesis
    by (auto simp: demo_sim3_def demo_provider_def provider_remaining_def demo_circuit_def)
qed

theorem transcript_of_circuit_witness:
  "\<exists>ys sim'. evaluate_mpc tape_rand (next_triple tape_rand) demo_circuit [4] [2] (demo_sim3, Some TranscriptHook_new)
     = (Inr ys, (sim', Some \<lparr>th_events = [EvInput 0, EvInput 1, EvInput 2, EvOperation 3, EvOperation 4, EvOutput 4],
         th_enabled = True\<rparr>))"
proof -
  obtain ys sim' hook' where run: "evaluate_mpc tape_rand (next_triple tape_rand) demo_circuit [4] [2]
      (demo_sim3, Some TranscriptHook_new) = (Inr ys, (sim', hook'))"
    using demo_run by blast
  have "provider_inv (party_count (sim_ctx demo_sim3)) (sim_provider demo_sim3)"
    by (simp add: demo_sim3_def demo_ctx_def demo_provider_def provider_inv_def)
  from transcript_of_circuit [OF demo_circuit_valid this run] run show ?thesis
    by (simp add: demo_circuit_def node_event_def is_leaf_def)
qed

end
