(* ===== verification/Codec.thy ===== *)
theory Codec
  imports Prelude
begin

text \<open>
  The shared structure of the workspace's binary formats. A writer is a function to bytes; a reader
  takes the bytes not read yet and returns a value with the rest, or an error. The locale \<open>codec\<close>
  is the contract between the two: reading what was written gives the value back, and whatever is
  read was written by the writer, so that accepted encodings are canonical. The lemma on counted
  repetitions is proved once in the locale; the readers of the fixed-width integers interpret it.
\<close>

section \<open>Fixed-width readers\<close>

definition read_u8 :: "'e \<Rightarrow> bytes \<Rightarrow> ('e, u8 \<times> bytes) result" where
  "read_u8 e bs = rbind (read_slice e 1 bs) (\<lambda>(raw, rest). Inr (raw ! 0, rest))"

definition read_u16 :: "'e \<Rightarrow> bytes \<Rightarrow> ('e, u16 \<times> bytes) result" where
  "read_u16 e bs = rbind (read_slice e 2 bs) (\<lambda>(raw, rest). Inr (u16_from_be_bytes raw, rest))"

definition read_u32 :: "'e \<Rightarrow> bytes \<Rightarrow> ('e, u32 \<times> bytes) result" where
  "read_u32 e bs = rbind (read_slice e 4 bs) (\<lambda>(raw, rest). Inr (u32_from_be_bytes raw, rest))"

definition read_u64 :: "'e \<Rightarrow> bytes \<Rightarrow> ('e, u64 \<times> bytes) result" where
  "read_u64 e bs = rbind (read_slice e 8 bs) (\<lambda>(raw, rest). Inr (u64_from_be_bytes raw, rest))"

text \<open>\<open>for _ in 0..n { xs.push(read()?) }\<close>\<close>

fun read_n :: "(bytes \<Rightarrow> ('e, 'a \<times> bytes) result) \<Rightarrow> nat \<Rightarrow> bytes \<Rightarrow> ('e, 'a list \<times> bytes) result" where
  "read_n f 0 bs = Inr ([], bs)"
| "read_n f (Suc n) bs = rbind (f bs) (\<lambda>(x, rest). rbind (read_n f n rest) (\<lambda>(xs, rest'). Inr (x # xs, rest')))"

lemma length_read_n: "read_n f n bs = Inr (xs, rest) \<Longrightarrow> length xs = n"
  by (induction n arbitrary: bs xs rest) auto

text \<open>\<open>(xs.len() as u32).to_be_bytes()\<close> with the encodings of the elements, and its reader.\<close>

definition put_vec :: "('a \<Rightarrow> bytes) \<Rightarrow> 'a list \<Rightarrow> bytes" where
  "put_vec enc xs = u32_to_be_bytes (of_nat (length xs)) @ concat (map enc xs)"

definition read_vec :: "'e \<Rightarrow> (bytes \<Rightarrow> ('e, 'a \<times> bytes) result) \<Rightarrow> bytes \<Rightarrow> ('e, 'a list \<times> bytes) result" where
  "read_vec err dec bs = rbind (read_u32 err bs) (\<lambda>(n, rest). read_n dec (unat n) rest)"

section \<open>The contract\<close>

locale codec =
  fixes enc :: "'a \<Rightarrow> bytes"
    and dec :: "bytes \<Rightarrow> ('e, 'a \<times> bytes) result"
    and wf :: "'a \<Rightarrow> bool"
  assumes dec_enc: "wf x \<Longrightarrow> dec (enc x @ rest) = Inr (x, rest)"
    and enc_dec: "dec bs = Inr (x, rest) \<Longrightarrow> bs = enc x @ rest \<and> wf x"
begin

lemma dec_iff: "dec bs = Inr (x, rest) \<longleftrightarrow> wf x \<and> bs = enc x @ rest"
  using dec_enc enc_dec by blast

lemma read_n_iff:
  "read_n dec n bs = Inr (xs, rest) \<longleftrightarrow>
     length xs = n \<and> (\<forall>x\<in>set xs. wf x) \<and> bs = concat (map enc xs) @ rest"
proof (induction n arbitrary: bs xs rest)
  case 0
  then show ?case by auto
next
  case (Suc n)
  show ?case by (cases xs) (auto simp: dec_iff Suc)
qed

lemma enc_inject: "wf x \<Longrightarrow> wf y \<Longrightarrow> enc x = enc y \<Longrightarrow> x = y"
  by (metis dec_enc Inr_inject prod.inject)

lemma enc_prefix_free: "wf x \<Longrightarrow> wf y \<Longrightarrow> enc x @ r = enc y @ s \<Longrightarrow> x = y \<and> r = s"
  by (metis dec_enc Inr_inject prod.inject)

end

section \<open>Instances\<close>

interpretation u8_codec: codec "\<lambda>b. [b]" "read_u8 e" "\<lambda>_. True" for e
  by unfold_locales (auto simp: read_u8_def read_slice_Inr length_Suc_conv)

interpretation u16_codec: codec u16_to_be_bytes "read_u16 e" "\<lambda>_. True" for e
  by unfold_locales (auto simp: read_u16_def read_slice_Inr uN_to_from_be_bytes)

interpretation u32_codec: codec u32_to_be_bytes "read_u32 e" "\<lambda>_. True" for e
  by unfold_locales (auto simp: read_u32_def read_slice_Inr uN_to_from_be_bytes)

interpretation u64_codec: codec u64_to_be_bytes "read_u64 e" "\<lambda>_. True" for e
  by unfold_locales (auto simp: read_u64_def read_slice_Inr uN_to_from_be_bytes)

interpretation slice_codec: codec "\<lambda>bs. bs" "read_slice e n" "\<lambda>bs. length bs = n" for e n
  by unfold_locales (auto simp: read_slice_Inr)

text \<open>Counted vectors of a codec are a codec.\<close>

context codec
begin

lemma read_vec_iff:
  "read_vec e dec bs = Inr (xs, rest) \<longleftrightarrow>
     (length xs < 2 ^ 32 \<and> (\<forall>x\<in>set xs. wf x)) \<and> bs = put_vec enc xs @ rest"
proof -
  have "length xs < 2 ^ 32 \<Longrightarrow> unat (of_nat (length xs) :: u32) = length xs"
    by (simp add: unat_of_nat)
  moreover have "unat n < 2 ^ 32" for n :: u32
    using unsigned_less [of n, where ?'a = nat] by simp
  ultimately show ?thesis
    by (auto simp: read_vec_def put_vec_def u32_codec.dec_iff read_n_iff)
qed

lemma vec_codec: "codec (put_vec enc) (read_vec e dec) (\<lambda>xs. length xs < 2 ^ 32 \<and> (\<forall>x\<in>set xs. wf x))"
  by unfold_locales (auto simp: read_vec_iff)

end

lemmas reader_iffs = u8_codec.dec_iff u16_codec.dec_iff u32_codec.dec_iff u64_codec.dec_iff slice_codec.dec_iff

lemma reader_Inls:
  "read_u8 e bs = Inl d \<longleftrightarrow> length bs < 1 \<and> d = e" "read_u16 e bs = Inl d \<longleftrightarrow> length bs < 2 \<and> d = e"
  "read_u32 e bs = Inl d \<longleftrightarrow> length bs < 4 \<and> d = e" "read_u64 e bs = Inl d \<longleftrightarrow> length bs < 8 \<and> d = e"
  "read_slice e n bs = Inl d \<longleftrightarrow> length bs < n \<and> d = e"
  by (auto simp: read_u8_def read_u16_def read_u32_def read_u64_def rbind_eq_Inl read_slice_Inl)

lemma read_uN_append [simp]:
  "read_u8 e (b # rest) = Inr (b, rest)"
  "read_u16 e (u16_to_be_bytes h @ rest) = Inr (h, rest)"
  "read_u32 e (u32_to_be_bytes w @ rest) = Inr (w, rest)"
  "read_u64 e (u64_to_be_bytes d @ rest) = Inr (d, rest)"
  using u8_codec.dec_enc [of e b rest] u16_codec.dec_enc u32_codec.dec_enc u64_codec.dec_enc by simp_all

end
