(* ===== verification/Circuit_Encoding.thy ===== *)
theory Circuit_Encoding
  imports Circuit Codec Crypto_Core
begin

text \<open>
  Model of \<open>crates/circuit/src/encoding.rs\<close> and \<open>identity.rs\<close>: the canonical byte format of
  circuits and the circuit id. The \<open>Cursor\<close> is the list of bytes not read yet. The width of a field
  element (\<open>element_width\<close>, the bytes of the limbs of \<open>F::BigInt\<close>) is the parameter \<open>width\<close>.
\<close>

section \<open>The format\<close>

definition ENCODING_VERSION :: u8 where "ENCODING_VERSION = 1"
definition MAX_CIRCUIT_NODES :: nat where "MAX_CIRCUIT_NODES = 1000000"
definition TAG_SECRET_INPUT :: u8 where "TAG_SECRET_INPUT = 0"
definition TAG_PUBLIC_INPUT :: u8 where "TAG_PUBLIC_INPUT = 1"
definition TAG_CONSTANT :: u8 where "TAG_CONSTANT = 2"
definition TAG_ADD :: u8 where "TAG_ADD = 3"
definition TAG_MUL :: u8 where "TAG_MUL = 4"

lemmas circuit_tags = TAG_SECRET_INPUT_def TAG_PUBLIC_INPUT_def TAG_CONSTANT_def TAG_ADD_def TAG_MUL_def

definition circuit_element_to_be_bytes :: "('f \<Rightarrow> nat) \<Rightarrow> nat \<Rightarrow> 'f \<Rightarrow> bytes" where
  "circuit_element_to_be_bytes into_bigint width v = be_bytes width (into_bigint v)"

text \<open>The bits of the bytes, most significant first, and \<open>BigInteger::from_bits_be\<close>.\<close>

definition bits_be :: "bytes \<Rightarrow> bool list" where
  "bits_be bs = concat (map (\<lambda>byte. map (\<lambda>i. and (drop_bit (7 - i) byte) 1 = 1) [0..<8]) bs)"

definition from_bits_be :: "bool list \<Rightarrow> nat" where
  "from_bits_be bits = foldl (\<lambda>acc b. 2 * acc + of_bool b) 0 bits"

definition circuit_element_from_be_bytes :: "nat \<Rightarrow> bytes \<Rightarrow> 'f::comm_ring_1 option" where
  "circuit_element_from_be_bytes modulus bs = from_bigint modulus (from_bits_be (bits_be bs))"

fun encode_node :: "('f \<Rightarrow> nat) \<Rightarrow> nat \<Rightarrow> 'f node \<Rightarrow> bytes" where
  "encode_node into_bigint width SecretInput = [TAG_SECRET_INPUT]"
| "encode_node into_bigint width PublicInput = [TAG_PUBLIC_INPUT]"
| "encode_node into_bigint width (Constant v) = TAG_CONSTANT # circuit_element_to_be_bytes into_bigint width v"
| "encode_node into_bigint width (Add a b) = TAG_ADD # u32_to_be_bytes a @ u32_to_be_bytes b"
| "encode_node into_bigint width (Mul a b) = TAG_MUL # u32_to_be_bytes a @ u32_to_be_bytes b"

text \<open>\<open>None\<close> is the panic of \<open>u32::try_from(len).expect(..)\<close>.\<close>

definition serialize :: "('f \<Rightarrow> nat) \<Rightarrow> nat \<Rightarrow> 'f circuit \<Rightarrow> bytes option" where
  "serialize into_bigint width c =
     (if length (c_nodes c) < 2 ^ 32 \<and> length (c_outputs c) < 2 ^ 32
      then Some ([ENCODING_VERSION] @ u32_to_be_bytes (of_nat (length (c_nodes c))) @
             concat (map (encode_node into_bigint width) (c_nodes c)) @
             u32_to_be_bytes (of_nat (length (c_outputs c))) @
             concat (map u32_to_be_bytes (c_outputs c)))
      else None)"

definition decode_node :: "nat \<Rightarrow> nat \<Rightarrow> bytes \<Rightarrow> (circuit_error, 'f::comm_ring_1 node \<times> bytes) result" where
  "decode_node modulus width bs =
     rbind (read_u8 CE_UnexpectedEnd bs) (\<lambda>(tag, rest).
     if tag = TAG_SECRET_INPUT then Inr (SecretInput, rest)
     else if tag = TAG_PUBLIC_INPUT then Inr (PublicInput, rest)
     else if tag = TAG_CONSTANT then
       rbind (read_slice CE_UnexpectedEnd width rest) (\<lambda>(raw, rest).
       rbind (ok_or CE_MalformedNode (circuit_element_from_be_bytes modulus raw)) (\<lambda>v. Inr (Constant v, rest)))
     else if tag = TAG_ADD then
       rbind (read_u32 CE_UnexpectedEnd rest) (\<lambda>(a, rest).
       rbind (read_u32 CE_UnexpectedEnd rest) (\<lambda>(b, rest). Inr (Add a b, rest)))
     else if tag = TAG_MUL then
       rbind (read_u32 CE_UnexpectedEnd rest) (\<lambda>(a, rest).
       rbind (read_u32 CE_UnexpectedEnd rest) (\<lambda>(b, rest). Inr (Mul a b, rest)))
     else Inl CE_MalformedNode)"

definition deserialize :: "nat \<Rightarrow> nat \<Rightarrow> bytes \<Rightarrow> (circuit_error, 'f::comm_ring_1 circuit) result" where
  "deserialize modulus width bs =
     rbind (read_u8 CE_UnexpectedEnd bs) (\<lambda>(version, rest).
     if version \<noteq> ENCODING_VERSION then Inl CE_UnsupportedVersion else
     rbind (read_u32 CE_UnexpectedEnd rest) (\<lambda>(num_nodes, rest).
     if unat num_nodes > MAX_CIRCUIT_NODES then Inl CE_ExcessiveSize else
     rbind (read_n (decode_node modulus width) (unat num_nodes) rest) (\<lambda>(nodes, rest).
     rbind (read_u32 CE_UnexpectedEnd rest) (\<lambda>(num_outputs, rest).
     rbind (read_n (read_u32 CE_UnexpectedEnd) (unat num_outputs) rest) (\<lambda>(outputs, rest).
     if rest \<noteq> [] then Inl CE_TrailingBytes else
     let c = \<lparr>c_nodes = nodes, c_num_secret = secret_leaves nodes, c_num_public = public_leaves nodes,
              c_outputs = outputs\<rparr>
     in rbind (validate c) (\<lambda>_. Inr c))))))"

definition CIRCUIT_ID_DOMAIN :: bytes where
  "CIRCUIT_ID_DOMAIN = ascii ''private-payment-auth/circuit/v1''"

definition compute_id :: "(bytes \<Rightarrow> bytes) \<Rightarrow> ('f \<Rightarrow> nat) \<Rightarrow> nat \<Rightarrow> 'f circuit \<Rightarrow> digest option" where
  "compute_id sha256 into_bigint width c =
     map_option (\<lambda>bs. Digest (Sha256Hash_hash_domain sha256 CIRCUIT_ID_DOMAIN bs)) (serialize into_bigint width c)"

section \<open>Bits and bytes\<close>

lemma byte_bits_value:
  "foldl (\<lambda>acc b. 2 * acc + of_bool b) acc (map (\<lambda>i. and (drop_bit (7 - i) byte) 1 = (1 :: u8)) [0..<8]) =
     256 * acc + unat byte"
proof -
  have bit: "and (drop_bit n byte) 1 = (1 :: u8) \<longleftrightarrow> bit byte n" for n
    by (simp add: and_one_eq bit_iff_odd_drop_bit odd_iff_mod_2_eq_one)
  have "(\<Sum>k<8. of_bool (bit byte k) * 2 ^ k) = unat byte"
  proof -
    have "unat byte = take_bit 8 (unat byte)" by (simp add: take_bit_nat_eq_self)
    also have "\<dots> = horner_sum of_bool 2 (map (bit (unat byte)) [0..<8])"
      by (rule horner_sum_bit_eq_take_bit [symmetric])
    also have "\<dots> = (\<Sum>k<8. of_bool (bit byte k) * 2 ^ k)"
      unfolding horner_sum_eq_sum by (rule sum.cong) (auto simp: bit_unsigned_iff)
    finally show ?thesis by simp
  qed
  then show ?thesis
    unfolding bit by (simp add: upt_rec numeral_eq_Suc algebra_simps)
qed

lemma from_bits_be_bits: "from_bits_be (bits_be bs) = be_value bs"
proof -
  have "foldl (\<lambda>acc b. 2 * acc + of_bool b) acc (bits_be bs) = foldl (\<lambda>acc b. acc * 256 + unat b) acc bs" for acc
  proof (induction bs arbitrary: acc)
    case Nil
    then show ?case by (simp add: bits_be_def)
  next
    case (Cons b bs)
    have "bits_be (b # bs) = map (\<lambda>i. and (drop_bit (7 - i) b) 1 = (1 :: u8)) [0..<8] @ bits_be bs"
      by (simp add: bits_be_def del: upt_rec_numeral)
    then show ?case by (simp only: foldl_append byte_bits_value Cons foldl.simps mult.commute [of 256])
  qed
  then show ?thesis by (simp add: from_bits_be_def be_value_def)
qed

section \<open>Nodes are a codec\<close>

text \<open>A field whose elements fit in \<open>width\<close> bytes.\<close>

locale circuit_field = field_ops modulus into_bigint
  for modulus :: nat and into_bigint :: "'f::comm_ring_1 \<Rightarrow> nat" +
  fixes width :: nat
  assumes modulus_fits: "modulus \<le> 256 ^ width"
begin

lemma element_to_from:
  "circuit_element_from_be_bytes modulus (circuit_element_to_be_bytes into_bigint width v) = Some v"
proof -
  have "into_bigint v < 256 ^ width" using into_bigint_lt [of v] modulus_fits by linarith
  then show ?thesis
    by (simp add: circuit_element_from_be_bytes_def circuit_element_to_be_bytes_def from_bits_be_bits
        be_value_be_bytes from_into_bigint)
qed

lemma element_from_to:
  assumes "length raw = width" "circuit_element_from_be_bytes modulus raw = Some v"
  shows "circuit_element_to_be_bytes into_bigint width v = raw"
proof -
  have "into_bigint v = be_value raw"
    using assms(2) into_bigint_of_nat
    by (auto simp: circuit_element_from_be_bytes_def from_bits_be_bits from_bigint_def split: if_splits)
  then show ?thesis using be_bytes_be_value [of raw] assms(1) by (simp add: circuit_element_to_be_bytes_def)
qed

lemma decode_encode_node: "decode_node modulus width (encode_node into_bigint width n @ rest) = Inr (n, rest)"
  using element_to_from
  by (cases n) (auto simp: decode_node_def circuit_tags circuit_element_to_be_bytes_def)

lemma encode_decode_node:
  "decode_node modulus width bs = Inr (n, rest) \<Longrightarrow> bs = encode_node into_bigint width n @ rest"
  using element_from_to
  by (auto simp: decode_node_def reader_iffs circuit_tags split: if_splits)

end

sublocale circuit_field \<subseteq> node_codec: codec "encode_node into_bigint width" "decode_node modulus width" "\<lambda>_. True"
  by unfold_locales (auto simp: decode_encode_node dest: encode_decode_node)

context circuit_field
begin

lemma deserialize_iff:
  "deserialize modulus width bs = Inr c \<longleftrightarrow>
     circuit_wf c \<and> length (c_nodes c) \<le> MAX_CIRCUIT_NODES \<and> serialize into_bigint width c = Some bs"
proof
  assume d: "deserialize modulus width bs = Inr c"
  then obtain n m where c: "circuit_wf c" "unat n \<le> MAX_CIRCUIT_NODES"
      "length (c_nodes c) = unat n" "length (c_outputs c) = unat m"
      "bs = ENCODING_VERSION # u32_to_be_bytes n @ concat (map (encode_node into_bigint width) (c_nodes c)) @
        u32_to_be_bytes m @ concat (map u32_to_be_bytes (c_outputs c))"
    by (auto simp: deserialize_def reader_iffs node_codec.read_n_iff u32_codec.read_n_iff Let_def validate_iff
        not_less split: if_splits)
  have "unat n < 2 ^ 32" "unat m < 2 ^ 32" using unsigned_less [of n] unsigned_less [of m] by auto
  then show "circuit_wf c \<and> length (c_nodes c) \<le> MAX_CIRCUIT_NODES \<and> serialize into_bigint width c = Some bs"
    using c by (simp add: serialize_def)
next
  assume c: "circuit_wf c \<and> length (c_nodes c) \<le> MAX_CIRCUIT_NODES \<and> serialize into_bigint width c = Some bs"
  have lens: "unat (of_nat (length (c_nodes c)) :: u32) = length (c_nodes c)"
    "unat (of_nat (length (c_outputs c)) :: u32) = length (c_outputs c)"
    using c by (auto simp: serialize_def unat_of_nat split: if_splits)
  have outs: "read_n (read_u32 e) (length xs) (concat (map u32_to_be_bytes xs)) = Inr (xs, [])" for e :: circuit_error and xs
    by (subst u32_codec.read_n_iff) simp
  have nodes: "read_n (decode_node modulus width) (length xs) (concat (map (encode_node into_bigint width) xs) @ r) = Inr (xs, r)" for xs r
    by (subst node_codec.read_n_iff) simp
  let ?c = "\<lparr>c_nodes = c_nodes c, c_num_secret = secret_leaves (c_nodes c),
      c_num_public = public_leaves (c_nodes c), c_outputs = c_outputs c\<rparr>"
  have bs: "bs = ENCODING_VERSION # u32_to_be_bytes (of_nat (length (c_nodes c))) @
      concat (map (encode_node into_bigint width) (c_nodes c)) @
      u32_to_be_bytes (of_nat (length (c_outputs c))) @ concat (map u32_to_be_bytes (c_outputs c))"
    using c by (auto simp: serialize_def split: if_splits)
  have "deserialize modulus width bs = rbind (validate ?c) (\<lambda>_. Inr ?c)"
    unfolding bs using c by (simp add: deserialize_def lens outs nodes Let_def)
  moreover have "?c = c" using c by (cases c) (simp add: circuit_wf_def)
  ultimately show "deserialize modulus width bs = Inr c" using c validate_iff [of c] by simp
qed

end

interpretation fr_circuit: circuit_field fr_modulus fr_into_bigint 32
  by unfold_locales (simp add: fr_modulus_def)

interpretation fp_circuit: circuit_field fp_modulus fp_into_bigint 16
  by unfold_locales (simp add: fp_modulus_def)

section \<open>Properties\<close>

text \<open>C28: the circuit format is canonical. A byte string deserialises to a circuit exactly when the
  circuit passes \<open>validate\<close>, has at most \<open>MAX_CIRCUIT_NODES\<close> nodes, and the string is its
  serialisation: the two functions are mutually inverse, and every circuit has one encoding.\<close>

theorem circuit_codec:
  assumes "field_ops modulus into_big" "modulus \<le> 256 ^ width"
  shows "deserialize modulus width bs = Inr c \<longleftrightarrow>
    validate c = Inr () \<and> length (c_nodes c) \<le> MAX_CIRCUIT_NODES \<and> serialize into_big width c = Some bs"
proof -
  have "circuit_field modulus into_big width"
    by (simp add: circuit_field_def circuit_field_axioms_def assms)
  then show ?thesis by (simp add: circuit_field.deserialize_iff validate_iff)
qed

text \<open>Two valid circuits of permitted size with the same \<open>CircuitId\<close> are the same circuit,
  unless the hash collides on their two encodings.\<close>

theorem circuit_id_collision:
  assumes "field_ops modulus into_big" "modulus \<le> 256 ^ width"
    and "deserialize modulus width bs = Inr c" "deserialize modulus width bs' = Inr c'"
    and "compute_id sha256 into_big width c = compute_id sha256 into_big width c'" and "c \<noteq> c'"
  shows "len_prefixed CIRCUIT_ID_DOMAIN @ bs \<noteq> len_prefixed CIRCUIT_ID_DOMAIN @ bs' \<and>
    sha256 (len_prefixed CIRCUIT_ID_DOMAIN @ bs) = sha256 (len_prefixed CIRCUIT_ID_DOMAIN @ bs')"
proof -
  have f: "circuit_field modulus into_big width"
    by (simp add: circuit_field_def circuit_field_axioms_def assms)
  have s: "serialize into_big width c = Some bs" "serialize into_big width c' = Some bs'"
    using assms(3,4) circuit_field.deserialize_iff [OF f] by auto
  have "bs \<noteq> bs'" using assms(3,4,6) by auto
  then show ?thesis
    using assms(5) s by (simp add: compute_id_def Sha256Hash_hash_domain_def Sha256Hash_hash_def)
qed

definition demo_bytes :: bytes where
  "demo_bytes = [1, 0, 0, 0, 5, 0, 1, 2, 0, 0, 0, 0, 0, 0, 0, 0, 0, 0, 0, 0, 0, 0, 0, 3,
     3, 0, 0, 0, 0, 0, 0, 0, 2, 4, 0, 0, 0, 3, 0, 0, 0, 1, 0, 0, 0, 1, 0, 0, 0, 4]"

lemma demo_circuit_bytes: "serialize fp_into_bigint 16 demo_circuit = Some demo_bytes"
proof -
  have three: "fp_into_bigint 3 = 3"
    using fp_ops.into_bigint_of_nat [of 3] by (simp add: fp_modulus_def)
  show ?thesis
    by (simp add: serialize_def demo_circuit_def demo_bytes_def circuit_tags ENCODING_VERSION_def u32_to_be_bytes_def
        circuit_element_to_be_bytes_def three be_bytes_numeral)
qed

theorem circuit_codec_witness: "deserialize fp_modulus 16 demo_bytes = Inr demo_circuit"
  using circuit_codec [OF fp_ops.field_ops_axioms fp_circuit.modulus_fits, of demo_bytes demo_circuit]
    demo_circuit_valid demo_circuit_bytes
  by (simp add: demo_circuit_def MAX_CIRCUIT_NODES_def)

definition demo_circuit2 :: "fp circuit" where
  "demo_circuit2 = demo_circuit\<lparr>c_outputs := [4, 4]\<rparr>"

theorem circuit_id_collision_witness:
  "\<exists>bs bs'. bs \<noteq> bs' \<and> serialize fp_into_bigint 16 demo_circuit = Some bs \<and> serialize fp_into_bigint 16 demo_circuit2 = Some bs' \<and>
     len_prefixed CIRCUIT_ID_DOMAIN @ bs \<noteq> len_prefixed CIRCUIT_ID_DOMAIN @ bs'"
proof -
  have v: "circuit_wf demo_circuit" "circuit_wf demo_circuit2"
    using demo_circuit_valid
    by (simp_all add: validate_iff demo_circuit2_def circuit_wf_def) (simp add: demo_circuit_def)
  obtain bs bs' where s: "serialize fp_into_bigint 16 demo_circuit = Some bs" "serialize fp_into_bigint 16 demo_circuit2 = Some bs'"
    by (simp add: serialize_def demo_circuit_def demo_circuit2_def)
  have ne: "demo_circuit \<noteq> demo_circuit2" by (simp add: demo_circuit_def demo_circuit2_def)
  have d: "deserialize fp_modulus 16 bs = Inr demo_circuit" "deserialize fp_modulus 16 bs' = Inr demo_circuit2"
    using v s by (simp_all add: fp_circuit.deserialize_iff) (simp_all add: demo_circuit_def demo_circuit2_def MAX_CIRCUIT_NODES_def)
  from circuit_id_collision [OF fp_ops.field_ops_axioms fp_circuit.modulus_fits d, of "\<lambda>x. replicate 32 0"] ne s
  show ?thesis by (auto simp: compute_id_def Sha256Hash_hash_domain_def Sha256Hash_hash_def)
qed

end
