(* ===== verification/Policy.thy ===== *)
theory Policy
  imports Crypto_Core Codec
begin

text \<open>
  Model of \<open>crates/policy\<close> without normalisation and compilation: the policy tree with its
  validation, its canonical encoding, the witness, and the reference evaluator.

  A \<open>CredentialId\<close> is its byte string; \<open>policy_wf\<close> states what the Rust types fix, that ids have 32
  bytes and that vectors have fewer than \<open>2 ^ 32\<close> elements where a count is cast to \<open>u32\<close>.
\<close>

section \<open>The policy tree\<close>

datatype policy_error =
    PE_InvalidThreshold
  | PE_ThresholdExceedsCount
  | PE_DuplicateCredential
  | PE_InvalidCredentialId
  | PE_EmptyPolicy
  | PE_MaxDepthExceeded
  | PE_MaxNodesExceeded
  | PE_MaxArityExceeded
  | PE_MaxCredentialsExceeded
  | PE_MaxCombinatorChildrenExceeded
  | PE_EncodedSizeExceeded
  | PE_UnknownVersion
  | PE_MalformedEncoding
  | PE_TrailingBytes
  | PE_WitnessMismatch
  | PE_CompilationFailure
  | PE_CircuitValidationFailure
  | PE_Panic

type_synonym credential_id = bytes

datatype policy =
    AmountAtMost u64
  | Credential credential_id
  | Threshold u16 "policy list"
  | And "policy list"
  | Or "policy list"

definition CREDENTIAL_ID_LEN :: nat where "CREDENTIAL_ID_LEN = 32"

definition CREDENTIAL_COMMITMENT_DOMAIN :: bytes where
  "CREDENTIAL_COMMITMENT_DOMAIN = ascii ''private-payment-auth/credential/v2''"

definition credential_is_zero :: "credential_id \<Rightarrow> bool" where
  "credential_is_zero cid \<longleftrightarrow> cid = replicate CREDENTIAL_ID_LEN 0"

definition credential_commitment :: "(bytes \<Rightarrow> bytes) \<Rightarrow> bytes \<Rightarrow> digest" where
  "credential_commitment sha256 secret =
     Digest (Sha256Backend_hash_domain sha256 CREDENTIAL_COMMITMENT_DOMAIN secret)"

section \<open>Validation\<close>

definition MAX_POLICY_DEPTH :: nat where "MAX_POLICY_DEPTH = 100"
definition MAX_POLICY_NODES :: nat where "MAX_POLICY_NODES = 10000"
definition MAX_THRESHOLD_ARITY :: nat where "MAX_THRESHOLD_ARITY = 1000"
definition MAX_CREDENTIAL_COUNT :: nat where "MAX_CREDENTIAL_COUNT = 1000"
definition MAX_COMBINATOR_CHILDREN :: nat where "MAX_COMBINATOR_CHILDREN = 1000"
definition MAX_THRESHOLD_MEMBERS :: nat where "MAX_THRESHOLD_MEMBERS = 1000"
definition MAX_ENCODED_SIZE :: nat where "MAX_ENCODED_SIZE = 1048576"

record validation_ctx =
  v_depth :: nat
  v_nodes :: nat
  v_credentials :: nat

fun distinct_credentials_loop :: "credential_id list \<Rightarrow> policy list \<Rightarrow> (policy_error, unit) result" where
  "distinct_credentials_loop seen [] = Inr ()"
| "distinct_credentials_loop seen (Credential cid # rest) =
     (if cid \<in> set seen then Inl PE_DuplicateCredential else distinct_credentials_loop (seen @ [cid]) rest)"
| "distinct_credentials_loop seen (_ # rest) = distinct_credentials_loop seen rest"

definition check_distinct_credentials :: "policy list \<Rightarrow> (policy_error, unit) result" where
  "check_distinct_credentials members = distinct_credentials_loop [] members"

text \<open>\<open>validate_impl\<close>; the context is threaded through, and \<open>depth\<close> is not restored after an error.\<close>

fun validate_impl :: "policy \<Rightarrow> (validation_ctx, policy_error, unit) op"
  and validate_members :: "policy list \<Rightarrow> (validation_ctx, policy_error, unit) op" where
  "validate_impl p ctx =
     (if v_depth ctx > MAX_POLICY_DEPTH then (Inl PE_MaxDepthExceeded, ctx)
      else let ctx = ctx\<lparr>v_nodes := v_nodes ctx + 1\<rparr> in
      if v_nodes ctx > MAX_POLICY_NODES then (Inl PE_MaxNodesExceeded, ctx)
      else case p of
        AmountAtMost _ \<Rightarrow> (Inr (), ctx)
      | Credential cid \<Rightarrow>
          if credential_is_zero cid then (Inl PE_InvalidCredentialId, ctx)
          else let ctx = ctx\<lparr>v_credentials := v_credentials ctx + 1\<rparr> in
            if v_credentials ctx > MAX_CREDENTIAL_COUNT then (Inl PE_MaxCredentialsExceeded, ctx)
            else (Inr (), ctx)
      | Threshold k members \<Rightarrow>
          if unat k = 0 then (Inl PE_InvalidThreshold, ctx)
          else if unat k > MAX_THRESHOLD_ARITY then (Inl PE_MaxArityExceeded, ctx)
          else if members = [] then (Inl PE_EmptyPolicy, ctx)
          else if length members > MAX_THRESHOLD_MEMBERS then (Inl PE_MaxCombinatorChildrenExceeded, ctx)
          else if unat k > length members then (Inl PE_ThresholdExceedsCount, ctx)
          else (case check_distinct_credentials members of
                  Inl e \<Rightarrow> (Inl e, ctx)
                | Inr _ \<Rightarrow> validate_members members ctx)
      | And members \<Rightarrow>
          if members = [] then (Inl PE_EmptyPolicy, ctx)
          else if length members > MAX_COMBINATOR_CHILDREN then (Inl PE_MaxCombinatorChildrenExceeded, ctx)
          else validate_members members ctx
      | Or members \<Rightarrow>
          if members = [] then (Inl PE_EmptyPolicy, ctx)
          else if length members > MAX_COMBINATOR_CHILDREN then (Inl PE_MaxCombinatorChildrenExceeded, ctx)
          else validate_members members ctx)"
| "validate_members [] ctx = (Inr (), ctx)"
| "validate_members (member # rest) ctx =
     (case validate_impl member (ctx\<lparr>v_depth := v_depth ctx + 1\<rparr>) of
        (Inl e, ctx') \<Rightarrow> (Inl e, ctx')
      | (Inr _, ctx') \<Rightarrow> validate_members rest (ctx'\<lparr>v_depth := v_depth ctx' - 1\<rparr>))"

declare validate_impl.simps [simp del]

definition policy_validate :: "policy \<Rightarrow> (policy_error, unit) result" where
  "policy_validate p = fst (validate_impl p \<lparr>v_depth = 0, v_nodes = 0, v_credentials = 0\<rparr>)"

section \<open>Encoding\<close>

definition POLICY_ENCODING_VERSION :: u8 where "POLICY_ENCODING_VERSION = 1"
definition TAG_AMOUNT_AT_MOST :: u8 where "TAG_AMOUNT_AT_MOST = 1"
definition TAG_CREDENTIAL :: u8 where "TAG_CREDENTIAL = 2"
definition TAG_THRESHOLD :: u8 where "TAG_THRESHOLD = 3"
definition TAG_AND :: u8 where "TAG_AND = 4"
definition TAG_OR :: u8 where "TAG_OR = 5"

lemmas policy_tags = TAG_AMOUNT_AT_MOST_def TAG_CREDENTIAL_def TAG_THRESHOLD_def TAG_AND_def TAG_OR_def

fun encode_policy_node :: "policy \<Rightarrow> bytes" where
  "encode_policy_node (AmountAtMost limit) = TAG_AMOUNT_AT_MOST # u64_to_be_bytes limit"
| "encode_policy_node (Credential cid) = TAG_CREDENTIAL # cid"
| "encode_policy_node (Threshold k members) =
     TAG_THRESHOLD # u16_to_be_bytes k @ u32_to_be_bytes (of_nat (length members)) @
     concat (map encode_policy_node members)"
| "encode_policy_node (And members) =
     TAG_AND # u32_to_be_bytes (of_nat (length members)) @ concat (map encode_policy_node members)"
| "encode_policy_node (Or members) =
     TAG_OR # u32_to_be_bytes (of_nat (length members)) @ concat (map encode_policy_node members)"

text \<open>The bytes that \<open>encode\<close> writes; and \<open>encode\<close> itself, which ends in a \<open>debug_assert!\<close> on their number. The flag
  \<open>debug\<close> says whether the build has debug assertions; \<open>None\<close> is their panic. The rest of the development is about
  builds without them, in which \<open>encode\<close> returns the bytes whatever their number.\<close>

definition encode_policy :: "policy \<Rightarrow> bytes" where
  "encode_policy p = [POLICY_ENCODING_VERSION] @ encode_policy_node p"

definition policy_encode :: "bool \<Rightarrow> policy \<Rightarrow> bytes option" where
  "policy_encode debug p =
     (let out = encode_policy p in if debug \<and> \<not> length out \<le> MAX_ENCODED_SIZE then None else Some out)"

text \<open>\<open>Reader::take_node\<close>. Every call reads at least the tag, so the number of bytes bounds the
  depth of the recursion; \<open>fuel\<close> counts it down and without fuel no byte is left.\<close>

fun take_node :: "nat \<Rightarrow> bytes \<Rightarrow> (policy_error, policy \<times> bytes) result" where
  "take_node 0 bs = Inl PE_MalformedEncoding"
| "take_node (Suc fuel) bs =
     rbind (read_u8 PE_MalformedEncoding bs) (\<lambda>(tag, rest).
     if tag = TAG_AMOUNT_AT_MOST then
       rbind (read_u64 PE_MalformedEncoding rest) (\<lambda>(limit, rest). Inr (AmountAtMost limit, rest))
     else if tag = TAG_CREDENTIAL then
       rbind (read_slice PE_MalformedEncoding CREDENTIAL_ID_LEN rest) (\<lambda>(cid, rest). Inr (Credential cid, rest))
     else if tag = TAG_THRESHOLD then
       rbind (read_u16 PE_MalformedEncoding rest) (\<lambda>(k, rest).
       rbind (read_u32 PE_MalformedEncoding rest) (\<lambda>(count, rest).
       rbind (read_n (take_node fuel) (unat count) rest) (\<lambda>(members, rest). Inr (Threshold k members, rest))))
     else if tag = TAG_AND then
       rbind (read_u32 PE_MalformedEncoding rest) (\<lambda>(count, rest).
       rbind (read_n (take_node fuel) (unat count) rest) (\<lambda>(members, rest). Inr (And members, rest)))
     else if tag = TAG_OR then
       rbind (read_u32 PE_MalformedEncoding rest) (\<lambda>(count, rest).
       rbind (read_n (take_node fuel) (unat count) rest) (\<lambda>(members, rest). Inr (Or members, rest)))
     else Inl PE_MalformedEncoding)"

definition decode_policy :: "bytes \<Rightarrow> (policy_error, policy) result" where
  "decode_policy bs =
     rbind (read_u8 PE_MalformedEncoding bs) (\<lambda>(version, rest).
     if version \<noteq> POLICY_ENCODING_VERSION then Inl PE_UnknownVersion else
     rbind (take_node (length rest) rest) (\<lambda>(p, rest).
     if rest \<noteq> [] then Inl PE_TrailingBytes else Inr p))"

section \<open>Witnesses and the reference evaluator\<close>

record policy_witness =
  credential_secrets :: "(credential_id \<times> bytes) list"
  w_amount :: "u64 option"

definition PolicyWitness_new :: policy_witness where
  "PolicyWitness_new = \<lparr>credential_secrets = [], w_amount = None\<rparr>"

definition with_credential :: "credential_id \<Rightarrow> bytes \<Rightarrow> policy_witness \<Rightarrow> policy_witness" where
  "with_credential cid secret w = w\<lparr>credential_secrets := credential_secrets w @ [(cid, secret)]\<rparr>"

definition with_amount :: "u64 \<Rightarrow> policy_witness \<Rightarrow> policy_witness" where
  "with_amount amount w = w\<lparr>w_amount := Some amount\<rparr>"

fun collect_requirements :: "policy \<Rightarrow> credential_id list \<times> bool \<Rightarrow> credential_id list \<times> bool" where
  "collect_requirements (AmountAtMost _) (creds, needs_amount) = (creds, True)"
| "collect_requirements (Credential cid) (creds, needs_amount) = (creds @ [cid], needs_amount)"
| "collect_requirements (Threshold _ members) acc = fold collect_requirements members acc"
| "collect_requirements (And members) acc = fold collect_requirements members acc"
| "collect_requirements (Or members) acc = fold collect_requirements members acc"

definition validate_against :: "policy_witness \<Rightarrow> policy \<Rightarrow> (policy_error, unit) result" where
  "validate_against w p =
     (let (required, needs_amount) = collect_requirements p ([], False) in
      if list_ex (\<lambda>cid. \<not> list_ex (\<lambda>(present, _). present = cid) (credential_secrets w)) required
      then Inl PE_WitnessMismatch
      else if needs_amount \<and> w_amount w = None then Inl PE_WitnessMismatch
      else Inr ())"

definition secret_for :: "policy_witness \<Rightarrow> credential_id \<Rightarrow> bytes option" where
  "secret_for w cid = map_option snd (find (\<lambda>(present, _). present = cid) (credential_secrets w))"

datatype node_outcome =
    OutAmount u64 bool
  | OutCredential credential_id bool
  | OutThreshold u16 bool "node_outcome list"
  | OutAnd bool "node_outcome list"
  | OutOr bool "node_outcome list"

fun is_satisfied :: "node_outcome \<Rightarrow> bool" where
  "is_satisfied (OutAmount _ satisfied) = satisfied"
| "is_satisfied (OutCredential _ satisfied) = satisfied"
| "is_satisfied (OutThreshold _ satisfied _) = satisfied"
| "is_satisfied (OutAnd satisfied _) = satisfied"
| "is_satisfied (OutOr satisfied _) = satisfied"

text \<open>The loops over the members: the outcomes in order and the running flag or counter.\<close>

fun eval_policy_node :: "(bytes \<Rightarrow> bytes) \<Rightarrow> policy_witness \<Rightarrow> policy \<Rightarrow> node_outcome" where
  "eval_policy_node sha256 w (AmountAtMost limit) =
     OutAmount limit (case w_amount w of Some amount \<Rightarrow> amount \<le> limit | None \<Rightarrow> False)"
| "eval_policy_node sha256 w (Credential cid) =
     OutCredential cid (case secret_for w cid of
         Some secret \<Rightarrow> digest_bytes (credential_commitment sha256 secret) = cid
       | None \<Rightarrow> False)"
| "eval_policy_node sha256 w (Threshold k members) =
     (let outcomes = map (eval_policy_node sha256 w) members;
          satisfied_count = foldl (\<lambda>n outcome. if is_satisfied outcome then n + 1 else n) (0 :: nat) outcomes
      in OutThreshold k (satisfied_count \<ge> unat k) outcomes)"
| "eval_policy_node sha256 w (And members) =
     (let outcomes = map (eval_policy_node sha256 w) members
      in OutAnd (foldl (\<lambda>s outcome. if \<not> is_satisfied outcome then False else s) True outcomes) outcomes)"
| "eval_policy_node sha256 w (Or members) =
     (let outcomes = map (eval_policy_node sha256 w) members
      in OutOr (foldl (\<lambda>s outcome. if is_satisfied outcome then True else s) False outcomes) outcomes)"

record authorization_result =
  authorized :: bool
  ar_root :: node_outcome

definition policy_evaluate ::
    "(bytes \<Rightarrow> bytes) \<Rightarrow> policy \<Rightarrow> policy_witness \<Rightarrow> (policy_error, authorization_result) result" where
  "policy_evaluate sha256 p w =
     rbind (validate_against w p) (\<lambda>_.
     let root = eval_policy_node sha256 w p in Inr \<lparr>authorized = is_satisfied root, ar_root = root\<rparr>)"

section \<open>Meaning of a policy\<close>

text \<open>The specification of authorisation: a predicate on witnesses.\<close>

fun sat :: "(bytes \<Rightarrow> bytes) \<Rightarrow> policy_witness \<Rightarrow> policy \<Rightarrow> bool" where
  "sat sha256 w (AmountAtMost limit) = (\<exists>a. w_amount w = Some a \<and> a \<le> limit)"
| "sat sha256 w (Credential cid) =
     (\<exists>secret. secret_for w cid = Some secret \<and> digest_bytes (credential_commitment sha256 secret) = cid)"
| "sat sha256 w (Threshold k members) = (unat k \<le> length (filter (sat sha256 w) members))"
| "sat sha256 w (And members) = (\<forall>m\<in>set members. sat sha256 w m)"
| "sat sha256 w (Or members) = (\<exists>m\<in>set members. sat sha256 w m)"

lemma foldl_count: "foldl (\<lambda>n x. if P x then n + 1 else n) (n :: nat) xs = n + length (filter P xs)"
  by (induction xs arbitrary: n) auto

lemma foldl_all: "foldl (\<lambda>s x. if \<not> P x then False else s) s xs \<longleftrightarrow> s \<and> (\<forall>x\<in>set xs. P x)"
  by (induction xs arbitrary: s) auto

lemma foldl_any: "foldl (\<lambda>s x. if P x then True else s) s xs \<longleftrightarrow> s \<or> (\<exists>x\<in>set xs. P x)"
  by (induction xs arbitrary: s) auto

lemma is_satisfied_eval: "is_satisfied (eval_policy_node sha256 w p) = sat sha256 w p"
proof (induction p)
  case (Threshold k ms)
  then have "filter (\<lambda>x. is_satisfied (eval_policy_node sha256 w x)) ms = filter (sat sha256 w) ms"
    by (intro filter_cong) auto
  then show ?case by (simp add: Let_def foldl_count filter_map comp_def)
qed (auto simp: Let_def foldl_all foldl_any split: option.splits)

text \<open>What a witness has to provide.\<close>

fun policy_credentials :: "policy \<Rightarrow> credential_id list" where
  "policy_credentials (AmountAtMost _) = []"
| "policy_credentials (Credential cid) = [cid]"
| "policy_credentials (Threshold _ ms) = concat (map policy_credentials ms)"
| "policy_credentials (And ms) = concat (map policy_credentials ms)"
| "policy_credentials (Or ms) = concat (map policy_credentials ms)"

fun has_amount :: "policy \<Rightarrow> bool" where
  "has_amount (AmountAtMost _) = True"
| "has_amount (Credential _) = False"
| "has_amount (Threshold _ ms) = (\<exists>m\<in>set ms. has_amount m)"
| "has_amount (And ms) = (\<exists>m\<in>set ms. has_amount m)"
| "has_amount (Or ms) = (\<exists>m\<in>set ms. has_amount m)"

lemma fold_requirements:
  "(\<And>m acc. m \<in> set ms \<Longrightarrow> collect_requirements m acc = (fst acc @ policy_credentials m, snd acc \<or> has_amount m)) \<Longrightarrow>
   fold collect_requirements ms acc = (fst acc @ concat (map policy_credentials ms), snd acc \<or> (\<exists>m\<in>set ms. has_amount m))"
proof (induction ms arbitrary: acc)
  case Nil
  then show ?case by simp
next
  case (Cons m ms)
  have "collect_requirements m acc = (fst acc @ policy_credentials m, snd acc \<or> has_amount m)"
    using Cons.prems by simp
  then show ?case using Cons by simp
qed

lemma collect_requirements_eq:
  "collect_requirements p acc = (fst acc @ policy_credentials p, snd acc \<or> has_amount p)"
proof (induction p arbitrary: acc)
  case (AmountAtMost x)
  then show ?case by (cases acc) simp
next
  case (Credential x)
  then show ?case by (cases acc) simp
next
  case (Threshold k ms)
  then show ?case by (simp add: fold_requirements)
next
  case (And ms)
  then show ?case by (simp add: fold_requirements)
next
  case (Or ms)
  then show ?case by (simp add: fold_requirements)
qed

definition witness_fits :: "policy_witness \<Rightarrow> policy \<Rightarrow> bool" where
  "witness_fits w p \<longleftrightarrow> (\<forall>cid\<in>set (policy_credentials p). secret_for w cid \<noteq> None) \<and>
     (has_amount p \<longrightarrow> w_amount w \<noteq> None)"

lemma secret_for_None: "secret_for w cid = None \<longleftrightarrow> cid \<notin> fst ` set (credential_secrets w)"
  by (force simp: secret_for_def find_None_iff)

lemma validate_against_eq:
  "validate_against w p = (if witness_fits w p then Inr () else Inl PE_WitnessMismatch)"
  by (force simp: validate_against_def collect_requirements_eq witness_fits_def list_ex_iff secret_for_None)

text \<open>C30: the evaluator implements the specification. It refuses a witness that lacks a credential or
  an amount the policy mentions, also where the policy is satisfied without it (the doc of \<open>evaluate\<close> says that a missing
  secret makes its leaf unsatisfiable rather than erroring), and otherwise authorises exactly the witnesses that satisfy
  the policy.\<close>

theorem policy_evaluate_correct:
  "(case policy_evaluate sha256 p w of
      Inl e \<Rightarrow> e = PE_WitnessMismatch \<and> \<not> witness_fits w p
    | Inr r \<Rightarrow> witness_fits w p \<and> authorized r = sat sha256 w p)"
  by (simp add: policy_evaluate_def validate_against_eq Let_def is_satisfied_eval)

section \<open>The encoding is canonical\<close>

fun policy_wf :: "policy \<Rightarrow> bool" where
  "policy_wf (AmountAtMost _) = True"
| "policy_wf (Credential cid) = (length cid = CREDENTIAL_ID_LEN)"
| "policy_wf (Threshold _ ms) = (length ms < 2 ^ 32 \<and> (\<forall>m\<in>set ms. policy_wf m))"
| "policy_wf (And ms) = (length ms < 2 ^ 32 \<and> (\<forall>m\<in>set ms. policy_wf m))"
| "policy_wf (Or ms) = (length ms < 2 ^ 32 \<and> (\<forall>m\<in>set ms. policy_wf m))"

fun levels :: "policy \<Rightarrow> nat" where
  "levels (AmountAtMost _) = 1"
| "levels (Credential _) = 1"
| "levels (Threshold _ ms) = Suc (Max (insert 0 (set (map levels ms))))"
| "levels (And ms) = Suc (Max (insert 0 (set (map levels ms))))"
| "levels (Or ms) = Suc (Max (insert 0 (set (map levels ms))))"

lemma Max_levels: "Max (insert 0 (levels ` set ms)) \<le> n \<longleftrightarrow> (\<forall>m\<in>set ms. levels m \<le> n)"
  by simp

lemma count_u32: "length xs < 2 ^ 32 \<Longrightarrow> unat (of_nat (length xs) :: u32) = length xs"
  by (simp add: unat_of_nat)

lemma take_node_codec: "codec encode_policy_node (take_node fuel) (\<lambda>p. policy_wf p \<and> levels p \<le> fuel)"
proof (induction fuel)
  case 0
  have z: "(levels p = 0) = False" for p by (cases p) auto
  show ?case by unfold_locales (auto simp: z)
next
  case (Suc fuel)
  note members = codec.read_n_iff [OF Suc]
  have dec: "read_n (take_node fuel) (length ms) (concat (map encode_policy_node ms) @ rest) = Inr (ms, rest)"
    if "\<forall>m\<in>set ms. policy_wf m \<and> levels m \<le> fuel" for ms rest
    using that by (simp add: members)
  show ?case
  proof unfold_locales
    fix p rest
    assume p: "policy_wf p \<and> levels p \<le> Suc fuel"
    show "take_node (Suc fuel) (encode_policy_node p @ rest) = Inr (p, rest)"
      by (cases p) (use p in \<open>auto simp: policy_tags dec Max_levels count_u32\<close>)
  next
    fix bs p rest
    assume "take_node (Suc fuel) bs = Inr (p, rest)"
    moreover have "of_nat (unat (c :: u32)) = c" "unat c < 4294967296" for c
      using unsigned_less [of c, where ?'a = nat] by simp_all
    ultimately show "bs = encode_policy_node p @ rest \<and> policy_wf p \<and> levels p \<le> Suc fuel"
      by (auto simp: reader_iffs members policy_tags Max_levels CREDENTIAL_ID_LEN_def split: if_splits)
  qed
qed

lemma levels_members:
  assumes "\<And>m. m \<in> set ms \<Longrightarrow> levels m \<le> length (encode_policy_node m)"
  shows "Max (insert 0 (levels ` set ms)) \<le> length (concat (map encode_policy_node ms))"
proof -
  have "levels m \<le> length (concat (map encode_policy_node ms))" if "m \<in> set ms" for m
  proof -
    have "length (encode_policy_node m) \<le> sum_list (map (length \<circ> encode_policy_node) ms)"
      using that by (intro member_le_sum_list) auto
    then show ?thesis using assms [OF that] by (simp add: length_concat comp_def)
  qed
  then show ?thesis by (simp add: Max_levels)
qed

lemma levels_le_length: "levels p \<le> length (encode_policy_node p)"
proof (induction p)
  case (Threshold k ms)
  then show ?case using levels_members [of ms] by (auto intro: trans_le_add2)
next
  case (And ms)
  then show ?case using levels_members [of ms] by (auto intro: trans_le_add2)
next
  case (Or ms)
  then show ?case using levels_members [of ms] by (auto intro: trans_le_add2)
qed auto

text \<open>The fuel of \<open>decode\<close> is enough: more fuel never changes the result.\<close>

lemma take_node_fuel: "length bs \<le> fuel \<Longrightarrow> take_node fuel bs = Inr (p, rest) \<longleftrightarrow> take_node (length bs) bs = Inr (p, rest)"
  using levels_le_length [of p]
  by (auto simp: codec.dec_iff [OF take_node_codec])

lemma decode_policy_iff: "decode_policy bs = Inr p \<longleftrightarrow> policy_wf p \<and> bs = encode_policy p"
  using levels_le_length [of p]
  by (auto simp: decode_policy_def reader_iffs codec.dec_iff [OF take_node_codec] encode_policy_def)

lemma encode_policy_inject: "policy_wf p \<Longrightarrow> policy_wf q \<Longrightarrow> encode_policy p = encode_policy q \<longleftrightarrow> p = q"
  using decode_policy_iff [of "encode_policy p" p] decode_policy_iff [of "encode_policy p" q] by auto

text \<open>C29: policy encoding and decoding are mutually inverse: a byte string decodes to a policy exactly
  when it is the encoding of the policy (with 32-byte credential ids and 32-bit counts, which the
  Rust types and the format force). No size bound takes part: without debug assertions \<open>encode\<close> returns, and
  \<open>decode\<close> accepts, encodings above \<open>MAX_ENCODED_SIZE\<close>, although the module doc calls the format capped. With
  debug assertions \<open>encode\<close> returns the same bytes within the bound and panics above it.\<close>

theorem policy_codec:
  "(decode_policy bs = Inr p \<longleftrightarrow> policy_wf p \<and> policy_encode False p = Some bs) \<and>
   (policy_encode True p = Some bs \<longleftrightarrow> policy_encode False p = Some bs \<and> length bs \<le> MAX_ENCODED_SIZE)"
  by (auto simp: decode_policy_iff policy_encode_def Let_def)

section \<open>What validation accepts\<close>

fun node_count :: "policy \<Rightarrow> nat" where
  "node_count (AmountAtMost _) = 1"
| "node_count (Credential _) = 1"
| "node_count (Threshold _ ms) = Suc (sum_list (map node_count ms))"
| "node_count (And ms) = Suc (sum_list (map node_count ms))"
| "node_count (Or ms) = Suc (sum_list (map node_count ms))"

fun credential_count :: "policy \<Rightarrow> nat" where
  "credential_count (AmountAtMost _) = 0"
| "credential_count (Credential _) = 1"
| "credential_count (Threshold _ ms) = sum_list (map credential_count ms)"
| "credential_count (And ms) = sum_list (map credential_count ms)"
| "credential_count (Or ms) = sum_list (map credential_count ms)"

definition direct_credentials :: "policy list \<Rightarrow> credential_id list" where
  "direct_credentials ms = concat (map (\<lambda>m. case m of Credential c \<Rightarrow> [c] | _ \<Rightarrow> []) ms)"

fun well_structured :: "policy \<Rightarrow> bool" where
  "well_structured (AmountAtMost _) = True"
| "well_structured (Credential cid) = (\<not> credential_is_zero cid)"
| "well_structured (Threshold k ms) =
     (0 < unat k \<and> unat k \<le> length ms \<and> length ms \<le> 1000 \<and> distinct (direct_credentials ms) \<and>
      (\<forall>m\<in>set ms. well_structured m))"
| "well_structured (And ms) = (ms \<noteq> [] \<and> length ms \<le> 1000 \<and> (\<forall>m\<in>set ms. well_structured m))"
| "well_structured (Or ms) = (ms \<noteq> [] \<and> length ms \<le> 1000 \<and> (\<forall>m\<in>set ms. well_structured m))"

lemma distinct_credentials_loop_Inr:
  "distinct_credentials_loop seen ms = Inr () \<longleftrightarrow>
     distinct (direct_credentials ms) \<and> set (direct_credentials ms) \<inter> set seen = {}"
  by (induction seen ms rule: distinct_credentials_loop.induct) (auto simp: direct_credentials_def)

lemma check_distinct_Inr: "check_distinct_credentials ms = Inr () \<longleftrightarrow> distinct (direct_credentials ms)"
  by (simp add: check_distinct_credentials_def distinct_credentials_loop_Inr)

definition ctx_after :: "validation_ctx \<Rightarrow> nat \<Rightarrow> nat \<Rightarrow> validation_ctx" where
  "ctx_after ctx n c = ctx\<lparr>v_nodes := v_nodes ctx + n, v_credentials := v_credentials ctx + c\<rparr>"

definition ctx_ok :: "validation_ctx \<Rightarrow> bool" where
  "ctx_ok ctx \<longleftrightarrow> v_nodes ctx \<le> MAX_POLICY_NODES \<and> v_credentials ctx \<le> MAX_CREDENTIAL_COUNT"

definition accepts :: "policy \<Rightarrow> validation_ctx \<Rightarrow> bool" where
  "accepts p ctx \<longleftrightarrow> well_structured p \<and> v_depth ctx + levels p \<le> Suc MAX_POLICY_DEPTH \<and>
     ctx_ok (ctx_after ctx (node_count p) (credential_count p))"

definition accepts_all :: "policy list \<Rightarrow> validation_ctx \<Rightarrow> bool" where
  "accepts_all ms ctx \<longleftrightarrow> (\<forall>m\<in>set ms. well_structured m \<and> v_depth ctx + Suc (levels m) \<le> Suc MAX_POLICY_DEPTH) \<and>
     ctx_ok (ctx_after ctx (sum_list (map node_count ms)) (sum_list (map credential_count ms)))"

lemma validate_members_iff:
  assumes "\<And>m ctx ctx'. m \<in> set ms \<Longrightarrow> ctx_ok ctx \<Longrightarrow>
      validate_impl m ctx = (Inr (), ctx') \<longleftrightarrow> accepts m ctx \<and> ctx' = ctx_after ctx (node_count m) (credential_count m)"
    and "ctx_ok ctx"
  shows "validate_members ms ctx = (Inr (), ctx') \<longleftrightarrow>
    accepts_all ms ctx \<and> ctx' = ctx_after ctx (sum_list (map node_count ms)) (sum_list (map credential_count ms))"
  using assms
proof (induction ms arbitrary: ctx)
  case Nil
  then show ?case by (auto simp: accepts_all_def ctx_after_def)
next
  case (Cons m ms)
  let ?c1 = "ctx\<lparr>v_depth := v_depth ctx + 1\<rparr>"
  let ?c2 = "ctx_after ctx (node_count m) (credential_count m)"
  have m: "validate_impl m ?c1 = (Inr (), c) \<longleftrightarrow>
      accepts m ?c1 \<and> c = ctx_after ?c1 (node_count m) (credential_count m)" for c
    using Cons.prems by (simp add: ctx_ok_def)
  show ?case
  proof (cases "accepts m ?c1")
    case True
    then have ok: "ctx_ok ?c2" by (simp add: accepts_def ctx_ok_def ctx_after_def)
    have "validate_members ms ?c2 = (Inr (), ctx') \<longleftrightarrow>
        accepts_all ms ?c2 \<and> ctx' = ctx_after ?c2 (sum_list (map node_count ms)) (sum_list (map credential_count ms))"
      using Cons.IH [OF _ ok] Cons.prems(1) by simp
    moreover have "validate_impl m ?c1 = (Inr (), ctx_after ?c1 (node_count m) (credential_count m))"
      using m True by simp
    moreover have "(ctx_after ?c1 (node_count m) (credential_count m))\<lparr>v_depth := v_depth ctx\<rparr> = ?c2"
      by (simp add: ctx_after_def)
    ultimately show ?thesis
      using True by (auto simp: accepts_all_def accepts_def ctx_after_def ctx_ok_def add.assoc)
  next
    case False
    then have "validate_impl m ?c1 \<noteq> (Inr (), c)" for c using m by simp
    then have "validate_members (m # ms) ctx \<noteq> (Inr (), ctx')"
      by (auto split: prod.splits sum.splits)
    moreover have "\<not> accepts_all (m # ms) ctx"
      using False by (auto simp: accepts_all_def accepts_def ctx_ok_def ctx_after_def)
    ultimately show ?thesis by simp
  qed
qed

lemma levels_node: "d + Suc (Max (insert 0 (levels ` set ms))) \<le> Suc k \<longleftrightarrow>
    d \<le> k \<and> (\<forall>m\<in>set ms. d + Suc (levels m) \<le> Suc k)"
proof -
  have "d + Suc (Max (insert 0 (levels ` set ms))) \<le> Suc k \<longleftrightarrow> d \<le> k \<and> Max (insert 0 (levels ` set ms)) \<le> k - d"
    by linarith
  also have "\<dots> \<longleftrightarrow> d \<le> k \<and> (\<forall>m\<in>set ms. d + Suc (levels m) \<le> Suc k)"
    by (auto simp: Max_levels)
  finally show ?thesis .
qed

lemma accepts_members:
  assumes "\<not> MAX_POLICY_DEPTH < v_depth ctx"
  shows "ctx_ok (ctx\<lparr>v_nodes := Suc (v_nodes ctx)\<rparr>) \<and> accepts_all ms (ctx\<lparr>v_nodes := Suc (v_nodes ctx)\<rparr>) \<longleftrightarrow>
    (\<forall>m\<in>set ms. well_structured m) \<and> v_depth ctx + Suc (Max (insert 0 (levels ` set ms))) \<le> Suc MAX_POLICY_DEPTH \<and>
    ctx_ok (ctx_after ctx (Suc (sum_list (map node_count ms))) (sum_list (map credential_count ms)))"
  using assms unfolding levels_node accepts_all_def by (auto simp: ctx_ok_def ctx_after_def)

lemma validate_impl_iff:
  "ctx_ok ctx \<Longrightarrow> validate_impl p ctx = (Inr (), ctx') \<longleftrightarrow>
     accepts p ctx \<and> ctx' = ctx_after ctx (node_count p) (credential_count p)"
proof (induction p arbitrary: ctx ctx')
  case (AmountAtMost x)
  then show ?case by (auto simp: validate_impl.simps Let_def accepts_def ctx_ok_def ctx_after_def)
next
  case (Credential x)
  then show ?case by (auto simp: validate_impl.simps accepts_def ctx_ok_def ctx_after_def Let_def)
next
  case (Threshold k ms)
  let ?c = "ctx\<lparr>v_nodes := Suc (v_nodes ctx)\<rparr>"
  have mem: "ctx_ok ?c \<Longrightarrow> validate_members ms ?c = (Inr (), ctx') \<longleftrightarrow>
      accepts_all ms ?c \<and> ctx' = ctx_after ?c (sum_list (map node_count ms)) (sum_list (map credential_count ms))"
    by (rule validate_members_iff) (use Threshold.IH in auto)
  have check: "(case check_distinct_credentials ms of Inl e \<Rightarrow> (Inl e, c) | Inr _ \<Rightarrow> r) = (Inr (), ctx') \<longleftrightarrow>
      distinct (direct_credentials ms) \<and> r = (Inr (), ctx')" for c and r :: "(policy_error, unit) result \<times> validation_ctx"
    using check_distinct_Inr [of ms] by (cases "check_distinct_credentials ms") auto
  have eq: "validate_impl (Threshold k ms) ctx = (Inr (), ctx') \<longleftrightarrow>
      \<not> MAX_POLICY_DEPTH < v_depth ctx \<and> ctx_ok ?c \<and> 0 < unat k \<and> unat k \<le> length ms \<and> length ms \<le> 1000 \<and>
      distinct (direct_credentials ms) \<and> validate_members ms ?c = (Inr (), ctx')"
    using Threshold.prems unfolding validate_impl.simps
    by (auto simp: ctx_ok_def Let_def check MAX_THRESHOLD_ARITY_def MAX_THRESHOLD_MEMBERS_def)
  show ?case
    unfolding eq using mem accepts_members [of ctx ms]
    by (auto simp: accepts_def ctx_after_def)
next
  case (And ms)
  let ?c = "ctx\<lparr>v_nodes := Suc (v_nodes ctx)\<rparr>"
  have mem: "ctx_ok ?c \<Longrightarrow> validate_members ms ?c = (Inr (), ctx') \<longleftrightarrow>
      accepts_all ms ?c \<and> ctx' = ctx_after ?c (sum_list (map node_count ms)) (sum_list (map credential_count ms))"
    by (rule validate_members_iff) (use And.IH in auto)
  have eq: "validate_impl (And ms) ctx = (Inr (), ctx') \<longleftrightarrow>
      \<not> MAX_POLICY_DEPTH < v_depth ctx \<and> ctx_ok ?c \<and> ms \<noteq> [] \<and> length ms \<le> 1000 \<and>
      validate_members ms ?c = (Inr (), ctx')"
    using And.prems by (auto simp: validate_impl.simps ctx_ok_def Let_def MAX_COMBINATOR_CHILDREN_def)
  show ?case
    unfolding eq using mem accepts_members [of ctx ms]
    by (auto simp: accepts_def ctx_after_def)
next
  case (Or ms)
  let ?c = "ctx\<lparr>v_nodes := Suc (v_nodes ctx)\<rparr>"
  have mem: "ctx_ok ?c \<Longrightarrow> validate_members ms ?c = (Inr (), ctx') \<longleftrightarrow>
      accepts_all ms ?c \<and> ctx' = ctx_after ?c (sum_list (map node_count ms)) (sum_list (map credential_count ms))"
    by (rule validate_members_iff) (use Or.IH in auto)
  have eq: "validate_impl (Or ms) ctx = (Inr (), ctx') \<longleftrightarrow>
      \<not> MAX_POLICY_DEPTH < v_depth ctx \<and> ctx_ok ?c \<and> ms \<noteq> [] \<and> length ms \<le> 1000 \<and>
      validate_members ms ?c = (Inr (), ctx')"
    using Or.prems by (auto simp: validate_impl.simps ctx_ok_def Let_def MAX_COMBINATOR_CHILDREN_def)
  show ?case
    unfolding eq using mem accepts_members [of ctx ms]
    by (auto simp: accepts_def ctx_after_def)
qed

definition policy_valid :: "policy \<Rightarrow> bool" where
  "policy_valid p \<longleftrightarrow> well_structured p \<and> levels p \<le> Suc MAX_POLICY_DEPTH \<and> node_count p \<le> MAX_POLICY_NODES \<and>
     credential_count p \<le> MAX_CREDENTIAL_COUNT"

lemma policy_validate_iff: "policy_validate p = Inr () \<longleftrightarrow> policy_valid p"
proof -
  let ?c = "\<lparr>v_depth = 0, v_nodes = 0, v_credentials = 0\<rparr>"
  have "policy_validate p = Inr () \<longleftrightarrow> (\<exists>ctx'. validate_impl p ?c = (Inr (), ctx'))"
    by (auto simp: policy_validate_def) (metis prod.collapse)
  also have "\<dots> \<longleftrightarrow> accepts p ?c"
    using validate_impl_iff [of ?c p] by (simp add: ctx_ok_def)
  also have "\<dots> \<longleftrightarrow> policy_valid p"
    by (simp add: accepts_def policy_valid_def ctx_ok_def ctx_after_def)
  finally show ?thesis .
qed

text \<open>C31: \<open>validate\<close> accepts exactly the policies whose combinators are non-empty and small, whose
  thresholds lie between one and the number of members, whose threshold members name no credential
  twice directly, whose credential ids are not zero, and which stay within the limits on depth,
  nodes and credentials. The counters threaded through the recursion compute these totals. Where the documents
  say otherwise, the code decides: a credential may occur twice in a conjunction, a disjunction or in different
  branches, and every occurrence counts towards the limit on credentials.\<close>

theorem policy_validate_correct:
  "policy_validate p = Inr () \<longleftrightarrow>
     well_structured p \<and> levels p \<le> Suc MAX_POLICY_DEPTH \<and> node_count p \<le> MAX_POLICY_NODES \<and>
     credential_count p \<le> MAX_CREDENTIAL_COUNT"
  by (simp add: policy_validate_iff policy_valid_def)

section \<open>Witnesses\<close>

text \<open>A policy that encodes to more than \<open>MAX_ENCODED_SIZE\<close> bytes.\<close>

definition oversized :: policy where
  "oversized = Threshold 1 (replicate 40000 (Credential (replicate 32 7)))"

lemma oversized_length: "MAX_ENCODED_SIZE < length (encode_policy oversized)"
proof -
  have "length (concat (map encode_policy_node (replicate 40000 (Credential (replicate 32 7))))) = 40000 * 33"
    by (simp add: length_concat map_replicate sum_list_replicate)
  then show ?thesis by (simp add: encode_policy_def MAX_ENCODED_SIZE_def oversized_def)
qed

lemma oversized_wf: "policy_wf oversized"
  by (simp add: oversized_def CREDENTIAL_ID_LEN_def)

theorem policy_codec_witness:
  "decode_policy (encode_policy oversized) = Inr oversized \<and> policy_encode True oversized = None \<and>
   policy_encode True (AmountAtMost 7) = policy_encode False (AmountAtMost 7)"
proof -
  let ?small = "AmountAtMost 7"
  have bytes: "policy_encode False q = Some (encode_policy q)" for q by (simp add: policy_encode_def)
  have "decode_policy (encode_policy oversized) = Inr oversized"
    using policy_codec [of "encode_policy oversized" oversized, THEN conjunct1] oversized_wf bytes by blast
  moreover have "policy_encode True oversized \<noteq> Some bs" for bs
    using policy_codec [of bs oversized, THEN conjunct2] bytes [of oversized] oversized_length by (metis not_le option.inject)
  then have "policy_encode True oversized = None" by (meson not_Some_eq)
  moreover have "length (encode_policy ?small) \<le> MAX_ENCODED_SIZE" by (simp add: encode_policy_def MAX_ENCODED_SIZE_def)
  then have "policy_encode True ?small = policy_encode False ?small"
    using policy_codec [of "encode_policy ?small" ?small, THEN conjunct2] bytes [of ?small] by metis
  ultimately show ?thesis by blast
qed

text \<open>A disjunction that the amount satisfies is refused for lack of a secret it does not need.\<close>

theorem policy_evaluate_correct_witness:
  "let w = \<lparr>credential_secrets = [], w_amount = Some 3\<rparr>; p = Or [Credential (replicate 32 1), AmountAtMost 5]
   in sat low32 w p \<and> policy_evaluate low32 p w = Inl PE_WitnessMismatch \<and>
      (\<exists>r. policy_evaluate low32 (AmountAtMost 5) w = Inr r \<and> authorized r)"
proof -
  let ?w = "\<lparr>credential_secrets = [], w_amount = Some 3\<rparr>" and ?p = "Or [Credential (replicate 32 1), AmountAtMost 5]"
  have "\<not> witness_fits ?w ?p" "witness_fits ?w (AmountAtMost 5)" "sat low32 ?w ?p" "sat low32 ?w (AmountAtMost 5)"
    by (simp_all add: witness_fits_def secret_for_def word_le_nat_alt)
  then show ?thesis
    using policy_evaluate_correct [where ?sha256.0 = low32 and p = ?p and w = ?w]
      policy_evaluate_correct [where ?sha256.0 = low32 and p = "AmountAtMost 5" and w = ?w]
    by (auto simp: Let_def split: sum.splits)
qed

text \<open>A credential twice in a conjunction is accepted, twice in a threshold it is not.\<close>

theorem policy_validate_correct_witness:
  "let c = Credential (replicate 32 1) in policy_validate (And [c, c]) = Inr () \<and> policy_validate (Threshold 1 [c, c]) \<noteq> Inr ()"
  using policy_validate_correct [of "And [Credential (replicate 32 1), Credential (replicate 32 1)]"]
    policy_validate_correct [of "Threshold 1 [Credential (replicate 32 1), Credential (replicate 32 1)]"]
  by (simp add: credential_is_zero_def CREDENTIAL_ID_LEN_def direct_credentials_def MAX_POLICY_DEPTH_def MAX_POLICY_NODES_def MAX_CREDENTIAL_COUNT_def)

end
