(* ===== verification/Policy_Normalize.thy ===== *)
theory Policy_Normalize
  imports Policy "HOL-Library.Multiset"
begin

text \<open>
  Model of \<open>crates/policy/src/normalize.rs\<close> and \<open>identity.rs\<close>: the canonical form of policies and
  the policy id. \<open>normalize_node\<close> has no failing branch; its result is the policy itself and
  \<open>policy_normalize\<close> wraps it in \<open>Ok\<close>. \<open>sort_by_cached_key\<close> is the stable \<open>sort_key\<close> on the
  lexicographic order of encodings.
\<close>

section \<open>Normalisation\<close>

definition flatten_into :: "u8 \<Rightarrow> policy \<Rightarrow> policy list \<Rightarrow> policy list" where
  "flatten_into tag p out =
     (case p of
        And inner \<Rightarrow> if tag = 4 then out @ inner else out @ [p]
      | Or inner \<Rightarrow> if tag = 5 then out @ inner else out @ [p]
      | _ \<Rightarrow> out @ [p])"

fun dedup_loop :: "policy list \<Rightarrow> policy list \<Rightarrow> policy list" where
  "dedup_loop unique [] = unique"
| "dedup_loop unique (p # rest) =
     (if list_ex (\<lambda>u. encode_policy u = encode_policy p) unique then dedup_loop unique rest
      else dedup_loop (unique @ [p]) rest)"

text \<open>\<open>normalize_combinator\<close> on the members that are normalised already.\<close>

definition normalize_combinator :: "(policy list \<Rightarrow> policy) \<Rightarrow> u8 \<Rightarrow> policy list \<Rightarrow> policy" where
  "normalize_combinator mk parent_tag normalized =
     (let flat = foldl (\<lambda>out p. flatten_into parent_tag p out) [] normalized;
          unique = sort_key encode_policy (dedup_loop [] flat)
      in if length unique = 1 then hd unique else mk unique)"

fun normalize_node :: "policy \<Rightarrow> policy" where
  "normalize_node (AmountAtMost l) = AmountAtMost l"
| "normalize_node (Credential cid) = Credential cid"
| "normalize_node (Threshold k members) = Threshold k (sort_key encode_policy (map normalize_node members))"
| "normalize_node (And members) = normalize_combinator And 4 (map normalize_node members)"
| "normalize_node (Or members) = normalize_combinator Or 5 (map normalize_node members)"

definition policy_normalize :: "policy \<Rightarrow> (policy_error, policy) result" where
  "policy_normalize p = Inr (normalize_node p)"

definition policy_id :: "(bytes \<Rightarrow> bytes) \<Rightarrow> policy \<Rightarrow> (policy_error, digest) result" where
  "policy_id sha256 p =
     rbind (policy_normalize p) (\<lambda>normalized.
     let bs = encode_policy normalized in
     if length bs > MAX_ENCODED_SIZE then Inl PE_EncodedSizeExceeded
     else Inr (Digest (Sha256Backend_hash_domain sha256 DOMAIN_POLICY bs)))"

text \<open>\<open>Policy::policy_id\<close>, which unwraps the result with \<open>expect\<close>; \<open>None\<close> is the panic.\<close>

definition Policy_policy_id :: "(bytes \<Rightarrow> bytes) \<Rightarrow> policy \<Rightarrow> digest option" where
  "Policy_policy_id sha256 p = (case policy_id sha256 p of Inl e \<Rightarrow> None | Inr d \<Rightarrow> Some d)"

section \<open>Flattening, de-duplication, sorting\<close>

definition flat_members :: "u8 \<Rightarrow> policy \<Rightarrow> policy list" where
  "flat_members tag p = flatten_into tag p []"

lemma flatten_into_eq: "flatten_into tag p out = out @ flat_members tag p"
  by (auto simp: flatten_into_def flat_members_def split: policy.splits)

lemma foldl_flatten: "foldl (\<lambda>out p. flatten_into tag p out) acc ps = acc @ concat (map (flat_members tag) ps)"
  by (induction ps arbitrary: acc) (simp_all add: flatten_into_eq)

lemma dedup_loop_subset: "set unique \<subseteq> set (dedup_loop unique ps) \<and> set (dedup_loop unique ps) \<subseteq> set unique \<union> set ps"
  by (induction unique ps rule: dedup_loop.induct) auto

lemma dedup_loop_covers:
  "x \<in> set unique \<union> set ps \<Longrightarrow> \<exists>u\<in>set (dedup_loop unique ps). encode_policy u = encode_policy x"
proof (induction unique ps rule: dedup_loop.induct)
  case (1 unique)
  then show ?case by auto
next
  case (2 unique p rest)
  show ?case
  proof (cases "list_ex (\<lambda>u. encode_policy u = encode_policy p) unique")
    case True
    then obtain u where u: "u \<in> set unique" "encode_policy u = encode_policy p" by (auto simp: list_ex_iff)
    then have "u \<in> set (dedup_loop unique rest)" using dedup_loop_subset by blast
    then show ?thesis using 2 True u by (cases "x = p") auto
  next
    case False
    then show ?thesis using 2 by auto
  qed
qed

lemma dedup_loop_distinct:
  "distinct (map encode_policy unique) \<Longrightarrow> distinct (map encode_policy (dedup_loop unique ps))"
proof (induction unique ps rule: dedup_loop.induct)
  case (2 unique p rest)
  then show ?case by (force simp: list_ex_iff image_iff)
qed simp

lemma dedup_loop_set:
  assumes "inj_on encode_policy (set unique \<union> set ps)"
  shows "set (dedup_loop unique ps) = set unique \<union> set ps"
proof
  show "set unique \<union> set ps \<subseteq> set (dedup_loop unique ps)"
  proof
    fix x assume x: "x \<in> set unique \<union> set ps"
    then obtain u where "u \<in> set (dedup_loop unique ps)" "encode_policy u = encode_policy x"
      using dedup_loop_covers by blast
    moreover from this have "u \<in> set unique \<union> set ps" using dedup_loop_subset by blast
    ultimately show "x \<in> set (dedup_loop unique ps)" using assms x by (auto dest: inj_onD)
  qed
qed (use dedup_loop_subset in blast)

lemma dedup_loop_id: "distinct (map encode_policy (unique @ ps)) \<Longrightarrow> dedup_loop unique ps = unique @ ps"
proof (induction unique ps rule: dedup_loop.induct)
  case (2 unique p rest)
  then have "encode_policy p \<notin> encode_policy ` set unique" by simp
  then have "\<not> list_ex (\<lambda>u. encode_policy u = encode_policy p) unique" by (simp add: list_ex_iff image_iff) metis
  then show ?case using 2 by simp
qed simp

text \<open>The list \<open>normalize_combinator\<close> ends with.\<close>

definition canonical_members :: "u8 \<Rightarrow> policy list \<Rightarrow> policy list" where
  "canonical_members tag ps = sort_key encode_policy (dedup_loop [] (concat (map (flat_members tag) ps)))"

lemma normalize_combinator_eq:
  "normalize_combinator mk tag ps =
     (let u = canonical_members tag ps in if length u = 1 then hd u else mk u)"
  by (simp add: normalize_combinator_def canonical_members_def foldl_flatten Let_def)

lemma canonical_members_sorted:
  "sorted (map encode_policy (canonical_members tag ps))" "distinct (map encode_policy (canonical_members tag ps))"
proof -
  show "sorted (map encode_policy (canonical_members tag ps))" by (simp add: canonical_members_def)
  have "mset (canonical_members tag ps) = mset (dedup_loop [] (concat (map (flat_members tag) ps)))"
    by (simp add: canonical_members_def)
  then have "mset (map encode_policy (canonical_members tag ps)) =
      mset (map encode_policy (dedup_loop [] (concat (map (flat_members tag) ps))))"
    by (simp add: mset_map)
  then show "distinct (map encode_policy (canonical_members tag ps))"
    using dedup_loop_distinct [of "[]"] mset_eq_imp_distinct_iff by fastforce
qed

lemma canonical_members_subset: "set (canonical_members tag ps) \<subseteq> (\<Union>p\<in>set ps. set (flat_members tag p))"
  using dedup_loop_subset [of "[]"] by (fastforce simp: canonical_members_def)

section \<open>Normal forms\<close>

fun normal_form :: "policy \<Rightarrow> bool" where
  "normal_form (AmountAtMost _) = True"
| "normal_form (Credential _) = True"
| "normal_form (Threshold _ ms) = (sorted (map encode_policy ms) \<and> (\<forall>m\<in>set ms. normal_form m))"
| "normal_form (And ms) = (sorted (map encode_policy ms) \<and> distinct (map encode_policy ms) \<and> length ms \<noteq> 1 \<and>
     (\<forall>m\<in>set ms. normal_form m \<and> (\<forall>xs. m \<noteq> And xs)))"
| "normal_form (Or ms) = (sorted (map encode_policy ms) \<and> distinct (map encode_policy ms) \<and> length ms \<noteq> 1 \<and>
     (\<forall>m\<in>set ms. normal_form m \<and> (\<forall>xs. m \<noteq> Or xs)))"

lemma flat_members_simps:
  "flat_members 4 p = (case p of And xs \<Rightarrow> xs | _ \<Rightarrow> [p])"
  "flat_members 5 p = (case p of Or xs \<Rightarrow> xs | _ \<Rightarrow> [p])"
  by (auto simp: flat_members_def flatten_into_def split: policy.splits)

lemma flat_members_normal:
  "normal_form p \<Longrightarrow> x \<in> set (flat_members 4 p) \<Longrightarrow> normal_form x \<and> (\<forall>xs. x \<noteq> And xs)"
  "normal_form p \<Longrightarrow> x \<in> set (flat_members 5 p) \<Longrightarrow> normal_form x \<and> (\<forall>xs. x \<noteq> Or xs)"
  by (auto simp: flat_members_simps split: policy.splits)

lemma normalize_combinator_normal:
  assumes "\<And>x. x \<in> set (canonical_members tag ps) \<Longrightarrow> normal_form x"
    and "length (canonical_members tag ps) \<noteq> 1 \<Longrightarrow> normal_form (mk (canonical_members tag ps))"
  shows "normal_form (normalize_combinator mk tag ps)"
proof (cases "length (canonical_members tag ps) = 1")
  case True
  then obtain u where "canonical_members tag ps = [u]" by (auto simp: length_Suc_conv)
  then show ?thesis using assms(1) by (simp add: normalize_combinator_eq Let_def)
next
  case False
  then show ?thesis using assms(2) by (simp add: normalize_combinator_eq Let_def)
qed

lemma normal_form_normalize: "normal_form (normalize_node p)"
proof (induction p)
  case (And ms)
  have "normal_form x \<and> (\<forall>xs. x \<noteq> And xs)" if "x \<in> set (canonical_members 4 (map normalize_node ms))" for x
    using that canonical_members_subset [of 4 "map normalize_node ms"] And flat_members_normal(1) by fastforce
  then show ?case using canonical_members_sorted [of 4 "map normalize_node ms"]
    by (auto intro!: normalize_combinator_normal)
next
  case (Or ms)
  have "normal_form x \<and> (\<forall>xs. x \<noteq> Or xs)" if "x \<in> set (canonical_members 5 (map normalize_node ms))" for x
    using that canonical_members_subset [of 5 "map normalize_node ms"] Or flat_members_normal(2) by fastforce
  then show ?case using canonical_members_sorted [of 5 "map normalize_node ms"]
    by (auto intro!: normalize_combinator_normal)
qed auto

lemma concat_singletons: "(\<And>m. m \<in> set ms \<Longrightarrow> f m = [m]) \<Longrightarrow> concat (map f ms) = ms"
  by (induction ms) auto

lemma canonical_members_id:
  assumes "sorted (map encode_policy ms)" "distinct (map encode_policy ms)" "\<And>m. m \<in> set ms \<Longrightarrow> flat_members tag m = [m]"
  shows "canonical_members tag ms = ms"
  using assms by (simp add: canonical_members_def concat_singletons dedup_loop_id sort_key_id_if_sorted)

lemma normalize_normal_form: "normal_form p \<Longrightarrow> normalize_node p = p"
proof (induction p)
  case (Threshold k ms)
  then have "map normalize_node ms = ms" by (auto intro: map_idI)
  then show ?case using Threshold.prems by (simp add: sort_key_id_if_sorted)
next
  case (And ms)
  then have "map normalize_node ms = ms" by (auto intro: map_idI)
  moreover have "canonical_members 4 ms = ms"
    using And.prems by (intro canonical_members_id) (auto simp: flat_members_simps split: policy.splits)
  ultimately show ?case using And.prems by (simp add: normalize_combinator_eq Let_def)
next
  case (Or ms)
  then have "map normalize_node ms = ms" by (auto intro: map_idI)
  moreover have "canonical_members 5 ms = ms"
    using Or.prems by (intro canonical_members_id) (auto simp: flat_members_simps split: policy.splits)
  ultimately show ?case using Or.prems by (simp add: normalize_combinator_eq Let_def)
qed auto

text \<open>Normalisation is idempotent: its results are in normal form (sorted, flattened,
  de-duplicated, no singleton combinator), and a policy in normal form is left as it is.\<close>

theorem normalize_idempotent:
  "normal_form (normalize_node p) \<and> normalize_node (normalize_node p) = normalize_node p"
  by (simp add: normal_form_normalize normalize_normal_form)

section \<open>Normalisation never makes a policy larger\<close>

text \<open>The policies for which encodings are injective: 32-byte ids and fewer than \<open>2 ^ 32\<close> nodes.\<close>

definition policy_small :: "policy \<Rightarrow> bool" where
  "policy_small p \<longleftrightarrow> (\<forall>cid\<in>set (policy_credentials p). length cid = CREDENTIAL_ID_LEN) \<and> node_count p < 2 ^ 32"

lemma node_count_pos: "1 \<le> node_count p"
  by (cases p) auto

lemma length_le_node_counts: "length ms \<le> sum_list (map node_count ms)"
  using sum_list_mono [of ms "\<lambda>_. 1" node_count] node_count_pos by (simp add: sum_list_triv)

lemma node_count_member: "m \<in> set ms \<Longrightarrow> node_count m \<le> sum_list (map node_count ms)"
  by (rule member_le_sum_list) auto

lemma small_members:
  assumes "policy_small p" "p = Threshold k ms \<or> p = And ms \<or> p = Or ms"
  shows "length ms < 2 ^ 32" "m \<in> set ms \<Longrightarrow> policy_small m"
proof -
  have n: "sum_list (map node_count ms) < 2 ^ 32" using assms by (auto simp: policy_small_def)
  show "length ms < 2 ^ 32" using length_le_node_counts [of ms] n by linarith
  show "policy_small m" if "m \<in> set ms"
    using node_count_member [OF that] n assms that by (auto simp: policy_small_def)
qed

lemma small_wf: "policy_small p \<Longrightarrow> policy_wf p"
proof (induction p)
  case (Threshold k ms)
  then show ?case using small_members [OF Threshold.prems, of k ms] by simp
next
  case (And ms)
  then show ?case using small_members [OF And.prems, of _ ms] by simp
next
  case (Or ms)
  then show ?case using small_members [OF Or.prems, of _ ms] by simp
qed (auto simp: policy_small_def)

lemma sum_list_sort: "sum_list (map f (sort_key k xs)) = (sum_list (map f xs) :: nat)"
  by (metis mset_map mset_sort sum_mset_sum_list)

lemma sum_list_dedup:
  "sum_list (map f (dedup_loop unique ps)) \<le> sum_list (map f unique) + (sum_list (map f ps) :: nat)"
proof (induction unique ps rule: dedup_loop.induct)
  case (1 unique)
  then show ?case by simp
next
  case (2 unique p rest)
  then show ?case by (cases "list_ex (\<lambda>u. encode_policy u = encode_policy p) unique") auto
qed

lemma flat_members_count: "sum_list (map node_count (flat_members tag p)) \<le> node_count p"
  by (cases p) (auto simp: flat_members_def flatten_into_def)

lemma flat_members_credentials: "x \<in> set (flat_members tag p) \<Longrightarrow> set (policy_credentials x) \<subseteq> set (policy_credentials p)"
  by (cases p) (auto simp: flat_members_def flatten_into_def split: if_splits)

lemma canonical_members_count:
  "sum_list (map node_count (canonical_members tag ps)) \<le> sum_list (map node_count ps)"
proof -
  have "sum_list (map node_count (canonical_members tag ps)) \<le> sum_list (map node_count (concat (map (flat_members tag) ps)))"
    unfolding canonical_members_def sum_list_sort using sum_list_dedup [of node_count "[]"] by simp
  also have "\<dots> \<le> sum_list (map node_count ps)"
  proof (induction ps)
    case (Cons q qs)
    then show ?case using flat_members_count [of tag q] by simp
  qed simp
  finally show ?thesis .
qed

lemma normalize_combinator_count:
  assumes "\<And>xs. node_count (mk xs) = Suc (sum_list (map node_count xs))"
  shows "node_count (normalize_combinator mk tag ps) \<le> Suc (sum_list (map node_count ps))"
proof (cases "length (canonical_members tag ps) = 1")
  case True
  then obtain u where "canonical_members tag ps = [u]" by (auto simp: length_Suc_conv)
  then show ?thesis using canonical_members_count [of tag ps] by (simp add: normalize_combinator_eq Let_def)
next
  case False
  then show ?thesis using canonical_members_count [of tag ps] assms by (simp add: normalize_combinator_eq Let_def)
qed

lemma normalize_combinator_credentials:
  assumes "\<And>xs. policy_credentials (mk xs) = concat (map policy_credentials xs)"
  shows "set (policy_credentials (normalize_combinator mk tag ps)) \<subseteq> (\<Union>p\<in>set ps. set (policy_credentials p))"
proof -
  have sub: "set (policy_credentials x) \<subseteq> (\<Union>p\<in>set ps. set (policy_credentials p))" if x: "x \<in> set (canonical_members tag ps)" for x
  proof -
    obtain p where "p \<in> set ps" "x \<in> set (flat_members tag p)"
      using x canonical_members_subset [of tag ps] by blast
    then show ?thesis using flat_members_credentials [of x tag p] by blast
  qed
  show ?thesis
  proof (cases "length (canonical_members tag ps) = 1")
    case True
    then obtain u where "canonical_members tag ps = [u]" by (auto simp: length_Suc_conv)
    then show ?thesis using sub by (simp add: normalize_combinator_eq Let_def)
  next
    case False
    then show ?thesis using sub assms by (simp add: normalize_combinator_eq Let_def UN_subset_iff)
  qed
qed

lemma sum_list_le_map: "(\<And>m. m \<in> set ms \<Longrightarrow> node_count (f m) \<le> node_count m) \<Longrightarrow>
    sum_list (map node_count (map f ms)) \<le> sum_list (map node_count ms)"
  by (induction ms) (auto simp: add_mono)

lemma node_count_normalize: "node_count (normalize_node p) \<le> node_count p"
proof (induction p)
  case (Threshold k ms)
  then show ?case using sum_list_le_map [of ms normalize_node] by (simp add: sum_list_sort comp_def)
next
  case (And ms)
  have "node_count (normalize_node (And ms)) \<le> Suc (sum_list (map node_count (map normalize_node ms)))"
    unfolding normalize_node.simps by (rule normalize_combinator_count) simp
  then show ?case using sum_list_le_map [of ms normalize_node, OF And] by simp
next
  case (Or ms)
  have "node_count (normalize_node (Or ms)) \<le> Suc (sum_list (map node_count (map normalize_node ms)))"
    unfolding normalize_node.simps by (rule normalize_combinator_count) simp
  then show ?case using sum_list_le_map [of ms normalize_node, OF Or] by simp
qed auto

lemma credentials_normalize: "set (policy_credentials (normalize_node p)) \<subseteq> set (policy_credentials p)"
proof (induction p)
  case (Threshold k ms)
  then show ?case by auto
next
  case (And ms)
  then have "(\<Union>m\<in>set ms. set (policy_credentials (normalize_node m))) \<subseteq> (\<Union>m\<in>set ms. set (policy_credentials m))"
    by (intro UN_mono) auto
  with normalize_combinator_credentials [of And 4 "map normalize_node ms"] show ?case by simp
next
  case (Or ms)
  then have "(\<Union>m\<in>set ms. set (policy_credentials (normalize_node m))) \<subseteq> (\<Union>m\<in>set ms. set (policy_credentials m))"
    by (intro UN_mono) auto
  with normalize_combinator_credentials [of Or 5 "map normalize_node ms"] show ?case by simp
qed auto

lemma small_normalize: "policy_small p \<Longrightarrow> policy_small (normalize_node p)"
  using node_count_normalize [of p] credentials_normalize [of p] by (auto simp: policy_small_def)

section \<open>Normalisation preserves the meaning\<close>

lemma small_flat: "policy_small p \<Longrightarrow> x \<in> set (flat_members tag p) \<Longrightarrow> policy_small x"
  using flat_members_credentials [of x tag p] flat_members_count [of tag p] node_count_member [of x "flat_members tag p"]
  by (auto simp: policy_small_def)

lemma canonical_members_set:
  assumes "\<And>p. p \<in> set ps \<Longrightarrow> policy_small p"
  shows "set (canonical_members tag ps) = (\<Union>p\<in>set ps. set (flat_members tag p))"
proof -
  have "inj_on encode_policy (\<Union>p\<in>set ps. set (flat_members tag p))"
    using assms small_flat small_wf encode_policy_inject by (intro inj_onI) (metis UN_E)
  then show ?thesis by (simp add: canonical_members_def dedup_loop_set)
qed

lemma sat_normalize_combinator:
  "sat sha256 w (normalize_combinator And tag ps) \<longleftrightarrow> (\<forall>x\<in>set (canonical_members tag ps). sat sha256 w x)"
  "sat sha256 w (normalize_combinator Or tag ps) \<longleftrightarrow> (\<exists>x\<in>set (canonical_members tag ps). sat sha256 w x)"
  by (cases "length (canonical_members tag ps) = 1";
      auto simp: normalize_combinator_eq Let_def length_Suc_conv)+

lemma sat_flat_members:
  "(\<forall>x\<in>set (flat_members 4 p). sat sha256 w x) \<longleftrightarrow> sat sha256 w p"
  "(\<exists>x\<in>set (flat_members 5 p). sat sha256 w x) \<longleftrightarrow> sat sha256 w p"
  by (cases p; simp add: flat_members_simps)+

lemma length_filter_sort: "length (filter P (sort_key k xs)) = length (filter P xs)"
  by (metis mset_filter mset_sort size_mset)

lemma sat_normalize: "policy_small p \<Longrightarrow> sat sha256 w (normalize_node p) \<longleftrightarrow> sat sha256 w p"
proof (induction p)
  case (Threshold k ms)
  have "filter (\<lambda>m. sat sha256 w (normalize_node m)) ms = filter (sat sha256 w) ms"
    using Threshold small_members(2) [OF Threshold.prems] by (intro filter_cong) auto
  then show ?case by (simp add: length_filter_sort filter_map comp_def)
next
  case (And ms)
  have small: "policy_small m" if "m \<in> set ms" for m using small_members(2) [OF And.prems] that by auto
  have set: "set (canonical_members 4 (map normalize_node ms)) = (\<Union>m\<in>set ms. set (flat_members 4 (normalize_node m)))"
    by (subst canonical_members_set) (auto intro: small small_normalize)
  have "sat sha256 w (normalize_node (And ms)) \<longleftrightarrow>
      (\<forall>m\<in>set ms. \<forall>x\<in>set (flat_members 4 (normalize_node m)). sat sha256 w x)"
    using set by (auto simp: sat_normalize_combinator)
  then show ?case using And.IH small by (simp add: sat_flat_members)
next
  case (Or ms)
  have small: "policy_small m" if "m \<in> set ms" for m using small_members(2) [OF Or.prems] that by auto
  have set: "set (canonical_members 5 (map normalize_node ms)) = (\<Union>m\<in>set ms. set (flat_members 5 (normalize_node m)))"
    by (subst canonical_members_set) (auto intro: small small_normalize)
  have "sat sha256 w (normalize_node (Or ms)) \<longleftrightarrow>
      (\<exists>m\<in>set ms. \<exists>x\<in>set (flat_members 5 (normalize_node m)). sat sha256 w x)"
    using set by (auto simp: sat_normalize_combinator)
  then show ?case using Or.IH small by (simp add: sat_flat_members)
qed auto

text \<open>C32: normalisation does not change what a policy authorises, for any hash function and any
  witness.\<close>

theorem normalize_preserves_meaning:
  assumes "policy_small p"
  shows "sat sha256 w (normalize_node p) \<longleftrightarrow> sat sha256 w p"
  by (rule sat_normalize [OF assms])

section \<open>Order and repetition of members\<close>

lemma canonical_members_cong:
  assumes "\<And>p. p \<in> set ps \<Longrightarrow> policy_small p" "set ps = set qs"
  shows "canonical_members tag ps = canonical_members tag qs"
proof -
  let ?S = "\<Union>p\<in>set ps. set (flat_members tag p)"
  have sets: "set (canonical_members tag ps) = ?S" "set (canonical_members tag qs) = ?S"
    using assms canonical_members_set [of ps tag] canonical_members_set [of qs tag] by auto
  have inj: "inj_on encode_policy ?S"
    using assms(1) small_flat small_wf encode_policy_inject by (intro inj_onI) (metis UN_E)
  show ?thesis
    by (rule map_sorted_distinct_set_unique [where f = encode_policy])
       (use inj sets canonical_members_sorted in auto)
qed

lemma map_small: "policy_small (And ms) \<Longrightarrow> p \<in> set (map normalize_node ms) \<Longrightarrow> policy_small p"
  using small_members(2) [of "And ms" _ ms] small_normalize by auto

text \<open>The canonical form of a conjunction or disjunction depends only on the set of its members,
  and that of a threshold only on the multiset: reordering members, and repeating them in an And or
  Or, yields the same canonical policy.\<close>

theorem normalize_members_irrelevant:
  assumes "policy_small (And ms)"
  shows "(set ns = set ms \<longrightarrow> normalize_node (And ns) = normalize_node (And ms) \<and>
      normalize_node (Or ns) = normalize_node (Or ms)) \<and>
    (mset ns = mset ms \<longrightarrow> normalize_node (Threshold k ns) = normalize_node (Threshold k ms))"
proof (intro conjI impI)
  have small: "policy_small p" if "p \<in> set (map normalize_node ms)" for p
    using map_small [OF assms that] .
  have canon: "canonical_members tag (map normalize_node ns) = canonical_members tag (map normalize_node ms)"
    if "set ns = set ms" for tag
    by (rule canonical_members_cong [symmetric]) (erule small, simp add: that)
  show "normalize_node (And ns) = normalize_node (And ms)" if "set ns = set ms"
    using canon [OF that] by (simp add: normalize_combinator_eq)
  show "normalize_node (Or ns) = normalize_node (Or ms)" if "set ns = set ms"
    using canon [OF that] by (simp add: normalize_combinator_eq)
  assume m: "mset ns = mset ms"
  have inj: "inj_on encode_policy (set (map normalize_node ns))"
  proof (rule inj_onI)
    fix x y assume x: "x \<in> set (map normalize_node ns)" and y: "y \<in> set (map normalize_node ns)"
      and eq: "encode_policy x = encode_policy y"
    have "set (map normalize_node ns) = set (map normalize_node ms)" using mset_eq_setD [OF m] by simp
    then have "policy_wf x" "policy_wf y" using x y small small_wf by blast+
    then show "x = y" using eq by (simp add: encode_policy_inject)
  qed
  have "sort_key encode_policy (map normalize_node ns) = sort_key encode_policy (map normalize_node ms)"
    by (rule sort_key_inj_key_eq [OF _ inj]) (simp_all add: m)
  then show "normalize_node (Threshold k ns) = normalize_node (Threshold k ms)" by simp
qed

section \<open>Policy ids\<close>

lemma length_encode_members:
  "(\<And>m. m \<in> set ms \<Longrightarrow> length (encode_policy_node m) \<le> 33 * node_count m) \<Longrightarrow>
   length (concat (map encode_policy_node ms)) \<le> 33 * sum_list (map node_count ms)"
  by (induction ms) (auto simp: add_mono)

lemma length_encode_node:
  "\<forall>cid\<in>set (policy_credentials p). length cid = CREDENTIAL_ID_LEN \<Longrightarrow> length (encode_policy_node p) \<le> 33 * node_count p"
proof (induction p)
  case (Threshold k ms)
  then show ?case using length_encode_members [of ms] by simp
next
  case (And ms)
  then show ?case using length_encode_members [of ms] by simp
next
  case (Or ms)
  then show ?case using length_encode_members [of ms] by simp
qed (auto simp: CREDENTIAL_ID_LEN_def)

text \<open>The id of a policy with at most \<open>MAX_POLICY_NODES\<close> nodes, in particular of every
  policy that passes \<open>validate\<close>, is always computed: \<open>Policy::policy_id\<close> does not panic, and the
  encoding stays below \<open>MAX_ENCODED_SIZE\<close>.\<close>

theorem policy_id_total:
  assumes "policy_validate p = Inr ()" "\<forall>cid\<in>set (policy_credentials p). length cid = CREDENTIAL_ID_LEN"
  shows "Policy_policy_id sha256 p =
    Some (Digest (Sha256Backend_hash_domain sha256 DOMAIN_POLICY (encode_policy (normalize_node p))))"
proof -
  have "node_count (normalize_node p) \<le> 10000"
    using node_count_normalize [of p] assms(1) by (simp add: policy_validate_iff policy_valid_def MAX_POLICY_NODES_def)
  moreover have "\<forall>cid\<in>set (policy_credentials (normalize_node p)). length cid = CREDENTIAL_ID_LEN"
    using assms(2) credentials_normalize [of p] by blast
  ultimately have "length (encode_policy (normalize_node p)) \<le> MAX_ENCODED_SIZE"
    using length_encode_node [of "normalize_node p"] by (simp add: encode_policy_def MAX_ENCODED_SIZE_def)
  then show ?thesis by (simp add: Policy_policy_id_def policy_id_def policy_normalize_def Let_def)
qed

lemma canonical_or_collision:
  assumes "policy_small p" "policy_small q"
    and "policy_id sha256 p = Inr d" "policy_id sha256 q = Inr d" and ne: "normalize_node p \<noteq> normalize_node q"
  shows "frame DOMAIN_POLICY (encode_policy (normalize_node p)) \<noteq> frame DOMAIN_POLICY (encode_policy (normalize_node q))"
    "sha256 (frame DOMAIN_POLICY (encode_policy (normalize_node p))) = sha256 (frame DOMAIN_POLICY (encode_policy (normalize_node q)))"
proof -
  have "encode_policy (normalize_node p) \<noteq> encode_policy (normalize_node q)"
    using ne encode_policy_inject small_wf small_normalize assms(1,2) by blast
  moreover have "fits_u32 DOMAIN_POLICY" by (simp add: fits_u32_def DOMAIN_POLICY_def ascii_def)
  ultimately show "frame DOMAIN_POLICY (encode_policy (normalize_node p)) \<noteq> frame DOMAIN_POLICY (encode_policy (normalize_node q))"
    using frame_inject [of DOMAIN_POLICY DOMAIN_POLICY] by blast
  show "sha256 (frame DOMAIN_POLICY (encode_policy (normalize_node p))) = sha256 (frame DOMAIN_POLICY (encode_policy (normalize_node q)))"
    using assms(3,4) by (auto simp: policy_id_def policy_normalize_def Let_def Sha256Backend_hash_domain_def split: if_splits)
qed

text \<open>C33: the id identifies the canonical form. Two policies with 32-byte credential ids and fewer than \<open>2 ^ 32\<close> nodes
  and the same id have the same canonical form, and so authorise the same witnesses, or the framed encodings of their canonical
  forms are two different inputs on which the hash collides.\<close>

theorem policy_id_collision:
  assumes "policy_small p" "policy_small q"
    and "policy_id sha256 p = Inr d" "policy_id sha256 q = Inr d"
  shows "normalize_node p = normalize_node q \<and> (\<forall>w. sat sha256 w p \<longleftrightarrow> sat sha256 w q) \<or>
    (let x = frame DOMAIN_POLICY (encode_policy (normalize_node p));
         y = frame DOMAIN_POLICY (encode_policy (normalize_node q))
     in x \<noteq> y \<and> sha256 x = sha256 y)"
proof (cases "normalize_node p = normalize_node q")
  case True
  then have "sat sha256 w p \<longleftrightarrow> sat sha256 w q" for w
    using sat_normalize [OF assms(1)] sat_normalize [OF assms(2)] by metis
  with True show ?thesis by blast
next
  case False
  then show ?thesis using canonical_or_collision [OF assms] by (simp add: Let_def)
qed

text \<open>A policy that decodes but is larger than \<open>MAX_ENCODED_SIZE\<close> makes \<open>Policy::policy_id\<close> panic.\<close>

lemma oversized_normal: "normalize_node oversized = oversized"
proof -
  let ?c = "Credential (replicate 32 7)"
  have "sort_key encode_policy (map normalize_node (replicate 40000 ?c)) = replicate 40000 ?c"
    by (subst sort_key_id_if_sorted) (simp_all add: map_replicate)
  then show ?thesis by (simp add: oversized_def)
qed

lemma policy_id_panics: "Policy_policy_id sha256 oversized = None"
  using oversized_length by (simp add: Policy_policy_id_def policy_id_def policy_normalize_def oversized_normal)

section \<open>Concrete policies\<close>

definition demo_cid :: "u8 \<Rightarrow> credential_id" where
  "demo_cid b = replicate 32 b"

definition demo_policy :: policy where
  "demo_policy = And [Threshold 2 [Credential (demo_cid 3), Credential (demo_cid 1), Credential (demo_cid 2)],
     And [AmountAtMost 500, AmountAtMost 500]]"

lemma demo_policy_small: "policy_small demo_policy"
  by (simp add: policy_small_def demo_policy_def demo_cid_def CREDENTIAL_ID_LEN_def)

lemma demo_policy_valid: "policy_validate demo_policy = Inr ()"
  by (simp add: policy_validate_iff policy_valid_def demo_policy_def demo_cid_def credential_is_zero_def
      CREDENTIAL_ID_LEN_def MAX_POLICY_DEPTH_def MAX_POLICY_NODES_def MAX_CREDENTIAL_COUNT_def direct_credentials_def)

theorem normalize_preserves_meaning_witness:
  "sat low32 \<lparr>credential_secrets = [], w_amount = Some 5\<rparr> (normalize_node demo_policy) \<longleftrightarrow>
   sat low32 \<lparr>credential_secrets = [], w_amount = Some 5\<rparr> demo_policy"
  by (rule normalize_preserves_meaning [OF demo_policy_small])

theorem normalize_members_irrelevant_witness:
  "normalize_node (And [AmountAtMost 7, AmountAtMost 3, AmountAtMost 7]) = normalize_node (And [AmountAtMost 3, AmountAtMost 7]) \<and>
   normalize_node (Threshold 1 [AmountAtMost 7, AmountAtMost 3]) = normalize_node (Threshold 1 [AmountAtMost 3, AmountAtMost 7])"
proof -
  have small: "policy_small (And [AmountAtMost 3, AmountAtMost 7])" by (simp add: policy_small_def)
  have "set [AmountAtMost 7, AmountAtMost 3, AmountAtMost 7] = set [AmountAtMost 3, AmountAtMost 7]"
    "mset [AmountAtMost 7, AmountAtMost 3] = mset [AmountAtMost 3, AmountAtMost 7]" by auto
  with normalize_members_irrelevant [OF small] show ?thesis by blast
qed

theorem policy_id_total_witness: "Policy_policy_id low32 demo_policy \<noteq> None"
proof -
  have ids: "\<forall>cid\<in>set (policy_credentials demo_policy). length cid = CREDENTIAL_ID_LEN"
    using demo_policy_small unfolding policy_small_def by blast
  from policy_id_total [OF demo_policy_valid ids, of low32] show ?thesis by simp
qed

theorem policy_id_collision_witness:
  "(let x = frame DOMAIN_POLICY (encode_policy (AmountAtMost 1)); y = frame DOMAIN_POLICY (encode_policy (AmountAtMost 2))
    in x \<noteq> y)"
proof -
  have p: "policy_small (AmountAtMost n)" for n by (simp add: policy_small_def)
  have d: "policy_id (\<lambda>x. []) (AmountAtMost n) = Inr (Digest [])" for n
    by (simp add: policy_id_def policy_normalize_def encode_policy_def MAX_ENCODED_SIZE_def Sha256Backend_hash_domain_def)
  show ?thesis using policy_id_collision [OF p p d d, of 1 2] by (auto simp: Let_def)
qed

end
