(* ===== verification/Policy_Profile.thy ===== *)
theory Policy_Profile
  imports Policy_Normalize
begin

text \<open>
  Normalisation and ids in both build profiles. \<open>encode\<close> in \<open>crates/policy/src/encoding.rs\<close> ends in a \<open>debug_assert!\<close> on
  the number of bytes, and \<open>normalize.rs\<close> calls it to compare and to sort members. Here the functions are written with
  the flag \<open>debug\<close> for builds with debug assertions, \<open>None\<close> being the panic. Without the flag they are the functions of
  \<open>Policy_Normalize\<close>. With it they agree for every policy that itself encodes within \<open>MAX_ENCODED_SIZE\<close>, because
  normalisation never lengthens an encoding; above the bound the assertion comes before the error that \<open>policy_id\<close> has for it.
\<close>

section \<open>The functions with their assertions\<close>

text \<open>\<open>unique.iter().any(|u| u.encode() == encoding)\<close>, and the loop around it.\<close>

fun any_encodes :: "bool \<Rightarrow> bytes \<Rightarrow> policy list \<Rightarrow> bool option" where
  "any_encodes debug encoding [] = Some False"
| "any_encodes debug encoding (u # us) =
     Option.bind (policy_encode debug u) (\<lambda>bs. if bs = encoding then Some True else any_encodes debug encoding us)"

fun dedup_checked :: "bool \<Rightarrow> policy list \<Rightarrow> policy list \<Rightarrow> policy list option" where
  "dedup_checked debug unique [] = Some unique"
| "dedup_checked debug unique (p # rest) =
     Option.bind (policy_encode debug p) (\<lambda>encoding.
     Option.bind (any_encodes debug encoding unique) (\<lambda>found.
     dedup_checked debug (if found then unique else unique @ [p]) rest))"

text \<open>\<open>sort_by_cached_key(Policy::encode)\<close> computes all keys, unless there is nothing to sort.\<close>

definition sort_checked :: "bool \<Rightarrow> policy list \<Rightarrow> policy list option" where
  "sort_checked debug ps =
     (if length ps < 2 then Some ps
      else Option.bind (those (map (policy_encode debug) ps)) (\<lambda>_. Some (sort_key encode_policy ps)))"

definition combinator_checked :: "bool \<Rightarrow> (policy list \<Rightarrow> policy) \<Rightarrow> u8 \<Rightarrow> policy list \<Rightarrow> policy option" where
  "combinator_checked debug mk parent_tag normalized =
     Option.bind (dedup_checked debug [] (foldl (\<lambda>out p. flatten_into parent_tag p out) [] normalized)) (\<lambda>unique.
     Option.bind (sort_checked debug unique) (\<lambda>unique.
     Some (if length unique = 1 then hd unique else mk unique)))"

fun normalize_checked :: "bool \<Rightarrow> policy \<Rightarrow> policy option" where
  "normalize_checked debug (AmountAtMost l) = Some (AmountAtMost l)"
| "normalize_checked debug (Credential cid) = Some (Credential cid)"
| "normalize_checked debug (Threshold k members) =
     Option.bind (those (map (normalize_checked debug) members)) (\<lambda>normalized.
     Option.bind (sort_checked debug normalized) (\<lambda>normalized. Some (Threshold k normalized)))"
| "normalize_checked debug (And members) =
     Option.bind (those (map (normalize_checked debug) members)) (combinator_checked debug And 4)"
| "normalize_checked debug (Or members) =
     Option.bind (those (map (normalize_checked debug) members)) (combinator_checked debug Or 5)"

definition policy_id_checked :: "bool \<Rightarrow> (bytes \<Rightarrow> bytes) \<Rightarrow> policy \<Rightarrow> (policy_error, digest) result option" where
  "policy_id_checked debug sha256 p =
     Option.bind (normalize_checked debug p) (\<lambda>normalized.
     Option.bind (policy_encode debug normalized) (\<lambda>bs.
     Some (if length bs > MAX_ENCODED_SIZE then Inl PE_EncodedSizeExceeded
           else Inr (Digest (Sha256Backend_hash_domain sha256 DOMAIN_POLICY bs)))))"

section \<open>Normalisation never lengthens an encoding\<close>

abbreviation node_len :: "policy \<Rightarrow> nat" where
  "node_len p \<equiv> length (encode_policy_node p)"

abbreviation nodes_len :: "policy list \<Rightarrow> nat" where
  "nodes_len ps \<equiv> sum_list (map node_len ps)"

lemma length_concat_nodes [simp]: "length (concat (map encode_policy_node ps)) = nodes_len ps"
  by (simp add: length_concat comp_def)

lemma nodes_len_member: "p \<in> set ps \<Longrightarrow> node_len p \<le> nodes_len ps"
  by (rule member_le_sum_list) auto

lemma nodes_len_flat: "nodes_len (flat_members tag p) \<le> node_len p"
  by (cases p) (auto simp: flat_members_def flatten_into_def)

lemma nodes_len_concat_flat: "nodes_len (concat (map (flat_members tag) ps)) \<le> nodes_len ps"
proof (induction ps)
  case (Cons p ps)
  then show ?case using nodes_len_flat [of tag p] by simp
qed simp

lemma nodes_len_canonical: "nodes_len (canonical_members tag ps) \<le> nodes_len ps"
  using sum_list_dedup [of node_len "[]" "concat (map (flat_members tag) ps)"] nodes_len_concat_flat [of tag ps]
  by (simp add: canonical_members_def sum_list_sort)

lemma node_len_combinator:
  assumes "\<And>xs. node_len (mk xs) = 5 + nodes_len xs"
  shows "node_len (normalize_combinator mk tag ps) \<le> 5 + nodes_len ps"
proof (cases "length (canonical_members tag ps) = 1")
  case True
  then obtain u where "canonical_members tag ps = [u]" by (auto simp: length_Suc_conv)
  then show ?thesis using nodes_len_canonical [of tag ps] by (simp add: normalize_combinator_eq)
next
  case False
  then show ?thesis using nodes_len_canonical [of tag ps] assms by (simp add: normalize_combinator_eq Let_def)
qed

lemma nodes_len_map: "(\<And>m. m \<in> set ms \<Longrightarrow> node_len (f m) \<le> node_len m) \<Longrightarrow> nodes_len (map f ms) \<le> nodes_len ms"
  by (induction ms) (auto simp: add_mono)

lemma node_len_normalize: "node_len (normalize_node p) \<le> node_len p"
proof (induction p)
  case (Threshold k ms)
  then show ?case using nodes_len_map [of ms normalize_node] by (simp add: sum_list_sort comp_def)
next
  case (And ms)
  have "node_len (normalize_node (And ms)) \<le> 5 + nodes_len (map normalize_node ms)"
    unfolding normalize_node.simps by (rule node_len_combinator) simp
  then show ?case using nodes_len_map [of ms normalize_node, OF And] by simp
next
  case (Or ms)
  have "node_len (normalize_node (Or ms)) \<le> 5 + nodes_len (map normalize_node ms)"
    unfolding normalize_node.simps by (rule node_len_combinator) simp
  then show ?case using nodes_len_map [of ms normalize_node, OF Or] by simp
qed simp_all

section \<open>Where the assertion holds\<close>

definition fits_profile :: "bool \<Rightarrow> policy \<Rightarrow> bool" where
  "fits_profile debug p \<longleftrightarrow> (debug \<longrightarrow> length (encode_policy p) \<le> MAX_ENCODED_SIZE)"

lemma fits_le: "fits_profile debug p \<Longrightarrow> node_len q \<le> node_len p \<Longrightarrow> fits_profile debug q"
  by (auto simp: fits_profile_def encode_policy_def)

lemma fits_encode: "fits_profile debug p \<Longrightarrow> policy_encode debug p = Some (encode_policy p)"
  by (auto simp: policy_encode_def fits_profile_def Let_def)

lemma fits_any: "\<forall>u\<in>set us. fits_profile debug u \<Longrightarrow> any_encodes debug e us = Some (list_ex (\<lambda>u. encode_policy u = e) us)"
  by (induction us) (auto simp: fits_encode)

lemma fits_dedup: "\<forall>x\<in>set unique \<union> set ps. fits_profile debug x \<Longrightarrow> dedup_checked debug unique ps = Some (dedup_loop unique ps)"
  by (induction unique ps rule: dedup_loop.induct) (simp_all add: fits_encode fits_any)

lemma those_Some: "(\<And>x. x \<in> set xs \<Longrightarrow> f x = Some (g x)) \<Longrightarrow> those (map f xs) = Some (map g xs)"
  by (induction xs) simp_all

lemma sort_key_short: "length xs < 2 \<Longrightarrow> sort_key k xs = xs"
  by (cases xs; cases "tl xs") simp_all

lemma fits_sort: "\<forall>x\<in>set ps. fits_profile debug x \<Longrightarrow> sort_checked debug ps = Some (sort_key encode_policy ps)"
  by (simp add: sort_checked_def those_Some [of ps "policy_encode debug" encode_policy] fits_encode sort_key_short)

lemma fits_combinator:
  assumes "\<forall>p\<in>set ps. \<forall>x\<in>set (flat_members tag p). fits_profile debug x"
  shows "combinator_checked debug mk tag ps = Some (normalize_combinator mk tag ps)"
proof -
  let ?flat = "concat (map (flat_members tag) ps)"
  have "dedup_checked debug [] ?flat = Some (dedup_loop [] ?flat)" using assms by (intro fits_dedup) auto
  moreover have "sort_checked debug (dedup_loop [] ?flat) = Some (canonical_members tag ps)"
    using assms dedup_loop_subset [of "[]" ?flat] unfolding canonical_members_def by (intro fits_sort) auto
  ultimately show ?thesis by (simp add: combinator_checked_def foldl_flatten normalize_combinator_eq Let_def)
qed

lemma fits_flat: "fits_profile debug p \<Longrightarrow> x \<in> set (flat_members tag (normalize_node p)) \<Longrightarrow> fits_profile debug x"
  using nodes_len_member [of x "flat_members tag (normalize_node p)"] nodes_len_flat [of tag "normalize_node p"] node_len_normalize [of p]
  by (meson fits_le order_trans)

lemma fits_member:
  assumes "fits_profile debug p" "p = Threshold k ms \<or> p = And ms \<or> p = Or ms" "m \<in> set ms"
  shows "fits_profile debug m"
  using assms nodes_len_member [OF assms(3)] by (intro fits_le [OF assms(1)]) auto

lemma fits_normalize: "fits_profile debug p \<Longrightarrow> normalize_checked debug p = Some (normalize_node p)"
proof (induction p)
  case (Threshold k ms)
  note mem = fits_member [OF Threshold.prems, of k ms]
  have "those (map (normalize_checked debug) ms) = Some (map normalize_node ms)" using Threshold.IH mem by (intro those_Some) simp
  moreover have "sort_checked debug (map normalize_node ms) = Some (sort_key encode_policy (map normalize_node ms))"
    using mem fits_le [OF _ node_len_normalize] by (intro fits_sort) auto
  ultimately show ?case by simp
next
  case (And ms)
  note mem = fits_member [OF And.prems, of _ ms]
  have "those (map (normalize_checked debug) ms) = Some (map normalize_node ms)" using And.IH mem by (intro those_Some) simp
  moreover have "combinator_checked debug And 4 (map normalize_node ms) = Some (normalize_node (And ms))"
    unfolding normalize_node.simps using mem by (intro fits_combinator) (auto intro: fits_flat)
  ultimately show ?case by simp
next
  case (Or ms)
  note mem = fits_member [OF Or.prems, of _ ms]
  have "those (map (normalize_checked debug) ms) = Some (map normalize_node ms)" using Or.IH mem by (intro those_Some) simp
  moreover have "combinator_checked debug Or 5 (map normalize_node ms) = Some (normalize_node (Or ms))"
    unfolding normalize_node.simps using mem by (intro fits_combinator) (auto intro: fits_flat)
  ultimately show ?case by simp
qed simp_all

lemma fits_policy_id: "fits_profile debug p \<Longrightarrow> policy_id_checked debug sha256 p = Some (policy_id sha256 p)"
  using fits_encode [OF fits_le [OF _ node_len_normalize [of p]], of debug]
  by (simp add: policy_id_checked_def fits_normalize policy_id_def policy_normalize_def)

lemma fits_release: "fits_profile False p"
  by (simp add: fits_profile_def)

lemma fits_small: "fits_profile debug p \<Longrightarrow> fits_profile debug (normalize_node p)"
  using fits_le node_len_normalize by blast

section \<open>Both profiles\<close>

lemma oversized_panics: "policy_id_checked True sha256 oversized = None"
proof -
  let ?ms = "replicate 40000 (Credential (replicate 32 7))"
  have "policy_encode True oversized = None" using oversized_length by (simp add: policy_encode_def Let_def)
  moreover have "those (map (normalize_checked True) ?ms) = Some ?ms"
    by (subst those_Some [where g = "\<lambda>x. x"]) auto
  moreover have "sort_checked True ?ms = Some ?ms"
    by (subst fits_sort) (auto simp: fits_profile_def encode_policy_def MAX_ENCODED_SIZE_def sort_key_id_if_sorted map_replicate)
  ultimately show ?thesis by (simp add: policy_id_checked_def oversized_def)
qed

text \<open>The size error of \<open>policy_id\<close> exists only without debug assertions: with them the function panics first.\<close>

theorem policy_id_profiles:
  "policy_id_checked False sha256 p = Some (policy_id sha256 p) \<and>
   policy_id_checked True sha256 p \<noteq> Some (Inl PE_EncodedSizeExceeded) \<and>
   policy_id_checked True sha256 oversized = None \<and> policy_id sha256 oversized = Inl PE_EncodedSizeExceeded"
proof -
  have "policy_id sha256 oversized = Inl PE_EncodedSizeExceeded"
    using oversized_length by (simp add: policy_id_def policy_normalize_def oversized_normal)
  moreover have "policy_id_checked True sha256 p \<noteq> Some (Inl PE_EncodedSizeExceeded)"
    by (auto simp: policy_id_checked_def policy_encode_def Let_def bind_eq_Some_conv split: if_splits)
  ultimately show ?thesis using fits_policy_id [OF fits_release] oversized_panics by blast
qed

end
