(* ===== verification/Policy_Compiler.thy ===== *)
theory Policy_Compiler
  imports Policy_Normalize Circuit Circuit_Encoding
begin

text \<open>
  Model of \<open>crates/policy/src/range_check.rs\<close> and \<open>compiler.rs\<close>: the arithmetic gadgets, the
  compilation of a policy to a circuit, the construction of its inputs from a witness, and the
  evaluation of the compiled circuit.

  The field is the parameter \<open>'f\<close> with \<open>into_bigint\<close>, \<open>inverse_op\<close> and the byte width of its
  integers. Gate errors become \<open>CompilationFailure\<close> as in the source; the panic on the node count
  (\<open>CE_Panic\<close>) becomes \<open>PE_Panic\<close>.
\<close>

section \<open>Gates on the builder\<close>

definition gate_err :: "circuit_error \<Rightarrow> policy_error" where
  "gate_err e = (if e = CE_Panic then PE_Panic else PE_CompilationFailure)"

definition gate :: "('f builder, circuit_error, 'a) op \<Rightarrow> ('f builder, policy_error, 'a) op" where
  "gate m b = (let (r, b') = m b in (map_err gate_err r, b'))"

definition rc_constant :: "'f \<Rightarrow> ('f builder, policy_error, node_id) op" where
  "rc_constant v = gate (b_constant v)"

definition rc_add_gate :: "node_id \<Rightarrow> node_id \<Rightarrow> ('f builder, policy_error, node_id) op" where
  "rc_add_gate a b = gate (b_add a b)"

definition rc_mul_gate :: "node_id \<Rightarrow> node_id \<Rightarrow> ('f builder, policy_error, node_id) op" where
  "rc_mul_gate a b = gate (b_mul a b)"

definition mul_by_constant :: "node_id \<Rightarrow> 'f \<Rightarrow> ('f builder, policy_error, node_id) op" where
  "mul_by_constant n factor = obind (rc_constant factor) (\<lambda>c. rc_mul_gate n c)"

definition multiply_by :: "node_id \<Rightarrow> 'f \<Rightarrow> ('f builder, policy_error, node_id) op" where
  "multiply_by n factor = mul_by_constant n factor"

definition add_constant :: "node_id \<Rightarrow> 'f \<Rightarrow> ('f builder, policy_error, node_id) op" where
  "add_constant n const = obind (rc_constant const) (\<lambda>c. rc_add_gate n c)"

definition subtract :: "node_id \<Rightarrow> node_id \<Rightarrow> ('f::comm_ring_1 builder, policy_error, node_id) op" where
  "subtract a b = obind (mul_by_constant b (- 1)) (\<lambda>negated. rc_add_gate a negated)"

section \<open>The range check\<close>

definition AMOUNT_BIT_LEN :: nat where "AMOUNT_BIT_LEN = 64"

definition checked_shl_1 :: "nat \<Rightarrow> u64 option" where
  "checked_shl_1 index = (if index < 64 then Some (push_bit index 1) else None)"

fun side_loop :: "nat \<Rightarrow> node_id list \<Rightarrow> node_id \<Rightarrow> node_id \<Rightarrow>
    ('f::comm_ring_1 builder, policy_error, node_id \<times> node_id) op" where
  "side_loop index [] booleanity reconstruction = oret (Inr (booleanity, reconstruction))"
| "side_loop index (b # bits) booleanity reconstruction =
     obind (multiply_by b (- 1)) (\<lambda>negated.
     obind (add_constant negated 1) (\<lambda>one_minus.
     obind (rc_mul_gate b one_minus) (\<lambda>t.
     obind (rc_add_gate booleanity t) (\<lambda>booleanity.
     obind (oret (ok_or PE_CompilationFailure (checked_shl_1 index))) (\<lambda>weight.
     obind (mul_by_constant b (of_nat (unat weight))) (\<lambda>weighted.
     obind (rc_add_gate reconstruction weighted) (\<lambda>reconstruction.
     side_loop (Suc index) bits booleanity reconstruction)))))))"

definition emit_side :: "node_id \<Rightarrow> node_id list \<Rightarrow> ('f::comm_ring_1 builder, policy_error, node_id \<times> node_id) op" where
  "emit_side target bits =
     obind (rc_constant 0) (\<lambda>booleanity.
     obind (rc_constant 0) (\<lambda>reconstruction.
     obind (side_loop 0 bits booleanity reconstruction) (\<lambda>(booleanity, reconstruction).
     obind (subtract reconstruction target) (\<lambda>reconstruction_diff.
     oret (Inr (booleanity, reconstruction_diff))))))"

record range_check_bits =
  value_bits :: "node_id list"
  difference_bits :: "node_id list"

definition prove_bounded_difference ::
    "node_id \<Rightarrow> node_id \<Rightarrow> range_check_bits \<Rightarrow> ('f::comm_ring_1 builder, policy_error, node_id list) op" where
  "prove_bounded_difference v limit bits =
     obind (emit_side v (value_bits bits)) (\<lambda>(v0, v1).
     obind (subtract limit v) (\<lambda>difference.
     obind (emit_side difference (difference_bits bits)) (\<lambda>(d0, d1).
     oret (Inr [v0, v1, d0, d1]))))"

section \<open>The compiler state\<close>

datatype secret_slot =
    SlotCredential nat
  | SlotAmount
  | SlotAmountBit nat
  | SlotDifferenceBit nat
  | SlotAuxiliary

datatype public_slot =
    SlotCredentialCommitment nat
  | SlotAmountLimit

record 'f compiler =
  cb :: "'f builder"
  secret_slots :: "secret_slot list"
  public_slots :: "public_slot list"
  auxiliary_targets :: "node_id list"
  constraint_outputs :: "node_id list"
  multiplication_count :: nat
  credential_counter :: nat

definition Compiler_new :: "'f compiler" where
  "Compiler_new = \<lparr>cb = Builder_new, secret_slots = [], public_slots = [], auxiliary_targets = [],
     constraint_outputs = [], multiplication_count = 0, credential_counter = 0\<rparr>"

definition on_cb :: "('f builder, policy_error, 'a) op \<Rightarrow> ('f compiler, policy_error, 'a) op" where
  "on_cb m c = (let (r, b) = m (cb c) in (r, c\<lparr>cb := b\<rparr>))"

definition c_constant :: "'f \<Rightarrow> ('f compiler, policy_error, node_id) op" where
  "c_constant v = on_cb (rc_constant v)"

definition c_add_gate :: "node_id \<Rightarrow> node_id \<Rightarrow> ('f compiler, policy_error, node_id) op" where
  "c_add_gate a b = on_cb (rc_add_gate a b)"

definition c_mul_gate :: "node_id \<Rightarrow> node_id \<Rightarrow> ('f compiler, policy_error, node_id) op" where
  "c_mul_gate a b c = on_cb (rc_mul_gate a b) (c\<lparr>multiplication_count := multiplication_count c + 1\<rparr>)"

definition c_sub_gate :: "node_id \<Rightarrow> node_id \<Rightarrow> ('f::comm_ring_1 compiler, policy_error, node_id) op" where
  "c_sub_gate a b =
     obind (c_constant (- 1)) (\<lambda>neg_one.
     obind (c_mul_gate b neg_one) (\<lambda>neg_b.
     c_add_gate a neg_b))"

definition c_secret_input :: "secret_slot \<Rightarrow> ('f compiler, policy_error, node_id) op" where
  "c_secret_input slot c = on_cb (gate b_secret_input) (c\<lparr>secret_slots := secret_slots c @ [slot]\<rparr>)"

definition c_public_input :: "public_slot \<Rightarrow> ('f compiler, policy_error, node_id) op" where
  "c_public_input slot c = on_cb (gate b_public_input) (c\<lparr>public_slots := public_slots c @ [slot]\<rparr>)"

definition auxiliary_input :: "node_id \<Rightarrow> ('f compiler, policy_error, node_id) op" where
  "auxiliary_input target c = on_cb (gate b_secret_input)
     (c\<lparr>secret_slots := secret_slots c @ [SlotAuxiliary], auxiliary_targets := auxiliary_targets c @ [target]\<rparr>)"

definition one_minus :: "node_id \<Rightarrow> ('f::comm_ring_1 compiler, policy_error, node_id) op" where
  "one_minus x =
     obind (c_constant (- 1)) (\<lambda>neg_one.
     obind (c_mul_gate x neg_one) (\<lambda>negated.
     obind (c_constant 1) (\<lambda>one.
     c_add_gate negated one)))"

text \<open>The square-and-multiply chain for \<open>x ^ (p - 1)\<close>: \<open>-1\<close> as an integer is \<open>p - 1\<close>.\<close>

definition to_bits_le :: "nat \<Rightarrow> nat \<Rightarrow> bool list" where
  "to_bits_le width n = map (bit n) [0..<8 * width]"

definition rposition :: "bool list \<Rightarrow> nat option" where
  "rposition bits = (case filter (\<lambda>i. bits ! i) [0..<length bits] of [] \<Rightarrow> None | is \<Rightarrow> Some (last is))"

fun fermat_loop :: "bool list \<Rightarrow> node_id \<Rightarrow> nat list \<Rightarrow> node_id \<Rightarrow> ('f compiler, policy_error, node_id) op" where
  "fermat_loop bits x [] acc = oret (Inr acc)"
| "fermat_loop bits x (index # rest) acc =
     obind (c_mul_gate acc acc) (\<lambda>acc.
     obind (if bits ! index then c_mul_gate acc x else oret (Inr acc)) (\<lambda>acc.
     fermat_loop bits x rest acc))"

definition fermat_nonzero ::
    "('f::comm_ring_1 \<Rightarrow> nat) \<Rightarrow> nat \<Rightarrow> node_id \<Rightarrow> ('f compiler, policy_error, node_id) op" where
  "fermat_nonzero into_bigint width x =
     (let bits = to_bits_le width (into_bigint (- 1)) in
      obind (oret (ok_or PE_CompilationFailure (rposition bits))) (\<lambda>highest.
      fermat_loop bits x (rev [0..<highest]) x))"

section \<open>Emission\<close>

definition emit_credential ::
    "('f::comm_ring_1 \<Rightarrow> nat) \<Rightarrow> nat \<Rightarrow> credential_id \<Rightarrow> ('f compiler, policy_error, node_id) op" where
  "emit_credential into_bigint width cid c =
     (let index = credential_counter c in
      obind (c_secret_input (SlotCredential index)) (\<lambda>secret.
      obind (c_public_input (SlotCredentialCommitment index)) (\<lambda>commitment.
      obind (c_sub_gate secret commitment) (\<lambda>difference.
      obind (fermat_nonzero into_bigint width difference) (\<lambda>nonzero.
      one_minus nonzero))))
      (c\<lparr>credential_counter := credential_counter c + 1\<rparr>))"

fun declare_bits :: "(nat \<Rightarrow> secret_slot) \<Rightarrow> nat list \<Rightarrow> ('f compiler, policy_error, node_id list) op" where
  "declare_bits slot [] = oret (Inr [])"
| "declare_bits slot (index # rest) =
     obind (c_secret_input (slot index)) (\<lambda>b. obind (declare_bits slot rest) (\<lambda>bs. oret (Inr (b # bs))))"

fun amount_product :: "('f::comm_ring_1 \<Rightarrow> nat) \<Rightarrow> nat \<Rightarrow> node_id list \<Rightarrow> node_id \<Rightarrow> ('f compiler, policy_error, node_id) op" where
  "amount_product into_bigint width [] b = oret (Inr b)"
| "amount_product into_bigint width (c # rest) b =
     obind (fermat_nonzero into_bigint width c) (\<lambda>fermat.
     obind (one_minus fermat) (\<lambda>satisfied.
     obind (c_mul_gate b satisfied) (\<lambda>b.
     amount_product into_bigint width rest b)))"

definition emit_amount :: "('f::comm_ring_1 \<Rightarrow> nat) \<Rightarrow> nat \<Rightarrow> u64 \<Rightarrow> ('f compiler, policy_error, node_id) op" where
  "emit_amount into_bigint width limit =
     obind (c_secret_input SlotAmount) (\<lambda>amount.
     obind (c_public_input SlotAmountLimit) (\<lambda>limit_node.
     obind (declare_bits SlotAmountBit [0..<AMOUNT_BIT_LEN]) (\<lambda>vbits.
     obind (declare_bits SlotDifferenceBit [0..<AMOUNT_BIT_LEN]) (\<lambda>dbits.
     obind (on_cb (prove_bounded_difference amount limit_node \<lparr>value_bits = vbits, difference_bits = dbits\<rparr>)) (\<lambda>outputs.
     obind (c_constant 1) (\<lambda>b.
     amount_product into_bigint width outputs b))))))"

definition negate_u64 :: "nat \<Rightarrow> 'f::comm_ring_1" where
  "negate_u64 t = - of_nat t"

fun discriminant_loop :: "node_id \<Rightarrow> nat list \<Rightarrow> node_id option \<Rightarrow> ('f::comm_ring_1 compiler, policy_error, node_id option) op" where
  "discriminant_loop s [] discriminant = oret (Inr discriminant)"
| "discriminant_loop s (t # ts) discriminant =
     obind (c_constant (negate_u64 t)) (\<lambda>offset.
     obind (c_add_gate s offset) (\<lambda>diff.
     obind (case discriminant of None \<Rightarrow> oret (Inr diff) | Some prev \<Rightarrow> c_mul_gate prev diff) (\<lambda>d.
     discriminant_loop s ts (Some d))))"

definition push_constraint :: "node_id \<Rightarrow> ('f compiler, policy_error, unit) op" where
  "push_constraint n c = (Inr (), c\<lparr>constraint_outputs := constraint_outputs c @ [n]\<rparr>)"

definition threshold_tail :: "u16 \<Rightarrow> node_id \<Rightarrow> ('f::comm_ring_1 compiler, policy_error, node_id) op" where
  "threshold_tail k s =
     obind (discriminant_loop s [0..<unat k] None) (\<lambda>d.
     obind (oret (ok_or PE_InvalidThreshold d)) (\<lambda>discriminant.
     obind (auxiliary_input discriminant) (\<lambda>aux.
     obind (c_mul_gate discriminant aux) (\<lambda>w.
     obind (c_constant (- 1)) (\<lambda>neg_one.
     obind (c_mul_gate w neg_one) (\<lambda>negated.
     obind (c_constant 1) (\<lambda>one.
     obind (c_add_gate negated one) (\<lambda>om.
     obind (c_mul_gate w om) (\<lambda>booleanity.
     obind (push_constraint booleanity) (\<lambda>_.
     oret (Inr w)))))))))))"

datatype combinator = CombAnd | CombOr

definition combine_step :: "combinator \<Rightarrow> node_id \<Rightarrow> node_id \<Rightarrow> ('f::comm_ring_1 compiler, policy_error, node_id) op" where
  "combine_step comb prev sub =
     (case comb of
        CombAnd \<Rightarrow> c_mul_gate prev sub
      | CombOr \<Rightarrow>
          obind (c_mul_gate prev sub) (\<lambda>prod.
          obind (c_add_gate prev sub) (\<lambda>summed.
          c_sub_gate summed prod)))"

fun emit_policy :: "('f::comm_ring_1 \<Rightarrow> nat) \<Rightarrow> nat \<Rightarrow> policy \<Rightarrow> ('f compiler, policy_error, node_id) op"
  and combine_loop :: "('f \<Rightarrow> nat) \<Rightarrow> nat \<Rightarrow> combinator \<Rightarrow> policy list \<Rightarrow> node_id option \<Rightarrow> ('f compiler, policy_error, node_id option) op"
  and sum_loop :: "('f \<Rightarrow> nat) \<Rightarrow> nat \<Rightarrow> policy list \<Rightarrow> node_id option \<Rightarrow> ('f compiler, policy_error, node_id option) op" where
  "emit_policy into_bigint width (AmountAtMost limit) = emit_amount into_bigint width limit"
| "emit_policy into_bigint width (Credential cid) = emit_credential into_bigint width cid"
| "emit_policy into_bigint width (Threshold k members) =
     obind (sum_loop into_bigint width members None) (\<lambda>s.
     obind (oret (ok_or PE_EmptyPolicy s)) (\<lambda>s.
     threshold_tail k s))"
| "emit_policy into_bigint width (And members) =
     obind (combine_loop into_bigint width CombAnd members None) (\<lambda>w. oret (ok_or PE_EmptyPolicy w))"
| "emit_policy into_bigint width (Or members) =
     obind (combine_loop into_bigint width CombOr members None) (\<lambda>w. oret (ok_or PE_EmptyPolicy w))"
| "combine_loop into_bigint width comb [] w = oret (Inr w)"
| "combine_loop into_bigint width comb (sub # rest) w =
     obind (emit_policy into_bigint width sub) (\<lambda>sub_wire.
     obind (case w of None \<Rightarrow> oret (Inr sub_wire) | Some prev \<Rightarrow> combine_step comb prev sub_wire) (\<lambda>w'.
     combine_loop into_bigint width comb rest (Some w')))"
| "sum_loop into_bigint width [] s = oret (Inr s)"
| "sum_loop into_bigint width (sub # rest) s =
     obind (emit_policy into_bigint width sub) (\<lambda>sub_wire.
     obind (case s of None \<Rightarrow> oret (Inr sub_wire) | Some prev \<Rightarrow> c_add_gate prev sub_wire) (\<lambda>s'.
     sum_loop into_bigint width rest (Some s')))"

record compilation_metadata =
  md_node_count :: nat
  md_secret_input_count :: nat
  md_public_input_count :: nat
  md_multiplication_count :: nat

record 'f compiled_policy =
  cp_circuit :: "'f circuit"
  cp_secret_slots :: "secret_slot list"
  cp_public_slots :: "public_slot list"
  cp_auxiliary_targets :: "node_id list"
  cp_range_check_outputs :: nat
  cp_metadata :: compilation_metadata

fun publish_outputs :: "node_id list \<Rightarrow> ('f builder, circuit_error, unit) op" where
  "publish_outputs [] = oret (Inr ())"
| "publish_outputs (n # rest) = obind (b_output n) (\<lambda>_. publish_outputs rest)"

definition finish :: "'f compiler \<Rightarrow> node_id \<Rightarrow> (policy_error, 'f compiled_policy) result" where
  "finish c root =
     (case obind (publish_outputs (constraint_outputs c)) (\<lambda>_. b_output root) (cb c) of
        (Inl e, _) \<Rightarrow> Inl PE_CircuitValidationFailure
      | (Inr _, b) \<Rightarrow>
          rbind (map_err (\<lambda>_. PE_CircuitValidationFailure) (build b)) (\<lambda>circuit.
          Inr \<lparr>cp_circuit = circuit, cp_secret_slots = secret_slots c, cp_public_slots = public_slots c,
            cp_auxiliary_targets = auxiliary_targets c,
            cp_range_check_outputs = length (constraint_outputs c),
            cp_metadata = \<lparr>md_node_count = length (c_nodes circuit), md_secret_input_count = c_num_secret circuit,
              md_public_input_count = c_num_public circuit, md_multiplication_count = multiplication_count c\<rparr>\<rparr>))"

definition compile_with_layout ::
    "('f::comm_ring_1 \<Rightarrow> nat) \<Rightarrow> nat \<Rightarrow> policy \<Rightarrow> (policy_error, 'f compiled_policy) result" where
  "compile_with_layout into_bigint width p =
     rbind (policy_normalize p) (\<lambda>normalized.
     rbind (policy_validate normalized) (\<lambda>_.
     case emit_policy into_bigint width normalized Compiler_new of
       (Inl e, _) \<Rightarrow> Inl e
     | (Inr root, c) \<Rightarrow> finish c root))"

definition compile :: "('f::comm_ring_1 \<Rightarrow> nat) \<Rightarrow> nat \<Rightarrow> policy \<Rightarrow> (policy_error, 'f circuit) result" where
  "compile into_bigint width p = rbind (compile_with_layout into_bigint width p) (\<lambda>cp. Inr (cp_circuit cp))"

section \<open>Inputs from a witness\<close>

definition digest_to_field :: "bytes \<Rightarrow> 'f::comm_ring_1" where
  "digest_to_field bs = of_nat (le_value bs)"

definition decompose :: "u64 \<Rightarrow> bool list" where
  "decompose v = map (\<lambda>index. and (drop_bit index v) 1 = 1) [0..<AMOUNT_BIT_LEN]"

fun fill :: "(bytes \<Rightarrow> bytes) \<Rightarrow> policy_witness \<Rightarrow> policy \<Rightarrow> 'f::comm_ring_1 list \<times> 'f list \<times> nat list \<Rightarrow>
      (policy_error, 'f list \<times> 'f list \<times> nat list) result"
  and fill_members :: "(bytes \<Rightarrow> bytes) \<Rightarrow> policy_witness \<Rightarrow> policy list \<Rightarrow> 'f::comm_ring_1 list \<times> 'f list \<times> nat list \<Rightarrow>
      (policy_error, 'f list \<times> 'f list \<times> nat list) result" where
  "fill sha256 w (Credential cid) (secrets, publics, aux) =
     rbind (ok_or PE_WitnessMismatch (secret_for w cid)) (\<lambda>secret.
     Inr (secrets @ [digest_to_field (digest_bytes (credential_commitment sha256 secret))],
          publics @ [digest_to_field cid], aux))"
| "fill sha256 w (AmountAtMost limit) (secrets, publics, aux) =
     (let amount = (case w_amount w of Some a \<Rightarrow> a | None \<Rightarrow> 0);
          bits = decompose amount @ decompose (limit - amount)
      in Inr (secrets @ [of_nat (unat amount)] @ map of_bool bits, publics @ [of_nat (unat limit)], aux))"
| "fill sha256 w (Threshold k members) st =
     rbind (fill_members sha256 w members st) (\<lambda>(secrets, publics, aux).
     Inr (secrets @ [0], publics, aux @ [length secrets]))"
| "fill sha256 w (And members) st = fill_members sha256 w members st"
| "fill sha256 w (Or members) st = fill_members sha256 w members st"
| "fill_members sha256 w [] st = Inr st"
| "fill_members sha256 w (m # rest) st = rbind (fill sha256 w m st) (\<lambda>st'. fill_members sha256 w rest st')"

definition eval_all_nodes :: "'f::comm_ring_1 circuit \<Rightarrow> 'f list \<Rightarrow> 'f list \<Rightarrow> (policy_error, 'f list) result" where
  "eval_all_nodes c secrets publics =
     (if length secrets \<noteq> c_num_secret c \<or> length publics \<noteq> c_num_public c
      then Inl PE_CircuitValidationFailure
      else map_err (\<lambda>_. PE_Panic) (eval_nodes secrets publics (c_nodes c) 0 0 []))"

text \<open>One pass over the auxiliary inputs, with the node values of the start of the pass.\<close>

fun aux_pass :: "('f::comm_ring_1 \<Rightarrow> 'f option) \<Rightarrow> 'f list \<Rightarrow> (nat \<times> node_id) list \<Rightarrow> 'f list \<Rightarrow> bool \<Rightarrow>
    (policy_error, 'f list \<times> bool) result" where
  "aux_pass inverse_op vals [] secrets changed = Inr (secrets, changed)"
| "aux_pass inverse_op vals ((position, target) # rest) secrets changed =
     (if as_usize target < length vals \<and> position < length secrets
      then let desired = (case inverse_op (vals ! as_usize target) of Some d \<Rightarrow> d | None \<Rightarrow> 0) in
        if secrets ! position \<noteq> desired
        then aux_pass inverse_op vals rest (secrets[position := desired]) True
        else aux_pass inverse_op vals rest secrets changed
      else Inl PE_Panic)"

text \<open>The \<open>for\<close> loop with its \<open>break\<close>: the first argument counts the rounds left.\<close>

fun solve_loop :: "('f::comm_ring_1 \<Rightarrow> 'f option) \<Rightarrow> 'f circuit \<Rightarrow> 'f list \<Rightarrow> (nat \<times> node_id) list \<Rightarrow> nat \<Rightarrow> 'f list \<Rightarrow>
    (policy_error, 'f list) result" where
  "solve_loop inverse_op c publics auxs 0 secrets = Inr secrets"
| "solve_loop inverse_op c publics auxs (Suc n) secrets =
     rbind (map_err (\<lambda>e. if e = PE_Panic then e else PE_CircuitValidationFailure) (eval_all_nodes c secrets publics)) (\<lambda>vals.
     rbind (aux_pass inverse_op vals auxs secrets False) (\<lambda>(secrets', changed).
     if changed then solve_loop inverse_op c publics auxs n secrets' else Inr secrets'))"

definition build_inputs ::
    "(bytes \<Rightarrow> bytes) \<Rightarrow> ('f::comm_ring_1 \<Rightarrow> 'f option) \<Rightarrow> 'f compiled_policy \<Rightarrow> policy \<Rightarrow> policy_witness \<Rightarrow>
     (policy_error, 'f list \<times> 'f list) result" where
  "build_inputs sha256 inverse_op cp p w =
     rbind (policy_normalize p) (\<lambda>normalized.
     rbind (fill sha256 w normalized ([], [], [])) (\<lambda>(secrets, publics, aux_positions).
     rbind (solve_loop inverse_op (cp_circuit cp) publics (zip aux_positions (cp_auxiliary_targets cp))
              (Suc (length (cp_auxiliary_targets cp))) secrets) (\<lambda>secrets'.
     Inr (secrets', publics))))"

fun constraints_zero :: "'f::comm_ring_1 list \<Rightarrow> node_id list \<Rightarrow> (policy_error, bool) result" where
  "constraints_zero vals [] = Inr True"
| "constraints_zero vals (n # rest) =
     (if as_usize n < length vals
      then if vals ! as_usize n \<noteq> 0 then Inr False else constraints_zero vals rest
      else Inl PE_Panic)"

definition reference_evaluate ::
    "(bytes \<Rightarrow> bytes) \<Rightarrow> ('f::comm_ring_1 \<Rightarrow> 'f option) \<Rightarrow> 'f compiled_policy \<Rightarrow> policy \<Rightarrow> policy_witness \<Rightarrow>
     (policy_error, bool) result" where
  "reference_evaluate sha256 inverse_op cp p w =
     rbind (build_inputs sha256 inverse_op cp p w) (\<lambda>(secrets, publics).
     rbind (map_err (\<lambda>e. if e = PE_Panic then e else PE_CircuitValidationFailure)
       (eval_all_nodes (cp_circuit cp) secrets publics)) (\<lambda>vals.
     let outputs = c_outputs (cp_circuit cp) in
     rbind (constraints_zero vals (take (cp_range_check_outputs cp) outputs)) (\<lambda>ok.
     if \<not> ok then Inr False
     else if outputs = [] then Inl PE_CircuitValidationFailure
     else if as_usize (last outputs) < length vals then Inr (vals ! as_usize (last outputs) = 1)
     else Inl PE_Panic)))"

end
