(* ===== verification/Compiler_Steps.thy ===== *)
theory Compiler_Steps
  imports Policy_Compiler
begin

text \<open>
  Program logic for the policy compiler. The node values of a growing circuit are its \<open>trace\<close> for
  fixed inputs; \<open>wire\<close> says that a node id has a value. \<open>bstep\<close> (builder) and \<open>cstep\<close>
  (compiler) are total-correctness triples: given room for the nodes, the operation succeeds, extends
  the circuit by a bounded number of nodes, and its result satisfies a postcondition. The gadgets are
  verified with the rules for sequencing.
\<close>

section \<open>Wires\<close>

definition wire :: "'f::comm_ring_1 list \<Rightarrow> 'f list \<Rightarrow> 'f builder \<Rightarrow> node_id \<Rightarrow> 'f \<Rightarrow> bool" where
  "wire sec pub b i v \<longleftrightarrow> as_usize i < length (b_nodes b) \<and> trace sec pub (b_nodes b) ! as_usize i = v"

definition room :: "'f builder \<Rightarrow> nat \<Rightarrow> bool" where
  "room b n \<longleftrightarrow> builder_inv b \<and> length (b_nodes b) + n \<le> 2 ^ 32"

definition bext :: "nat \<Rightarrow> 'f builder \<Rightarrow> 'f builder \<Rightarrow> bool" where
  "bext n b b' \<longleftrightarrow> builder_inv b' \<and> b_outputs b' = b_outputs b \<and>
     (\<exists>ms. b_nodes b' = b_nodes b @ ms \<and> length ms \<le> n \<and> secret_leaves ms = 0 \<and> public_leaves ms = 0)"

definition bstep :: "nat \<Rightarrow> ('f builder, policy_error, 'a) op \<Rightarrow> ('a \<Rightarrow> 'f builder \<Rightarrow> bool) \<Rightarrow> 'f builder \<Rightarrow> bool" where
  "bstep n m P b \<longleftrightarrow> (room b n \<longrightarrow> (\<exists>x b'. m b = (Inr x, b') \<and> bext n b b' \<and> P x b'))"

lemma bext_refl: "builder_inv b \<Longrightarrow> bext n b b"
  by (auto simp: bext_def)

lemma bext_trans: "bext n b b' \<Longrightarrow> bext m b' b'' \<Longrightarrow> bext (n + m) b b''"
  by (force simp: bext_def)

lemma bext_mono: "bext n b b' \<Longrightarrow> n \<le> m \<Longrightarrow> bext m b b'"
  by (auto simp: bext_def)

lemma wire_append: "wire sec pub b i v \<Longrightarrow> b_nodes b' = b_nodes b @ ms \<Longrightarrow> wire sec pub b' i v"
  by (simp add: wire_def trace_append_nth)

lemma wire_bext: "bext n b b' \<Longrightarrow> wire sec pub b i v \<Longrightarrow> wire sec pub b' i v"
  by (auto simp: bext_def intro: wire_append)

lemma room_bext: "room b n \<Longrightarrow> bext k b b' \<Longrightarrow> k + m \<le> n \<Longrightarrow> room b' m"
  by (auto simp: bext_def room_def)

lemma room_mono: "room b n \<Longrightarrow> m \<le> n \<Longrightarrow> room b m"
  by (simp add: room_def)

lemma bstep_bind:
  assumes m: "bstep n m P b" and f: "\<And>x b'. bext n b b' \<Longrightarrow> P x b' \<Longrightarrow> bstep k (f x) Q b'"
  shows "bstep (n + k) (obind m f) Q b"
  unfolding bstep_def
proof
  assume r: "room b (n + k)"
  obtain x b' where m': "m b = (Inr x, b')" "bext n b b'" "P x b'"
    using m room_mono [OF r, of n] by (auto simp: bstep_def)
  from f [OF m'(2,3)] room_bext [OF r m'(2), of k] obtain y b'' where f': "f x b' = (Inr y, b'')" "bext k b' b''" "Q y b''"
    by (auto simp: bstep_def)
  then have "obind m f b = (Inr y, b'')" using m'(1) by simp
  then show "\<exists>x b'. obind m f b = (Inr x, b') \<and> bext (n + k) b b' \<and> Q x b'"
    using bext_trans [OF m'(2) f'(2)] f'(3) by blast
qed

lemma bstep_weaken:
  "bstep n m P b \<Longrightarrow> n \<le> n' \<Longrightarrow> (\<And>x b'. bext n b b' \<Longrightarrow> P x b' \<Longrightarrow> Q x b') \<Longrightarrow> bstep n' m Q b"
  unfolding bstep_def using bext_mono room_mono by blast

lemma bstep_oret: "P x b \<Longrightarrow> bstep 0 (oret (Inr x)) P b"
  by (auto simp: bstep_def room_def intro: bext_refl)

lemma bstep_Pair: "P x b \<Longrightarrow> bstep 0 (Pair (Inr x)) P b"
  by (auto simp: bstep_def room_def intro: bext_refl)

text \<open>One new node that is no input.\<close>

lemma push_step:
  assumes "node_wf (length (b_nodes b)) n" "secret_leaves [n] = 0" "public_leaves [n] = 0"
    and "node_value sec pub (secret_leaves (b_nodes b)) (public_leaves (b_nodes b)) (trace sec pub (b_nodes b)) n = v"
    and "\<And>i b'. push n b = (Inr i, b') \<Longrightarrow> m b = (Inr i, b')"
  shows "bstep 1 m (\<lambda>i b'. wire sec pub b' i v) b"
  unfolding bstep_def
proof
  assume r: "room b 1"
  let ?b = "b\<lparr>b_nodes := b_nodes b @ [n]\<rparr>"
  have len: "length (b_nodes b) < 2 ^ 32" and inv: "builder_inv b" using r by (simp_all add: room_def)
  have "builder_inv ?b" using inv assms(1-3) len by (auto simp: builder_inv_def less_SucI)
  then have "bext 1 b ?b" using assms(2,3) by (auto simp: bext_def)
  moreover have "wire sec pub ?b (of_nat (length (b_nodes b))) v"
    using len assms(4) by (simp add: wire_def as_usize_new trace_snoc nth_append)
  moreover have "m b = (Inr (of_nat (length (b_nodes b))), ?b)" using len assms(5) by (simp add: push_Inr)
  ultimately show "\<exists>i b'. m b = (Inr i, b') \<and> bext 1 b b' \<and> wire sec pub b' i v" by blast
qed

lemma gate_ok: "m b = (Inr x, b') \<Longrightarrow> gate m b = (Inr x, b')"
  by (simp add: gate_def)

lemma rc_constant_step: "bstep 1 (rc_constant v) (\<lambda>i b'. wire sec pub b' i v) b"
  by (rule push_step [where n = "Constant v"]) (simp_all add: rc_constant_def b_constant_def gate_ok)

lemma rc_add_gate_step:
  "wire sec pub b x u \<Longrightarrow> wire sec pub b y v \<Longrightarrow> bstep 1 (rc_add_gate x y) (\<lambda>i b'. wire sec pub b' i (u + v)) b"
  by (rule push_step [where n = "Add x y"]) (auto simp: wire_def rc_add_gate_def b_add_Inr intro!: gate_ok)

lemma rc_mul_gate_step:
  "wire sec pub b x u \<Longrightarrow> wire sec pub b y v \<Longrightarrow> bstep 1 (rc_mul_gate x y) (\<lambda>i b'. wire sec pub b' i (u * v)) b"
  by (rule push_step [where n = "Mul x y"]) (auto simp: wire_def rc_mul_gate_def b_mul_Inr intro!: gate_ok)

lemma mul_by_constant_step:
  "wire sec pub b x u \<Longrightarrow> bstep (1 + 1) (mul_by_constant x c) (\<lambda>i b'. wire sec pub b' i (u * c)) b"
  unfolding mul_by_constant_def
  by (rule bstep_bind, rule rc_constant_step, rule rc_mul_gate_step, rule wire_bext)

lemma add_constant_step:
  "wire sec pub b x u \<Longrightarrow> bstep (1 + 1) (add_constant x c) (\<lambda>i b'. wire sec pub b' i (u + c)) b"
  unfolding add_constant_def
  by (rule bstep_bind, rule rc_constant_step, rule rc_add_gate_step, rule wire_bext)

lemma subtract_step:
  assumes "wire sec pub b x u" "wire sec pub b y v"
  shows "bstep (1 + 1 + 1) (subtract x y) (\<lambda>i b'. wire sec pub b' i (u - v)) b"
proof -
  have "bstep (1 + 1 + 1) (subtract x y) (\<lambda>i b'. wire sec pub b' i (u + v * (- 1))) b"
    unfolding subtract_def using assms
    by (intro bstep_bind [OF mul_by_constant_step] rc_add_gate_step) (auto intro: wire_bext)
  then show ?thesis by simp
qed

section \<open>The range check\<close>

definition side_booleanity :: "'f::comm_ring_1 list \<Rightarrow> 'f" where
  "side_booleanity bs = sum_list (map (\<lambda>b. b * (1 - b)) bs)"

definition side_reconstruction :: "nat \<Rightarrow> 'f::comm_ring_1 list \<Rightarrow> 'f" where
  "side_reconstruction k bs = (\<Sum>i<length bs. bs ! i * 2 ^ (k + i))"

lemma side_reconstruction_Cons:
  "side_reconstruction k (b # bs) = b * 2 ^ k + side_reconstruction (Suc k) bs"
  by (simp add: side_reconstruction_def sum.lessThan_Suc_shift del: sum.lessThan_Suc)

lemma checked_shl_1_eq:
  assumes "k < 64"
  obtains wt where "checked_shl_1 k = Some wt" "(of_nat (unat wt) :: 'f::comm_ring_1) = 2 ^ k"
proof -
  have "(2 :: nat) ^ k < 2 ^ 64" using assms by (rule power_strict_increasing) simp
  then have "unat (push_bit k 1 :: u64) = 2 ^ k" using assms
    by (simp only: unsigned_push_bit_eq unsigned_1) (simp add: take_bit_nat_eq_self)
  then have "(of_nat (unat (push_bit k 1 :: u64)) :: 'f) = 2 ^ k"
    by (simp only: of_nat_power of_nat_numeral)
  moreover have "checked_shl_1 k = Some (push_bit k 1)" using assms by (simp add: checked_shl_1_def)
  ultimately show thesis using that by blast
qed

text \<open>One round of the loop.\<close>

lemma side_round_step:
  assumes k: "k < 64" and w: "wire sec pub b bt v" "wire sec pub b bo x" "wire sec pub b re y"
    and cont: "\<And>bo' re' b'. bext 9 b b' \<Longrightarrow> wire sec pub b' bo' (x + v * (v * (- 1) + 1)) \<Longrightarrow>
      wire sec pub b' re' (y + v * 2 ^ k) \<Longrightarrow> bstep n (side_loop (Suc k) bits bo' re') Q b'"
  shows "bstep (9 + n) (side_loop k (bt # bits) bo re) Q b"
proof -
  obtain wt where wt: "checked_shl_1 k = Some wt" "(of_nat (unat wt) :: 'a) = 2 ^ k"
    using checked_shl_1_eq [OF k] by blast
  have "bstep (1 + 1 + (1 + 1 + (1 + (1 + (1 + 1 + (1 + n)))))) (side_loop k (bt # bits) bo re) Q b"
    unfolding side_loop.simps(2) multiply_by_def wt ok_or_simps obind_oret
    apply (rule bstep_bind, rule mul_by_constant_step, rule w(1))
    apply (rule bstep_bind, rule add_constant_step, assumption)
    apply (rule bstep_bind, rule rc_mul_gate_step, (blast intro: w wire_bext)+)
    apply (rule bstep_bind, rule rc_add_gate_step, (blast intro: w wire_bext)+)
    apply (rule bstep_bind, rule mul_by_constant_step, blast intro: w wire_bext)
    apply (rule bstep_bind, rule rc_add_gate_step, (blast intro: w wire_bext)+)
    apply (rule cont)
      apply (rule bext_mono, blast intro: bext_trans, simp)
     apply (blast intro: wire_bext)
    apply assumption
    done
  then show ?thesis by (simp add: eval_nat_numeral)
qed

lemma wires_bext: "bext n b b' \<Longrightarrow> list_all2 (wire sec pub b) is vs \<Longrightarrow> list_all2 (wire sec pub b') is vs"
  using wire_bext by (fastforce intro: list_all2_mono)

lemma side_loop_step:
  assumes "k + length bits \<le> 64" "list_all2 (wire sec pub b) bits vs"
    and "wire sec pub b bo x" "wire sec pub b re y"
  shows "bstep (9 * length bits) (side_loop k bits bo re)
    (\<lambda>(i, j) b'. wire sec pub b' i (x + side_booleanity vs) \<and> wire sec pub b' j (y + side_reconstruction k vs)) b"
  using assms
proof (induction bits arbitrary: k vs b bo re x y)
  case Nil
  then show ?case by (auto simp: side_booleanity_def side_reconstruction_def intro!: bstep_Pair)
next
  case (Cons bt bits)
  then obtain v vs' where vs: "vs = v # vs'" "wire sec pub b bt v" "list_all2 (wire sec pub b) bits vs'"
    by (auto simp: list_all2_Cons1)
  have eq: "x + side_booleanity vs = x + v * (v * (- 1) + 1) + side_booleanity vs'"
    "y + side_reconstruction k vs = y + v * 2 ^ k + side_reconstruction (Suc k) vs'"
    by (simp_all add: vs side_booleanity_def side_reconstruction_Cons algebra_simps)
  have "bstep (9 + 9 * length bits) (side_loop k (bt # bits) bo re)
    (\<lambda>(i, j) b'. wire sec pub b' i (x + side_booleanity vs) \<and> wire sec pub b' j (y + side_reconstruction k vs)) b"
    unfolding eq
  proof (rule side_round_step [OF _ vs(2) Cons.prems(3,4)])
    show "k < 64" using Cons.prems(1) by simp
    fix bo' re' b'
    assume "bext 9 b b'" "wire sec pub b' bo' (x + v * (v * (- 1) + 1))" "wire sec pub b' re' (y + v * 2 ^ k)"
    then show "bstep (9 * length bits) (side_loop (Suc k) bits bo' re')
      (\<lambda>(i, j) b'. wire sec pub b' i (x + v * (v * (- 1) + 1) + side_booleanity vs') \<and>
         wire sec pub b' j (y + v * 2 ^ k + side_reconstruction (Suc k) vs')) b'"
      using Cons.prems(1) vs(3) by (intro Cons.IH) (auto intro: wires_bext)
  qed
  then show ?case by simp
qed

lemma emit_side_step:
  assumes "length bits = 64" "list_all2 (wire sec pub b) bits vs" "wire sec pub b target t"
  shows "bstep 581 (emit_side target bits) (\<lambda>(i, j) b'.
    wire sec pub b' i (side_booleanity vs) \<and> wire sec pub b' j (side_reconstruction 0 vs - t)) b"
proof -
  have "bstep (1 + (1 + (9 * length bits + (1 + 1 + 1 + 0)))) (emit_side target bits) (\<lambda>(i, j) b'.
      wire sec pub b' i (0 + side_booleanity vs) \<and> wire sec pub b' j (0 + side_reconstruction 0 vs - t)) b"
    unfolding emit_side_def
    apply (rule bstep_bind, rule rc_constant_step)
    apply (rule bstep_bind, rule rc_constant_step)
    apply (rule bstep_bind, rule side_loop_step [where vs = vs])
        apply (simp add: assms(1))
       apply (blast intro: wires_bext assms(2))
      apply (blast intro: wire_bext)
     apply assumption
    apply (clarsimp simp only: prod.case split: prod.splits)
    apply (rule bstep_bind, rule subtract_step, assumption, blast intro: wire_bext assms(3))
    apply (rule bstep_oret)
    apply (auto intro: wire_bext)
    done
  then show ?thesis using assms(1) by simp
qed

lemma prove_bounded_difference_step:
  assumes "length vbits = 64" "length dbits = 64"
    and "list_all2 (wire sec pub b) vbits vs" "list_all2 (wire sec pub b) dbits ds"
    and "wire sec pub b n v" "wire sec pub b limit l"
  shows "bstep 1165 (prove_bounded_difference n limit \<lparr>value_bits = vbits, difference_bits = dbits\<rparr>)
    (\<lambda>outs b'. list_all2 (wire sec pub b') outs
       [side_booleanity vs, side_reconstruction 0 vs - v, side_booleanity ds, side_reconstruction 0 ds - (l - v)]) b"
proof -
  have "bstep (581 + (1 + 1 + 1 + (581 + 0))) (prove_bounded_difference n limit \<lparr>value_bits = vbits, difference_bits = dbits\<rparr>)
    (\<lambda>outs b'. list_all2 (wire sec pub b') outs
       [side_booleanity vs, side_reconstruction 0 vs - v, side_booleanity ds, side_reconstruction 0 ds - (l - v)]) b"
    unfolding prove_bounded_difference_def range_check_bits.simps
    apply (rule bstep_bind, rule emit_side_step [OF assms(1,3,5)])
    apply (clarsimp simp only: prod.case split: prod.splits)
    apply (rule bstep_bind, rule subtract_step, blast intro: wire_bext assms, blast intro: wire_bext assms)
    apply (rule bstep_bind, rule emit_side_step [OF assms(2)], blast intro: wires_bext assms, assumption)
    apply (clarsimp simp only: prod.case split: prod.splits)
    apply (rule bstep_oret)
    apply (auto intro: wire_bext)
    done
  then show ?thesis by simp
qed

end
