(* ===== verification/Compiler_Correct.thy ===== *)
theory Compiler_Correct
  imports Compiler_Steps
begin

text \<open>
  Correctness of the policy compiler. The denotation of a policy gives, for arbitrary inputs, the
  value of its wire, the values of the published constraints and the values of the discriminants the
  auxiliary inputs invert. \<open>emit_policy\<close> refines it: it succeeds within a node budget and its
  wires carry the denoted values. The properties: compilation of a valid policy never fails and the
  circuit evaluates to the denotation on all inputs, and the range check of the amount leaf can be
  met with digits that are not boolean.
\<close>

section \<open>Layout and denotation\<close>

text \<open>The number of secret and public inputs a policy takes, and the positions of its auxiliary
  inputs among the secret ones when its first secret input is number \<open>i\<close>.\<close>

fun sec_count :: "policy \<Rightarrow> nat" where
  "sec_count (AmountAtMost _) = 129"
| "sec_count (Credential _) = 1"
| "sec_count (Threshold _ ms) = sum_list (map sec_count ms) + 1"
| "sec_count (And ms) = sum_list (map sec_count ms)"
| "sec_count (Or ms) = sum_list (map sec_count ms)"

fun pub_count :: "policy \<Rightarrow> nat" where
  "pub_count (AmountAtMost _) = 1"
| "pub_count (Credential _) = 1"
| "pub_count (Threshold _ ms) = sum_list (map pub_count ms)"
| "pub_count (And ms) = sum_list (map pub_count ms)"
| "pub_count (Or ms) = sum_list (map pub_count ms)"

abbreviation secs :: "policy list \<Rightarrow> nat" where "secs ms \<equiv> sum_list (map sec_count ms)"
abbreviation pubs :: "policy list \<Rightarrow> nat" where "pubs ms \<equiv> sum_list (map pub_count ms)"

fun aux_pos :: "nat \<Rightarrow> policy \<Rightarrow> nat list" and aux_poss :: "nat \<Rightarrow> policy list \<Rightarrow> nat list" where
  "aux_pos i (AmountAtMost _) = []"
| "aux_pos i (Credential _) = []"
| "aux_pos i (Threshold _ ms) = aux_poss i ms @ [i + secs ms]"
| "aux_pos i (And ms) = aux_poss i ms"
| "aux_pos i (Or ms) = aux_poss i ms"
| "aux_poss i [] = []"
| "aux_poss i (m # ms) = aux_pos i m @ aux_poss (i + sec_count m) ms"

text \<open>The four equations of the range check.\<close>

definition range_ok :: "'f::comm_ring_1 \<Rightarrow> 'f \<Rightarrow> 'f list \<Rightarrow> 'f list \<Rightarrow> bool" where
  "range_ok v l vs ds \<longleftrightarrow> side_booleanity vs = 0 \<and> side_reconstruction 0 vs = v \<and>
     side_booleanity ds = 0 \<and> side_reconstruction 0 ds = l - v"

definition segment :: "'f list \<Rightarrow> nat \<Rightarrow> nat \<Rightarrow> 'f list" where
  "segment xs i n = map (\<lambda>t. xs ! (i + t)) [0..<n]"

definition discr :: "nat \<Rightarrow> 'f::comm_ring_1 \<Rightarrow> 'f" where
  "discr k s = prod_list (map (\<lambda>t. s - of_nat t) [0..<k])"

fun dval :: "'f::comm_ring_1 list \<Rightarrow> 'f list \<Rightarrow> nat \<Rightarrow> nat \<Rightarrow> policy \<Rightarrow> 'f"
  and dvals :: "'f list \<Rightarrow> 'f list \<Rightarrow> nat \<Rightarrow> nat \<Rightarrow> policy list \<Rightarrow> 'f list" where
  "dval sec pub i j (AmountAtMost l) =
     of_bool (range_ok (sec ! i) (pub ! j) (segment sec (i + 1) 64) (segment sec (i + 65) 64))"
| "dval sec pub i j (Credential c) = of_bool (sec ! i = pub ! j)"
| "dval sec pub i j (Threshold k ms) = discr (unat k) (sum_list (dvals sec pub i j ms)) * sec ! (i + secs ms)"
| "dval sec pub i j (And ms) = prod_list (dvals sec pub i j ms)"
| "dval sec pub i j (Or ms) = 1 - prod_list (map (\<lambda>v. 1 - v) (dvals sec pub i j ms))"
| "dvals sec pub i j [] = []"
| "dvals sec pub i j (m # ms) = dval sec pub i j m # dvals sec pub (i + sec_count m) (j + pub_count m) ms"

text \<open>The discriminants and the published constraints, in the order the compiler emits them.\<close>

fun daux :: "'f::comm_ring_1 list \<Rightarrow> 'f list \<Rightarrow> nat \<Rightarrow> nat \<Rightarrow> policy \<Rightarrow> 'f list"
  and dauxs :: "'f list \<Rightarrow> 'f list \<Rightarrow> nat \<Rightarrow> nat \<Rightarrow> policy list \<Rightarrow> 'f list" where
  "daux sec pub i j (AmountAtMost l) = []"
| "daux sec pub i j (Credential c) = []"
| "daux sec pub i j (Threshold k ms) =
     dauxs sec pub i j ms @ [discr (unat k) (sum_list (dvals sec pub i j ms))]"
| "daux sec pub i j (And ms) = dauxs sec pub i j ms"
| "daux sec pub i j (Or ms) = dauxs sec pub i j ms"
| "dauxs sec pub i j [] = []"
| "dauxs sec pub i j (m # ms) = daux sec pub i j m @ dauxs sec pub (i + sec_count m) (j + pub_count m) ms"

fun dcons :: "'f::comm_ring_1 list \<Rightarrow> 'f list \<Rightarrow> nat \<Rightarrow> nat \<Rightarrow> policy \<Rightarrow> 'f list"
  and dconss :: "'f list \<Rightarrow> 'f list \<Rightarrow> nat \<Rightarrow> nat \<Rightarrow> policy list \<Rightarrow> 'f list" where
  "dcons sec pub i j (AmountAtMost l) = []"
| "dcons sec pub i j (Credential c) = []"
| "dcons sec pub i j (Threshold k ms) =
     dconss sec pub i j ms @ [let w = dval sec pub i j (Threshold k ms) in w * (1 - w)]"
| "dcons sec pub i j (And ms) = dconss sec pub i j ms"
| "dcons sec pub i j (Or ms) = dconss sec pub i j ms"
| "dconss sec pub i j [] = []"
| "dconss sec pub i j (m # ms) = dcons sec pub i j m @ dconss sec pub (i + sec_count m) (j + pub_count m) ms"

section \<open>Triples for the compiler\<close>

text \<open>What a compiler state stands for: the inputs declared so far, and the values of the constraint
  wires and of the auxiliary targets.\<close>

type_synonym 'f cstate = "nat \<times> nat \<times> 'f list \<times> 'f list"

definition denotes :: "'f::comm_ring_1 list \<Rightarrow> 'f list \<Rightarrow> 'f compiler \<Rightarrow> 'f cstate \<Rightarrow> bool" where
  "denotes sec pub c st \<longleftrightarrow> (case st of (i, j, cs, xs) \<Rightarrow>
     builder_inv (cb c) \<and> b_outputs (cb c) = [] \<and>
     secret_leaves (b_nodes (cb c)) = i \<and> public_leaves (b_nodes (cb c)) = j \<and>
     list_all2 (wire sec pub (cb c)) (constraint_outputs c) cs \<and>
     list_all2 (wire sec pub (cb c)) (auxiliary_targets c) xs)"

definition cext :: "nat \<Rightarrow> 'f compiler \<Rightarrow> 'f compiler \<Rightarrow> bool" where
  "cext n c c' \<longleftrightarrow> (\<exists>ms. b_nodes (cb c') = b_nodes (cb c) @ ms \<and> length ms \<le> n)"

definition cstep :: "'f::comm_ring_1 list \<Rightarrow> 'f list \<Rightarrow> nat \<Rightarrow> 'f cstate \<Rightarrow> ('f compiler, policy_error, 'a) op \<Rightarrow>
    'f cstate \<Rightarrow> ('a \<Rightarrow> 'f compiler \<Rightarrow> bool) \<Rightarrow> 'f compiler \<Rightarrow> bool" where
  "cstep sec pub n st m st' P c \<longleftrightarrow> (denotes sec pub c st \<longrightarrow> length (b_nodes (cb c)) + n \<le> 2 ^ 32 \<longrightarrow>
     (\<exists>x c'. m c = (Inr x, c') \<and> cext n c c' \<and> denotes sec pub c' st' \<and> P x c'))"

abbreviation cwire :: "'f::comm_ring_1 list \<Rightarrow> 'f list \<Rightarrow> 'f compiler \<Rightarrow> node_id \<Rightarrow> 'f \<Rightarrow> bool" where
  "cwire sec pub c \<equiv> wire sec pub (cb c)"

lemma wire_cext: "cext n c c' \<Longrightarrow> cwire sec pub c i v \<Longrightarrow> cwire sec pub c' i v"
  by (auto simp: cext_def intro: wire_append)

lemma wires_cext: "cext n c c' \<Longrightarrow> list_all2 (cwire sec pub c) is vs \<Longrightarrow> list_all2 (cwire sec pub c') is vs"
  using wire_cext by (fastforce intro: list_all2_mono)

lemma cext_trans: "cext n c c' \<Longrightarrow> cext m c' c'' \<Longrightarrow> cext (n + m) c c''"
  by (force simp: cext_def)

lemma cext_mono: "cext n c c' \<Longrightarrow> n \<le> m \<Longrightarrow> cext m c c'"
  by (auto simp: cext_def)

lemma cstep_bind:
  assumes m: "cstep sec pub n st m st1 P c"
    and f: "\<And>x c'. cext n c c' \<Longrightarrow> P x c' \<Longrightarrow> cstep sec pub k st1 (f x) st2 Q c'"
  shows "cstep sec pub (n + k) st (obind m f) st2 Q c"
  unfolding cstep_def
proof (intro impI)
  assume d: "denotes sec pub c st" and r: "length (b_nodes (cb c)) + (n + k) \<le> 2 ^ 32"
  obtain x c' where m': "m c = (Inr x, c')" "cext n c c'" "denotes sec pub c' st1" "P x c'"
    using m d r by (auto simp: cstep_def)
  have "length (b_nodes (cb c')) + k \<le> 2 ^ 32" using m'(2) r by (auto simp: cext_def)
  then obtain y c'' where f': "f x c' = (Inr y, c'')" "cext k c' c''" "denotes sec pub c'' st2" "Q y c''"
    using f [OF m'(2,4)] m'(3) by (auto simp: cstep_def)
  then show "\<exists>x c'. obind m f c = (Inr x, c') \<and> cext (n + k) c c' \<and> denotes sec pub c' st2 \<and> Q x c'"
    using m'(1) cext_trans [OF m'(2) f'(2)] by auto
qed

lemma cstep_weaken:
  "cstep sec pub n st m st' P c \<Longrightarrow> n \<le> n' \<Longrightarrow> (\<And>x c'. cext n c c' \<Longrightarrow> P x c' \<Longrightarrow> Q x c') \<Longrightarrow> cstep sec pub n' st m st' Q c"
  unfolding cstep_def by (auto dest: cext_mono [of n c _ n'])

lemma cstep_oret: "P x c \<Longrightarrow> cstep sec pub n st (oret (Inr x)) st P c"
  by (auto simp: cstep_def cext_def)

lemma cstep_Pair: "P x c \<Longrightarrow> cstep sec pub n st (Pair (Inr x)) st P c"
  by (auto simp: cstep_def cext_def)

lemma cstep_on_cb:
  assumes "bstep n m P (cb c)"
  shows "cstep sec pub n st (on_cb m) st (\<lambda>x c'. P x (cb c')) c"
  unfolding cstep_def
proof (intro impI)
  assume d: "denotes sec pub c st" and r: "length (b_nodes (cb c)) + n \<le> 2 ^ 32"
  then have "room (cb c) n" by (auto simp: room_def denotes_def split: prod.splits)
  then obtain x b' where m: "m (cb c) = (Inr x, b')" "bext n (cb c) b'" "P x b'"
    using assms by (auto simp: bstep_def)
  have "cext n c (c\<lparr>cb := b'\<rparr>)" using m(2) by (auto simp: bext_def cext_def)
  moreover have "denotes sec pub (c\<lparr>cb := b'\<rparr>) st"
    using d m(2) wires_bext [OF m(2)] by (auto simp: bext_def denotes_def split: prod.splits)
  moreover have "on_cb m c = (Inr x, c\<lparr>cb := b'\<rparr>)" using m(1) by (simp add: on_cb_def)
  ultimately show "\<exists>x c'. on_cb m c = (Inr x, c') \<and> cext n c c' \<and> denotes sec pub c' st \<and> P x (cb c')"
    using m(3) by (intro exI [of _ x] exI [of _ "c\<lparr>cb := b'\<rparr>"]) simp
qed

text \<open>Bookkeeping fields do not matter.\<close>

lemma cstep_via:
  assumes "m c = m' c2" "cb c2 = cb c" "constraint_outputs c2 = constraint_outputs c"
    "auxiliary_targets c2 = auxiliary_targets c" "cstep sec pub n st m' st' P c2"
  shows "cstep sec pub n st m st' P c"
  using assms by (simp add: cstep_def denotes_def cext_def)

lemma c_constant_step: "cstep sec pub 1 st (c_constant v) st (\<lambda>i c'. cwire sec pub c' i v) c"
  unfolding c_constant_def by (rule cstep_on_cb [OF rc_constant_step])

lemma c_add_gate_step:
  "cwire sec pub c x u \<Longrightarrow> cwire sec pub c y v \<Longrightarrow>
   cstep sec pub 1 st (c_add_gate x y) st (\<lambda>i c'. cwire sec pub c' i (u + v)) c"
  unfolding c_add_gate_def by (rule cstep_on_cb [OF rc_add_gate_step])

lemma c_mul_gate_step:
  assumes "cwire sec pub c x u" "cwire sec pub c y v"
  shows "cstep sec pub 1 st (c_mul_gate x y) st (\<lambda>i c'. cwire sec pub c' i (u * v)) c"
proof -
  let ?c = "c\<lparr>multiplication_count := multiplication_count c + 1\<rparr>"
  have "cstep sec pub 1 st (on_cb (rc_mul_gate x y)) st (\<lambda>i c'. cwire sec pub c' i (u * v)) ?c"
    using assms by (intro cstep_on_cb rc_mul_gate_step) simp_all
  then show ?thesis by (rule cstep_via [rotated -1]) (simp_all add: c_mul_gate_def)
qed

lemma c_sub_gate_step:
  assumes "cwire sec pub c x u" "cwire sec pub c y v"
  shows "cstep sec pub (1 + (1 + 1)) st (c_sub_gate x y) st (\<lambda>i c'. cwire sec pub c' i (u - v)) c"
proof -
  have "cstep sec pub (1 + (1 + 1)) st (c_sub_gate x y) st (\<lambda>i c'. cwire sec pub c' i (u + v * (- 1))) c"
    unfolding c_sub_gate_def using assms
    by (intro cstep_bind [OF c_constant_step] cstep_bind [OF c_mul_gate_step] c_add_gate_step)
      (auto intro: wire_cext)
  then show ?thesis by simp
qed

lemma one_minus_step:
  assumes "cwire sec pub c x u"
  shows "cstep sec pub (1 + (1 + (1 + 1))) st (one_minus x) st (\<lambda>i c'. cwire sec pub c' i (1 - u)) c"
proof -
  have "cstep sec pub (1 + (1 + (1 + 1))) st (one_minus x) st (\<lambda>i c'. cwire sec pub c' i (u * (- 1) + 1)) c"
    unfolding one_minus_def using assms
    by (intro cstep_bind [OF c_constant_step] cstep_bind [OF c_mul_gate_step] c_add_gate_step)
      (auto intro: wire_cext)
  then show ?thesis by simp
qed

text \<open>Declaring an input: the new wire carries the next input.\<close>

lemma gate_secret_input:
  assumes "denotes sec pub c (i, j, cs, xs)" "length (b_nodes (cb c)) < 2 ^ 32"
  shows "\<exists>n b'. gate b_secret_input (cb c) = (Inr n, b') \<and> b_nodes b' = b_nodes (cb c) @ [SecretInput] \<and>
    denotes sec pub (c\<lparr>cb := b'\<rparr>) (i + 1, j, cs, xs) \<and> wire sec pub b' n (sec ! i)"
proof -
  let ?b = "(cb c)\<lparr>b_nodes := b_nodes (cb c) @ [SecretInput], b_num_secret := b_num_secret (cb c) + 1\<rparr>"
  have "gate b_secret_input (cb c) = (Inr (of_nat (length (b_nodes (cb c)))), ?b)"
    using assms(2) by (intro gate_ok) (simp add: b_secret_input_def push_def next_node_id_def Let_def)
  moreover have "denotes sec pub (c\<lparr>cb := ?b\<rparr>) (i + 1, j, cs, xs)"
    using assms list_all2_mono [OF _ wire_append [of sec pub "cb c" _ _ ?b "[SecretInput]"]]
    by (auto simp: denotes_def builder_inv_def less_SucI)
  moreover have "wire sec pub ?b (of_nat (length (b_nodes (cb c)))) (sec ! i)"
    using assms by (simp add: wire_def as_usize_new trace_snoc nth_append denotes_def)
  ultimately show ?thesis by (intro exI conjI) simp_all
qed

lemma gate_public_input:
  assumes "denotes sec pub c (i, j, cs, xs)" "length (b_nodes (cb c)) < 2 ^ 32"
  shows "\<exists>n b'. gate b_public_input (cb c) = (Inr n, b') \<and> b_nodes b' = b_nodes (cb c) @ [PublicInput] \<and>
    denotes sec pub (c\<lparr>cb := b'\<rparr>) (i, j + 1, cs, xs) \<and> wire sec pub b' n (pub ! j)"
proof -
  let ?b = "(cb c)\<lparr>b_nodes := b_nodes (cb c) @ [PublicInput], b_num_public := b_num_public (cb c) + 1\<rparr>"
  have "gate b_public_input (cb c) = (Inr (of_nat (length (b_nodes (cb c)))), ?b)"
    using assms(2) by (intro gate_ok) (simp add: b_public_input_def push_def next_node_id_def Let_def)
  moreover have "denotes sec pub (c\<lparr>cb := ?b\<rparr>) (i, j + 1, cs, xs)"
    using assms list_all2_mono [OF _ wire_append [of sec pub "cb c" _ _ ?b "[PublicInput]"]]
    by (auto simp: denotes_def builder_inv_def less_SucI)
  moreover have "wire sec pub ?b (of_nat (length (b_nodes (cb c)))) (pub ! j)"
    using assms by (simp add: wire_def as_usize_new trace_snoc nth_append denotes_def)
  ultimately show ?thesis by (intro exI conjI) simp_all
qed

lemma c_secret_input_step:
  "cstep sec pub 1 (i, j, r) (c_secret_input slot) (i + 1, j, r) (\<lambda>n c'. cwire sec pub c' n (sec ! i)) c"
  unfolding cstep_def c_secret_input_def on_cb_def
  using gate_secret_input [of sec pub "c\<lparr>secret_slots := secret_slots c @ [slot]\<rparr>" i j "fst r" "snd r"]
  by (fastforce simp: cext_def denotes_def)

lemma c_public_input_step:
  "cstep sec pub 1 (i, j, r) (c_public_input slot) (i, j + 1, r) (\<lambda>n c'. cwire sec pub c' n (pub ! j)) c"
  unfolding cstep_def c_public_input_def on_cb_def
  using gate_public_input [of sec pub "c\<lparr>public_slots := public_slots c @ [slot]\<rparr>" i j "fst r" "snd r"]
  by (fastforce simp: cext_def denotes_def)

lemma auxiliary_input_step:
  assumes "cwire sec pub c t d"
  shows "cstep sec pub 1 (i, j, cs, xs) (auxiliary_input t) (i + 1, j, cs, xs @ [d])
    (\<lambda>n c'. cwire sec pub c' n (sec ! i)) c"
  unfolding cstep_def auxiliary_input_def on_cb_def
  using assms gate_secret_input [of sec pub "c\<lparr>secret_slots := secret_slots c @ [SlotAuxiliary],
    auxiliary_targets := auxiliary_targets c @ [t]\<rparr>" i j cs "xs @ [d]"]
  by (fastforce simp: cext_def denotes_def intro: list_all2_appendI)

lemma push_constraint_step:
  "cwire sec pub c n v \<Longrightarrow>
   cstep sec pub 0 (i, j, cs, xs) (push_constraint n) (i, j, cs @ [v], xs) (\<lambda>_ c'. True) c"
  by (auto simp: cstep_def push_constraint_def cext_def denotes_def intro: list_all2_appendI)

section \<open>The exponentiation gadget\<close>

lemma sorted_le_last: "sorted (xs :: nat list) \<Longrightarrow> x \<in> set xs \<Longrightarrow> x \<le> last xs"
  by (induction xs) (auto simp: sorted_wrt_append)

text \<open>\<open>rposition\<close> finds the leading bit.\<close>

lemma rposition_to_bits:
  assumes "0 < m" "m < 2 ^ (8 * width)"
  obtains h where "rposition (to_bits_le width m) = Some h" "h < 8 * width" "m div 2 ^ h = 1"
proof -
  let ?is = "filter (\<lambda>i. to_bits_le width m ! i) [0..<length (to_bits_le width m)]"
  have is_: "?is = filter (bit m) [0..<8 * width]"
    by (intro filter_cong) (auto simp: to_bits_le_def)
  have small: "i < 8 * width" if "bit m i" for i
  proof (rule ccontr)
    assume "\<not> i < 8 * width"
    then have "(2 :: nat) ^ (8 * width) \<le> 2 ^ i" by (intro power_increasing) simp_all
    with assms(2) have "m < 2 ^ i" by (rule less_le_trans)
    then have "m div 2 ^ i = 0" by simp
    then show False using that by (simp add: bit_iff_odd)
  qed
  have "\<exists>i. bit m i" using assms(1) bit_eq_iff [of m 0] by auto
  then obtain i where "bit m i" by blast
  then have ne: "?is \<noteq> []" unfolding is_ using small by (fastforce simp: filter_empty_conv)
  define h where "h = last ?is"
  have "rposition (to_bits_le width m) = Some h" using ne by (simp add: rposition_def h_def split: list.splits)
  moreover have hin: "h \<in> set ?is" using ne unfolding h_def by (rule last_in_set)
  then have hb: "bit m h" "h < 8 * width" unfolding is_ by auto
  have top: "\<not> bit m i" if "h < i" for i
  proof
    assume "bit m i"
    then have "i \<le> last (filter (bit m) [0..<8 * width])"
      using small by (intro sorted_le_last) (auto intro: sorted_filter [of id, simplified])
    then show False using that by (simp add: h_def is_)
  qed
  have "n \<le> h" if "bit m n" for n using top that leI by blast
  then have "take_bit (Suc h) m = m" by (intro bit_eqI) (auto simp: bit_take_bit_iff less_Suc_eq_le)
  then have "m < 2 ^ Suc h" by (metis take_bit_nat_less_exp)
  then have "m div 2 ^ h < 2" by (simp add: less_mult_imp_div_less mult.commute)
  moreover have "odd (m div 2 ^ h)" using hb(1) by (simp add: bit_iff_odd)
  ultimately have "m div 2 ^ h = 1" by (metis One_nat_def dvd_0_right less_2_cases)
  with \<open>rposition (to_bits_le width m) = Some h\<close> hb(2) show thesis by (rule that)
qed

lemma div_pow_step: "m div 2 ^ j = 2 * (m div 2 ^ Suc j) + of_bool (bit m j)" for m :: nat
proof -
  have "m div 2 ^ Suc j = m div 2 ^ j div 2" unfolding power_Suc2 by (rule div_mult2_eq)
  then show ?thesis by (simp add: bit_iff_odd)
qed

text \<open>Square and multiply over the bits below the leading one.\<close>

lemma fermat_loop_step:
  assumes "j \<le> 8 * width" "cwire sec pub c x u" "cwire sec pub c acc (u ^ (m div 2 ^ j))"
  shows "cstep sec pub (2 * j) st (fermat_loop (to_bits_le width m) x (rev [0..<j]) acc) st
    (\<lambda>i c'. cwire sec pub c' i (u ^ m)) c"
  using assms
proof (induction j arbitrary: c acc)
  case 0
  then show ?case by (auto intro: cstep_Pair)
next
  case (Suc j)
  let ?e = "u ^ (m div 2 ^ Suc j)"
  let ?bits = "to_bits_le width m"
  have bit: "?bits ! j = bit m j" using Suc.prems(1) by (simp add: to_bits_le_def)
  have val: "u ^ (m div 2 ^ j) = (if bit m j then ?e * ?e * u else ?e * ?e)"
    by (subst div_pow_step) (simp add: power_mult mult_2 power_add)
  have round: "cstep sec pub 1 st (if ?bits ! j then c_mul_gate acc' x else oret (Inr acc')) st
      (\<lambda>i c'. cwire sec pub c' i (u ^ (m div 2 ^ j)) \<and> cwire sec pub c' x u) c'"
    if a: "cwire sec pub c' acc' (?e * ?e)" and x: "cwire sec pub c' x u" for acc' c'
    unfolding bit using val a x c_mul_gate_step [OF a x, of st]
    by (cases "bit m j") (auto intro: cstep_weaken wire_cext intro!: cstep_oret)
  have "cstep sec pub (1 + (1 + 2 * j)) st (fermat_loop ?bits x (j # rev [0..<j]) acc) st
    (\<lambda>i c'. cwire sec pub c' i (u ^ m)) c"
    unfolding fermat_loop.simps(2)
    apply (rule cstep_bind, rule c_mul_gate_step [OF Suc.prems(3,3)])
    apply (rule cstep_bind, rule round, assumption, blast intro: wire_cext Suc.prems(2))
    using Suc.prems(1) apply (intro Suc.IH) apply simp_all
    done
  then show ?case by simp
qed

lemma fermat_nonzero_step:
  assumes m: "into_bigint (- 1) = m" "0 < m" "m < 2 ^ (8 * width)" and x: "cwire sec pub c x u"
  shows "cstep sec pub (16 * width) st (fermat_nonzero into_bigint width x) st
    (\<lambda>i c'. cwire sec pub c' i (u ^ m)) c"
proof -
  obtain h where h: "rposition (to_bits_le width m) = Some h" "h < 8 * width" "m div 2 ^ h = 1"
    using rposition_to_bits [OF m(2,3)] by blast
  have "cstep sec pub (2 * h) st (fermat_nonzero into_bigint width x) st (\<lambda>i c'. cwire sec pub c' i (u ^ m)) c"
    unfolding fermat_nonzero_def Let_def m(1) h(1) ok_or_simps obind_oret
    using h x by (intro fermat_loop_step) simp_all
  then show ?thesis by (rule cstep_weaken) (use h(2) in simp_all)
qed

section \<open>Emission refines the denotation\<close>

text \<open>The field the compiler works over: prime, larger than 65 bits, with elements of \<open>width\<close>
  bytes.\<close>

locale compiler_field = prime_field modulus into_bigint inverse_op
  for modulus :: nat and into_bigint :: "'f::comm_ring_1 \<Rightarrow> nat" and inverse_op :: "'f \<Rightarrow> 'f option" +
  fixes width :: nat
  assumes modulus_width: "modulus \<le> 2 ^ (8 * width)" and width_le: "width \<le> 64"
    and modulus_large: "2 ^ 65 < modulus"
begin

lemma into_bigint_minus_one: "into_bigint (- 1) = modulus - 1"
proof -
  have "(of_nat (modulus - 1) :: 'f) = - 1"
    using modulus_gt_1 of_nat_modulus by (simp add: of_nat_diff)
  then show ?thesis using into_bigint_of_nat [of "modulus - 1"] modulus_gt_1 by simp
qed

lemma fermat_nonzero_zero_test:
  assumes "cwire sec pub c x (u :: 'f)"
  shows "cstep sec pub (16 * width) st (fermat_nonzero into_bigint width x) st
    (\<lambda>i c'. cwire sec pub c' i (of_bool (u \<noteq> 0))) c"
proof -
  have "0 < modulus - 1" "modulus - 1 < 2 ^ (8 * width)" using modulus_gt_1 modulus_width by linarith+
  then have "cstep sec pub (16 * width) st (fermat_nonzero into_bigint width x) st
      (\<lambda>i c'. cwire sec pub c' i (u ^ (modulus - 1))) c"
    using into_bigint_minus_one assms by (intro fermat_nonzero_step)
  moreover have "u ^ (modulus - 1) = of_bool (u \<noteq> 0)" using fermat_indicator [of u] by (simp only: of_bool_def) simp
  ultimately show ?thesis by (simp only:)
qed

lemma emit_credential_step:
  "cstep sec pub (16 * width + 9) (i, j, cs, xs) (emit_credential into_bigint width cid) (i + 1, j + 1, cs, xs)
    (\<lambda>n c'. cwire sec pub c' n (of_bool (sec ! i = (pub ! j :: 'f)))) c"
proof -
  let ?k = "credential_counter c"
  have "cstep sec pub (1 + (1 + (1 + (1 + 1) + (16 * width + (1 + (1 + (1 + 1))))))) (i, j, cs, xs)
    (obind (c_secret_input (SlotCredential ?k)) (\<lambda>secret.
      obind (c_public_input (SlotCredentialCommitment ?k)) (\<lambda>commitment.
      obind (c_sub_gate secret commitment) (\<lambda>difference.
      obind (fermat_nonzero into_bigint width difference) one_minus)))) (i + 1, j + 1, cs, xs)
    (\<lambda>n c'. cwire sec pub c' n (1 - of_bool (sec ! i - pub ! j \<noteq> 0))) (c\<lparr>credential_counter := ?k + 1\<rparr>)"
    apply (rule cstep_bind, rule c_secret_input_step)
    apply (rule cstep_bind, rule c_public_input_step)
    apply (rule cstep_bind, rule c_sub_gate_step, blast intro: wire_cext, assumption)
    apply (rule cstep_bind, rule fermat_nonzero_zero_test, assumption)
    apply (rule one_minus_step, assumption)
    done
  then have "cstep sec pub (1 + (1 + (1 + (1 + 1) + (16 * width + (1 + (1 + (1 + 1))))))) (i, j, cs, xs)
    (emit_credential into_bigint width cid) (i + 1, j + 1, cs, xs)
    (\<lambda>n c'. cwire sec pub c' n (1 - of_bool (sec ! i - pub ! j \<noteq> 0))) c"
    by (rule cstep_via [rotated -1]) (simp_all add: emit_credential_def Let_def)
  then show ?thesis by (rule cstep_weaken) (auto split: if_splits)
qed


lemma declare_bits_step:
  "cstep sec pub (length (ixs :: nat list)) (i, j, r) (declare_bits slot ixs) (i + length ixs, j, r)
    (\<lambda>ns c'. list_all2 (cwire sec pub c') ns (segment sec i (length ixs))) c"
proof (induction ixs arbitrary: i c)
  case Nil
  then show ?case by (auto simp: segment_def intro: cstep_Pair)
next
  case (Cons ix ixs i c)
  have "segment sec i (length (ix # ixs)) = sec ! i # segment sec (i + 1) (length ixs)"
    by (simp add: segment_def map_upt_Suc del: upt_Suc)
  moreover have "cstep sec pub (1 + (length ixs + 0)) (i, j, r) (declare_bits slot (ix # ixs))
      (i + 1 + length ixs, j, r)
      (\<lambda>ns c'. list_all2 (cwire sec pub c') ns (sec ! i # segment sec (i + 1) (length ixs))) c"
    unfolding declare_bits.simps
    apply (rule cstep_bind, rule c_secret_input_step)
    apply (rule cstep_bind, rule Cons.IH)
    apply (rule cstep_oret)
    apply (auto intro: wire_cext)
    done
  ultimately show ?case by simp
qed

lemma amount_product_step:
  assumes "list_all2 (cwire sec pub c) ns us" "cwire sec pub c b (v :: 'f)"
  shows "cstep sec pub (length ns * (16 * width + 5)) st (amount_product into_bigint width ns b) st
    (\<lambda>i c'. cwire sec pub c' i (v * prod_list (map (\<lambda>u. of_bool (u = 0)) us))) c"
  using assms
proof (induction ns arbitrary: us b v c)
  case Nil
  then show ?case by (auto intro: cstep_Pair)
next
  case (Cons n ns)
  then obtain u us' where us: "us = u # us'" "cwire sec pub c n u" "list_all2 (cwire sec pub c) ns us'"
    by (auto simp: list_all2_Cons1)
  have eq: "v * prod_list (map (\<lambda>u. of_bool (u = 0)) us) =
      (v * (1 - of_bool (u \<noteq> 0))) * prod_list (map (\<lambda>u. of_bool (u = 0)) us')"
    by (auto simp: us mult.assoc)
  have "cstep sec pub (16 * width + (1 + (1 + (1 + 1)) + (1 + length ns * (16 * width + 5)))) st
    (amount_product into_bigint width (n # ns) b) st
    (\<lambda>i c'. cwire sec pub c' i (v * prod_list (map (\<lambda>u. of_bool (u = 0)) us))) c"
    unfolding amount_product.simps eq
    apply (rule cstep_bind, rule fermat_nonzero_zero_test [OF us(2)])
    apply (rule cstep_bind, rule one_minus_step, assumption)
    apply (rule cstep_bind, rule c_mul_gate_step, blast intro: wire_cext Cons.prems, assumption)
    apply (rule Cons.IH, blast intro: wires_cext us(3), assumption)
    done
  then show ?case by (rule cstep_weaken) simp_all
qed

definition amount_cost :: nat where
  "amount_cost = 1316 + 64 * width"

lemma emit_amount_step:
  "cstep sec pub amount_cost (i, j, cs, xs) (emit_amount into_bigint width l) (i + 129, j + 1, cs, xs)
    (\<lambda>n c'. cwire sec pub c' n (of_bool (range_ok (sec ! i) (pub ! j :: 'f)
       (segment sec (i + 1) 64) (segment sec (i + 65) 64)))) c"
proof -
  let ?vs = "segment sec (i + 1) 64" and ?ds = "segment sec (i + 1 + 64) 64"
  let ?os = "[side_booleanity ?vs, side_reconstruction 0 ?vs - sec ! i, side_booleanity ?ds,
    side_reconstruction 0 ?ds - (pub ! j - sec ! i)]"
  have eq: "1 * prod_list (map (\<lambda>u. of_bool (u = 0)) ?os) =
      (of_bool (range_ok (sec ! i) (pub ! j) ?vs ?ds) :: 'f)"
    by (auto simp: range_ok_def)
  have num_sums: "(65 :: nat) + 64 = 129" "(1 :: nat) + 64 = 65" by simp_all
  have len: "length ns = 64" if "list_all2 (cwire sec pub c) ns (segment sec k 64)" for ns c k
    using list_all2_lengthD [OF that] by (simp add: segment_def)
  have four: "length ns = 4" if "list_all2 (cwire sec pub c) ns ?os" for ns c
    using list_all2_lengthD [OF that] by simp
  have "cstep sec pub (1 + (1 + (64 + (64 + (1165 + (1 + 4 * (16 * width + 5))))))) (i, j, cs, xs)
    (emit_amount into_bigint width l) (i + 1 + 64 + 64, j + 1, cs, xs)
    (\<lambda>n c'. cwire sec pub c' n (1 * prod_list (map (\<lambda>u. of_bool (u = 0)) ?os))) c"
    unfolding emit_amount_def AMOUNT_BIT_LEN_def
    apply (rule cstep_bind, rule c_secret_input_step)
    apply (rule cstep_bind, rule c_public_input_step)
    apply (rule cstep_bind, rule declare_bits_step [of _ _ "[0..<64]", simplified length_upt diff_zero])
    apply (rule cstep_bind, rule declare_bits_step [of _ _ "[0..<64]", simplified length_upt diff_zero])
    apply (rule cstep_bind, rule cstep_on_cb, rule prove_bounded_difference_step)
          apply (erule len, erule len, blast intro: wires_cext, assumption, blast intro: wire_cext, blast intro: wire_cext)
    apply (rule cstep_bind, rule c_constant_step)
    apply (frule four)
    apply (rule cstep_weaken, rule amount_product_step, blast intro: wires_cext, assumption, simp, assumption)
    done
  note step = this [unfolded eq, unfolded add.assoc num_sums]
  show ?thesis by (rule cstep_weaken [OF step]) (simp add: amount_cost_def, assumption)
qed

text \<open>The accumulators of the loops start as \<open>None\<close>, which stands for the unit.\<close>

definition acc_wire :: "'f list \<Rightarrow> 'f list \<Rightarrow> 'f \<Rightarrow> 'f compiler \<Rightarrow> node_id option \<Rightarrow> 'f \<Rightarrow> bool" where
  "acc_wire sec pub u c r a \<longleftrightarrow> (case r of None \<Rightarrow> a = u | Some n \<Rightarrow> cwire sec pub c n a)"

lemma acc_wire_simps [simp]:
  "acc_wire sec pub u c None a \<longleftrightarrow> a = u" "acc_wire sec pub u c (Some n) a \<longleftrightarrow> cwire sec pub c n a"
  by (simp_all add: acc_wire_def)

lemma acc_wire_cext: "cext n c c' \<Longrightarrow> acc_wire sec pub u c r a \<Longrightarrow> acc_wire sec pub u c' r a"
  by (auto simp: acc_wire_def wire_cext split: option.splits)

lemma acc_wire_ok:
  "acc_wire sec pub u c r a \<Longrightarrow> r \<noteq> None \<Longrightarrow>
   cstep sec pub n st (oret (ok_or e r)) st (\<lambda>i c'. cwire sec pub c' i a) c"
  by (auto intro!: cstep_oret)

lemma discriminant_loop_step:
  assumes "acc_wire sec pub 1 c r d" "cwire sec pub c s x"
  shows "cstep sec pub (3 * length ts) st (discriminant_loop s ts r) st
    (\<lambda>r' c'. acc_wire sec pub 1 c' r' (d * prod_list (map (\<lambda>t. x - of_nat t) ts)) \<and>
       (r \<noteq> None \<or> ts \<noteq> [] \<longrightarrow> r' \<noteq> None)) c"
  using assms
proof (induction ts arbitrary: r d c)
  case Nil
  then show ?case by (auto intro: cstep_Pair)
next
  case (Cons t ts)
  have acc: "cstep sec pub 1 st (case r of None \<Rightarrow> oret (Inr diff) | Some prev \<Rightarrow> c_mul_gate prev diff) st
      (\<lambda>n c'. cwire sec pub c' n (d * (x + negate_u64 t))) c'"
    if "acc_wire sec pub 1 c' r d" "cwire sec pub c' diff (x + negate_u64 t)" for diff c'
    using that by (cases r) (auto intro: cstep_oret c_mul_gate_step [unfolded One_nat_def])
  have "cstep sec pub (1 + (1 + (1 + 3 * length ts))) st (discriminant_loop s (t # ts) r) st
    (\<lambda>r' c'. acc_wire sec pub 1 c' r' (d * (x + negate_u64 t) * prod_list (map (\<lambda>t. x - of_nat t) ts)) \<and>
       r' \<noteq> None) c"
    unfolding discriminant_loop.simps
    apply (rule cstep_bind, rule c_constant_step)
    apply (rule cstep_bind, rule c_add_gate_step, blast intro: wire_cext Cons.prems, assumption)
    apply (rule cstep_bind, rule acc, blast intro: acc_wire_cext Cons.prems, assumption)
    apply (rule cstep_weaken, rule Cons.IH)
       apply (simp, blast intro: wire_cext Cons.prems, simp, simp)
    done
  then show ?case by (rule cstep_weaken) (simp_all add: negate_u64_def mult.assoc)
qed

lemma threshold_tail_step:
  assumes "0 < unat k" "cwire sec pub c s (x :: 'f)"
  shows "cstep sec pub (3 * unat k + 7) (i, j, cs, xs) (threshold_tail k s)
    (i + 1, j, cs @ [let w = discr (unat k) x * sec ! i in w * (1 - w)], xs @ [discr (unat k) x])
    (\<lambda>n c'. cwire sec pub c' n (discr (unat k) x * sec ! i)) c"
proof -
  let ?d = "discr (unat k) x"
  let ?w = "?d * sec ! i"
  have d: "1 * prod_list (map (\<lambda>t. x - of_nat t) [0..<unat k]) = ?d" by (simp add: discr_def)
  have step: "cstep sec pub (3 * length [0..<unat k] + (0 + (1 + (1 + (1 + (1 + (1 + (1 + (1 + (0 + 0))))))))))
    (i, j, cs, xs) (threshold_tail k s) (i + 1, j, cs @ [?w * (?w * (- 1) + 1)], xs @ [?d])
    (\<lambda>n c'. cwire sec pub c' n ?w) c"
    unfolding threshold_tail_def
    apply (rule cstep_bind, rule discriminant_loop_step [of _ _ _ None 1], simp, rule assms(2))
    apply (rule cstep_bind, unfold d, elim conjE, rule acc_wire_ok, assumption, use assms(1) in simp)
    apply (rule cstep_bind, rule auxiliary_input_step, assumption)
    apply (rule cstep_bind, rule c_mul_gate_step, blast intro: wire_cext, assumption)
    apply (rule cstep_bind, rule c_constant_step)
    apply (rule cstep_bind, rule c_mul_gate_step, blast intro: wire_cext, assumption)
    apply (rule cstep_bind, rule c_constant_step)
    apply (rule cstep_bind, rule c_add_gate_step, blast intro: wire_cext, assumption)
    apply (rule cstep_bind, rule c_mul_gate_step, blast intro: wire_cext, assumption)
    apply (rule cstep_bind, rule push_constraint_step, assumption)
    apply (rule cstep_oret, blast intro: wire_cext)
    done
  have eq: "?w * (?w * (- 1) + 1) = (let w = ?w in w * (1 - w))" by (simp add: Let_def algebra_simps)
  show ?thesis by (rule cstep_weaken [OF step [unfolded eq]]) (simp, assumption)
qed

text \<open>Combining a list of members.\<close>

definition comb_value :: "combinator \<Rightarrow> 'f \<Rightarrow> 'f \<Rightarrow> 'f" where
  "comb_value comb a v = (case comb of CombAnd \<Rightarrow> a * v | CombOr \<Rightarrow> a + v - a * v)"

definition comb_unit :: "combinator \<Rightarrow> 'f" where
  "comb_unit comb = (case comb of CombAnd \<Rightarrow> 1 | CombOr \<Rightarrow> 0)"

lemma combine_step_step:
  assumes "cwire sec pub c x u" "cwire sec pub c y v"
  shows "cstep sec pub 5 st (combine_step comb x y) st (\<lambda>n c'. cwire sec pub c' n (comb_value comb u v)) c"
proof (cases comb)
  case CombAnd
  then show ?thesis
    using c_mul_gate_step [OF assms, of st] by (auto simp: combine_step_def comb_value_def elim: cstep_weaken)
next
  case CombOr
  have "cstep sec pub (1 + (1 + (1 + (1 + 1)))) st (combine_step CombOr x y) st
      (\<lambda>n c'. cwire sec pub c' n (u + v - u * v)) c"
    unfolding combine_step_def combinator.case
    apply (rule cstep_bind, rule c_mul_gate_step [OF assms])
    apply (rule cstep_bind, rule c_add_gate_step, blast intro: wire_cext assms, blast intro: wire_cext assms)
    apply (rule c_sub_gate_step, assumption, blast intro: wire_cext)
    done
  then show ?thesis using CombOr by (auto simp: comb_value_def elim: cstep_weaken)
qed


fun emit_cost :: "policy \<Rightarrow> nat" where
  "emit_cost (AmountAtMost _) = amount_cost"
| "emit_cost (Credential _) = 16 * width + 9"
| "emit_cost (Threshold k ms) = sum_list (map (\<lambda>m. emit_cost m + 5) ms) + (3 * unat k + 7)"
| "emit_cost (And ms) = sum_list (map (\<lambda>m. emit_cost m + 5) ms)"
| "emit_cost (Or ms) = sum_list (map (\<lambda>m. emit_cost m + 5) ms)"

definition emits :: "'f list \<Rightarrow> 'f list \<Rightarrow> policy \<Rightarrow> bool" where
  "emits sec pub p \<longleftrightarrow> (\<forall>i j cs xs c. cstep sec pub (emit_cost p) (i, j, cs, xs) (emit_policy into_bigint width p)
     (i + sec_count p, j + pub_count p, cs @ dcons sec pub i j p, xs @ daux sec pub i j p)
     (\<lambda>n c'. cwire sec pub c' n (dval sec pub i j p)) c)"

lemma emitsD: "emits sec pub p \<Longrightarrow> cstep sec pub (emit_cost p) (i, j, cs, xs) (emit_policy into_bigint width p)
     (i + sec_count p, j + pub_count p, cs @ dcons sec pub i j p, xs @ daux sec pub i j p)
     (\<lambda>n c'. cwire sec pub c' n (dval sec pub i j p)) c"
  by (simp add: emits_def)

text \<open>Both member loops have the same shape: emit a member, fold its wire into the accumulator.\<close>

lemma member_loop_step:
  assumes loop: "\<And>r c. loop [] r c = (Inr r, c)"
    "\<And>m ms r. loop (m # ms) r = obind (emit_policy into_bigint width m) (\<lambda>n.
       obind (case r of None \<Rightarrow> oret (Inr n) | Some prev \<Rightarrow> step prev n) (\<lambda>r'. loop ms (Some r')))"
    and step: "\<And>c x y a b st. cwire sec pub c x a \<Longrightarrow> cwire sec pub c y b \<Longrightarrow>
       cstep sec pub 5 st (step x y) st (\<lambda>n c'. cwire sec pub c' n (f a b)) c"
    and u: "\<And>b. f u b = b"
    and ms: "\<forall>m\<in>set ms. emits sec pub m" and r: "acc_wire sec pub u c r a"
  shows "cstep sec pub (sum_list (map (\<lambda>m. emit_cost m + 5) ms)) (i, j, cs, xs) (loop ms r)
    (i + secs ms, j + pubs ms, cs @ dconss sec pub i j ms, xs @ dauxs sec pub i j ms)
    (\<lambda>r' c'. acc_wire sec pub u c' r' (foldl f a (dvals sec pub i j ms)) \<and>
       (r \<noteq> None \<or> ms \<noteq> [] \<longrightarrow> r' \<noteq> None)) c"
  using ms r
proof (induction ms arbitrary: i j cs xs r a c)
  case Nil
  have "loop [] r = oret (Inr r)" by (simp add: loop(1) fun_eq_iff)
  then show ?case using Nil by (auto intro!: cstep_Pair)
next
  case (Cons m ms i j cs xs r a c)
  have acc: "cstep sec pub 5 st (case r of None \<Rightarrow> oret (Inr n) | Some prev \<Rightarrow> step prev n) st
      (\<lambda>n c'. cwire sec pub c' n (f a v)) c'"
    if "acc_wire sec pub u c' r a" "cwire sec pub c' n v" for n v c' st
    using that by (cases r) (auto simp: u intro: cstep_oret step)
  have "cstep sec pub (emit_cost m + (5 + sum_list (map (\<lambda>m. emit_cost m + 5) ms))) (i, j, cs, xs) (loop (m # ms) r)
    (i + sec_count m + secs ms, j + pub_count m + pubs ms,
     (cs @ dcons sec pub i j m) @ dconss sec pub (i + sec_count m) (j + pub_count m) ms,
     (xs @ daux sec pub i j m) @ dauxs sec pub (i + sec_count m) (j + pub_count m) ms)
    (\<lambda>r' c'. acc_wire sec pub u c' r' (foldl f (f a (dval sec pub i j m))
       (dvals sec pub (i + sec_count m) (j + pub_count m) ms)) \<and> r' \<noteq> None) c"
    unfolding loop(2)
    apply (rule cstep_bind, rule emitsD, use Cons.prems in simp)
    apply (rule cstep_bind, rule acc, blast intro: acc_wire_cext Cons.prems(2), assumption)
    apply (rule cstep_weaken, rule Cons.IH)
       apply (use Cons.prems in simp, simp, simp, simp)
    done
  then show ?case by (simp add: add.assoc)
qed

lemma foldl_and: "foldl (comb_value CombAnd) a vs = a * prod_list vs"
  by (induction vs arbitrary: a) (simp_all add: comb_value_def mult.assoc)

lemma foldl_or: "foldl (comb_value CombOr) a vs = 1 - (1 - a) * prod_list (map (\<lambda>v. 1 - v) vs)"
proof (induction vs arbitrary: a)
  case (Cons v vs)
  have "1 - (a + v - a * v) = (1 - a) * (1 - v)" by (simp add: algebra_simps)
  then show ?case using Cons by (simp add: comb_value_def mult.assoc)
qed simp

lemma foldl_sum: "foldl (+) a vs = a + sum_list (vs :: 'f list)"
  by (induction vs arbitrary: a) (simp_all add: add.assoc)

lemmas sum_loop_step = member_loop_step [where loop = "sum_loop into_bigint width" and step = c_add_gate and f = "(+)" and u = 0]
lemmas combine_loop_step = member_loop_step [where loop = "combine_loop into_bigint width comb"
  and step = "combine_step comb" and f = "comb_value comb" and u = "comb_unit comb" for comb]

lemma combine_emit_step:
  assumes "\<forall>m\<in>set ms. emits sec pub m" "ms \<noteq> []"
  shows "cstep sec pub (sum_list (map (\<lambda>m. emit_cost m + 5) ms)) (i, j, cs, xs)
    (obind (combine_loop into_bigint width comb ms None) (\<lambda>w. oret (ok_or PE_EmptyPolicy w)))
    (i + secs ms, j + pubs ms, cs @ dconss sec pub i j ms, xs @ dauxs sec pub i j ms)
    (\<lambda>n c'. cwire sec pub c' n (foldl (comb_value comb) (comb_unit comb) (dvals sec pub i j ms))) c"
proof -
  have "cstep sec pub (sum_list (map (\<lambda>m. emit_cost m + 5) ms) + 0) (i, j, cs, xs)
    (obind (combine_loop into_bigint width comb ms None) (\<lambda>w. oret (ok_or PE_EmptyPolicy w)))
    (i + secs ms, j + pubs ms, cs @ dconss sec pub i j ms, xs @ dauxs sec pub i j ms)
    (\<lambda>n c'. cwire sec pub c' n (foldl (comb_value comb) (comb_unit comb) (dvals sec pub i j ms))) c"
    apply (rule cstep_bind, rule combine_loop_step)
          apply (simp, simp, rule combine_step_step, assumption, assumption)
       apply (simp add: comb_value_def comb_unit_def split: combinator.splits, rule assms(1), simp)
    apply (elim conjE, rule acc_wire_ok, assumption, use assms(2) in simp)
    done
  then show ?thesis by simp
qed

lemma emit_threshold_step:
  assumes "\<forall>m\<in>set ms. emits sec pub m" "ms \<noteq> []" "0 < unat k"
  shows "emits sec pub (Threshold k ms)"
proof -
  have add5: "cstep sec pub 5 st (c_add_gate x y) st (\<lambda>n c'. cwire sec pub c' n (a + b)) c"
    if "cwire sec pub c x a" "cwire sec pub c y b" for c x y a b st
    by (rule cstep_weaken [OF c_add_gate_step [OF that]]) simp_all
  have "cstep sec pub (sum_list (map (\<lambda>m. emit_cost m + 5) ms) + (0 + (3 * unat k + 7))) (i, j, cs, xs)
    (emit_policy into_bigint width (Threshold k ms))
    (i + secs ms + 1, j + pubs ms,
     (cs @ dconss sec pub i j ms) @ [let w = discr (unat k) (foldl (+) 0 (dvals sec pub i j ms)) * sec ! (i + secs ms) in w * (1 - w)],
     (xs @ dauxs sec pub i j ms) @ [discr (unat k) (foldl (+) 0 (dvals sec pub i j ms))])
    (\<lambda>n c'. cwire sec pub c' n (discr (unat k) (foldl (+) 0 (dvals sec pub i j ms)) * sec ! (i + secs ms))) c"
    for i j cs xs c
    unfolding emit_policy.simps
    apply (rule cstep_bind, rule sum_loop_step)
          apply (simp, simp, rule add5, assumption, assumption, simp, rule assms(1), simp)
    apply (rule cstep_bind, elim conjE, rule acc_wire_ok, assumption, use assms(2) in simp)
    apply (rule threshold_tail_step [OF assms(3)], assumption)
    done
  then show ?thesis by (simp add: emits_def foldl_sum add.assoc)
qed

lemma emits_policy: "well_structured p \<Longrightarrow> emits sec pub p"
proof (induction p)
  case (AmountAtMost l)
  show ?case using emit_amount_step by (simp add: emits_def)
next
  case (Credential cid)
  show ?case using emit_credential_step by (simp add: emits_def)
next
  case (Threshold k ms)
  then show ?case by (intro emit_threshold_step) auto
next
  case (And ms)
  then show ?case using combine_emit_step [of ms sec pub _ _ _ _ CombAnd]
    by (auto simp: emits_def foldl_and comb_unit_def)
next
  case (Or ms)
  then show ?case using combine_emit_step [of ms sec pub _ _ _ _ CombOr]
    by (auto simp: emits_def foldl_or comb_unit_def)
qed


section \<open>Whole compilations\<close>

lemma sum_list_bound:
  "(\<And>m. m \<in> set ms \<Longrightarrow> f m \<le> c * g m) \<Longrightarrow> sum_list (map f ms) \<le> c * sum_list (map g ms)" for f g :: "'x \<Rightarrow> nat"
  by (induction ms) (auto simp: algebra_simps intro: add_mono)

lemma emit_cost_bound: "well_structured p \<Longrightarrow> emit_cost p + 5 \<le> 6000 * node_count p"
proof (induction p)
  case (AmountAtMost l)
  then show ?case using width_le by (simp add: amount_cost_def)
next
  case (Credential cid)
  then show ?case using width_le by simp
next
  case (Threshold k ms)
  then have "sum_list (map (\<lambda>m. emit_cost m + 5) ms) \<le> 6000 * sum_list (map node_count ms)"
    by (intro sum_list_bound) auto
  then show ?case using Threshold.prems by simp
next
  case (And ms)
  then have "sum_list (map (\<lambda>m. emit_cost m + 5) ms) \<le> 6000 * sum_list (map node_count ms)"
    by (intro sum_list_bound) auto
  then show ?case by simp
next
  case (Or ms)
  then have "sum_list (map (\<lambda>m. emit_cost m + 5) ms) \<le> 6000 * sum_list (map node_count ms)"
    by (intro sum_list_bound) auto
  then show ?case by simp
qed

end

lemma denotes_new: "denotes sec pub Compiler_new (0, 0, [], [])"
  by (simp add: denotes_def Compiler_new_def Builder_new_def builder_inv_def)

lemma publish_outputs_ok:
  "\<forall>n\<in>set ns. as_usize n < length (b_nodes b) \<Longrightarrow>
   publish_outputs ns b = (Inr (), b\<lparr>b_outputs := b_outputs b @ ns\<rparr>)"
proof (induction ns arbitrary: b)
  case (Cons n ns)
  then have "b_output n b = (Inr (), b\<lparr>b_outputs := b_outputs b @ [n]\<rparr>)" by (simp add: b_output_Inr)
  then show ?case using Cons by simp
qed simp

lemma wires_in_range: "list_all2 (wire sec pub b) ns vs \<Longrightarrow> \<forall>n\<in>set ns. as_usize n < length (b_nodes b)"
  by (auto simp: list_all2_conv_all_nth wire_def in_set_conv_nth)

definition node_vals :: "'f::comm_ring_1 list \<Rightarrow> 'f list \<Rightarrow> 'f circuit \<Rightarrow> node_id list \<Rightarrow> 'f list" where
  "node_vals sec pub c ns = map (\<lambda>n. trace sec pub (c_nodes c) ! as_usize n) ns"

lemma wires_node_vals: "list_all2 (wire sec pub b) ns vs \<Longrightarrow> c_nodes c = b_nodes b \<Longrightarrow> node_vals sec pub c ns = vs"
  by (auto simp: node_vals_def wire_def list_all2_conv_all_nth intro: nth_equalityI)

text \<open>What a compiled policy is, for all inputs.\<close>

definition implements :: "'f::comm_ring_1 compiled_policy \<Rightarrow> policy \<Rightarrow> bool" where
  "implements cp p \<longleftrightarrow> circuit_wf (cp_circuit cp) \<and> c_num_secret (cp_circuit cp) = sec_count p \<and>
     c_num_public (cp_circuit cp) = pub_count p \<and>
     (\<forall>n\<in>set (cp_auxiliary_targets cp). as_usize n < length (c_nodes (cp_circuit cp))) \<and>
     cp_range_check_outputs cp + 1 = length (c_outputs (cp_circuit cp)) \<and> length (c_nodes (cp_circuit cp)) \<le> 2 ^ 31 \<and>
     (\<forall>sec pub. node_vals sec pub (cp_circuit cp) (c_outputs (cp_circuit cp)) = dcons sec pub 0 0 p @ [dval sec pub 0 0 p] \<and>
        node_vals sec pub (cp_circuit cp) (cp_auxiliary_targets cp) = daux sec pub 0 0 p)"

lemma finish_denotes:
  assumes d: "\<And>sec pub. denotes sec pub c (i, j, cs sec pub, xs sec pub) \<and> cwire sec pub c root (v sec pub)"
  shows "\<exists>cp. finish c root = Inr cp \<and> circuit_wf (cp_circuit cp) \<and> c_num_secret (cp_circuit cp) = i \<and>
     c_num_public (cp_circuit cp) = j \<and>
     (\<forall>n\<in>set (cp_auxiliary_targets cp). as_usize n < length (c_nodes (cp_circuit cp))) \<and>
     cp_range_check_outputs cp + 1 = length (c_outputs (cp_circuit cp)) \<and> c_nodes (cp_circuit cp) = b_nodes (cb c) \<and>
     (\<forall>sec pub. node_vals sec pub (cp_circuit cp) (c_outputs (cp_circuit cp)) = cs sec pub @ [v sec pub] \<and>
        node_vals sec pub (cp_circuit cp) (cp_auxiliary_targets cp) = xs sec pub)"
proof -
  let ?ns = "constraint_outputs c"
  let ?b = "(cb c)\<lparr>b_outputs := ?ns @ [root]\<rparr>"
  let ?c = "\<lparr>c_nodes = b_nodes (cb c), c_num_secret = b_num_secret (cb c), c_num_public = b_num_public (cb c),
    c_outputs = ?ns @ [root]\<rparr>"
  have D: "builder_inv (cb c)" "b_outputs (cb c) = []" "secret_leaves (b_nodes (cb c)) = i"
      "public_leaves (b_nodes (cb c)) = j"
    and W: "list_all2 (cwire sec pub c) ?ns (cs sec pub)" "list_all2 (cwire sec pub c) (auxiliary_targets c) (xs sec pub)"
      "list_all2 (cwire sec pub c) (?ns @ [root]) (cs sec pub @ [v sec pub])" for sec pub
    using d by (auto simp: denotes_def intro: list_all2_appendI)
  have rng: "\<forall>n\<in>set (?ns @ [root]). as_usize n < length (b_nodes (cb c))"
    using W(3) by (rule wires_in_range)
  then have "b_output root ((cb c)\<lparr>b_outputs := ?ns\<rparr>) = (Inr (), ?b)" by (simp add: b_output_Inr)
  then have out: "obind (publish_outputs ?ns) (\<lambda>_. b_output root) (cb c) = (Inr (), ?b)"
    using publish_outputs_ok [of ?ns "cb c"] rng D(2) by simp
  have inv: "builder_inv ?b" using D(1) rng by (simp add: builder_inv_def)
  have bld: "build ?b = Inr ?c" using build_inv [OF inv] by simp
  have wf: "circuit_wf ?c" using inv rng by (simp add: circuit_wf_def builder_inv_def)
  have "finish c root = Inr \<lparr>cp_circuit = ?c, cp_secret_slots = secret_slots c, cp_public_slots = public_slots c,
      cp_auxiliary_targets = auxiliary_targets c, cp_range_check_outputs = length ?ns,
      cp_metadata = \<lparr>md_node_count = length (c_nodes ?c), md_secret_input_count = c_num_secret ?c,
        md_public_input_count = c_num_public ?c, md_multiplication_count = multiplication_count c\<rparr>\<rparr>"
    unfolding finish_def out by (simp add: bld)
  moreover have "c_num_secret ?c = i" "c_num_public ?c = j" using D by (simp_all add: builder_inv_def)
  ultimately show ?thesis
    using wf wires_in_range [OF W(2)] wires_node_vals [OF W(3), of ?c] wires_node_vals [OF W(2), of ?c] by auto
qed

lemma implements_evaluate:
  assumes "implements cp p" "length sec = sec_count p" "length pub = pub_count p"
  shows "evaluate_reference (cp_circuit cp) sec pub = Inr (dcons sec pub 0 0 p @ [dval sec pub 0 0 p])"
  using assms evaluate_reference_eq [of "cp_circuit cp" sec pub]
  by (simp add: implements_def inputs_fit_def circuit_outputs_def node_vals_def)

lemma compile_with_layout_invalid:
  "policy_validate (normalize_node p) = Inl e \<Longrightarrow> compile_with_layout into_bigint width p = Inl e"
  by (simp add: compile_with_layout_def policy_normalize_def)

context compiler_field
begin

lemma compile_run:
  assumes "policy_valid (normalize_node p)"
  shows "\<exists>cp. compile_with_layout into_bigint width p = Inr cp \<and> implements cp (normalize_node p) \<and>
    length (c_nodes (cp_circuit cp)) \<le> 6000 * node_count (normalize_node p)"
proof -
  let ?n = "normalize_node p"
  have ws: "well_structured ?n" and small: "node_count ?n \<le> 10000"
    using assms by (simp_all add: policy_valid_def MAX_POLICY_NODES_def)
  have cost: "emit_cost ?n \<le> 6000 * node_count ?n" using emit_cost_bound [OF ws] by simp
  then have "emit_cost ?n \<le> 2 ^ 31" using small by simp
  then have run: "\<exists>root c. emit_policy into_bigint width ?n Compiler_new = (Inr root, c) \<and> length (b_nodes (cb c)) \<le> emit_cost ?n \<and>
      denotes sec pub c (sec_count ?n, pub_count ?n, dcons sec pub 0 0 ?n, daux sec pub 0 0 ?n) \<and>
      cwire sec pub c root (dval sec pub 0 0 ?n)" for sec pub
    using emitsD [OF emits_policy [OF ws], of sec pub 0 0 "[]" "[]" Compiler_new] denotes_new
    by (force simp: cstep_def cext_def Compiler_new_def Builder_new_def)
  then obtain root c where em: "emit_policy into_bigint width ?n Compiler_new = (Inr root, c)"
    and nodes: "length (b_nodes (cb c)) \<le> emit_cost ?n" by blast
  have "denotes sec pub c (sec_count ?n, pub_count ?n, dcons sec pub 0 0 ?n, daux sec pub 0 0 ?n) \<and>
      cwire sec pub c root (dval sec pub 0 0 ?n)" for sec pub
    using run [of sec pub] em by auto
  from finish_denotes [OF this]
  obtain cp where "finish c root = Inr cp" "implements cp ?n" "length (c_nodes (cp_circuit cp)) \<le> 6000 * node_count ?n"
    using nodes cost small by (auto simp: implements_def)
  moreover have "policy_validate ?n = Inr ()" using assms by (simp add: policy_validate_iff)
  ultimately show ?thesis using em by (auto simp: compile_with_layout_def policy_normalize_def)
qed

lemma compile_implements:
  assumes "policy_valid (normalize_node p)"
  shows "\<exists>cp. compile_with_layout into_bigint width p = Inr cp \<and> implements cp (normalize_node p)"
  using compile_run [OF assms] by blast

lemma compiled_implements:
  assumes "compile_with_layout into_bigint width p = Inr cp"
  shows "policy_valid (normalize_node p)" "implements cp (normalize_node p)"
proof -
  show "policy_valid (normalize_node p)"
    using assms compile_with_layout_invalid [of p _ into_bigint width] policy_validate_iff [of "normalize_node p"]
    by (cases "policy_validate (normalize_node p)") auto
  then show "implements cp (normalize_node p)" using compile_implements [of p] assms by auto
qed

lemma compiled_size:
  assumes "compile_with_layout into_bigint width p = Inr cp"
  shows "length (c_nodes (cp_circuit cp)) \<le> 6000 * node_count (normalize_node p)"
  using compile_run [OF compiled_implements(1) [OF assms]] assms by auto

text \<open>Digits that are not boolean.\<close>

lemma half: "\<exists>h :: 'f. 2 * h = 1"
proof -
  have "(2 :: 'f) \<noteq> 0"
    using of_nat_eq_iff_lt [of 2 0] modulus_large by simp
  then show ?thesis using inverse_nonzero [of 2] by auto
qed

definition forged_digits :: "'f \<Rightarrow> 'f list" where
  "forged_digits h = 0 # replicate 8 h @ replicate 54 0 @ [- 1]"

lemma side_reconstruction_append:
  "side_reconstruction k (xs @ ys) = side_reconstruction k xs + side_reconstruction (k + length xs) (ys :: 'f list)"
  by (induction xs arbitrary: k) (simp_all add: side_reconstruction_Cons side_reconstruction_def [of _ "[]"] add.assoc)

lemma side_reconstruction_Nil [simp]: "side_reconstruction k [] = 0"
  by (simp add: side_reconstruction_def)

lemma side_reconstruction_zeros: "side_reconstruction k (replicate n 0) = (0 :: 'f)"
  by (simp add: side_reconstruction_def)

lemma forged_digits_ok:
  assumes "2 * h = 1"
  shows "side_booleanity (forged_digits h) = 0" "side_reconstruction 0 (forged_digits h) = 255 - 2 ^ 63"
proof -
  have "side_booleanity (forged_digits h) = 2 * (2 * h) * (2 - 2 * h) - 2"
    by (simp add: side_booleanity_def forged_digits_def eval_nat_numeral algebra_simps)
  then show "side_booleanity (forged_digits h) = 0" using assms by simp
  have "side_reconstruction 0 (forged_digits h) = (2 * h) * 255 - 2 ^ 63"
    unfolding forged_digits_def side_reconstruction_Cons side_reconstruction_append side_reconstruction_zeros
    by (simp add: side_reconstruction_Cons eval_nat_numeral algebra_simps)
  then show "side_reconstruction 0 (forged_digits h) = 255 - 2 ^ 63" using assms by simp
qed

end

section \<open>Binary digits\<close>

abbreviation digits_value :: "bool list \<Rightarrow> nat" where
  "digits_value bs \<equiv> horner_sum of_bool 2 bs"

lemma side_booleanity_bools: "side_booleanity (map of_bool bs) = 0"
  by (induction bs) (simp_all add: side_booleanity_def)

lemma side_reconstruction_bools:
  "side_reconstruction k (map of_bool bs) = (2 ^ k * of_nat (digits_value bs) :: 'f::comm_ring_1)"
proof (induction bs arbitrary: k)
  case Nil
  then show ?case by (simp add: side_reconstruction_def)
next
  case (Cons b bs)
  then show ?case by (simp add: side_reconstruction_Cons algebra_simps)
qed

lemma digits_value_less: "digits_value bs < 2 ^ length bs"
  by (induction bs) (auto simp: of_bool_def)

lemma decompose_nth: "i < 64 \<Longrightarrow> decompose v ! i = bit v i"
  by (simp add: decompose_def AMOUNT_BIT_LEN_def and_one_eq bit_iff_odd_drop_bit odd_iff_mod_2_eq_one)

lemma length_decompose [simp]: "length (decompose v) = 64"
  by (simp add: decompose_def AMOUNT_BIT_LEN_def)

lemma unat_u64_less: "unat (v :: u64) < 2 ^ 64"
proof -
  have "unat v < 2 ^ LENGTH(64)" by (rule unsigned_less)
  then show ?thesis by simp
qed

lemma digits_value_decompose: "digits_value (decompose v) = unat v"
proof -
  have "decompose v = map (bit (unat v)) [0..<64]"
    by (rule nth_equalityI) (simp_all add: decompose_nth bit_unsigned_iff)
  then have "digits_value (decompose v) = take_bit 64 (unat v)" by (simp add: horner_sum_bit_eq_take_bit)
  then show ?thesis using unat_u64_less [of v] by (simp add: take_bit_nat_eq_self)
qed

lemma unat_digits_value: "length bs = 64 \<Longrightarrow> unat (of_nat (digits_value bs) :: u64) = digits_value bs"
  using digits_value_less [of bs] by (simp add: unat_of_nat)

lemma decompose_digits_value:
  assumes "length bs = 64"
  shows "decompose (of_nat (digits_value bs)) = bs"
proof (rule nth_equalityI)
  show "length (decompose (of_nat (digits_value bs))) = length bs" using assms by simp
  fix i assume "i < length (decompose (of_nat (digits_value bs)))"
  then show "decompose (of_nat (digits_value bs)) ! i = bs ! i"
    using assms bit_unsigned_iff [of "of_nat (digits_value bs) :: u64" i, where ?'a = nat] unat_digits_value [OF assms]
    by (simp add: decompose_nth bit_horner_sum_bit_iff)
qed

text \<open>The digits an honest prover supplies.\<close>

definition amount_inputs :: "u64 \<Rightarrow> u64 \<Rightarrow> 'f::comm_ring_1 list" where
  "amount_inputs a l = of_nat (unat a) # map of_bool (decompose a @ decompose (l - a))"

lemma segment_append: "i = length xs \<Longrightarrow> segment (xs @ ys) i (length ys) = ys"
  by (intro nth_equalityI) (simp_all add: segment_def)

context compiler_field
begin

text \<open>With boolean digits the four equations say that the amount is within the limit.\<close>

lemma range_ok_bools:
  assumes "length vb = 64" "length db = 64"
  shows "range_ok v (of_nat (unat (l :: u64)) :: 'f) (map of_bool vb) (map of_bool db) \<longleftrightarrow>
    v = of_nat (digits_value vb) \<and> digits_value vb + digits_value db = unat l"
proof -
  let ?v = "digits_value vb" and ?d = "digits_value db"
  have lt: "?v + ?d < modulus" "unat l < modulus"
    using digits_value_less [of vb] digits_value_less [of db] assms unat_u64_less [of l] modulus_large by simp_all
  have "of_nat ?d = (of_nat (unat l) - of_nat ?v :: 'f) \<longleftrightarrow> of_nat (?v + ?d) = (of_nat (unat l) :: 'f)"
    by (auto simp: eq_diff_eq add.commute)
  also have "\<dots> \<longleftrightarrow> ?v + ?d = unat l" using lt by (rule of_nat_eq_iff_lt)
  finally have eq: "of_nat ?d = (of_nat (unat l) - of_nat ?v :: 'f) \<longleftrightarrow> ?v + ?d = unat l" .
  show ?thesis
    unfolding range_ok_def side_booleanity_bools side_reconstruction_bools using eq by auto
qed

lemma range_ok_decompose:
  "range_ok (of_nat (unat a)) (of_nat (unat l) :: 'f) (map of_bool (decompose a)) (map of_bool (decompose (l - a))) \<longleftrightarrow> a \<le> l"
proof -
  have "unat a + unat (l - a) = unat l \<longleftrightarrow> a \<le> l"
  proof
    assume "unat a + unat (l - a) = unat l"
    then show "a \<le> l" by (simp add: word_le_nat_alt)
  next
    assume "a \<le> l"
    then show "unat a + unat (l - a) = unat l" by (simp add: unat_sub word_le_nat_alt)
  qed
  then show ?thesis using range_ok_bools [of "decompose a" "decompose (l - a)" "of_nat (unat a)" l]
    unfolding digits_value_decompose by (simp only: length_decompose simp_thms)
qed

lemma dval_amount:
  "length sec = 129 \<Longrightarrow> dval sec pub 0 0 (AmountAtMost l) =
     of_bool (range_ok (hd sec) (hd (pub :: 'f list)) (take 64 (tl sec)) (drop 64 (tl sec)))" if "pub \<noteq> []"
proof -
  assume len: "length sec = 129"
  have "segment sec (0 + 1) 64 = take 64 (tl sec)" "segment sec (0 + 65) 64 = drop 64 (tl sec)"
    using len by (auto simp: segment_def nth_tl intro!: nth_equalityI)
  moreover have "sec ! 0 = hd sec" "pub ! 0 = hd pub" using len that by (cases sec; cases pub; simp)+
  ultimately show ?thesis by simp
qed

lemma amount_policy_normal: "policy_valid (normalize_node (AmountAtMost l))" "normalize_node (AmountAtMost l) = AmountAtMost l"
  by (simp_all add: policy_valid_def MAX_POLICY_DEPTH_def MAX_POLICY_NODES_def MAX_CREDENTIAL_COUNT_def)

lemma compile_amount:
  obtains cp where "compile_with_layout into_bigint width (AmountAtMost l) = Inr cp"
    "\<And>sec v. length sec = 129 \<Longrightarrow> evaluate_reference (cp_circuit cp) sec [v :: 'f] =
       Inr [of_bool (range_ok (hd sec) v (take 64 (tl sec)) (drop 64 (tl sec)))]"
proof -
  obtain cp where "compile_with_layout into_bigint width (AmountAtMost l) = Inr cp" and "implements cp (AmountAtMost l)"
    using compile_implements [OF amount_policy_normal(1)] unfolding amount_policy_normal by blast
  moreover have "evaluate_reference (cp_circuit cp) sec [v] =
      Inr [of_bool (range_ok (hd sec) v (take 64 (tl sec)) (drop 64 (tl sec)))]" if "length sec = 129" for sec v
    using implements_evaluate [OF calculation(2), of sec "[v]"] dval_amount [of "[v]" sec l] that
    by (simp del: dval.simps)
  ultimately show thesis using that by blast
qed

lemma bool_digits: "set xs \<subseteq> {0, 1} \<Longrightarrow> \<exists>bs. xs = map of_bool bs \<and> length bs = length (xs :: 'f list)"
proof (induction xs)
  case (Cons x xs)
  then obtain bs where "xs = map of_bool bs" "length bs = length xs" by auto
  then show ?case using Cons.prems by (intro exI [of _ "(x = 1) # bs"]) auto
qed simp

lemma range_check_bools:
  assumes "length sec = 129" "set (tl sec) \<subseteq> {0, 1}"
  shows "range_ok (hd sec) (of_nat (unat l) :: 'f) (take 64 (tl sec)) (drop 64 (tl sec)) \<longleftrightarrow>
    (\<exists>a\<le>l. sec = amount_inputs a l)"
proof
  assume "\<exists>a\<le>l. sec = amount_inputs a l"
  then show "range_ok (hd sec) (of_nat (unat l)) (take 64 (tl sec)) (drop 64 (tl sec))"
    using range_ok_decompose by (auto simp: amount_inputs_def)
next
  assume r: "range_ok (hd sec) (of_nat (unat l)) (take 64 (tl sec)) (drop 64 (tl sec))"
  obtain bs where bs: "tl sec = map of_bool bs" "length bs = 128" using bool_digits [OF assms(2)] assms(1) by auto
  define vb db where "vb = take 64 bs" and "db = drop 64 bs"
  have len: "length vb = 64" "length db = 64" using bs by (simp_all add: vb_def db_def)
  define a :: u64 where "a = of_nat (digits_value vb)"
  have "range_ok (hd sec) (of_nat (unat l)) (map of_bool vb) (map of_bool db)"
    using r by (simp add: bs vb_def db_def take_map drop_map)
  then have v: "hd sec = of_nat (digits_value vb)" and d: "digits_value vb + digits_value db = unat l"
    using range_ok_bools [OF len] by blast+
  have a: "unat a = digits_value vb" unfolding a_def using len(1) by (rule unat_digits_value)
  then have le: "a \<le> l" using d by (simp add: word_le_nat_alt)
  have "unat (l - a) = digits_value db" using d a le by (simp add: unat_sub)
  then have "l - a = of_nat (digits_value db)" by (metis of_nat_unat ucast_id)
  then have db: "decompose (l - a) = db" using decompose_digits_value [OF len(2)] by simp
  have vb: "decompose a = vb" unfolding a_def using len(1) by (rule decompose_digits_value)
  have "sec = hd sec # tl sec" using assms(1) by (cases sec) auto
  also have "\<dots> = amount_inputs a l"
    using a v bs(1) db vb by (simp add: amount_inputs_def vb_def db_def flip: map_append)
  finally show "\<exists>a\<le>l. sec = amount_inputs a l" using le by blast
qed

lemma range_check_forged:
  assumes l: "unat l < 2 ^ 63"
  shows "\<exists>sec. length sec = 129 \<and> hd sec = of_nat (unat l + 2 ^ 63 - 255) \<and>
    range_ok (hd sec) (of_nat (unat l) :: 'f) (take 64 (tl sec)) (drop 64 (tl sec))"
proof -
  obtain h :: 'f where h: "2 * h = 1" using half by blast
  define a :: u64 where "a = of_nat (unat l + 2 ^ 63 - 255)"
  have "unat l + 2 ^ 63 - 255 < 2 ^ LENGTH(64)" using l by simp
  then have a: "unat a = unat l + 2 ^ 63 - 255" unfolding a_def unat_of_nat by (rule mod_less)
  let ?sec = "of_nat (unat a) # map of_bool (decompose a) @ forged_digits h"
  have "of_nat (unat l) - of_nat (unat a) = (255 - 2 ^ 63 :: 'f)"
    unfolding a by (simp add: of_nat_diff)
  then have "range_ok (hd ?sec) (of_nat (unat l)) (take 64 (tl ?sec)) (drop 64 (tl ?sec))"
    using forged_digits_ok [OF h] side_reconstruction_bools [of 0 "decompose a", where ?'f = 'f]
    by (simp add: range_ok_def side_booleanity_bools digits_value_decompose)
  moreover have "length ?sec = 129" by (simp add: forged_digits_def)
  ultimately show ?thesis using a by (intro exI [of _ ?sec]) simp
qed

end

section \<open>Properties\<close>

text \<open>C13: compilation is correct and total. If the normalised policy is valid, compilation succeeds (the
  circuit stays far below the \<open>2 ^ 32\<close> nodes the builder can number), the circuit passes
  \<open>validate\<close>, and on all inputs of the right number, honest or not, its outputs are the constraint
  values and the root value that the denotation gives; otherwise compilation returns the validation
  error of the normalised policy. That the policy itself is valid is not enough: normalisation can exceed the child
  limit or put one credential twice into a threshold.\<close>

theorem compile_correct:
  assumes field: "compiler_field modulus into_bigint inverse_op width"
  shows "case policy_validate (normalize_node p) of
      Inl e \<Rightarrow> compile_with_layout into_bigint width p = Inl e
    | Inr _ \<Rightarrow> \<exists>cp. compile_with_layout into_bigint width p = Inr cp \<and> compile into_bigint width p = Inr (cp_circuit cp) \<and>
        validate (cp_circuit cp) = Inr () \<and>
        (\<forall>sec pub. length sec = sec_count (normalize_node p) \<longrightarrow> length pub = pub_count (normalize_node p) \<longrightarrow>
          evaluate_reference (cp_circuit cp) sec pub =
            Inr (dcons sec pub 0 0 (normalize_node p) @ [dval sec pub 0 0 (normalize_node p)]))"
proof (cases "policy_validate (normalize_node p)")
  case (Inl e)
  then show ?thesis by (simp add: compile_with_layout_invalid)
next
  case (Inr u)
  then have "policy_valid (normalize_node p)" by (simp add: policy_validate_iff)
  then obtain cp where cp: "compile_with_layout into_bigint width p = Inr cp" "implements cp (normalize_node p)"
    using compiler_field.compile_implements [OF field] by blast
  then have "validate (cp_circuit cp) = Inr ()" by (simp add: implements_def validate_iff)
  then show ?thesis using Inr cp implements_evaluate [OF cp(2)] by (auto simp: compile_def)
qed

text \<open>C36: the amount leaf is exact for boolean digits. The compiled circuit of \<open>AmountAtMost l\<close>
  outputs 1 on an input whose 128 digits are 0 or 1 exactly when the input is that of an honest
  prover with an amount of at most \<open>l\<close>: the 64-bit decompositions leave no room for wrap-around in
  the field.\<close>

theorem range_check_exact:
  assumes field: "compiler_field modulus into_bigint inverse_op width"
    and sec: "length sec = 129" "set (tl sec) \<subseteq> {0, 1 :: 'f::comm_ring_1}"
  shows "\<exists>cp. compile_with_layout into_bigint width (AmountAtMost l) = Inr cp \<and>
    (evaluate_reference (cp_circuit cp) sec [of_nat (unat l)] = Inr [1] \<longleftrightarrow> (\<exists>a\<le>l. sec = amount_inputs a l))"
proof -
  obtain cp where cp: "compile_with_layout into_bigint width (AmountAtMost l) = Inr cp"
    "\<And>sec v. length sec = 129 \<Longrightarrow> evaluate_reference (cp_circuit cp) sec [v] =
       Inr [of_bool (range_ok (hd sec) v (take 64 (tl sec)) (drop 64 (tl sec)))]"
    using compiler_field.compile_amount [OF field] by metis
  then show ?thesis using sec compiler_field.range_check_bools [OF field sec] by auto
qed

text \<open>C37: the booleanity constraint of the range check is not sound for a dishonest prover. It adds up
  \<open>b (1 - b)\<close> over the digits, and the terms of digits that are not boolean can cancel: eight digits
  \<open>1 / 2\<close> and one digit \<open>-1\<close> do. For every limit below \<open>2 ^ 63\<close> there are secret inputs that carry an
  amount \<open>2 ^ 63 - 255\<close> above the limit and on which the circuit outputs 1.\<close>

theorem range_check_forgeable:
  assumes field: "compiler_field modulus (into_bigint :: 'f::comm_ring_1 \<Rightarrow> nat) inverse_op width" and l: "unat l < 2 ^ 63"
  shows "\<exists>cp sec. compile_with_layout into_bigint width (AmountAtMost l) = Inr cp \<and>
    hd sec = of_nat (unat l + 2 ^ 63 - 255) \<and> evaluate_reference (cp_circuit cp) sec [of_nat (unat l)] = Inr [1]"
proof -
  obtain cp where cp: "compile_with_layout into_bigint width (AmountAtMost l) = Inr cp"
    "\<And>sec v. length sec = 129 \<Longrightarrow> evaluate_reference (cp_circuit cp) sec [v] =
       Inr [of_bool (range_ok (hd sec) v (take 64 (tl sec)) (drop 64 (tl sec)))]"
    using compiler_field.compile_amount [OF field] by metis
  obtain sec :: "'f list" where "length sec = 129" "hd sec = of_nat (unat l + 2 ^ 63 - 255)"
    "range_ok (hd sec) (of_nat (unat l)) (take 64 (tl sec)) (drop 64 (tl sec))"
    using compiler_field.range_check_forged [OF field l] by blast
  then show ?thesis using cp by (intro exI [of _ cp] exI [of _ sec]) simp
qed

text \<open>C39: size of compiled circuits. A compiled circuit has at most 6000 nodes for each node of the normalised
  policy, one amount leaf with its two 64-bit decompositions being the largest. Within the policy limits this
  is less than \<open>2 ^ 26\<close>, so that numbering nodes with 32 bits never wraps.\<close>

theorem compiled_circuit_size:
  assumes "compiler_field modulus into_bigint inverse_op width" and cp: "compile_with_layout into_bigint width p = Inr cp"
  shows "length (c_nodes (cp_circuit cp)) \<le> 6000 * node_count (normalize_node p) \<and> length (c_nodes (cp_circuit cp)) < 2 ^ 26 \<and>
    (\<forall>i<length (c_nodes (cp_circuit cp)). unat (of_nat i :: u32) = i)"
proof -
  have small: "node_count (normalize_node p) \<le> 10000"
    using compiler_field.compiled_implements(1) [OF assms] by (simp add: policy_valid_def MAX_POLICY_NODES_def)
  moreover have "length (c_nodes (cp_circuit cp)) \<le> 6000 * node_count (normalize_node p)"
    by (rule compiler_field.compiled_size [OF assms])
  ultimately show ?thesis by (simp add: unat_of_nat)
qed

section \<open>Witnesses\<close>

interpretation fp_compiler: compiler_field fp_modulus fp_into_bigint fp_inverse 16
  by unfold_locales (simp_all add: fp_modulus_def)

lemmas fp_compiler_field = fp_compiler.compiler_field_axioms

theorem compile_correct_witness:
  "\<exists>cp. compile_with_layout fp_into_bigint 16 (Credential (replicate 32 7)) = Inr cp \<and>
     validate (cp_circuit cp) = Inr () \<and>
     evaluate_reference (cp_circuit cp) [5] [5 :: fp] = Inr [1] \<and> evaluate_reference (cp_circuit cp) [5] [6] = Inr [0]"
proof -
  have v: "policy_validate (normalize_node (Credential (replicate 32 7))) = Inr ()"
    by (simp add: policy_validate_iff policy_valid_def credential_is_zero_def CREDENTIAL_ID_LEN_def
      MAX_POLICY_DEPTH_def MAX_POLICY_NODES_def MAX_CREDENTIAL_COUNT_def)
  have ne: "(5 :: fp) \<noteq> 6" using fp_ops.of_nat_eq_iff_lt [of 5 6] by (simp add: fp_modulus_def)
  from compile_correct [OF fp_compiler_field, of "Credential (replicate 32 7)", unfolded v]
  obtain cp where cp: "compile_with_layout fp_into_bigint 16 (Credential (replicate 32 7)) = Inr cp"
    "validate (cp_circuit cp) = Inr ()" and
    e: "\<And>sec pub. length sec = 1 \<Longrightarrow> length pub = 1 \<Longrightarrow>
      evaluate_reference (cp_circuit cp) sec pub = Inr [of_bool (sec ! 0 = pub ! 0)]" by auto
  from e [of "[5]" "[5]"] e [of "[5]" "[6]"] ne cp show ?thesis by auto
qed

theorem range_check_exact_witness:
  "\<exists>cp. compile_with_layout fp_into_bigint 16 (AmountAtMost 5) = Inr cp \<and>
     evaluate_reference (cp_circuit cp) (amount_inputs 3 5) [5 :: fp] = Inr [1]"
proof -
  have "length (amount_inputs 3 5 :: fp list) = 129" "set (tl (amount_inputs 3 5 :: fp list)) \<subseteq> {0, 1}"
    by (auto simp: amount_inputs_def)
  moreover have "\<exists>a\<le>5. (amount_inputs 3 5 :: fp list) = amount_inputs a 5"
    by (intro exI [of _ 3]) (simp add: word_le_nat_alt)
  ultimately
  obtain cp where "compile_with_layout fp_into_bigint 16 (AmountAtMost 5) = Inr cp"
    "evaluate_reference (cp_circuit cp) (amount_inputs 3 5) [of_nat (unat (5 :: u64))] = Inr [1 :: fp]"
    using range_check_exact [OF fp_compiler_field, of "amount_inputs 3 5" 5] by blast
  then show ?thesis by auto
qed

theorem range_check_forgeable_witness:
  "\<exists>cp sec. compile_with_layout fp_into_bigint 16 (AmountAtMost 100) = Inr cp \<and>
     hd sec = (9223372036854775653 :: fp) \<and> evaluate_reference (cp_circuit cp) sec [100] = Inr [1]"
  using range_check_forgeable [OF fp_compiler_field, of 100] by auto

theorem compiled_circuit_size_witness:
  "\<exists>cp :: fp compiled_policy. compile_with_layout fp_into_bigint 16 (AmountAtMost 5) = Inr cp \<and> length (c_nodes (cp_circuit cp)) \<le> 6000"
proof -
  have "policy_valid (normalize_node (AmountAtMost 5))"
    by (simp add: policy_valid_def MAX_POLICY_DEPTH_def MAX_POLICY_NODES_def MAX_CREDENTIAL_COUNT_def)
  then obtain cp where cp: "compile_with_layout fp_into_bigint 16 (AmountAtMost 5) = Inr cp"
    using fp_compiler.compile_run by blast
  from compiled_circuit_size [OF fp_compiler_field cp] cp show ?thesis by auto
qed

end
