(* ===== verification/Compiler_Inputs.thy ===== *)
theory Compiler_Inputs
  imports Compiler_Correct
begin

text \<open>
  The inputs \<open>build_inputs\<close> makes from a witness, and the agreement of the circuit with the native
  evaluator. The auxiliary inputs are the solution of a triangular system: the discriminant of a
  threshold depends only on inputs before its own auxiliary input. The fixpoint loop of
  \<open>build_inputs\<close> solves it within its bound, and on the solution the circuit outputs the verdict.
\<close>

section \<open>The meaning the circuit tests\<close>

text \<open>As \<open>sat\<close>, but credentials are compared with \<open>same\<close> (equality of residues in the circuit) and a
  missing amount counts as 0.\<close>

definition amount_of :: "policy_witness \<Rightarrow> u64" where
  "amount_of w = (case w_amount w of Some a \<Rightarrow> a | None \<Rightarrow> 0)"

fun csat :: "(bytes \<Rightarrow> bytes \<Rightarrow> bool) \<Rightarrow> (bytes \<Rightarrow> bytes) \<Rightarrow> policy_witness \<Rightarrow> policy \<Rightarrow> bool" where
  "csat same sha256 w (AmountAtMost limit) = (amount_of w \<le> limit)"
| "csat same sha256 w (Credential cid) =
     (\<exists>secret. secret_for w cid = Some secret \<and> same (digest_bytes (credential_commitment sha256 secret)) cid)"
| "csat same sha256 w (Threshold k members) = (unat k \<le> length (filter (csat same sha256 w) members))"
| "csat same sha256 w (And members) = (\<forall>m\<in>set members. csat same sha256 w m)"
| "csat same sha256 w (Or members) = (\<exists>m\<in>set members. csat same sha256 w m)"

lemma length_filter_mono: "(\<And>x. x \<in> set xs \<Longrightarrow> P x \<Longrightarrow> Q x) \<Longrightarrow> length (filter P xs) \<le> length (filter Q xs)"
  by (induction xs) (auto simp: le_Suc_eq)

lemma sat_imp_csat:
  assumes "\<And>x. same x x"
  shows "sat sha256 w p \<Longrightarrow> csat same sha256 w p"
proof (induction p)
  case (Threshold k ms)
  then show ?case using length_filter_mono [of ms "sat sha256 w" "csat same sha256 w"] by force
qed (auto simp: amount_of_def assms)

lemma csat_imp_sat:
  assumes "witness_fits w p"
    and "\<And>cid s. cid \<in> set (policy_credentials p) \<Longrightarrow> secret_for w cid = Some s \<Longrightarrow>
      same (digest_bytes (credential_commitment sha256 s)) cid \<Longrightarrow> digest_bytes (credential_commitment sha256 s) = cid"
  shows "csat same sha256 w p \<Longrightarrow> sat sha256 w p"
  using assms
proof (induction p)
  case (AmountAtMost l)
  then show ?case by (auto simp: amount_of_def witness_fits_def)
next
  case (Threshold k ms)
  have fits: "witness_fits w m" if "m \<in> set ms" for m
    using Threshold.prems(2) that by (auto simp: witness_fits_def)
  have "csat same sha256 w m \<Longrightarrow> sat sha256 w m" if "m \<in> set ms" for m
    using Threshold.IH [OF that _ fits [OF that]] Threshold.prems(3) that by auto
  then have "length (filter (csat same sha256 w) ms) \<le> length (filter (sat sha256 w) ms)"
    by (rule length_filter_mono)
  then show ?case using Threshold.prems(1) by simp
next
  case (And ms)
  have fits: "witness_fits w m" if "m \<in> set ms" for m using And.prems(2) that by (auto simp: witness_fits_def)
  have "csat same sha256 w m \<Longrightarrow> sat sha256 w m" if "m \<in> set ms" for m
    using And.IH [OF that _ fits [OF that]] And.prems(3) that by auto
  then show ?case using And.prems(1) by simp
next
  case (Or ms)
  have fits: "witness_fits w m" if "m \<in> set ms" for m using Or.prems(2) that by (auto simp: witness_fits_def)
  have "csat same sha256 w m \<Longrightarrow> sat sha256 w m" if "m \<in> set ms" for m
    using Or.IH [OF that _ fits [OF that]] Or.prems(3) that by auto
  then show ?case using Or.prems(1) by auto
qed auto

section \<open>Filled inputs\<close>

fun fsecs :: "(bytes \<Rightarrow> bytes) \<Rightarrow> policy_witness \<Rightarrow> policy \<Rightarrow> 'f::comm_ring_1 list" where
  "fsecs sha256 w (AmountAtMost l) = amount_inputs (amount_of w) l"
| "fsecs sha256 w (Credential cid) =
     [digest_to_field (digest_bytes (credential_commitment sha256 (the (secret_for w cid))))]"
| "fsecs sha256 w (Threshold k ms) = concat (map (fsecs sha256 w) ms) @ [0]"
| "fsecs sha256 w (And ms) = concat (map (fsecs sha256 w) ms)"
| "fsecs sha256 w (Or ms) = concat (map (fsecs sha256 w) ms)"

fun fpubs :: "policy \<Rightarrow> 'f::comm_ring_1 list" where
  "fpubs (AmountAtMost l) = [of_nat (unat l)]"
| "fpubs (Credential cid) = [digest_to_field cid]"
| "fpubs (Threshold k ms) = concat (map fpubs ms)"
| "fpubs (And ms) = concat (map fpubs ms)"
| "fpubs (Or ms) = concat (map fpubs ms)"

lemma length_amount_inputs [simp]: "length (amount_inputs a l) = 129"
  by (simp add: amount_inputs_def)

lemma length_fsecs [simp]: "length (fsecs sha256 w p) = sec_count p"
  by (induction p) (simp_all add: length_concat comp_def cong: map_cong)

lemma length_fpubs [simp]: "length (fpubs p) = pub_count p"
  by (induction p) (simp_all add: length_concat comp_def cong: map_cong)

lemma fill_members_eq:
  assumes "\<And>m (st :: 'f::comm_ring_1 list \<times> 'f list \<times> nat list). m \<in> set ms \<Longrightarrow> fill sha256 w m st =
      Inr (fst st @ fsecs sha256 w m, fst (snd st) @ fpubs m, snd (snd st) @ aux_pos (length (fst st)) m)"
  shows "fill_members sha256 w ms (st :: 'f list \<times> 'f list \<times> nat list) =
    Inr (fst st @ concat (map (fsecs sha256 w) ms), fst (snd st) @ concat (map fpubs ms), snd (snd st) @ aux_poss (length (fst st)) ms)"
  using assms
proof (induction ms arbitrary: st)
  case (Cons m ms)
  have "fill sha256 w m st = Inr (fst st @ fsecs sha256 w m, fst (snd st) @ fpubs m, snd (snd st) @ aux_pos (length (fst st)) m)"
    using Cons.prems by simp
  then show ?case using Cons.IH [of "(fst st @ fsecs sha256 w m, fst (snd st) @ fpubs m, snd (snd st) @ aux_pos (length (fst st)) m)"]
      Cons.prems by simp
qed simp

lemma fill_eq:
  "\<forall>cid\<in>set (policy_credentials p). secret_for w cid \<noteq> None \<Longrightarrow>
   fill sha256 w p st =
     Inr (fst st @ fsecs sha256 w p, fst (snd st) @ fpubs p, snd (snd st) @ aux_pos (length (fst st)) p)"
proof (induction p arbitrary: st)
  case (AmountAtMost l)
  then show ?case by (cases st) (simp add: Let_def amount_inputs_def amount_of_def)
next
  case (Credential cid)
  then show ?case by (cases st) auto
next
  case (Threshold k ms)
  then have "fill_members sha256 w ms st =
    Inr (fst st @ concat (map (fsecs sha256 w) ms), fst (snd st) @ concat (map fpubs ms), snd (snd st) @ aux_poss (length (fst st)) ms)"
    by (intro fill_members_eq) auto
  then show ?case by (simp add: length_concat comp_def)
next
  case (And ms)
  then have "fill_members sha256 w ms st =
    Inr (fst st @ concat (map (fsecs sha256 w) ms), fst (snd st) @ concat (map fpubs ms), snd (snd st) @ aux_poss (length (fst st)) ms)"
    by (intro fill_members_eq) auto
  then show ?case by simp
next
  case (Or ms)
  then have "fill_members sha256 w ms st =
    Inr (fst st @ concat (map (fsecs sha256 w) ms), fst (snd st) @ concat (map fpubs ms), snd (snd st) @ aux_poss (length (fst st)) ms)"
    by (intro fill_members_eq) auto
  then show ?case by simp
qed

section \<open>The triangular system\<close>

lemma aux_poss_range_members:
  "(\<And>m i. m \<in> set ms \<Longrightarrow> sorted_wrt (<) (aux_pos i m) \<and> set (aux_pos i m) \<subseteq> {i..<i + sec_count m}) \<Longrightarrow>
   sorted_wrt (<) (aux_poss i ms) \<and> set (aux_poss i ms) \<subseteq> {i..<i + secs ms}"
proof (induction ms arbitrary: i)
  case (Cons m ms)
  have m: "sorted_wrt (<) (aux_pos i m)" "set (aux_pos i m) \<subseteq> {i..<i + sec_count m}" using Cons.prems by auto
  have ms: "sorted_wrt (<) (aux_poss (i + sec_count m) ms)"
    "set (aux_poss (i + sec_count m) ms) \<subseteq> {i + sec_count m..<i + sec_count m + secs ms}"
    using Cons.IH [of "i + sec_count m"] Cons.prems by auto
  have "x < y" if "x \<in> set (aux_pos i m)" "y \<in> set (aux_poss (i + sec_count m) ms)" for x y
    using that m(2) ms(2) by fastforce
  then show ?case using m ms by (fastforce simp: sorted_wrt_append)
qed simp

lemma aux_pos_range: "sorted_wrt (<) (aux_pos i p) \<and> set (aux_pos i p) \<subseteq> {i..<i + sec_count p}"
proof (induction p arbitrary: i)
  case (Threshold k ms)
  then show ?case using aux_poss_range_members [of ms i] by (fastforce simp: sorted_wrt_append)
qed (auto simp: aux_poss_range_members)

lemmas aux_poss_range = aux_poss_range_members [OF aux_pos_range]

definition agree :: "nat \<Rightarrow> 'f list \<Rightarrow> 'f list \<Rightarrow> bool" where
  "agree n S S' \<longleftrightarrow> (\<forall>k<n. S ! k = S' ! k)"

lemma agree_mono: "agree n S S' \<Longrightarrow> m \<le> n \<Longrightarrow> agree m S S'"
  by (simp add: agree_def)

lemma agree_segment: "agree n S S' \<Longrightarrow> i + k \<le> n \<Longrightarrow> segment S i k = segment S' i k"
  by (simp add: agree_def segment_def)

lemma dvals_agree_members:
  "(\<And>m i j. m \<in> set ms \<Longrightarrow> agree (i + sec_count m) S S' \<Longrightarrow> dval S P i j m = dval S' P i j m) \<Longrightarrow>
   agree (i + secs ms) S S' \<Longrightarrow> dvals S P i j ms = dvals S' P i j ms"
proof (induction ms arbitrary: i j)
  case (Cons m ms)
  have "dval S P i j m = dval S' P i j m"
    using Cons.prems agree_mono [OF Cons.prems(2), of "i + sec_count m"] by simp
  moreover have "dvals S P (i + sec_count m) (j + pub_count m) ms = dvals S' P (i + sec_count m) (j + pub_count m) ms"
    using Cons.prems by (intro Cons.IH) (auto simp: add.assoc)
  ultimately show ?case by simp
qed simp

lemma dval_agree: "agree (i + sec_count p) S S' \<Longrightarrow> dval S P i j p = dval S' P i j p"
proof (induction p arbitrary: i j)
  case (AmountAtMost l)
  then have "S ! i = S' ! i" "segment S (i + 1) 64 = segment S' (i + 1) 64" "segment S (i + 65) 64 = segment S' (i + 65) 64"
    by (simp add: agree_def) (rule agree_segment [OF AmountAtMost], simp)+
  then show ?case by simp
next
  case (Credential cid)
  then show ?case by (simp add: agree_def)
next
  case (Threshold k ms)
  then have "dvals S P i j ms = dvals S' P i j ms"
    using agree_mono [OF Threshold.prems, of "i + secs ms"] by (intro dvals_agree_members) auto
  then show ?case using Threshold.prems by (simp add: agree_def)
next
  case (And ms)
  then have "dvals S P i j ms = dvals S' P i j ms" by (intro dvals_agree_members) auto
  then show ?case by simp
next
  case (Or ms)
  then have "dvals S P i j ms = dvals S' P i j ms" by (intro dvals_agree_members) auto
  then show ?case by simp
qed

lemma dvals_agree: "agree (i + secs ms) S S' \<Longrightarrow> dvals S P i j ms = dvals S' P i j ms"
  by (intro dvals_agree_members dval_agree)

lemma length_dauxs_members:
  "(\<And>m i j. m \<in> set ms \<Longrightarrow> length (daux S P i j m) = length (aux_pos i m)) \<Longrightarrow>
   length (dauxs S P i j ms) = length (aux_poss i ms)"
  by (induction ms arbitrary: i j) simp_all

lemma length_daux: "length (daux S P i j p) = length (aux_pos i p)"
  by (induction p arbitrary: i j) (simp_all add: length_dauxs_members)

lemma length_dauxs: "length (dauxs S P i j ms) = length (aux_poss i ms)"
  by (simp add: length_dauxs_members length_daux)

text \<open>A discriminant depends on the inputs before its auxiliary input only.\<close>

definition dep :: "'f list \<Rightarrow> 'f list \<Rightarrow> nat \<Rightarrow> 'f \<times> 'f \<Rightarrow> bool" where
  "dep S S' q dd \<longleftrightarrow> (agree q S S' \<longrightarrow> fst dd = snd dd)"

lemma dep_iff: "dep S S' q (d, d') \<longleftrightarrow> (agree q S S' \<longrightarrow> d = d')"
  by (simp add: dep_def)

lemma dauxs_dep_members:
  "(\<And>m i j. m \<in> set ms \<Longrightarrow> list_all2 (dep S S') (aux_pos i m) (zip (daux S P i j m) (daux S' P i j m))) \<Longrightarrow>
   list_all2 (dep S S') (aux_poss i ms) (zip (dauxs S P i j ms) (dauxs S' P i j ms))"
proof (induction ms arbitrary: i j)
  case (Cons m ms)
  have "zip (dauxs S P i j (m # ms)) (dauxs S' P i j (m # ms)) = zip (daux S P i j m) (daux S' P i j m) @
    zip (dauxs S P (i + sec_count m) (j + pub_count m) ms) (dauxs S' P (i + sec_count m) (j + pub_count m) ms)"
    by (simp add: zip_append length_daux)
  then show ?case using Cons by (auto intro!: list_all2_appendI)
qed simp

lemma daux_dep: "list_all2 (dep S S') (aux_pos i p) (zip (daux S P i j p) (daux S' P i j p))"
proof (induction p arbitrary: i j)
  case (Threshold k ms)
  then have "list_all2 (dep S S') (aux_poss i ms) (zip (dauxs S P i j ms) (dauxs S' P i j ms))"
    by (rule dauxs_dep_members)
  then show ?case using dvals_agree [of i ms S S' P j]
    by (auto simp: length_dauxs dep_iff intro!: list_all2_appendI)
qed (auto simp: dauxs_dep_members)

lemma daux_dep_nth:
  assumes "k < length (aux_pos i p)" "agree (aux_pos i p ! k) S S'"
  shows "daux S P i j p ! k = daux S' P i j p ! k"
  using list_all2_nthD [OF daux_dep assms(1), of S S' P j] assms by (simp add: dep_def length_daux)


section \<open>The fixpoint loop\<close>

definition inv0 :: "('f::comm_ring_1 \<Rightarrow> 'f option) \<Rightarrow> 'f \<Rightarrow> 'f" where
  "inv0 inverse_op d = (case inverse_op d of Some y \<Rightarrow> y | None \<Rightarrow> 0)"

fun set_all :: "(nat \<times> 'f) list \<Rightarrow> 'f list \<Rightarrow> 'f list" where
  "set_all [] S = S"
| "set_all ((q, d) # qds) S = set_all qds (S[q := d])"

lemma length_set_all [simp]: "length (set_all qds S) = length S"
  by (induction qds S rule: set_all.induct) simp_all

lemma set_all_other: "q \<notin> fst ` set qds \<Longrightarrow> set_all qds S ! q = S ! q"
  by (induction qds S rule: set_all.induct) auto

lemma set_all_nth:
  "distinct (map fst qds) \<Longrightarrow> (q, d) \<in> set qds \<Longrightarrow> q < length S \<Longrightarrow> set_all qds S ! q = d"
  by (induction qds S rule: set_all.induct) (auto simp: set_all_other)

text \<open>One pass writes the inverses; without a change they were there already.\<close>

lemma aux_pass_eq:
  assumes "\<forall>t\<in>set ts. as_usize t < length vals" "\<forall>q\<in>set qs. q < length S" "length qs = length ts"
  shows "\<exists>ch'. aux_pass inverse_op vals (zip qs ts) S ch =
      Inr (set_all (zip qs (map (\<lambda>t. inv0 inverse_op (vals ! as_usize t)) ts)) S, ch') \<and>
    (\<not> ch' \<longrightarrow> \<not> ch \<and> set_all (zip qs (map (\<lambda>t. inv0 inverse_op (vals ! as_usize t)) ts)) S = S)"
  using assms
proof (induction qs arbitrary: ts S ch)
  case (Cons q qs)
  then obtain t ts' where ts: "ts = t # ts'" by (cases ts) auto
  let ?d = "inv0 inverse_op (vals ! as_usize t)"
  have d: "(case inverse_op (vals ! as_usize t) of None \<Rightarrow> 0 | Some d \<Rightarrow> d) = ?d" by (simp add: inv0_def)
  show ?case
  proof (cases "S ! q = ?d")
    case True
    then have "S[q := ?d] = S" by (metis list_update_id)
    then show ?thesis using Cons.IH [of ts' S ch] Cons.prems True by (simp add: ts Let_def d)
  next
    case False
    then show ?thesis using Cons.IH [of ts' "S[q := ?d]" True] Cons.prems by (auto simp: ts Let_def d)
  qed
qed simp

definition solved :: "('f::comm_ring_1 \<Rightarrow> 'f option) \<Rightarrow> 'f list \<Rightarrow> policy \<Rightarrow> nat \<Rightarrow> 'f list \<Rightarrow> bool" where
  "solved inverse_op P p r S \<longleftrightarrow>
     (\<forall>k<length (aux_pos 0 p). k < r \<longrightarrow> S ! (aux_pos 0 p ! k) = inv0 inverse_op (daux S P 0 0 p ! k))"

definition pass :: "('f::comm_ring_1 \<Rightarrow> 'f option) \<Rightarrow> 'f list \<Rightarrow> policy \<Rightarrow> 'f list \<Rightarrow> 'f list" where
  "pass inverse_op P p S = set_all (zip (aux_pos 0 p) (map (inv0 inverse_op) (daux S P 0 0 p))) S"

lemma length_pass [simp]: "length (pass inverse_op P p S) = length S"
  by (simp add: pass_def)

lemma pass_nth:
  assumes "k < length (aux_pos 0 p)" "length S = sec_count p"
  shows "pass inverse_op P p S ! (aux_pos 0 p ! k) = inv0 inverse_op (daux S P 0 0 p ! k)"
  unfolding pass_def
proof (rule set_all_nth)
  show "distinct (map fst (zip (aux_pos 0 p) (map (inv0 inverse_op) (daux S P 0 0 p))))"
    using aux_pos_range [of 0 p] by (simp add: length_daux strict_sorted_iff)
  show "(aux_pos 0 p ! k, inv0 inverse_op (daux S P 0 0 p ! k)) \<in>
      set (zip (aux_pos 0 p) (map (inv0 inverse_op) (daux S P 0 0 p)))"
    using assms(1) by (auto simp: in_set_zip length_daux intro!: exI [of _ k])
  show "aux_pos 0 p ! k < length S" using assms nth_mem [OF assms(1)] aux_pos_range [of 0 p] by fastforce
qed

lemma pass_other: "q \<notin> set (aux_pos 0 p) \<Longrightarrow> pass inverse_op P p S ! q = S ! q"
  unfolding pass_def by (rule set_all_other) (auto dest: set_zip_leftD)

text \<open>Each pass settles one more auxiliary input.\<close>

lemma pass_solves:
  assumes s: "solved inverse_op P p r S" and len: "length S = sec_count p"
  shows "solved inverse_op P p (Suc r) (pass inverse_op P p S)"
  unfolding solved_def
proof (intro allI impI)
  fix k assume k: "k < length (aux_pos 0 p)" "k < Suc r"
  have "agree (aux_pos 0 p ! k) S (pass inverse_op P p S)"
    unfolding agree_def
  proof (intro allI impI)
    fix q assume q: "q < aux_pos 0 p ! k"
    show "S ! q = pass inverse_op P p S ! q"
    proof (cases "q \<in> set (aux_pos 0 p)")
      case True
      then obtain k' where k': "k' < length (aux_pos 0 p)" "q = aux_pos 0 p ! k'" by (auto simp: in_set_conv_nth)
      have "k' < k"
      proof (rule ccontr)
        assume "\<not> k' < k"
        then have "aux_pos 0 p ! k \<le> aux_pos 0 p ! k'"
          using k' aux_pos_range [of 0 p] by (intro sorted_nth_mono) (auto simp: strict_sorted_iff)
        then show False using q k'(2) by simp
      qed
      then show ?thesis using s k' k pass_nth [OF k'(1) len] by (simp add: solved_def)
    qed (simp add: pass_other)
  qed
  from daux_dep_nth [OF k(1) this]
  show "pass inverse_op P p S ! (aux_pos 0 p ! k) = inv0 inverse_op (daux (pass inverse_op P p S) P 0 0 p ! k)"
    using pass_nth [OF k(1) len] by metis
qed

lemma eval_all_nodes_eq:
  assumes "implements cp p" "length S = sec_count p" "length P = pub_count p"
  shows "eval_all_nodes (cp_circuit cp) S P = Inr (trace S P (c_nodes (cp_circuit cp)))"
  using assms eval_nodes_eq [of S P "c_nodes (cp_circuit cp)" 0 0 "[]"] circuit_nodes_ok [of "cp_circuit cp" S P]
  by (simp add: implements_def eval_all_nodes_def inputs_fit_def trace_def)

lemma aux_pass_pass:
  assumes imp: "implements cp p" and len: "length S = sec_count p"
  shows "\<exists>ch. aux_pass inverse_op (trace S P (c_nodes (cp_circuit cp))) (zip (aux_pos 0 p) (cp_auxiliary_targets cp)) S False =
      Inr (pass inverse_op P p S, ch) \<and> (\<not> ch \<longrightarrow> pass inverse_op P p S = S)"
proof -
  let ?ts = "cp_auxiliary_targets cp" and ?vals = "trace S P (c_nodes (cp_circuit cp))"
  have vals: "map (\<lambda>t. ?vals ! as_usize t) ?ts = daux S P 0 0 p" using imp by (auto simp: implements_def node_vals_def)
  then have l: "length (aux_pos 0 p) = length ?ts" by (metis length_daux length_map)
  have "map (\<lambda>t. inv0 inverse_op (?vals ! as_usize t)) ?ts = map (inv0 inverse_op) (daux S P 0 0 p)"
    by (simp flip: vals)
  moreover have "\<forall>q\<in>set (aux_pos 0 p). q < length S" using aux_pos_range [of 0 p] len by auto
  moreover have "\<forall>t\<in>set ?ts. as_usize t < length ?vals" using imp by (simp add: implements_def)
  ultimately show ?thesis using aux_pass_eq [of ?ts ?vals "aux_pos 0 p" S inverse_op False] l by (simp add: pass_def)
qed

text \<open>The loop ends with a solution: after as many passes as there are thresholds, or earlier when
  nothing changes.\<close>

lemma solve_loop_solves:
  assumes imp: "implements cp p" and "length P = pub_count p"
  shows "length S = sec_count p \<Longrightarrow> solved inverse_op P p r S \<Longrightarrow> length (aux_pos 0 p) \<le> r + n \<Longrightarrow>
    \<exists>S'. solve_loop inverse_op (cp_circuit cp) P (zip (aux_pos 0 p) (cp_auxiliary_targets cp)) n S = Inr S' \<and>
      solved inverse_op P p (length (aux_pos 0 p)) S' \<and> length S' = sec_count p \<and>
      (\<forall>q. q \<notin> set (aux_pos 0 p) \<longrightarrow> S' ! q = S ! q)"
proof (induction n arbitrary: r S)
  case 0
  then show ?case by (auto simp: solved_def)
next
  case (Suc n)
  obtain ch where ch: "aux_pass inverse_op (trace S P (c_nodes (cp_circuit cp))) (zip (aux_pos 0 p) (cp_auxiliary_targets cp)) S False =
      Inr (pass inverse_op P p S, ch)" "\<not> ch \<longrightarrow> pass inverse_op P p S = S"
    using aux_pass_pass [OF imp Suc.prems(1)] by blast
  note ev = eval_all_nodes_eq [OF imp Suc.prems(1) assms(2)]
  show ?case
  proof (cases ch)
    case True
    have "solved inverse_op P p (Suc r) (pass inverse_op P p S)" using pass_solves [OF Suc.prems(2,1)] .
    then obtain S' where "solve_loop inverse_op (cp_circuit cp) P (zip (aux_pos 0 p) (cp_auxiliary_targets cp)) n (pass inverse_op P p S) = Inr S'"
      "solved inverse_op P p (length (aux_pos 0 p)) S'" "length S' = sec_count p"
      "\<forall>q. q \<notin> set (aux_pos 0 p) \<longrightarrow> S' ! q = pass inverse_op P p S ! q"
      using Suc.IH [of "pass inverse_op P p S" "Suc r"] Suc.prems by auto
    then show ?thesis using ch True ev pass_other [of _ p inverse_op P S] by auto
  next
    case False
    then have "pass inverse_op P p S = S" using ch by simp
    then have "solved inverse_op P p (length (aux_pos 0 p)) S"
      using pass_nth [of _ p S inverse_op P] Suc.prems(1) by (simp add: solved_def)
    then show ?thesis using ch False ev Suc.prems(1) by (auto simp: \<open>pass inverse_op P p S = S\<close>)
  qed
qed

section \<open>Values on honest inputs\<close>

fun honest :: "(bytes \<Rightarrow> bytes) \<Rightarrow> policy_witness \<Rightarrow> 'f::comm_ring_1 list \<Rightarrow> 'f list \<Rightarrow> nat \<Rightarrow> nat \<Rightarrow> policy \<Rightarrow> bool"
  and honests :: "(bytes \<Rightarrow> bytes) \<Rightarrow> policy_witness \<Rightarrow> 'f list \<Rightarrow> 'f list \<Rightarrow> nat \<Rightarrow> nat \<Rightarrow> policy list \<Rightarrow> bool" where
  "honest sha256 w S P i j (AmountAtMost l) =
     (segment S i 129 = amount_inputs (amount_of w) l \<and> P ! j = of_nat (unat l))"
| "honest sha256 w S P i j (Credential cid) =
     (\<exists>s. secret_for w cid = Some s \<and> S ! i = digest_to_field (digest_bytes (credential_commitment sha256 s)) \<and>
        P ! j = digest_to_field cid)"
| "honest sha256 w S P i j (Threshold k ms) = honests sha256 w S P i j ms"
| "honest sha256 w S P i j (And ms) = honests sha256 w S P i j ms"
| "honest sha256 w S P i j (Or ms) = honests sha256 w S P i j ms"
| "honests sha256 w S P i j [] = True"
| "honests sha256 w S P i j (m # ms) =
     (honest sha256 w S P i j m \<and> honests sha256 w S P (i + sec_count m) (j + pub_count m) ms)"

lemma segment_add: "segment S i (m + n) = segment S i m @ segment S (i + m) n"
  by (intro nth_equalityI) (auto simp: segment_def nth_append)

lemma length_segment [simp]: "length (segment S i n) = n"
  by (simp add: segment_def)

lemma segment_1 [simp]: "segment S i (Suc 0) = [S ! i]"
  by (simp add: segment_def)

definition carries :: "'f list \<Rightarrow> nat \<Rightarrow> nat set \<Rightarrow> 'f list \<Rightarrow> bool" where
  "carries S i A xs \<longleftrightarrow> (\<forall>k<length xs. i + k \<notin> A \<longrightarrow> S ! (i + k) = xs ! k)"

lemma carries_Cons: "carries S i A (x # xs) \<longleftrightarrow> (i \<notin> A \<longrightarrow> S ! i = x) \<and> carries S (Suc i) A xs"
  by (simp add: carries_def all_less_Suc_shift)

lemma carries_Nil [simp]: "carries S i A []"
  by (simp add: carries_def)

lemma carries_append: "carries S i A (xs @ ys) \<longleftrightarrow> carries S i A xs \<and> carries S (i + length xs) A ys"
  by (induction xs arbitrary: i) (simp_all add: carries_Cons)

lemma carries_mono: "carries S i A xs \<Longrightarrow> A \<inter> {i..<i + length xs} \<subseteq> B \<Longrightarrow> carries S i B xs"
  unfolding carries_def by fastforce

lemma carries_segment: "carries S i {} xs \<Longrightarrow> segment S i (length xs) = xs"
  by (rule nth_equalityI) (simp_all add: carries_def segment_def)

lemma honests_members:
  "(\<And>m i j. m \<in> set ms \<Longrightarrow> carries S i (set (aux_pos i m)) (fsecs sha256 w m) \<Longrightarrow> carries P j {} (fpubs m) \<Longrightarrow>
      honest sha256 w S P i j m) \<Longrightarrow>
   carries S i (set (aux_poss i ms)) (concat (map (fsecs sha256 w) ms)) \<Longrightarrow> carries P j {} (concat (map fpubs ms)) \<Longrightarrow>
   honests sha256 w S P i j ms"
proof (induction ms arbitrary: i j)
  case (Cons m ms)
  let ?i = "i + sec_count m" and ?j = "j + pub_count m"
  have A: "set (aux_pos i m) \<subseteq> {i..<?i}" "set (aux_poss ?i ms) \<subseteq> {?i..<?i + secs ms}"
    using aux_pos_range [of i m] aux_poss_range [of ?i ms] by auto
  have c: "carries S i (set (aux_poss i (m # ms))) (fsecs sha256 w m)"
    "carries S ?i (set (aux_poss i (m # ms))) (concat (map (fsecs sha256 w) ms))"
    "carries P j {} (fpubs m)" "carries P ?j {} (concat (map fpubs ms))"
    using Cons.prems(2,3) by (simp_all add: carries_append)
  have "honest sha256 w S P i j m"
    using Cons.prems(1) [of m i j] carries_mono [OF c(1), of "set (aux_pos i m)"] c(3) A(2) by force
  moreover have "carries S ?i (set (aux_poss ?i ms)) (concat (map (fsecs sha256 w) ms))"
    by (rule carries_mono [OF c(2)]) (use A(1) in force)
  then have "honests sha256 w S P ?i ?j ms" using Cons.IH [of ?i ?j] Cons.prems(1) c(4) by auto
  ultimately show ?case by simp
qed simp

lemma carries_honest:
  "\<forall>cid\<in>set (policy_credentials p). secret_for w cid \<noteq> None \<Longrightarrow>
   carries S i (set (aux_pos i p)) (fsecs sha256 w p) \<Longrightarrow> carries P j {} (fpubs p) \<Longrightarrow> honest sha256 w S P i j p"
proof (induction p arbitrary: i j)
  case (AmountAtMost l)
  then show ?case
    using AmountAtMost carries_segment [of S i "amount_inputs (amount_of w) l"] by (simp add: carries_Cons)
next
  case (Credential cid)
  then show ?case by (auto simp: carries_Cons)
next
  case (Threshold k ms)
  have "carries S i (set (aux_pos i (Threshold k ms))) (concat (map (fsecs sha256 w) ms))"
    using Threshold.prems(2) by (simp add: carries_append)
  then have "carries S i (set (aux_poss i ms)) (concat (map (fsecs sha256 w) ms))"
    by (rule carries_mono) (auto simp: length_concat comp_def)
  then show ?case using Threshold.IH Threshold.prems by (simp add: honests_members)
next
  case (And ms)
  then show ?case by (simp add: honests_members)
next
  case (Or ms)
  then show ?case by (simp add: honests_members)
qed

definition same_residue :: "'f::comm_ring_1 itself \<Rightarrow> bytes \<Rightarrow> bytes \<Rightarrow> bool" where
  "same_residue T x y \<longleftrightarrow> digest_to_field x = (digest_to_field y :: 'f)"

lemma sum_list_of_bool: "sum_list (map (\<lambda>x. of_bool (Q x)) xs) = (of_nat (length (filter Q xs)) :: 'f::comm_ring_1)"
  by (induction xs) simp_all

lemma prod_list_of_bool: "prod_list (map (\<lambda>x. of_bool (Q x)) xs) = (of_bool (\<forall>x\<in>set xs. Q x) :: 'f::comm_ring_1)"
  by (induction xs) auto

lemma prod_list_of_bool_not:
  "1 - prod_list (map (\<lambda>v. 1 - v) (map (\<lambda>x. of_bool (Q x)) xs)) = (of_bool (\<exists>x\<in>set xs. Q x) :: 'f::comm_ring_1)"
proof -
  have "prod_list (map (\<lambda>v. 1 - v) (map (\<lambda>x. of_bool (Q x)) xs)) = (of_bool (\<forall>x\<in>set xs. \<not> Q x) :: 'f)"
    by (induction xs) auto
  then show ?thesis by simp
qed

abbreviation solution :: "('f::comm_ring_1 \<Rightarrow> 'f option) \<Rightarrow> 'f list \<Rightarrow> nat list \<Rightarrow> 'f list \<Rightarrow> bool" where
  "solution inverse_op S \<equiv> list_all2 (\<lambda>q d. S ! q = inv0 inverse_op d)"

lemma solved_solution: "solved inverse_op P p (length (aux_pos 0 p)) S \<longleftrightarrow> solution inverse_op S (aux_pos 0 p) (daux S P 0 0 p)"
  by (auto simp: solved_def list_all2_conv_all_nth length_daux)

lemma honests_values:
  assumes "\<And>m i j. m \<in> set ms \<Longrightarrow> honest sha256 w S P i j m \<Longrightarrow> solution inverse_op S (aux_pos i m) (daux S P i j m) \<Longrightarrow>
      dval S P i j m = of_bool (Q m) \<and> set (dcons S P i j m) \<subseteq> {0}"
    and "honests sha256 w S P i j ms" "solution inverse_op S (aux_poss i ms) (dauxs S P i j ms)"
  shows "dvals S P i j ms = map (\<lambda>m. of_bool (Q m)) ms \<and> set (dconss S P i j ms) \<subseteq> {0}"
  using assms
proof (induction ms arbitrary: i j)
  case (Cons m ms)
  have "solution inverse_op S (aux_pos i m) (daux S P i j m)"
    "solution inverse_op S (aux_poss (i + sec_count m) ms) (dauxs S P (i + sec_count m) (j + pub_count m) ms)"
    using Cons.prems(3) by (simp_all add: list_all2_append length_daux)
  then show ?case using Cons by simp
qed simp

context compiler_field
begin

lemma prod_list_zero: "prod_list xs = (0 :: 'f) \<longleftrightarrow> 0 \<in> set xs"
proof (induction xs)
  case Nil
  then show ?case using of_nat_eq_iff_lt [of 1 0] modulus_gt_1 by simp
next
  case (Cons x xs)
  then show ?case by (auto simp: mult_eq_0_iff_field)
qed

lemma discr_zero: "c < modulus \<Longrightarrow> k \<le> modulus \<Longrightarrow> discr k (of_nat c) = (0 :: 'f) \<longleftrightarrow> c < k"
proof -
  assume "c < modulus" "k \<le> modulus"
  then have "(\<exists>t<k. (of_nat c :: 'f) = of_nat t) \<longleftrightarrow> c < k" using of_nat_eq_iff_lt by (metis order_less_le_trans)
  then show ?thesis by (auto simp: discr_def prod_list_zero image_iff)
qed

lemma inv0_mult: "d * inv0 inverse_op d = (of_bool (d \<noteq> 0) :: 'f)"
  using inverse_nonzero [of d] by (auto simp: inv0_def inverse_zero)

lemma threshold_value:
  assumes "vs = map (\<lambda>m. of_bool (Q m)) ms" "length ms \<le> 1000" "unat k \<le> length ms"
    and "a = inv0 inverse_op (discr (unat k) (sum_list vs))"
  shows "discr (unat k) (sum_list vs) * a = (of_bool (unat k \<le> length (filter Q ms)) :: 'f)"
proof -
  have "length (filter Q ms) < modulus" "unat k \<le> modulus"
    using assms(2,3) modulus_large le_less_trans [OF length_filter_le [of Q ms]] by simp_all
  then show ?thesis using assms by (auto simp: inv0_mult sum_list_of_bool discr_zero not_less)
qed

lemma honest_amount:
  assumes "segment S i 129 = amount_inputs a l" "P ! j = of_nat (unat l)"
  shows "dval S P i j (AmountAtMost l) = (of_bool (a \<le> l) :: 'f)"
proof -
  have "segment S i (1 + (64 + 64)) = segment S i 1 @ segment S (i + 1) 64 @ segment S (i + 1 + 64) 64"
    by (simp only: segment_add)
  then have "segment S i 1 @ segment S (i + 1) 64 @ segment S (i + 65) 64 = [of_nat (unat a)] @ map of_bool (decompose a) @ map of_bool (decompose (l - a))"
    using assms(1) by (simp add: amount_inputs_def ac_simps)
  then have "S ! i = of_nat (unat a)" "segment S (i + 1) 64 = map of_bool (decompose a)"
    "segment S (i + 65) 64 = map of_bool (decompose (l - a))"
    by (simp_all add: append_eq_append_conv)
  then show ?thesis using assms(2) range_ok_decompose [of a l] by simp
qed

lemma honest_values:
  "well_structured p \<Longrightarrow> honest sha256 w S P i j p \<Longrightarrow> solution inverse_op S (aux_pos i p) (daux S P i j p) \<Longrightarrow>
   dval S P i j p = (of_bool (csat (same_residue TYPE('f)) sha256 w p) :: 'f) \<and> set (dcons S P i j p) \<subseteq> {0}"
proof (induction p arbitrary: i j)
  case (AmountAtMost l)
  then show ?case using honest_amount [of S i "amount_of w" l P j] by simp
next
  case (Credential cid)
  then show ?case by (auto simp: same_residue_def)
next
  case (Threshold k ms)
  have sol: "solution inverse_op S (aux_poss i ms) (dauxs S P i j ms)"
    "S ! (i + secs ms) = inv0 inverse_op (discr (unat k) (sum_list (dvals S P i j ms)))"
    using Threshold.prems(3) by (simp_all add: list_all2_append length_dauxs)
  have v: "dvals S P i j ms = map (\<lambda>m. of_bool (csat (same_residue TYPE('f)) sha256 w m)) ms \<and> set (dconss S P i j ms) \<subseteq> {0}"
    using Threshold sol(1) by (intro honests_values) auto
  then have "dval S P i j (Threshold k ms) = of_bool (csat (same_residue TYPE('f)) sha256 w (Threshold k ms))"
    using threshold_value [of _ "csat (same_residue TYPE('f)) sha256 w" ms k, OF _ _ _ sol(2)] Threshold.prems(1) by simp
  then show ?case using v by (simp add: Let_def del: dval.simps csat.simps)
next
  case (And ms)
  then have "dvals S P i j ms = map (\<lambda>m. of_bool (csat (same_residue TYPE('f)) sha256 w m)) ms \<and> set (dconss S P i j ms) \<subseteq> {0}"
    by (intro honests_values) auto
  then show ?case by (simp add: prod_list_of_bool)
next
  case (Or ms)
  then have "dvals S P i j ms = map (\<lambda>m. of_bool (csat (same_residue TYPE('f)) sha256 w m)) ms \<and> set (dconss S P i j ms) \<subseteq> {0}"
    by (intro honests_values) auto
  then show ?case using prod_list_of_bool_not [of "csat (same_residue TYPE('f)) sha256 w" ms] by simp
qed

lemma build_inputs_solved:
  assumes imp: "implements cp (normalize_node p)"
    and creds: "\<forall>cid\<in>set (policy_credentials (normalize_node p)). secret_for w cid \<noteq> None"
  shows "\<exists>S. build_inputs sha256 inverse_op cp p w = Inr (S, fpubs (normalize_node p)) \<and> length S = sec_count (normalize_node p) \<and>
    honest sha256 w S (fpubs (normalize_node p) :: 'f list) 0 0 (normalize_node p) \<and>
    solution inverse_op S (aux_pos 0 (normalize_node p)) (daux S (fpubs (normalize_node p)) 0 0 (normalize_node p))"
proof -
  let ?n = "normalize_node p" and ?S = "fsecs sha256 w (normalize_node p) :: 'f list"
  let ?P = "fpubs ?n :: 'f list"
  have "node_vals ?S ?P (cp_circuit cp) (cp_auxiliary_targets cp) = daux ?S ?P 0 0 ?n"
    using imp by (simp add: implements_def)
  from arg_cong [OF this, of length] have "length (aux_pos 0 ?n) = length (cp_auxiliary_targets cp)"
    by (simp add: node_vals_def length_daux)
  then obtain S' where S': "solve_loop inverse_op (cp_circuit cp) ?P (zip (aux_pos 0 ?n) (cp_auxiliary_targets cp))
        (Suc (length (cp_auxiliary_targets cp))) ?S = Inr S'"
      "solved inverse_op ?P ?n (length (aux_pos 0 ?n)) S'" "length S' = sec_count ?n"
      "\<forall>q. q \<notin> set (aux_pos 0 ?n) \<longrightarrow> S' ! q = ?S ! q"
    using solve_loop_solves [OF imp, of ?P ?S inverse_op 0 "Suc (length (cp_auxiliary_targets cp))"]
    by (auto simp: solved_def)
  have "carries S' 0 (set (aux_pos 0 ?n)) ?S" using S'(4) by (simp add: carries_def)
  moreover have "carries ?P 0 {} ?P" by (simp add: carries_def)
  ultimately have "honest sha256 w S' ?P 0 0 ?n" using creds by (intro carries_honest)
  moreover have "build_inputs sha256 inverse_op cp p w = Inr (S', ?P)"
    using S'(1) fill_eq [OF creds, of sha256 "([] :: 'f list, [] :: 'f list, [])"]
    by (simp add: build_inputs_def policy_normalize_def del: solve_loop.simps)
  ultimately show ?thesis using S'(2,3) solved_solution by blast
qed

lemma constraints_zero_eq:
  "\<forall>n\<in>set ns. as_usize n < length vals \<Longrightarrow> constraints_zero vals ns = Inr (\<forall>n\<in>set ns. vals ! as_usize n = (0 :: 'f))"
  by (induction ns) auto

lemma reference_evaluate_eq:
  assumes imp: "implements cp (normalize_node p)" and ws: "well_structured (normalize_node p)"
    and creds: "\<forall>cid\<in>set (policy_credentials (normalize_node p)). secret_for w cid \<noteq> None"
  shows "reference_evaluate sha256 inverse_op cp p w = Inr (csat (same_residue TYPE('f)) sha256 w (normalize_node p))"
proof -
  let ?n = "normalize_node p" and ?c = "cp_circuit cp"
  let ?P = "fpubs ?n :: 'f list"
  obtain S where S: "build_inputs sha256 inverse_op cp p w = Inr (S, ?P)" "length S = sec_count ?n"
    "honest sha256 w S ?P 0 0 ?n" "solution inverse_op S (aux_pos 0 ?n) (daux S ?P 0 0 ?n)"
    using build_inputs_solved [OF imp creds] by blast
  let ?vals = "trace S ?P (c_nodes ?c)"
  have ev: "eval_all_nodes ?c S ?P = Inr ?vals" using eval_all_nodes_eq [OF imp S(2)] by simp
  have wf: "circuit_wf ?c" using imp by (simp add: implements_def)
  then have ne: "c_outputs ?c \<noteq> []" and rng: "\<forall>n\<in>set (c_outputs ?c). as_usize n < length ?vals"
    by (simp_all add: circuit_wf_def)
  have outs: "map (\<lambda>n. ?vals ! as_usize n) (c_outputs ?c) = dcons S ?P 0 0 ?n @ [dval S ?P 0 0 ?n]"
    using imp by (simp add: implements_def node_vals_def)
  define ns root where "ns = butlast (c_outputs ?c)" and "root = last (c_outputs ?c)"
  have sp: "c_outputs ?c = ns @ [root]" using ne by (simp add: ns_def root_def)
  have tk: "take (cp_range_check_outputs cp) (c_outputs ?c) = ns"
    using imp sp by (simp add: implements_def)
  have vals: "map (\<lambda>n. ?vals ! as_usize n) ns = dcons S ?P 0 0 ?n" "?vals ! as_usize root = dval S ?P 0 0 ?n"
    using outs unfolding sp by simp_all
  have hv: "dval S ?P 0 0 ?n = of_bool (csat (same_residue TYPE('f)) sha256 w ?n)" "set (dcons S ?P 0 0 ?n) \<subseteq> {0}"
    using honest_values [OF ws S(3,4)] by blast+
  have z: "\<forall>n\<in>set ns. ?vals ! as_usize n = 0" using hv(2) unfolding vals(1) [symmetric] by auto
  have one: "(of_bool b = (1 :: 'f)) = b" for b
    using of_nat_eq_iff_lt [of 0 1] modulus_gt_1 by (cases b) simp_all
  have "constraints_zero ?vals ns = Inr True" using constraints_zero_eq [of ns ?vals] rng z sp by simp
  then show ?thesis
    using S(1) ev ne rng tk vals(2) hv(1) by (simp add: reference_evaluate_def Let_def sp one)
qed

end

section \<open>Agreement with the evaluator\<close>

lemma has_amount_flat: "has_amount x \<Longrightarrow> x \<in> set (flat_members tag p) \<Longrightarrow> has_amount p"
  by (cases p) (auto simp: flat_members_def flatten_into_def split: if_splits)

lemma has_amount_combinator:
  assumes "has_amount (normalize_combinator mk tag ps)" "\<And>ms. has_amount (mk ms) \<Longrightarrow> \<exists>m\<in>set ms. has_amount m"
  shows "\<exists>p\<in>set ps. has_amount p"
proof -
  have "\<exists>m\<in>set (canonical_members tag ps). has_amount m"
    using assms by (auto simp: normalize_combinator_eq Let_def length_Suc_conv split: if_splits)
  then show ?thesis using canonical_members_subset [of tag ps] has_amount_flat by blast
qed

lemma has_amount_normalize: "has_amount (normalize_node p) \<Longrightarrow> has_amount p"
proof (induction p)
  case (And ms)
  then show ?case using has_amount_combinator [of And 4 "map normalize_node ms"] by auto
next
  case (Or ms)
  then show ?case using has_amount_combinator [of Or 5 "map normalize_node ms"] by auto
qed auto

text \<open>C5: the compiled circuit and the native evaluator agree. For every policy that compiles and every
  witness the evaluator accepts, \<open>reference_evaluate\<close> returns a verdict: the fixpoint loop that
  solves the auxiliary inputs ends within its bound with a solution, and no index is out of range. If
  the evaluator authorises, the circuit does; if the circuit does and the evaluator does not, then a
  secret of the witness has a commitment that differs from the credential id it stands for but has the
  same residue in the field.\<close>

theorem reference_evaluate_correct:
  assumes field: "compiler_field modulus (into_bigint :: 'f::comm_ring_1 \<Rightarrow> nat) inverse_op width"
    and small: "policy_small p" and cp: "compile_with_layout into_bigint width p = Inr cp"
    and ev: "policy_evaluate sha256 p w = Inr ar"
  shows "\<exists>verdict. reference_evaluate sha256 inverse_op cp p w = Inr verdict \<and> (authorized ar \<longrightarrow> verdict) \<and>
    (verdict \<and> \<not> authorized ar \<longrightarrow> (\<exists>cid s. secret_for w cid = Some s \<and>
       digest_bytes (credential_commitment sha256 s) \<noteq> cid \<and>
       digest_to_field (digest_bytes (credential_commitment sha256 s)) = (digest_to_field cid :: 'f)))"
proof -
  let ?n = "normalize_node p"
  note valid = compiler_field.compiled_implements(1) [OF field cp]
  note imp = compiler_field.compiled_implements(2) [OF field cp]
  have fits: "witness_fits w p" and auth: "authorized ar = sat sha256 w p"
    using ev by (auto simp: policy_evaluate_def validate_against_eq is_satisfied_eval Let_def split: if_splits)
  have fits_n: "witness_fits w ?n"
    using fits credentials_normalize [of p] has_amount_normalize [of p] by (auto simp: witness_fits_def)
  have "well_structured ?n" using valid by (simp add: policy_valid_def)
  then have ref: "reference_evaluate sha256 inverse_op cp p w = Inr (csat (same_residue TYPE('f)) sha256 w ?n)"
    using compiler_field.reference_evaluate_eq [OF field imp] fits_n by (simp add: witness_fits_def)
  have "csat (same_residue TYPE('f)) sha256 w ?n" if "sat sha256 w p"
    using that sat_imp_csat [of "same_residue TYPE('f)"] sat_normalize [OF small] by (simp add: same_residue_def)
  moreover have "sat sha256 w p" if "csat (same_residue TYPE('f)) sha256 w ?n"
      "\<And>cid s. secret_for w cid = Some s \<Longrightarrow> same_residue TYPE('f) (digest_bytes (credential_commitment sha256 s)) cid \<Longrightarrow>
         digest_bytes (credential_commitment sha256 s) = cid"
    using csat_imp_sat [OF fits_n that(2) that(1)] sat_normalize [OF small] by simp
  ultimately show ?thesis unfolding auth using ref by (auto simp: same_residue_def)
qed

theorem reference_evaluate_correct_witness:
  "\<exists>cp. compile_with_layout fp_into_bigint 16 (Threshold 1 [AmountAtMost 5]) = Inr cp \<and>
     reference_evaluate low32 fp_inverse cp (Threshold 1 [AmountAtMost 5]) (with_amount 3 PolicyWitness_new) = Inr True"
proof -
  let ?p = "Threshold 1 [AmountAtMost 5]" and ?w = "with_amount 3 PolicyWitness_new"
  have n: "normalize_node ?p = ?p" by simp
  have "policy_valid (normalize_node ?p)" unfolding n
    by (simp add: policy_valid_def direct_credentials_def MAX_POLICY_DEPTH_def MAX_POLICY_NODES_def MAX_CREDENTIAL_COUNT_def)
  then obtain cp where cp: "compile_with_layout fp_into_bigint 16 ?p = Inr cp"
    using fp_compiler.compile_implements by blast
  have fits: "witness_fits ?w ?p" and sat: "sat low32 ?w ?p"
    by (simp_all add: witness_fits_def with_amount_def PolicyWitness_new_def word_le_nat_alt)
  then obtain ar where ar: "policy_evaluate low32 ?p ?w = Inr ar" "authorized ar"
    by (simp add: policy_evaluate_def validate_against_eq Let_def is_satisfied_eval del: sat.simps eval_policy_node.simps)
  have "policy_small ?p" by (simp add: policy_small_def)
  from reference_evaluate_correct [OF fp_compiler_field this cp ar(1)] ar(2) cp show ?thesis by auto
qed

end
