(* ===== verification/Payment.thy ===== *)
theory Payment
  imports Codec Crypto_Core Policy_Normalize
begin

text \<open>
  Model of \<open>crates/payment/src/amount.rs\<close>, \<open>payment.rs\<close> and \<open>statement.rs\<close>: amounts, payments with
  their semantic id, and the public payment statement with its strict fixed-width encoding. Arrays of
  32 bytes are byte lists of that length (the well-formedness predicates). An index or slice behind
  the length check of a decoder is a reader whose failure is the value \<open>SE_Panic\<close>; the codec theorem
  shows that it never occurs.
\<close>

section \<open>Amounts\<close>

definition AMOUNT_ENCODING_VERSION :: u8 where "AMOUNT_ENCODING_VERSION = 1"

datatype amount_unit = Cents

datatype amount_error =
    AE_UnknownUnit
  | AE_InvalidVersion
  | AE_MalformedEncoding
  | AE_TrailingBytes

fun unit_tag :: "amount_unit \<Rightarrow> u8" where
  "unit_tag Cents = 1"

definition unit_from_tag :: "u8 \<Rightarrow> (amount_error, amount_unit) result" where
  "unit_from_tag tag = (if tag = 1 then Inr Cents else Inl AE_UnknownUnit)"

record amount =
  am_value :: u64
  am_unit :: amount_unit

definition AMOUNT_ENCODED_LEN :: nat where "AMOUNT_ENCODED_LEN = 1 + 8 + 1"

definition Amount_encode :: "amount \<Rightarrow> bytes" where
  "Amount_encode a = [AMOUNT_ENCODING_VERSION] @ u64_to_be_bytes (am_value a) @ [unit_tag (am_unit a)]"

definition Amount_decode :: "bytes \<Rightarrow> (amount_error, amount) result" where
  "Amount_decode bs =
     (if length bs < AMOUNT_ENCODED_LEN then Inl AE_MalformedEncoding
      else if length bs > AMOUNT_ENCODED_LEN then Inl AE_TrailingBytes
      else if bs ! 0 \<noteq> AMOUNT_ENCODING_VERSION then Inl AE_InvalidVersion
      else rbind (unit_from_tag (bs ! 9)) (\<lambda>unit.
        Inr \<lparr>am_value = u64_from_be_bytes (take 8 (drop 1 bs)), am_unit = unit\<rparr>))"

section \<open>Payments\<close>

definition PAYMENT_ID_DOMAIN :: bytes where
  "PAYMENT_ID_DOMAIN = ascii ''private-payment-auth/payment/v1''"

definition PAYMENT_ID_LEN :: nat where "PAYMENT_ID_LEN = 32"
definition NONCE_LEN :: nat where "NONCE_LEN = 32"

record payment =
  pay_version :: u8
  pay_id :: bytes
  pay_amount :: amount
  pay_recipient :: digest
  pay_nonce :: bytes

definition Payment_encode :: "payment \<Rightarrow> bytes" where
  "Payment_encode p = [pay_version p] @ pay_id p @ Amount_encode (pay_amount p) @ digest_bytes (pay_recipient p) @ pay_nonce p"

definition Payment_payment_id :: "(bytes \<Rightarrow> bytes) \<Rightarrow> payment \<Rightarrow> digest" where
  "Payment_payment_id sha256 p = Digest (Sha256Hash_hash_domain sha256 PAYMENT_ID_DOMAIN (Payment_encode p))"

section \<open>Statements\<close>

definition STATEMENT_VERSION :: u8 where "STATEMENT_VERSION = 2"

record payment_statement =
  st_payment_id :: digest
  st_amount :: amount
  st_recipient :: digest
  st_policy_id :: digest
  st_circuit_id :: digest
  st_protocol_version :: u8
  st_nonce :: bytes

datatype statement_error =
    SE_InvalidVersion
  | SE_MalformedEncoding
  | SE_TrailingBytes
  | SE_InvalidAmount amount_error
  | SE_Panic

fun statement_error_from :: "amount_error \<Rightarrow> statement_error" where
  "statement_error_from AE_InvalidVersion = SE_InvalidVersion"
| "statement_error_from AE_MalformedEncoding = SE_MalformedEncoding"
| "statement_error_from other = SE_InvalidAmount other"

definition STATEMENT_ENCODED_LEN :: nat where
  "STATEMENT_ENCODED_LEN = 1 + 32 + AMOUNT_ENCODED_LEN + 32 + 32 + 32 + 1 + NONCE_LEN"

definition Statement_encode :: "payment_statement \<Rightarrow> bytes" where
  "Statement_encode s = [STATEMENT_VERSION] @ digest_bytes (st_payment_id s) @ Amount_encode (st_amount s) @
     digest_bytes (st_recipient s) @ digest_bytes (st_policy_id s) @ digest_bytes (st_circuit_id s) @
     [st_protocol_version s] @ st_nonce s"

definition Statement_decode :: "bytes \<Rightarrow> (statement_error, payment_statement) result" where
  "Statement_decode bs =
     (if length bs < STATEMENT_ENCODED_LEN then Inl SE_MalformedEncoding
      else if length bs > STATEMENT_ENCODED_LEN then Inl SE_TrailingBytes
      else
        rbind (read_u8 SE_Panic bs) (\<lambda>(version, cursor).
        if version \<noteq> STATEMENT_VERSION then Inl SE_InvalidVersion else
        rbind (read_slice SE_Panic 32 cursor) (\<lambda>(payment_id, cursor).
        rbind (read_slice SE_Panic AMOUNT_ENCODED_LEN cursor) (\<lambda>(am, cursor).
        rbind (map_err statement_error_from (Amount_decode am)) (\<lambda>amount.
        rbind (read_slice SE_Panic 32 cursor) (\<lambda>(recipient, cursor).
        rbind (read_slice SE_Panic 32 cursor) (\<lambda>(policy_id, cursor).
        rbind (read_slice SE_Panic 32 cursor) (\<lambda>(circuit_id, cursor).
        rbind (read_u8 SE_Panic cursor) (\<lambda>(protocol_version, cursor).
        rbind (read_slice SE_Panic NONCE_LEN cursor) (\<lambda>(nonce, _).
        Inr \<lparr>st_payment_id = Digest payment_id, st_amount = amount, st_recipient = Digest recipient,
          st_policy_id = Digest policy_id, st_circuit_id = Digest circuit_id,
          st_protocol_version = protocol_version, st_nonce = nonce\<rparr>))))))))))"

section \<open>Lemmas\<close>

definition payment_wf :: "payment \<Rightarrow> bool" where
  "payment_wf p \<longleftrightarrow> length (pay_id p) = 32 \<and> digest_wf (pay_recipient p) \<and> length (pay_nonce p) = 32"

definition statement_wf :: "payment_statement \<Rightarrow> bool" where
  "statement_wf s \<longleftrightarrow> digest_wf (st_payment_id s) \<and> digest_wf (st_recipient s) \<and> digest_wf (st_policy_id s) \<and>
     digest_wf (st_circuit_id s) \<and> length (st_nonce s) = 32"

lemma length_Amount_encode [simp]: "length (Amount_encode a) = AMOUNT_ENCODED_LEN"
  by (simp add: Amount_encode_def AMOUNT_ENCODED_LEN_def)

lemma Amount_decode_encode: "Amount_decode (Amount_encode a) = Inr a"
  by (cases "am_unit a") (simp add: Amount_decode_def Amount_encode_def AMOUNT_ENCODED_LEN_def nth_append unit_from_tag_def uN_to_from_be_bytes)

lemma split_10: "length bs = 10 \<Longrightarrow> bs = [bs ! 0] @ take 8 (drop 1 bs) @ [bs ! 9]"
  by (auto simp: length_Suc_conv eval_nat_numeral)

lemma Amount_decode_Inr: "Amount_decode bs = Inr a \<longleftrightarrow> bs = Amount_encode a"
proof
  assume d: "Amount_decode bs = Inr a"
  then have len: "length bs = 10" and v: "bs ! 0 = AMOUNT_ENCODING_VERSION" and t: "bs ! 9 = 1"
    and a: "a = \<lparr>am_value = u64_from_be_bytes (take 8 (drop 1 bs)), am_unit = Cents\<rparr>"
    by (auto simp: Amount_decode_def AMOUNT_ENCODED_LEN_def unit_from_tag_def split: if_splits)
  have "u64_to_be_bytes (am_value a) = take 8 (drop 1 bs)" using len by (simp add: a uN_to_from_be_bytes)
  then show "bs = Amount_encode a" using split_10 [OF len] v t a by (simp add: Amount_encode_def)
qed (simp add: Amount_decode_encode)

lemma length_Statement_encode: "statement_wf s \<Longrightarrow> length (Statement_encode s) = STATEMENT_ENCODED_LEN"
  by (simp add: Statement_encode_def statement_wf_def digest_wf_def DIGEST_LEN_def STATEMENT_ENCODED_LEN_def NONCE_LEN_def)

lemma Digest_digest_bytes [simp]: "Digest (digest_bytes d) = d"
  by (cases d) simp

lemma Statement_decode_Inr: "Statement_decode bs = Inr s \<longleftrightarrow> statement_wf s \<and> bs = Statement_encode s"
proof
  assume "statement_wf s \<and> bs = Statement_encode s"
  then show "Statement_decode bs = Inr s"
    using length_Statement_encode [of s]
    by (simp add: Statement_decode_def Statement_encode_def statement_wf_def digest_wf_def DIGEST_LEN_def NONCE_LEN_def
      Amount_decode_encode)
next
  assume "Statement_decode bs = Inr s"
  then show "statement_wf s \<and> bs = Statement_encode s"
    by (auto simp: Statement_decode_def Statement_encode_def statement_wf_def digest_wf_def DIGEST_LEN_def reader_iffs NONCE_LEN_def Amount_decode_Inr
        STATEMENT_ENCODED_LEN_def AMOUNT_ENCODED_LEN_def split: if_splits)
qed


section \<open>Properties\<close>

text \<open>The statement encoding is canonical. \<open>decode\<close> accepts exactly the encodings of well-formed
  statements and returns the statement that was encoded; it never panics, and every other input gives
  one of the documented errors.\<close>

theorem statement_codec:
  "(Statement_decode bs = Inr s \<longleftrightarrow> statement_wf s \<and> bs = Statement_encode s) \<and> Statement_decode bs \<noteq> Inl SE_Panic \<and>
   (length bs < 172 \<longrightarrow> Statement_decode bs = Inl SE_MalformedEncoding) \<and>
   (length bs > 172 \<longrightarrow> Statement_decode bs = Inl SE_TrailingBytes)"
proof -
  have "SE_Panic \<noteq> statement_error_from e" for e by (cases e) simp_all
  then have "Statement_decode bs \<noteq> Inl SE_Panic"
    by (auto simp: Statement_decode_def rbind_eq_Inl reader_Inls reader_iffs map_err_eq_Inl STATEMENT_ENCODED_LEN_def
        AMOUNT_ENCODED_LEN_def NONCE_LEN_def split: if_splits)
  moreover have "length bs < 172 \<longrightarrow> Statement_decode bs = Inl SE_MalformedEncoding"
      "length bs > 172 \<longrightarrow> Statement_decode bs = Inl SE_TrailingBytes"
    by (simp_all add: Statement_decode_def STATEMENT_ENCODED_LEN_def AMOUNT_ENCODED_LEN_def NONCE_LEN_def)
  ultimately show ?thesis using Statement_decode_Inr by blast
qed

definition demo_statement :: payment_statement where
  "demo_statement = \<lparr>st_payment_id = Digest (replicate 32 1), st_amount = \<lparr>am_value = 4242, am_unit = Cents\<rparr>,
     st_recipient = Digest (replicate 32 2), st_policy_id = Digest (replicate 32 3), st_circuit_id = Digest (replicate 32 4),
     st_protocol_version = 1, st_nonce = replicate 32 9\<rparr>"

theorem statement_codec_witness:
  "Statement_decode (Statement_encode demo_statement) = Inr demo_statement \<and>
   Statement_decode (Statement_encode demo_statement @ [0]) = Inl SE_TrailingBytes"
proof -
  have wf: "statement_wf demo_statement" by (simp add: demo_statement_def statement_wf_def digest_wf_def DIGEST_LEN_def)
  then have "length (Statement_encode demo_statement @ [0]) > 172"
    using length_Statement_encode by (simp add: STATEMENT_ENCODED_LEN_def AMOUNT_ENCODED_LEN_def NONCE_LEN_def)
  with wf statement_codec show ?thesis by blast
qed

text \<open>Payments with the same semantic id are the same payment, or their encodings are a collision of
  the hash function; in particular the nonce, the amount and the recipient are bound by the id.\<close>

theorem payment_id_collision:
  assumes "payment_wf p" "payment_wf q" and "Payment_payment_id sha256 p = Payment_payment_id sha256 q" and "p \<noteq> q"
  shows "let x = len_prefixed PAYMENT_ID_DOMAIN @ Payment_encode p; y = len_prefixed PAYMENT_ID_DOMAIN @ Payment_encode q
    in x \<noteq> y \<and> sha256 x = sha256 y"
proof -
  have "Payment_encode p \<noteq> Payment_encode q"
  proof
    assume "Payment_encode p = Payment_encode q"
    then have "pay_version p = pay_version q" "pay_id p = pay_id q" "Amount_encode (pay_amount p) = Amount_encode (pay_amount q)"
      "digest_bytes (pay_recipient p) = digest_bytes (pay_recipient q)" "pay_nonce p = pay_nonce q"
      using assms(1,2) by (auto simp: Payment_encode_def payment_wf_def digest_wf_def DIGEST_LEN_def append_eq_append_conv)
    then have "p = q" by (metis Amount_decode_Inr Amount_decode_encode Inr_inject Digest_digest_bytes payment.equality old.unit.exhaust)
    then show False using assms(4) by contradiction
  qed
  then show ?thesis
    using assms(3) hash_domain_collision [of sha256 PAYMENT_ID_DOMAIN "Payment_encode p" PAYMENT_ID_DOMAIN "Payment_encode q"]
    by (simp add: Payment_payment_id_def PAYMENT_ID_DOMAIN_def ascii_def fits_u32_def Let_def)
qed

definition demo_payment :: "u8 \<Rightarrow> payment" where
  "demo_payment n = \<lparr>pay_version = 1, pay_id = replicate 32 7, pay_amount = \<lparr>am_value = 1234, am_unit = Cents\<rparr>,
     pay_recipient = Digest (replicate 32 170), pay_nonce = replicate 32 n\<rparr>"

theorem payment_id_collision_witness:
  "Payment_encode (demo_payment 1) \<noteq> Payment_encode (demo_payment 2)"
proof -
  have "payment_wf (demo_payment n)" for n by (simp add: payment_wf_def digest_wf_def DIGEST_LEN_def demo_payment_def)
  moreover have "demo_payment 1 \<noteq> demo_payment 2" by (simp add: demo_payment_def)
  moreover have "Payment_payment_id (\<lambda>_. []) p = Payment_payment_id (\<lambda>_. []) q" for p q
    by (simp add: Payment_payment_id_def Sha256Hash_hash_domain_def Sha256Hash_hash_def)
  ultimately show ?thesis using payment_id_collision [of "demo_payment 1" "demo_payment 2" "\<lambda>_. []"] by (auto simp: Let_def)
qed

end
