(* ===== verification/Payment_Relation.thy ===== *)
theory Payment_Relation
  imports Payment Compiler_Inputs
begin

text \<open>
  Model of \<open>crates/payment/src/witness.rs\<close>, \<open>range_check.rs\<close>, \<open>wiring.rs\<close> and \<open>relation.rs\<close>: the
  private witness, the plaintext reference relation, and the wiring of statements and witnesses into
  circuit inputs. The field \<open>Fr\<close> is the type \<open>'f\<close> with its operations as parameters, as in the policy
  compiler. \<open>PyE_Panic\<close> stands for a panic in \<open>Policy::policy_id\<close> or in a called component.
\<close>

section \<open>The private witness\<close>

datatype payment_error =
    PyE_InvalidPolicy
  | PyE_PolicyIdMismatch
  | PyE_WitnessCountMismatch
  | PyE_MalformedCredentialSecret
  | PyE_CredentialCommitmentMismatch
  | PyE_ThresholdNotMet
  | PyE_AmountExceedsLimit
  | PyE_AmountMismatch
  | PyE_InvalidBitWitness
  | PyE_PolicyNotSatisfied
  | PyE_ProofGenerationFailed
  | PyE_ProofRejected
  | PyE_StatementMismatch
  | PyE_Panic

text \<open>\<open>map_err(|_| e)\<close> on a policy error; a panic stays a panic.\<close>

definition policy_err :: "payment_error \<Rightarrow> policy_error \<Rightarrow> payment_error" where
  "policy_err e pe = (if pe = PE_Panic then PyE_Panic else e)"

definition MAX_CREDENTIAL_SECRET_LEN :: nat where "MAX_CREDENTIAL_SECRET_LEN = 4096"

record private_witness =
  pw_secrets :: "bytes list"
  pw_amount :: amount
  pw_amount_bits :: "bool list"
  pw_difference_bits :: "bool list"

definition PrivateWitness_new :: "bytes list \<Rightarrow> amount \<Rightarrow> u64 \<Rightarrow> private_witness" where
  "PrivateWitness_new credentials am limit = \<lparr>pw_secrets = credentials, pw_amount = am,
     pw_amount_bits = decompose (am_value am), pw_difference_bits = decompose (limit - am_value am)\<rparr>"

text \<open>\<open>policy_credential_ids\<close> with its accumulator loop \<open>collect\<close>.\<close>

fun collect_ids :: "policy \<Rightarrow> credential_id list \<Rightarrow> credential_id list" where
  "collect_ids (Credential cid) ids = ids @ [cid]"
| "collect_ids (AmountAtMost _) ids = ids"
| "collect_ids (Threshold _ members) ids = fold collect_ids members ids"
| "collect_ids (And members) ids = fold collect_ids members ids"
| "collect_ids (Or members) ids = fold collect_ids members ids"

definition policy_credential_ids :: "policy \<Rightarrow> credential_id list" where
  "policy_credential_ids p = collect_ids p []"

definition PrivateWitness_validate :: "private_witness \<Rightarrow> policy \<Rightarrow> (payment_error, unit) result" where
  "PrivateWitness_validate w p =
     (if length (pw_secrets w) \<noteq> length (policy_credential_ids p) then Inl PyE_WitnessCountMismatch
      else if list_ex (\<lambda>secret. secret = [] \<or> length secret > MAX_CREDENTIAL_SECRET_LEN) (pw_secrets w)
      then Inl PyE_MalformedCredentialSecret
      else Inr ())"

definition to_policy_witness :: "private_witness \<Rightarrow> policy \<Rightarrow> (payment_error, policy_witness) result" where
  "to_policy_witness w p =
     rbind (PrivateWitness_validate w p) (\<lambda>_.
     Inr (fold (\<lambda>(cid, secret) pw. with_credential cid secret pw) (zip (policy_credential_ids p) (pw_secrets w))
       (with_amount (am_value (pw_amount w)) PolicyWitness_new)))"

section \<open>The plaintext range check\<close>

datatype range_check_error = ValueAboveLimit

definition reference_range_check :: "u64 \<Rightarrow> u64 \<Rightarrow> (range_check_error, unit) result" where
  "reference_range_check v limit = (if v > limit then Inl ValueAboveLimit else Inr ())"

fun declare_secrets :: "nat \<Rightarrow> ('f builder, policy_error, node_id list) op" where
  "declare_secrets 0 = oret (Inr [])"
| "declare_secrets (Suc n) = obind (gate b_secret_input) (\<lambda>i. obind (declare_secrets n) (\<lambda>is. oret (Inr (i # is))))"

definition RangeCheckBits_declare :: "('f builder, policy_error, range_check_bits) op" where
  "RangeCheckBits_declare =
     obind (declare_secrets AMOUNT_BIT_LEN) (\<lambda>vbits.
     obind (declare_secrets AMOUNT_BIT_LEN) (\<lambda>dbits.
     oret (Inr \<lparr>value_bits = vbits, difference_bits = dbits\<rparr>)))"

text \<open>The standalone circuit; \<open>None\<close> is a failed \<open>expect\<close>.\<close>

definition range_check_circuit :: "u64 \<Rightarrow> ('f::comm_ring_1 builder, policy_error, unit) op" where
  "range_check_circuit limit =
     obind (gate b_secret_input) (\<lambda>amount.
     obind (gate (b_constant (of_nat (unat limit)))) (\<lambda>limit_node.
     obind RangeCheckBits_declare (\<lambda>bits.
     obind (prove_bounded_difference amount limit_node bits) (\<lambda>outputs.
     gate (publish_outputs outputs)))))"

definition circuit_range_check_outputs :: "u64 \<Rightarrow> u64 \<Rightarrow> 'f::comm_ring_1 list option" where
  "circuit_range_check_outputs v limit =
     (case range_check_circuit limit Builder_new of
        (Inl _, _) \<Rightarrow> None
      | (Inr _, b) \<Rightarrow>
          (case build b of
             Inl _ \<Rightarrow> None
           | Inr circuit \<Rightarrow>
               (case evaluate_reference circuit (of_nat (unat v) # map of_bool (decompose v @ decompose (limit - v))) [] of
                  Inl _ \<Rightarrow> None
                | Inr values \<Rightarrow> if length values = 4 then Some values else None)))"

section \<open>Wiring\<close>

definition wiring_compile ::
    "('f::comm_ring_1 \<Rightarrow> nat) \<Rightarrow> nat \<Rightarrow> policy \<Rightarrow> (payment_error, 'f compiled_policy) result" where
  "wiring_compile into_bigint width p =
     map_err (policy_err PyE_InvalidPolicy) (compile_with_layout into_bigint width p)"

definition binding_values :: "payment_statement \<Rightarrow> 'f::comm_ring_1 list" where
  "binding_values st = [of_nat (unat (am_value (st_amount st))), digest_to_field (digest_bytes (st_recipient st)),
     digest_to_field (st_nonce st), digest_to_field (digest_bytes (st_payment_id st))]"

definition BINDING_SLOTS :: nat where "BINDING_SLOTS = 4"

text \<open>\<open>leaves.reduce\<close> with the closure that appends a multiplication node.\<close>

fun reduce_mul :: "node_id \<Rightarrow> node_id list \<Rightarrow> 'f node list \<Rightarrow> node_id \<times> 'f node list" where
  "reduce_mul a [] nodes = (a, nodes)"
| "reduce_mul a (b # rest) nodes = reduce_mul (of_nat (length nodes)) rest (nodes @ [Mul a b])"

definition bind_statement :: "'f compiled_policy \<Rightarrow> (payment_error, 'f circuit) result" where
  "bind_statement compiled =
     (let base = cp_circuit compiled;
          leaves = map (\<lambda>k. of_nat (length (c_nodes base) + k)) [0..<BINDING_SLOTS];
          nodes = c_nodes base @ replicate BINDING_SLOTS PublicInput
      in case leaves of
           [] \<Rightarrow> Inl PyE_InvalidPolicy
         | first # rest \<Rightarrow>
             (let (binding_product, nodes) = reduce_mul first rest nodes in
              if c_outputs base = [] then Inl PyE_InvalidPolicy
              else
                let old_root = last (c_outputs base);
                    final_node = of_nat (length nodes);
                    bound = \<lparr>c_nodes = nodes @ [Mul old_root binding_product], c_num_secret = c_num_secret base,
                      c_num_public = c_num_public base + BINDING_SLOTS,
                      c_outputs = butlast (c_outputs base) @ [final_node]\<rparr>
                in rbind (map_err (\<lambda>_. PyE_InvalidPolicy) (validate bound)) (\<lambda>_. Inr bound)))"

fun limits_walk :: "policy \<Rightarrow> u64 list \<Rightarrow> u64 list" where
  "limits_walk (AmountAtMost limit) out = out @ [limit]"
| "limits_walk (Credential _) out = out"
| "limits_walk (Threshold _ members) out = fold limits_walk members out"
| "limits_walk (And members) out = fold limits_walk members out"
| "limits_walk (Or members) out = fold limits_walk members out"

definition limits :: "policy \<Rightarrow> u64 list" where
  "limits p = limits_walk p []"

text \<open>The loop over the public slots, with the ids and limits not consumed yet.\<close>

fun slot_loop :: "public_slot list \<Rightarrow> credential_id list \<Rightarrow> u64 list \<Rightarrow> (payment_error, 'f::comm_ring_1 list) result" where
  "slot_loop [] ids lims = Inr []"
| "slot_loop (SlotCredentialCommitment _ # slots) ids lims =
     (case ids of
        [] \<Rightarrow> Inl PyE_InvalidPolicy
      | cid # ids' \<Rightarrow> rbind (slot_loop slots ids' lims) (\<lambda>publics. Inr (digest_to_field cid # publics)))"
| "slot_loop (SlotAmountLimit # slots) ids lims =
     (case lims of
        [] \<Rightarrow> Inl PyE_InvalidPolicy
      | limit # lims' \<Rightarrow> rbind (slot_loop slots ids lims') (\<lambda>publics. Inr (of_nat (unat limit) # publics)))"

definition policy_public_inputs :: "'f::comm_ring_1 compiled_policy \<Rightarrow> policy \<Rightarrow> (payment_error, 'f list) result" where
  "policy_public_inputs compiled p =
     rbind (map_err (policy_err PyE_InvalidPolicy) (policy_normalize p)) (\<lambda>normalized.
     slot_loop (cp_public_slots compiled) (policy_credential_ids normalized) (limits normalized))"

definition bound_public_inputs ::
    "'f::comm_ring_1 compiled_policy \<Rightarrow> policy \<Rightarrow> payment_statement \<Rightarrow> (payment_error, 'f list) result" where
  "bound_public_inputs compiled p st =
     rbind (policy_public_inputs compiled p) (\<lambda>publics. Inr (publics @ binding_values st))"

definition wiring_build_inputs ::
    "(bytes \<Rightarrow> bytes) \<Rightarrow> ('f::comm_ring_1 \<Rightarrow> 'f option) \<Rightarrow> 'f compiled_policy \<Rightarrow> policy \<Rightarrow> private_witness \<Rightarrow>
     (payment_error, 'f list \<times> 'f list) result" where
  "wiring_build_inputs sha256 inverse_op compiled p w =
     rbind (to_policy_witness w p) (\<lambda>pw.
     map_err (policy_err PyE_InvalidPolicy) (build_inputs sha256 inverse_op compiled p pw))"

definition reference_outputs ::
    "'f::comm_ring_1 circuit \<Rightarrow> 'f list \<Rightarrow> 'f list \<Rightarrow> (payment_error, 'f list) result" where
  "reference_outputs circuit secrets publics =
     map_err (\<lambda>e. if e = CE_Panic then PyE_Panic else PyE_InvalidPolicy) (evaluate_reference circuit secrets publics)"

section \<open>The authorization relation\<close>

text \<open>Step 3: the caps in order, with the digit witnesses.\<close>

fun check_limits :: "private_witness \<Rightarrow> u64 list \<Rightarrow> (payment_error, unit) result" where
  "check_limits w [] = Inr ()"
| "check_limits w (limit # rest) =
     (let v = am_value (pw_amount w) in
      if v > limit then Inl PyE_AmountExceedsLimit
      else if pw_amount_bits w \<noteq> decompose v \<or> pw_difference_bits w \<noteq> decompose (limit - v)
      then Inl PyE_InvalidBitWitness
      else check_limits w rest)"

definition Relation_validate ::
    "(bytes \<Rightarrow> bytes) \<Rightarrow> ('f::comm_ring_1 \<Rightarrow> nat) \<Rightarrow> nat \<Rightarrow> ('f \<Rightarrow> 'f option) \<Rightarrow>
     payment_statement \<Rightarrow> private_witness \<Rightarrow> policy \<Rightarrow> (payment_error, unit) result" where
  "Relation_validate sha256 into_bigint width inverse_op st w p =
     rbind (map_err (policy_err PyE_InvalidPolicy) (policy_validate p)) (\<lambda>_.
     rbind (ok_or PyE_Panic (Policy_policy_id sha256 p)) (\<lambda>pid.
     rbind (ensure (pid = st_policy_id st) PyE_PolicyIdMismatch) (\<lambda>_.
     rbind (PrivateWitness_validate w p) (\<lambda>_.
     rbind (ensure (pw_amount w = st_amount st) PyE_AmountMismatch) (\<lambda>_.
     rbind (check_limits w (limits p)) (\<lambda>_.
     rbind (to_policy_witness w p) (\<lambda>pw.
     rbind (map_err (policy_err PyE_InvalidPolicy) (policy_evaluate sha256 p pw)) (\<lambda>result.
     rbind (ensure (authorized result) PyE_PolicyNotSatisfied) (\<lambda>_.
     rbind (map_err (policy_err PyE_InvalidPolicy) (compile_with_layout into_bigint width p)) (\<lambda>compiled.
     rbind (map_err (policy_err PyE_InvalidPolicy) (reference_evaluate sha256 inverse_op compiled p pw)) (\<lambda>verdict.
     ensure verdict PyE_InvalidPolicy)))))))))))"

end
