(* ===== verification/Compiler_Layout.thy ===== *)
theory Compiler_Layout
  imports Compiler_Inputs
begin

text \<open>
  The slot layout of a compiled policy. The compiler records a slot whenever it declares an input;
  the lists are the depth-first layout of the normalised policy, which is the order in which inputs are
  built from a witness and in which the verifier recomputes the public inputs.
\<close>

section \<open>The layout of a policy\<close>

fun sslots :: "nat \<Rightarrow> policy \<Rightarrow> secret_slot list" and sslotss :: "nat \<Rightarrow> policy list \<Rightarrow> secret_slot list" where
  "sslots k (AmountAtMost _) = SlotAmount # map SlotAmountBit [0..<64] @ map SlotDifferenceBit [0..<64]"
| "sslots k (Credential _) = [SlotCredential k]"
| "sslots k (Threshold _ ms) = sslotss k ms @ [SlotAuxiliary]"
| "sslots k (And ms) = sslotss k ms"
| "sslots k (Or ms) = sslotss k ms"
| "sslotss k [] = []"
| "sslotss k (m # ms) = sslots k m @ sslotss (k + credential_count m) ms"

fun pslots :: "nat \<Rightarrow> policy \<Rightarrow> public_slot list" and pslotss :: "nat \<Rightarrow> policy list \<Rightarrow> public_slot list" where
  "pslots k (AmountAtMost _) = [SlotAmountLimit]"
| "pslots k (Credential _) = [SlotCredentialCommitment k]"
| "pslots k (Threshold _ ms) = pslotss k ms"
| "pslots k (And ms) = pslotss k ms"
| "pslots k (Or ms) = pslotss k ms"
| "pslotss k [] = []"
| "pslotss k (m # ms) = pslots k m @ pslotss (k + credential_count m) ms"

section \<open>What an operation adds\<close>

definition adds :: "('f compiler, policy_error, 'a) op \<Rightarrow> 'f compiler \<Rightarrow> secret_slot list \<Rightarrow> public_slot list \<Rightarrow> nat \<Rightarrow> bool" where
  "adds m c ss ps k \<longleftrightarrow> (\<forall>x c'. m c = (Inr x, c') \<longrightarrow> secret_slots c' = secret_slots c @ ss \<and>
     public_slots c' = public_slots c @ ps \<and> credential_counter c' = credential_counter c + k)"

definition silent :: "('f compiler, policy_error, 'a) op \<Rightarrow> bool" where
  "silent m \<longleftrightarrow> (\<forall>c. adds m c [] [] 0)"

lemma adds_bind:
  assumes "adds m c ss ps k"
    and "\<And>x c'. credential_counter c' = credential_counter c + k \<Longrightarrow> adds (f x) c' ss' ps' k'"
  shows "adds (obind m f) c (ss @ ss') (ps @ ps') (k + k')"
  unfolding adds_def
proof (intro allI impI)
  fix y c'' assume "obind m f c = (Inr y, c'')"
  then obtain x c' where m: "m c = (Inr x, c')" and f: "f x c' = (Inr y, c'')" by (auto simp: obind_Inr)
  then have "secret_slots c' = secret_slots c @ ss \<and> public_slots c' = public_slots c @ ps \<and>
      credential_counter c' = credential_counter c + k" using assms(1) by (simp add: adds_def)
  with assms(2) [of c' x] f show "secret_slots c'' = secret_slots c @ ss @ ss' \<and>
      public_slots c'' = public_slots c @ ps @ ps' \<and> credential_counter c'' = credential_counter c + (k + k')"
    by (simp add: adds_def)
qed

named_theorems silents \<open>operations that declare no input\<close>

lemma silent_bind [silents]: "silent m \<Longrightarrow> (\<And>x. silent (f x)) \<Longrightarrow> silent (obind m f)"
  unfolding silent_def using adds_bind [of m _ "[]" "[]" 0 f "[]" "[]" 0] by auto

lemma silentD: "silent m \<Longrightarrow> adds m c [] [] 0"
  by (simp add: silent_def)

lemma silent_oret [silents]: "silent (oret r)"
  by (simp add: silent_def adds_def oret_def)

lemma silent_on_cb [silents]: "silent (on_cb m)"
  by (auto simp: silent_def adds_def on_cb_def split: prod.splits)

lemma silent_gates [silents]: "silent (c_constant v)" "silent (c_add_gate a b)" "silent (c_mul_gate a b)"
  by (auto simp: c_constant_def c_add_gate_def silent_def adds_def c_mul_gate_def on_cb_def split: prod.splits)

lemma silent_if [silents]: "silent m \<Longrightarrow> silent m' \<Longrightarrow> silent (if b then m else m')"
  by simp

lemma silent_option [silents]: "silent m \<Longrightarrow> (\<And>y. silent (m' y)) \<Longrightarrow> silent (case x of None \<Rightarrow> m | Some y \<Rightarrow> m' y)"
  by (cases x) simp_all

lemma silent_sub_gate [silents]: "silent (c_sub_gate a b)"
  unfolding c_sub_gate_def by (intro silents)

lemma silent_one_minus [silents]: "silent (one_minus x)"
  unfolding one_minus_def by (intro silents)

lemma silent_push_constraint [silents]: "silent (push_constraint n)"
  by (simp add: silent_def adds_def push_constraint_def)

lemma silent_fermat_loop [silents]: "silent (fermat_loop bits x is acc)"
proof (induction "is" arbitrary: acc)
  case (Cons i "is")
  then show ?case unfolding fermat_loop.simps by (intro silents)
qed (unfold fermat_loop.simps, intro silents)

lemma silent_fermat_nonzero [silents]: "silent (fermat_nonzero into_bigint width x)"
  unfolding fermat_nonzero_def Let_def by (intro silents)

lemma silent_amount_product [silents]: "silent (amount_product into_bigint width ns b)"
proof (induction ns arbitrary: b)
  case (Cons n ns)
  then show ?case unfolding amount_product.simps by (intro silents)
qed (unfold amount_product.simps, intro silents)

lemma silent_discriminant_loop [silents]: "silent (discriminant_loop s ts d)"
proof (induction ts arbitrary: d)
  case (Cons t ts)
  then show ?case unfolding discriminant_loop.simps by (intro silents)
qed (unfold discriminant_loop.simps, intro silents)

lemma silent_combine_step [silents]: "silent (combine_step comb a b)"
  by (cases comb) (simp_all add: combine_step_def silents)

lemma adds_secret: "adds (c_secret_input slot) c [slot] [] 0"
  by (auto simp: adds_def c_secret_input_def on_cb_def split: prod.splits)

lemma adds_public: "adds (c_public_input slot) c [] [slot] 0"
  by (auto simp: adds_def c_public_input_def on_cb_def split: prod.splits)

lemma adds_auxiliary: "adds (auxiliary_input t) c [SlotAuxiliary] [] 0"
  by (auto simp: adds_def auxiliary_input_def on_cb_def split: prod.splits)

lemma adds_declare_bits: "adds (declare_bits slot ixs) c (map slot ixs) [] 0"
proof (induction ixs arbitrary: c)
  case Nil
  then show ?case by (simp add: adds_def)
next
  case (Cons ix ixs)
  have "adds (declare_bits slot (ix # ixs)) c ([slot ix] @ (map slot ixs @ [])) ([] @ ([] @ [])) (0 + (0 + 0))"
    unfolding declare_bits.simps by (intro adds_bind adds_secret Cons.IH silentD silent_oret)
  then show ?case by simp
qed

lemma adds_via:
  assumes "m c = m' c2" "adds m' c2 ss ps k" "secret_slots c2 = secret_slots c" "public_slots c2 = public_slots c"
    "credential_counter c2 = credential_counter c + j"
  shows "adds m c ss ps (j + k)"
  using assms by (simp add: adds_def)

lemma adds_emit_credential: "adds (emit_credential into_bigint width cid) c [SlotCredential (credential_counter c)]
    [SlotCredentialCommitment (credential_counter c)] 1"
proof -
  let ?k = "credential_counter c"
  let ?m = "obind (c_secret_input (SlotCredential ?k)) (\<lambda>secret.
      obind (c_public_input (SlotCredentialCommitment ?k)) (\<lambda>commitment.
      obind (c_sub_gate secret commitment) (\<lambda>difference.
      obind (fermat_nonzero into_bigint width difference) (\<lambda>nonzero. one_minus nonzero))))"
  let ?c = "c\<lparr>credential_counter := credential_counter c + 1\<rparr>"
  have "adds ?m ?c ([SlotCredential ?k] @ ([] @ [])) ([] @ ([SlotCredentialCommitment ?k] @ [])) (0 + (0 + 0))"
    by (rule adds_bind [OF adds_secret], rule adds_bind [OF adds_public], rule silentD, intro silents)
  moreover have "emit_credential into_bigint width cid c = ?m ?c" by (simp only: emit_credential_def Let_def)
  ultimately show ?thesis
    using adds_via [of "emit_credential into_bigint width cid" c ?m ?c "[SlotCredential ?k]" "[SlotCredentialCommitment ?k]" 0 1]
    by simp
qed

lemma adds_emit_amount: "adds (emit_amount into_bigint width l) c (sslots k (AmountAtMost l)) [SlotAmountLimit] 0"
proof -
  have "adds (emit_amount into_bigint width l) c
    ([SlotAmount] @ ([] @ (map SlotAmountBit [0..<AMOUNT_BIT_LEN] @ (map SlotDifferenceBit [0..<AMOUNT_BIT_LEN] @ []))))
    ([] @ ([SlotAmountLimit] @ ([] @ ([] @ [])))) (0 + (0 + (0 + (0 + 0))))"
    unfolding emit_amount_def
    by (rule adds_bind [OF adds_secret], rule adds_bind [OF adds_public], rule adds_bind [OF adds_declare_bits],
        rule adds_bind [OF adds_declare_bits], rule silentD, intro silents)
  then show ?thesis by (simp add: AMOUNT_BIT_LEN_def)
qed

lemma adds_threshold_tail: "adds (threshold_tail k s) c [SlotAuxiliary] [] 0"
proof -
  have "adds (threshold_tail k s) c ([] @ ([] @ ([SlotAuxiliary] @ []))) ([] @ ([] @ ([] @ []))) (0 + (0 + (0 + 0)))"
    unfolding threshold_tail_def
    by (rule adds_bind [OF silentD [OF silent_discriminant_loop]], rule adds_bind [OF silentD [OF silent_oret]],
        rule adds_bind [OF adds_auxiliary], rule silentD, intro silents)
  then show ?thesis by simp
qed

text \<open>Both member loops emit the members in order and fold their wires silently.\<close>

lemma adds_member_loop:
  assumes "\<And>r c. loop [] r c = (Inr r, c)"
    "\<And>m ms r. loop (m # ms) r = obind (emit_policy into_bigint width m) (\<lambda>n.
       obind (case r of None \<Rightarrow> oret (Inr n) | Some prev \<Rightarrow> step prev n) (\<lambda>r'. loop ms (Some r')))"
    and step: "\<And>a b. silent (step a b)"
    and ms: "\<And>m c. m \<in> set ms \<Longrightarrow> adds (emit_policy into_bigint width m) c (sslots (credential_counter c) m)
      (pslots (credential_counter c) m) (credential_count m)"
  shows "adds (loop ms r) c (sslotss (credential_counter c) ms) (pslotss (credential_counter c) ms)
    (sum_list (map credential_count ms))"
  using ms
proof (induction ms arbitrary: r c)
  case Nil
  then show ?case by (simp add: adds_def assms(1))
next
  case (Cons m ms)
  let ?k = "credential_counter c"
  have "adds (loop (m # ms) r) c (sslots ?k m @ ([] @ sslotss (?k + credential_count m) ms))
      (pslots ?k m @ ([] @ pslotss (?k + credential_count m) ms)) (credential_count m + (0 + sum_list (map credential_count ms)))"
    unfolding assms(2)
  proof (rule adds_bind, rule Cons.prems, simp, rule adds_bind)
    fix n and c' :: "'a compiler" assume "credential_counter c' = ?k + credential_count m"
    show "adds (case r of None \<Rightarrow> oret (Inr n) | Some prev \<Rightarrow> step prev n) c' [] [] 0"
      by (intro silentD silents step)
  next
    fix n r' and c' c'' :: "'a compiler" assume "credential_counter c' = ?k + credential_count m" "credential_counter c'' = credential_counter c' + 0"
    then show "adds (loop ms (Some r')) c'' (sslotss (?k + credential_count m) ms) (pslotss (?k + credential_count m) ms)
        (sum_list (map credential_count ms))"
      using Cons.IH [of "Some r'" c''] Cons.prems by simp
  qed
  then show ?case by simp
qed

lemma adds_sum_loop:
  "(\<And>m c. m \<in> set ms \<Longrightarrow> adds (emit_policy into_bigint width m) c (sslots (credential_counter c) m)
      (pslots (credential_counter c) m) (credential_count m)) \<Longrightarrow>
   adds (sum_loop into_bigint width ms r) c (sslotss (credential_counter c) ms) (pslotss (credential_counter c) ms)
     (sum_list (map credential_count ms))"
  by (rule adds_member_loop [where step = c_add_gate]) (simp, simp, rule silents, assumption)

lemma adds_combine:
  assumes "\<And>m c. m \<in> set ms \<Longrightarrow> adds (emit_policy into_bigint width m) c (sslots (credential_counter c) m)
      (pslots (credential_counter c) m) (credential_count m)"
  shows "adds (obind (combine_loop into_bigint width comb ms None) (\<lambda>w. oret (ok_or PE_EmptyPolicy w))) c
     (sslotss (credential_counter c) ms) (pslotss (credential_counter c) ms) (sum_list (map credential_count ms))"
proof -
  have "adds (combine_loop into_bigint width comb ms None) c (sslotss (credential_counter c) ms) (pslotss (credential_counter c) ms)
     (sum_list (map credential_count ms))"
    by (rule adds_member_loop [where step = "combine_step comb"]) (simp, simp, rule silents, erule assms)
  from adds_bind [OF this silentD [OF silent_oret]] show ?thesis by simp
qed

lemma adds_emit_policy:
  "adds (emit_policy into_bigint width p) c (sslots (credential_counter c) p) (pslots (credential_counter c) p) (credential_count p)"
proof (induction p arbitrary: c)
  case (AmountAtMost l)
  then show ?case using adds_emit_amount by simp
next
  case (Credential cid)
  then show ?case using adds_emit_credential by simp
next
  case (Threshold k ms)
  from adds_bind [OF adds_sum_loop [OF this, of _ _ c] adds_bind [OF silentD [OF silent_oret] adds_threshold_tail]]
  show ?case by simp
next
  case (And ms)
  show ?case unfolding emit_policy.simps sslots.simps pslots.simps credential_count.simps by (rule adds_combine [OF And])
next
  case (Or ms)
  show ?case unfolding emit_policy.simps sslots.simps pslots.simps credential_count.simps by (rule adds_combine [OF Or])
qed

lemma compile_slots:
  assumes "compile_with_layout into_bigint width p = Inr cp"
  shows "cp_secret_slots cp = sslots 0 (normalize_node p) \<and> cp_public_slots cp = pslots 0 (normalize_node p)"
proof -
  obtain root c where em: "emit_policy into_bigint width (normalize_node p) Compiler_new = (Inr root, c)"
    and fin: "finish c root = Inr cp"
    using assms by (auto simp: compile_with_layout_def policy_normalize_def split: prod.splits sum.splits)
  have "secret_slots c = sslots 0 (normalize_node p) \<and> public_slots c = pslots 0 (normalize_node p)"
    using adds_emit_policy [of into_bigint width "normalize_node p" Compiler_new] em
    by (simp add: adds_def Compiler_new_def)
  moreover have "cp_secret_slots cp = secret_slots c \<and> cp_public_slots cp = public_slots c"
    using fin by (auto simp: finish_def split: prod.splits sum.splits)
  ultimately show ?thesis by simp
qed

end
