(* ===== verification/Payment_Wiring.thy ===== *)
theory Payment_Wiring
  imports Payment_Relation Compiler_Layout
begin

text \<open>
  Correctness of the payment wiring and of the reference relation: the bound circuit multiplies the
  policy root with the four binding values of the statement, the verifier computes the public inputs
  of the prover, and on a payment that the relation accepts the outputs are those the verifier
  expects.
\<close>

section \<open>Traversals\<close>

fun policy_limits :: "policy \<Rightarrow> u64 list" where
  "policy_limits (AmountAtMost l) = [l]"
| "policy_limits (Credential _) = []"
| "policy_limits (Threshold _ ms) = concat (map policy_limits ms)"
| "policy_limits (And ms) = concat (map policy_limits ms)"
| "policy_limits (Or ms) = concat (map policy_limits ms)"

lemma fold_append: "(\<And>x acc. x \<in> set xs \<Longrightarrow> f x acc = acc @ g x) \<Longrightarrow> fold f xs acc = acc @ concat (map g xs)"
  by (induction xs arbitrary: acc) auto

lemma collect_ids_eq: "collect_ids p ids = ids @ policy_credentials p"
  by (induction p arbitrary: ids) (simp_all add: fold_append)

lemma limits_walk_eq: "limits_walk p out = out @ policy_limits p"
  by (induction p arbitrary: out) (simp_all add: fold_append)

lemma policy_credential_ids_eq [simp]: "policy_credential_ids p = policy_credentials p"
  by (simp add: policy_credential_ids_def collect_ids_eq)

lemma limits_eq [simp]: "limits p = policy_limits p"
  by (simp add: limits_def limits_walk_eq)

section \<open>The bound circuit\<close>

lemma trace_public_append:
  "public_leaves nodes \<le> length pub \<Longrightarrow> trace sec (pub @ bs) nodes = trace sec pub nodes"
proof (induction nodes rule: rev_induct)
  case (snoc n nodes)
  then have "trace sec (pub @ bs) nodes = trace sec pub nodes" by simp
  then show ?case using snoc.prems by (cases n) (simp_all add: trace_snoc nth_append)
qed simp

fun nodes_wf_from :: "nat \<Rightarrow> 'f node list \<Rightarrow> bool" where
  "nodes_wf_from k [] = True"
| "nodes_wf_from k (n # ns) = (node_wf k n \<and> nodes_wf_from (Suc k) ns)"

lemma nodes_wf_append: "nodes_wf (xs @ ys) \<longleftrightarrow> nodes_wf xs \<and> nodes_wf_from (length xs) ys"
proof (induction ys arbitrary: xs)
  case (Cons y ys)
  show ?case using Cons [of "xs @ [y]"] by simp
qed simp

text \<open>The nodes \<open>bind_statement\<close> appends to a circuit with \<open>n\<close> nodes.\<close>

definition binding_nodes :: "nat \<Rightarrow> node_id \<Rightarrow> 'f node list" where
  "binding_nodes n root = [PublicInput, PublicInput, PublicInput, PublicInput,
     Mul (of_nat n) (of_nat (n + 1)), Mul (of_nat (n + 4)) (of_nat (n + 2)), Mul (of_nat (n + 5)) (of_nat (n + 3)),
     Mul root (of_nat (n + 6))]"

lemma as_usize_of_nat: "k < 2 ^ 32 \<Longrightarrow> as_usize (of_nat k) = k"
  by (simp add: unat_of_nat)

definition bound_circuit :: "'f circuit \<Rightarrow> 'f circuit" where
  "bound_circuit c = \<lparr>c_nodes = c_nodes c @ binding_nodes (length (c_nodes c)) (last (c_outputs c)),
     c_num_secret = c_num_secret c, c_num_public = c_num_public c + 4,
     c_outputs = butlast (c_outputs c) @ [of_nat (length (c_nodes c) + 7)]\<rparr>"

lemma bound_circuit_wf:
  assumes "circuit_wf c" "length (c_nodes c) \<le> 2 ^ 31"
  shows "circuit_wf (bound_circuit c)"
proof -
  let ?n = "length (c_nodes c)" and ?r = "last (c_outputs c)"
  have r: "as_usize ?r < ?n" using assms(1) by (auto simp: circuit_wf_def)
  have id: "as_usize (of_nat (?n + k)) = ?n + k" if "k < 8" for k
    using that assms(2) by (intro as_usize_of_nat) simp
  have "nodes_wf (c_nodes c @ binding_nodes ?n ?r)"
    unfolding binding_nodes_def nodes_wf_append
    using r assms(1) id [of 0] id [of 1] id [of 2] id [of 3] id [of 4] id [of 5] id [of 6] by (auto simp: circuit_wf_def less_SucI)
  moreover have "secret_leaves (binding_nodes ?n ?r :: 'a node list) = 0" "public_leaves (binding_nodes ?n ?r :: 'a node list) = 4"
    by (simp_all add: binding_nodes_def secret_leaves_def public_leaves_def)
  moreover have "length (binding_nodes ?n ?r :: 'a node list) = 8" by (simp add: binding_nodes_def)
  ultimately show ?thesis
    using assms(1) id [of 7] by (auto simp: circuit_wf_def bound_circuit_def dest!: in_set_butlastD)
qed

lemma bound_circuit_trace:
  assumes "circuit_wf c" "length (c_nodes c) \<le> 2 ^ 31" "length pub = c_num_public c"
  shows "trace sec (pub @ [b0, b1, b2, b3]) (c_nodes (bound_circuit c)) = trace sec pub (c_nodes c) @
    [b0, b1, b2, b3, b0 * b1, b0 * b1 * b2, b0 * b1 * b2 * b3,
     trace sec pub (c_nodes c) ! as_usize (last (c_outputs c)) * (b0 * b1 * b2 * b3)]"
proof -
  let ?n = "length (c_nodes c)" and ?r = "last (c_outputs c)"
  have pl: "public_leaves (c_nodes c) = length pub" using assms(1,3) by (simp add: circuit_wf_def)
  have r: "as_usize ?r < ?n" using assms(1) by (auto simp: circuit_wf_def)
  have id: "as_usize (of_nat (?n + k)) = ?n + k" if "k < 8" for k
    using that assms(2) by (intro as_usize_of_nat) simp
  have base: "trace_from sec (pub @ [b0, b1, b2, b3]) (c_nodes c) 0 0 [] = trace sec pub (c_nodes c)"
    using trace_public_append [of "c_nodes c" pub sec "[b0, b1, b2, b3]"] pl by (simp add: trace_def)
  show ?thesis
    unfolding trace_def [of _ "pub @ [b0, b1, b2, b3]"] bound_circuit_def circuit.simps trace_from_append base binding_nodes_def
    using pl r id [of 0] id [of 1] id [of 2] id [of 3] id [of 4] id [of 5] id [of 6]
    by (simp add: nth_append)
qed

lemma bind_statement_eq:
  assumes "circuit_wf (cp_circuit cp)" "length (c_nodes (cp_circuit cp)) \<le> 2 ^ 31"
  shows "bind_statement cp = Inr (bound_circuit (cp_circuit cp))"
proof -
  have "c_outputs (cp_circuit cp) \<noteq> []" using assms(1) by (simp add: circuit_wf_def)
  moreover have "validate (bound_circuit (cp_circuit cp)) = Inr ()" using bound_circuit_wf [OF assms] by (simp add: validate_iff)
  ultimately show ?thesis
    by (simp add: bind_statement_def Let_def BINDING_SLOTS_def upt_conv_Cons eval_nat_numeral bound_circuit_def binding_nodes_def ac_simps)
qed

lemma bound_evaluate:
  assumes imp: "implements cp n" and len: "length sec = sec_count n" "length pub = pub_count n"
  shows "evaluate_reference (bound_circuit (cp_circuit cp)) sec (pub @ binding_values st) =
    Inr (dcons sec pub 0 0 n @ [dval sec pub 0 0 n * prod_list (binding_values st)])"
proof -
  let ?c = "cp_circuit cp" and ?bs = "binding_values st :: 'a list"
  obtain b0 b1 b2 b3 where bs: "?bs = [b0, b1, b2, b3]" by (simp add: binding_values_def)
  have wf: "circuit_wf ?c" and sm: "length (c_nodes ?c) \<le> 2 ^ 31" and pl: "length pub = c_num_public ?c"
    using imp len by (simp_all add: implements_def)
  have ne: "c_outputs ?c \<noteq> []" and rng: "\<forall>i\<in>set (c_outputs ?c). as_usize i < length (c_nodes ?c)"
    using wf by (simp_all add: circuit_wf_def)
  have c_outs: "c_outputs (bound_circuit ?c) = butlast (c_outputs ?c) @ [of_nat (length (c_nodes ?c) + 7)]"
    by (simp add: bound_circuit_def)
  have outs: "map (\<lambda>i. trace sec pub (c_nodes ?c) ! as_usize i) (butlast (c_outputs ?c) @ [last (c_outputs ?c)]) =
      dcons sec pub 0 0 n @ [dval sec pub 0 0 n]"
    using imp ne by (simp add: implements_def node_vals_def)
  have "map (\<lambda>i. trace sec (pub @ ?bs) (c_nodes (bound_circuit ?c)) ! as_usize i) (butlast (c_outputs ?c)) =
      map (\<lambda>i. trace sec pub (c_nodes ?c) ! as_usize i) (butlast (c_outputs ?c))"
    using rng unfolding bs bound_circuit_trace [OF wf sm pl] by (auto simp: nth_append dest: in_set_butlastD)
  moreover have "trace sec (pub @ ?bs) (c_nodes (bound_circuit ?c)) ! as_usize (of_nat (length (c_nodes ?c) + 7)) =
      dval sec pub 0 0 n * (b0 * b1 * b2 * b3)"
    using outs sm as_usize_of_nat [of "length (c_nodes ?c) + 7"] unfolding bs bound_circuit_trace [OF wf sm pl]
    by (simp add: nth_append)
  ultimately have "circuit_outputs (bound_circuit ?c) sec (pub @ ?bs) =
      dcons sec pub 0 0 n @ [dval sec pub 0 0 n * (b0 * b1 * b2 * b3)]"
    using outs c_outs by (simp add: circuit_outputs_def del: map_eq_conv)
  moreover have "inputs_fit (bound_circuit ?c) sec (pub @ ?bs)"
    using imp len by (simp add: inputs_fit_def bound_circuit_def implements_def binding_values_def)
  ultimately show ?thesis
    using evaluate_reference_eq [OF bound_circuit_wf [OF wf sm]] by (simp add: bs mult.assoc)
qed

section \<open>Public inputs\<close>

lemma slot_loop_members:
  assumes "\<And>m k slots ids lims. m \<in> set ms \<Longrightarrow>
      slot_loop (pslots k m @ slots) (policy_credentials m @ ids) (policy_limits m @ lims) =
        rbind (slot_loop slots ids lims) (\<lambda>r :: 'f::comm_ring_1 list. Inr (fpubs m @ r))"
  shows "slot_loop (pslotss k ms @ slots) (concat (map policy_credentials ms) @ ids) (concat (map policy_limits ms) @ lims) =
    rbind (slot_loop slots ids lims) (\<lambda>r :: 'f list. Inr (concat (map fpubs ms) @ r))"
  using assms
proof (induction ms arbitrary: k)
  case Nil
  then show ?case by (cases "slot_loop slots ids lims :: (payment_error, 'f list) result") simp_all
next
  case (Cons m ms)
  then show ?case by (cases "slot_loop slots ids lims :: (payment_error, 'f list) result") simp_all
qed

lemma slot_loop_pslots:
  "slot_loop (pslots k p @ slots) (policy_credentials p @ ids) (policy_limits p @ lims) =
     rbind (slot_loop slots ids lims) (\<lambda>r :: 'f::comm_ring_1 list. Inr (fpubs p @ r))"
  by (induction p arbitrary: k slots ids lims) (simp_all add: slot_loop_members)

text \<open>The verifier's public inputs are those the prover fills in.\<close>

lemma policy_public_inputs_eq:
  assumes "compile_with_layout into_bigint width p = Inr cp"
  shows "policy_public_inputs cp p = Inr (fpubs (normalize_node p))"
  using compile_slots [OF assms] slot_loop_pslots [of 0 "normalize_node p" "[]" "[]" "[]"]
  by (simp add: policy_public_inputs_def policy_normalize_def)

section \<open>All-zero secrets\<close>

lemma dconss_zero_members:
  assumes "\<And>m i j. m \<in> set ms \<Longrightarrow> i + sec_count m \<le> n \<Longrightarrow> set (dcons (replicate n 0) pub i j m) \<subseteq> {0 :: 'f::comm_ring_1}"
    and "i + secs ms \<le> n"
  shows "set (dconss (replicate n 0) pub i j ms) \<subseteq> {0 :: 'f}"
  using assms
proof (induction ms arbitrary: i j)
  case (Cons m ms)
  have "set (dconss (replicate n 0) pub (i + sec_count m) (j + pub_count m) ms) \<subseteq> {0 :: 'f}"
    using Cons.prems by (intro Cons.IH) auto
  then show ?case using Cons.prems(1) [of m i j] Cons.prems(2) by simp
qed simp

lemma dcons_zero: "i + sec_count p \<le> n \<Longrightarrow> set (dcons (replicate n 0) pub i j p) \<subseteq> {0 :: 'f::comm_ring_1}"
proof (induction p arbitrary: i j)
  case (Threshold k ms)
  then have "set (dconss (replicate n 0) pub i j ms) \<subseteq> {0 :: 'f}" by (intro dconss_zero_members) auto
  then show ?case using Threshold.prems by simp
qed (simp_all add: dconss_zero_members)

section \<open>The policy witness of a private witness\<close>

lemma fold_with_credential:
  "fold (\<lambda>(cid, secret) wt. with_credential cid secret wt) xs wt =
     wt\<lparr>credential_secrets := credential_secrets wt @ xs\<rparr>"
  by (induction xs arbitrary: wt) (auto simp: with_credential_def)

definition witness_of :: "private_witness \<Rightarrow> policy \<Rightarrow> policy_witness" where
  "witness_of w p = \<lparr>credential_secrets = zip (policy_credentials p) (pw_secrets w), w_amount = Some (am_value (pw_amount w))\<rparr>"

definition witness_shape :: "private_witness \<Rightarrow> policy \<Rightarrow> bool" where
  "witness_shape w p \<longleftrightarrow> length (pw_secrets w) = length (policy_credentials p) \<and>
     (\<forall>s\<in>set (pw_secrets w). s \<noteq> [] \<and> length s \<le> MAX_CREDENTIAL_SECRET_LEN)"

lemma PrivateWitness_validate_iff: "PrivateWitness_validate w p = Inr () \<longleftrightarrow> witness_shape w p"
  by (auto simp: PrivateWitness_validate_def witness_shape_def list_ex_iff not_le)

lemma to_policy_witness_eq: "witness_shape w p \<Longrightarrow> to_policy_witness w p = Inr (witness_of w p)"
  using PrivateWitness_validate_iff [of w p]
  by (simp add: to_policy_witness_def witness_of_def fold_with_credential with_amount_def PolicyWitness_new_def)

lemma witness_of_fits:
  assumes "witness_shape w p"
  shows "witness_fits (witness_of w p) p"
proof -
  have "fst ` set (zip (policy_credentials p) (pw_secrets w)) = set (policy_credentials p)"
    using assms by (simp add: witness_shape_def flip: set_map)
  then show ?thesis by (auto simp: witness_fits_def secret_for_None witness_of_def)
qed

definition caps_ok :: "private_witness \<Rightarrow> policy \<Rightarrow> bool" where
  "caps_ok w p \<longleftrightarrow> (\<forall>l\<in>set (policy_limits p). am_value (pw_amount w) \<le> l \<and>
     pw_amount_bits w = decompose (am_value (pw_amount w)) \<and> pw_difference_bits w = decompose (l - am_value (pw_amount w)))"

lemma check_limits_iff:
  "check_limits w ls = Inr () \<longleftrightarrow> (\<forall>l\<in>set ls. am_value (pw_amount w) \<le> l \<and>
     pw_amount_bits w = decompose (am_value (pw_amount w)) \<and> pw_difference_bits w = decompose (l - am_value (pw_amount w)))"
  by (induction ls) (auto simp: Let_def)

lemma policy_evaluate_fits:
  "witness_fits w p \<Longrightarrow> \<exists>ar. policy_evaluate sha256 p w = Inr ar \<and> authorized ar = sat sha256 w p"
  by (simp add: policy_evaluate_def validate_against_eq Let_def is_satisfied_eval)

text \<open>What the relation accepts, once the policy id has been computed.\<close>

definition payment_ok :: "(bytes \<Rightarrow> bytes) \<Rightarrow> payment_statement \<Rightarrow> private_witness \<Rightarrow> policy \<Rightarrow> bool" where
  "payment_ok sha256 st w p \<longleftrightarrow> policy_valid p \<and> policy_valid (normalize_node p) \<and>
     Policy_policy_id sha256 p = Some (st_policy_id st) \<and> witness_shape w p \<and> pw_amount w = st_amount st \<and>
     caps_ok w p \<and> sat sha256 (witness_of w p) p"

context compiler_field
begin

lemma reference_evaluate_authorized:
  assumes "policy_small p" "policy_valid (normalize_node p)" "witness_fits w p" "sat sha256 w p"
    and cp: "compile_with_layout into_bigint width p = Inr cp"
  shows "reference_evaluate sha256 inverse_op cp p w = Inr True"
proof -
  have "implements cp (normalize_node p)" by (rule compiled_implements [OF cp])
  moreover have "\<forall>cid\<in>set (policy_credentials (normalize_node p)). secret_for w cid \<noteq> None"
    using assms(3) credentials_normalize [of p] by (auto simp: witness_fits_def)
  moreover have "csat (same_residue TYPE('f)) sha256 w (normalize_node p)"
    using assms(1,4) sat_imp_csat [of "same_residue TYPE('f)"] sat_normalize by (simp add: same_residue_def)
  ultimately show ?thesis
    using assms(2) reference_evaluate_eq by (simp add: policy_valid_def)
qed

lemma relation_iff:
  assumes small: "policy_small p"
  shows "Relation_validate sha256 into_bigint width inverse_op st w p = Inr () \<longleftrightarrow> payment_ok sha256 st w p"
proof
  assume "Relation_validate sha256 into_bigint width inverse_op st w p = Inr ()"
  then obtain wt ar cp where r: "policy_valid p" "Policy_policy_id sha256 p = Some (st_policy_id st)" "witness_shape w p"
    "pw_amount w = st_amount st" "check_limits w (policy_limits p) = Inr ()" "to_policy_witness w p = Inr wt"
    "policy_evaluate sha256 p wt = Inr ar" "authorized ar" "compile_with_layout into_bigint width p = Inr cp"
    by (auto simp: Relation_validate_def policy_validate_iff PrivateWitness_validate_iff)
  have "policy_valid (normalize_node p)" by (rule compiled_implements [OF r(9)])
  moreover have "sat sha256 (witness_of w p) p"
    using r(6-8) to_policy_witness_eq [OF r(3)] policy_evaluate_fits [OF witness_of_fits [OF r(3)], of sha256] by auto
  ultimately show "payment_ok sha256 st w p" using r by (simp add: payment_ok_def caps_ok_def check_limits_iff)
next
  assume ok: "payment_ok sha256 st w p"
  then have shape: "witness_shape w p" and vn: "policy_valid (normalize_node p)" and sat: "sat sha256 (witness_of w p) p"
    by (simp_all add: payment_ok_def)
  obtain cp where cp: "compile_with_layout into_bigint width p = Inr cp" using compile_implements [OF vn] by blast
  obtain ar where ar: "policy_evaluate sha256 p (witness_of w p) = Inr ar" "authorized ar"
    using policy_evaluate_fits [OF witness_of_fits [OF shape], of sha256] sat by auto
  have "reference_evaluate sha256 inverse_op cp p (witness_of w p) = Inr True"
    by (rule reference_evaluate_authorized [OF small vn witness_of_fits [OF shape] sat cp])
  moreover have "check_limits w (policy_limits p) = Inr ()"
    using ok unfolding payment_ok_def caps_ok_def check_limits_iff by blast
  ultimately show "Relation_validate sha256 into_bigint width inverse_op st w p = Inr ()"
    using ok cp ar to_policy_witness_eq [OF shape] policy_validate_iff [of p] PrivateWitness_validate_iff [of w p]
    by (simp add: Relation_validate_def payment_ok_def)
qed

text \<open>On an accepted payment the bound circuit has the outputs the verifier expects.\<close>

lemma payment_outputs:
  assumes small: "policy_small p" and ok: "payment_ok sha256 st w p"
  shows "\<exists>cp secs. wiring_compile into_bigint width p = Inr cp \<and>
    wiring_build_inputs sha256 inverse_op cp p w = Inr (secs, fpubs (normalize_node p)) \<and>
    bound_public_inputs cp p st = Inr (fpubs (normalize_node p) @ binding_values st) \<and>
    bind_statement cp = Inr (bound_circuit (cp_circuit cp)) \<and>
    reference_outputs (bound_circuit (cp_circuit cp)) secs (fpubs (normalize_node p) @ binding_values st) =
      Inr (replicate (cp_range_check_outputs cp) 0 @ [prod_list (binding_values st :: 'f list)])"
proof -
  let ?n = "normalize_node p"
  have shape: "witness_shape w p" and vn: "policy_valid ?n" and sat: "sat sha256 (witness_of w p) p"
    using ok by (simp_all add: payment_ok_def)
  obtain cp where cp: "compile_with_layout into_bigint width p = Inr cp" "implements cp ?n"
    using compile_implements [OF vn] by blast
  have creds: "\<forall>cid\<in>set (policy_credentials ?n). secret_for (witness_of w p) cid \<noteq> None"
    using witness_of_fits [OF shape] credentials_normalize [of p] by (auto simp: witness_fits_def)
  obtain S where S: "build_inputs sha256 inverse_op cp p (witness_of w p) = Inr (S, fpubs ?n)" "length S = sec_count ?n"
    "honest sha256 (witness_of w p) S (fpubs ?n) 0 0 ?n" "solution inverse_op S (aux_pos 0 ?n) (daux S (fpubs ?n) 0 0 ?n)"
    using build_inputs_solved [OF cp(2) creds] by blast
  have "csat (same_residue TYPE('f)) sha256 (witness_of w p) ?n"
    using sat small sat_imp_csat [of "same_residue TYPE('f)"] sat_normalize by (simp add: same_residue_def)
  then have hv: "dval S (fpubs ?n) 0 0 ?n = 1" "set (dcons S (fpubs ?n) 0 0 ?n) \<subseteq> {0}"
    using honest_values [OF _ S(3,4)] vn by (simp_all add: policy_valid_def)
  have len: "length (dcons S (fpubs ?n) 0 0 ?n) = cp_range_check_outputs cp"
  proof -
    have "node_vals S (fpubs ?n) (cp_circuit cp) (c_outputs (cp_circuit cp)) = dcons S (fpubs ?n) 0 0 ?n @ [dval S (fpubs ?n) 0 0 ?n]"
      using cp(2) by (simp add: implements_def)
    from arg_cong [OF this, of length] show ?thesis using cp(2) by (simp add: node_vals_def implements_def)
  qed
  have "dcons S (fpubs ?n) 0 0 ?n = replicate (cp_range_check_outputs cp) 0"
    using hv(2) len by (intro replicate_eqI) auto
  then have "reference_outputs (bound_circuit (cp_circuit cp)) S (fpubs ?n @ binding_values st) =
      Inr (replicate (cp_range_check_outputs cp) 0 @ [prod_list (binding_values st)])"
    using bound_evaluate [OF cp(2) S(2), of "fpubs ?n" st] hv(1) by (simp add: reference_outputs_def)
  moreover have "bind_statement cp = Inr (bound_circuit (cp_circuit cp))"
    using cp(2) by (intro bind_statement_eq) (simp_all add: implements_def)
  moreover have "bound_public_inputs cp p st = Inr (fpubs ?n @ binding_values st)"
    by (simp add: bound_public_inputs_def policy_public_inputs_eq [OF cp(1)])
  ultimately show ?thesis
    using cp(1) S(1) to_policy_witness_eq [OF shape] by (auto simp: wiring_compile_def wiring_build_inputs_def)
qed

end

section \<open>Properties\<close>

text \<open>C14: the reference relation accepts a payment exactly when the policy and its normal form are valid,
  the statement names the policy and the amount of the witness, every secret is well-formed and there
  is one for each credential, every cap of the policy holds with the digit witnesses of the amount and
  of the difference, and the policy is satisfied. The final evaluation of the compiled circuit never
  refuses a payment that passed the other checks.\<close>

theorem relation_correct:
  assumes field: "compiler_field modulus into_bigint inverse_op width" and small: "policy_small p"
  shows "Relation_validate sha256 into_bigint width inverse_op st w p = Inr () \<longleftrightarrow>
    policy_validate p = Inr () \<and> policy_validate (normalize_node p) = Inr () \<and>
    Policy_policy_id sha256 p = Some (st_policy_id st) \<and> witness_shape w p \<and> pw_amount w = st_amount st \<and>
    (\<forall>l\<in>set (policy_limits p). am_value (pw_amount w) \<le> l \<and> pw_amount_bits w = decompose (am_value (pw_amount w)) \<and>
       pw_difference_bits w = decompose (l - am_value (pw_amount w))) \<and>
    sat sha256 (witness_of w p) p"
  using compiler_field.relation_iff [OF field small, of sha256 st w]
  by (simp add: payment_ok_def caps_ok_def policy_validate_iff)

text \<open>C15: prover and verifier agree on the statement to be proved. For a payment the relation accepts, the
  inputs are built, the public inputs the verifier recomputes from the policy and the statement alone
  are those of the prover, and the outputs of the bound circuit are the expected ones: zero for every
  published constraint and the product of the binding values for the root.\<close>

theorem payment_statements_agree:
  assumes field: "compiler_field modulus (into_bigint :: 'f::comm_ring_1 \<Rightarrow> nat) inverse_op width" and small: "policy_small p"
    and rel: "Relation_validate sha256 into_bigint width inverse_op st w p = Inr ()"
  shows "\<exists>cp bound secs publics. wiring_compile into_bigint width p = Inr cp \<and> bind_statement cp = Inr bound \<and>
    validate bound = Inr () \<and> wiring_build_inputs sha256 inverse_op cp p w = Inr (secs, publics) \<and>
    bound_public_inputs cp p st = Inr (publics @ binding_values st) \<and>
    reference_outputs bound secs (publics @ binding_values st) =
      Inr (replicate (cp_range_check_outputs cp) 0 @ [prod_list (binding_values st)])"
proof -
  have ok: "payment_ok sha256 st w p" using compiler_field.relation_iff [OF field small] rel by blast
  obtain cp secs where cp: "wiring_compile into_bigint width p = Inr cp"
    "wiring_build_inputs sha256 inverse_op cp p w = Inr (secs, fpubs (normalize_node p))"
    "bound_public_inputs cp p st = Inr (fpubs (normalize_node p) @ binding_values st)"
    "bind_statement cp = Inr (bound_circuit (cp_circuit cp))"
    "reference_outputs (bound_circuit (cp_circuit cp)) secs (fpubs (normalize_node p) @ binding_values st) =
      Inr (replicate (cp_range_check_outputs cp) 0 @ [prod_list (binding_values st :: 'f list)])"
    using compiler_field.payment_outputs [OF field small ok] by blast
  moreover have "validate (bound_circuit (cp_circuit cp)) = Inr ()"
    using cp(4) by (auto simp: bind_statement_def Let_def split: list.splits prod.splits if_splits)
  ultimately show ?thesis by blast
qed

text \<open>A statement with amount 0 needs no credential. The binding values are multiplied into the root,
  and the verifier expects their product; with the amount 0 among them the product is 0. For every policy
  that compiles, the all-zero secret inputs give exactly the outputs the verifier expects.\<close>

theorem zero_amount_needs_no_credential:
  assumes field: "compiler_field modulus (into_bigint :: 'f::comm_ring_1 \<Rightarrow> nat) inverse_op width"
    and cp: "wiring_compile into_bigint width p = Inr cp" and zero: "am_value (st_amount st) = 0"
  shows "\<exists>bound publics. bind_statement cp = Inr bound \<and> bound_public_inputs cp p st = Inr publics \<and>
    reference_outputs bound (replicate (c_num_secret bound) 0) publics =
      Inr (replicate (cp_range_check_outputs cp) 0 @ [prod_list (binding_values st)])"
proof -
  let ?n = "normalize_node p"
  have c: "compile_with_layout into_bigint width p = Inr cp" using cp by (simp add: wiring_compile_def)
  note imp = compiler_field.compiled_implements(2) [OF field c]
  let ?S = "replicate (sec_count ?n) (0 :: 'f)" and ?P = "fpubs ?n :: 'f list"
  have "node_vals ?S ?P (cp_circuit cp) (c_outputs (cp_circuit cp)) = dcons ?S ?P 0 0 ?n @ [dval ?S ?P 0 0 ?n]"
    using imp by (simp add: implements_def)
  from arg_cong [OF this, of length] have len: "length (dcons ?S ?P 0 0 ?n) = cp_range_check_outputs cp"
    using imp by (simp add: node_vals_def implements_def)
  have "dcons ?S ?P 0 0 ?n = replicate (cp_range_check_outputs cp) 0"
    using dcons_zero [of 0 ?n "sec_count ?n" ?P 0] len by (intro replicate_eqI) auto
  moreover have pz: "prod_list (binding_values st) = (0 :: 'f)" using zero by (simp add: binding_values_def)
  ultimately have "reference_outputs (bound_circuit (cp_circuit cp)) ?S (?P @ binding_values st) =
      Inr (replicate (cp_range_check_outputs cp) 0 @ [prod_list (binding_values st)])"
    using bound_evaluate [OF imp, of ?S ?P st] by (simp add: reference_outputs_def)
  moreover have "bind_statement cp = Inr (bound_circuit (cp_circuit cp))"
    using imp by (intro bind_statement_eq) (simp_all add: implements_def)
  moreover have "bound_public_inputs cp p st = Inr (?P @ binding_values st)"
    by (simp add: bound_public_inputs_def policy_public_inputs_eq [OF c])
  moreover have "c_num_secret (bound_circuit (cp_circuit cp)) = sec_count ?n"
    using imp by (simp add: bound_circuit_def implements_def)
  ultimately show ?thesis by auto
qed

text \<open>C38: a policy with two different caps is never authorised. The relation compares the one vector of
  difference digits with the difference to every cap, so it refuses every witness, also where the policy
  itself is satisfied.\<close>

theorem relation_rejects_two_caps:
  assumes "l1 \<in> set (policy_limits p)" "l2 \<in> set (policy_limits p)" "l1 \<noteq> l2"
  shows "Relation_validate sha256 into_bigint width inverse_op st w p \<noteq> Inr ()"
proof
  assume "Relation_validate sha256 into_bigint width inverse_op st w p = Inr ()"
  then have "check_limits w (policy_limits p) = Inr ()" by (auto simp: Relation_validate_def)
  then have "decompose (l1 - am_value (pw_amount w)) = decompose (l2 - am_value (pw_amount w))"
    using assms(1,2) by (metis check_limits_iff)
  then have "l1 - am_value (pw_amount w) = l2 - am_value (pw_amount w)"
    using digits_value_decompose by (metis word_unat_eq_iff)
  then show False using assms(3) by simp
qed

section \<open>Witnesses\<close>

definition cap_policy :: policy where
  "cap_policy = Threshold 1 [AmountAtMost 5]"

definition cap_witness :: private_witness where
  "cap_witness = PrivateWitness_new [] \<lparr>am_value = 3, am_unit = Cents\<rparr> 5"

definition cap_statement :: payment_statement where
  "cap_statement = demo_statement\<lparr>st_amount := \<lparr>am_value = 3, am_unit = Cents\<rparr>,
     st_policy_id := the (Policy_policy_id low32 cap_policy)\<rparr>"

lemma cap_policy_facts: "policy_small cap_policy" "normalize_node cap_policy = cap_policy" "policy_valid cap_policy"
  by (simp_all add: cap_policy_def policy_small_def policy_valid_def direct_credentials_def MAX_POLICY_DEPTH_def
      MAX_POLICY_NODES_def MAX_CREDENTIAL_COUNT_def)

lemma cap_payment_ok: "payment_ok low32 cap_statement cap_witness cap_policy"
proof -
  have "length (encode_policy cap_policy) \<le> MAX_ENCODED_SIZE"
    by (simp add: cap_policy_def encode_policy_def MAX_ENCODED_SIZE_def)
  then have "\<exists>d. Policy_policy_id low32 cap_policy = Some d"
    by (simp add: Policy_policy_id_def policy_id_def policy_normalize_def cap_policy_facts)
  then have "Policy_policy_id low32 cap_policy = Some (st_policy_id cap_statement)" by (auto simp: cap_statement_def)
  then show ?thesis
    using cap_policy_facts
    by (simp add: payment_ok_def caps_ok_def witness_shape_def cap_witness_def cap_statement_def PrivateWitness_new_def
        cap_policy_def witness_of_def word_le_nat_alt)
qed

lemma cap_relation: "Relation_validate low32 fp_into_bigint 16 fp_inverse cap_statement cap_witness cap_policy = Inr ()"
  using fp_compiler.relation_iff [OF cap_policy_facts(1)] cap_payment_ok by blast

theorem relation_correct_witness: "sat low32 (witness_of cap_witness cap_policy) cap_policy"
  using relation_correct [OF fp_compiler_field cap_policy_facts(1)] cap_relation by blast

theorem payment_statements_agree_witness:
  "\<exists>cp bound secs publics. wiring_compile fp_into_bigint 16 cap_policy = Inr cp \<and> bind_statement cp = Inr bound \<and>
    wiring_build_inputs low32 fp_inverse cp cap_policy cap_witness = Inr (secs, publics) \<and>
    bound_public_inputs cp cap_policy cap_statement = Inr (publics @ binding_values cap_statement)"
  using payment_statements_agree [OF fp_compiler_field cap_policy_facts(1) cap_relation] by blast

theorem zero_amount_needs_no_credential_witness:
  "\<exists>cp bound publics. wiring_compile fp_into_bigint 16 (Credential (replicate 32 7)) = Inr cp \<and> bind_statement cp = Inr bound \<and>
    reference_outputs bound (replicate (c_num_secret bound) 0) publics = Inr (replicate (cp_range_check_outputs cp) 0 @ [0])"
proof -
  let ?st = "demo_statement\<lparr>st_amount := \<lparr>am_value = 0, am_unit = Cents\<rparr>\<rparr>"
  have "policy_valid (normalize_node (Credential (replicate 32 7)))"
    by (simp add: policy_valid_def credential_is_zero_def CREDENTIAL_ID_LEN_def MAX_POLICY_DEPTH_def MAX_POLICY_NODES_def
        MAX_CREDENTIAL_COUNT_def)
  from fp_compiler.compile_implements [OF this]
  obtain cp where cp: "wiring_compile fp_into_bigint 16 (Credential (replicate 32 7)) = Inr cp"
    by (auto simp: wiring_compile_def)
  have z: "am_value (st_amount ?st) = 0" by simp
  have "prod_list (binding_values ?st) = (0 :: fp)" by (simp add: binding_values_def)
  with zero_amount_needs_no_credential [OF fp_compiler_field cp z] cp show ?thesis by auto
qed

theorem relation_rejects_two_caps_witness:
  "Relation_validate low32 fp_into_bigint 16 fp_inverse cap_statement cap_witness (And [AmountAtMost 5, AmountAtMost 9]) \<noteq> Inr ()"
  by (rule relation_rejects_two_caps [of 5 _ 9]) simp_all

end
