(* ===== verification/Mpcith.thy ===== *)
theory Mpcith
  imports Circuit_Encoding
begin

text \<open>
  Model of the data of \<open>crates/mpcith\<close>: parties and challenges (\<open>types.rs\<close>, \<open>challenge.rs\<close>), the
  statement (\<open>statement.rs\<close>), party views (\<open>view.rs\<close>), the byte formats (\<open>encoding.rs\<close>) and the view
  commitments (\<open>commitment.rs\<close>). The prover and the verifier are in \<open>Mpcith_Prover\<close> and
  \<open>Mpcith_Verifier\<close>.

  The field \<open>Fr\<close> is a type \<open>'f\<close> with \<open>into_bigint\<close> and the modulus as parameters; the backend \<open>B\<close> is
  its function \<open>hash\<close>. \<open>RepetitionId\<close> and \<open>PartyId\<close> are the words they wrap, \<open>SecretBytes\<close> are bytes.
  \<open>MpE_Panic\<close> stands for a panic.
\<close>

section \<open>Parties, challenges, errors\<close>

datatype mpcith_error =
    MpE_InvalidStatement
  | MpE_InvalidCircuit
  | MpE_InvalidChallenge
  | MpE_InvalidRepetitionCount
  | MpE_MissingCommitment
  | MpE_MalformedCommitment
  | MpE_MissingResponse
  | MpE_InvalidOpening
  | MpE_CommitmentMismatch
  | MpE_InconsistentView
  | MpE_InvalidOperation
  | MpE_OutputMismatch
  | MpE_MalformedEncoding
  | MpE_InvalidProtocolState
  | MpE_Panic

definition PARTY_COUNT :: u8 where "PARTY_COUNT = 3"
definition RANDOMNESS_LEN_MPCITH :: nat where "RANDOMNESS_LEN_MPCITH = 32"
definition DIGEST_LEN_MPCITH :: nat where "DIGEST_LEN_MPCITH = 32"

type_synonym party_id = u8
type_synonym repetition_id = u32

definition PartyId_new :: "u8 \<Rightarrow> (mpcith_error, party_id) result" where
  "PartyId_new v = (if v \<ge> PARTY_COUNT then Inl MpE_InvalidChallenge else Inr v)"

definition others :: "party_id \<Rightarrow> party_id list" where
  "others p = (if p = 0 then [1, 2] else if p = 1 then [0, 2] else [0, 1])"

record challenge =
  hidden_party :: party_id

text \<open>\<open>RandomChallengeSource\<close> over the generator's \<open>next_u64\<close>, and \<open>DeterministicChallengeSource\<close>
  with its queue.\<close>

definition random_next_challenge :: "('g \<Rightarrow> u64 \<times> 'g) \<Rightarrow> ('g, mpcith_error, challenge) op" where
  "random_next_challenge next_u64 g =
     (let (w, g') = next_u64 g; v = of_nat (unat (w mod of_nat (unat PARTY_COUNT)))
      in (rbind (map_err (\<lambda>_. MpE_InvalidProtocolState) (PartyId_new v)) (\<lambda>p. Inr \<lparr>hidden_party = p\<rparr>), g'))"

definition deterministic_repeating :: "party_id \<Rightarrow> nat \<Rightarrow> party_id list" where
  "deterministic_repeating hidden count = replicate count hidden"

definition deterministic_next_challenge :: "(party_id list, mpcith_error, challenge) op" where
  "deterministic_next_challenge queue =
     (case queue of [] \<Rightarrow> (Inl MpE_InvalidProtocolState, []) | p # rest \<Rightarrow> (Inr \<lparr>hidden_party = p\<rparr>, rest))"

section \<open>The statement\<close>

record 'f mpcith_statement =
  ms_circuit_id :: digest
  ms_public_inputs :: "'f list"
  ms_expected_outputs :: "'f list"

definition MpcithStatement_validate ::
    "(bytes \<Rightarrow> bytes) \<Rightarrow> ('f \<Rightarrow> nat) \<Rightarrow> nat \<Rightarrow> 'f mpcith_statement \<Rightarrow> 'f circuit \<Rightarrow> (mpcith_error, unit) result" where
  "MpcithStatement_validate sha256 into_bigint width st c =
     rbind (map_err (\<lambda>_. MpE_InvalidCircuit) (validate c)) (\<lambda>_.
     rbind (ok_or MpE_Panic (compute_id sha256 into_bigint width c)) (\<lambda>cid.
     rbind (ensure (ms_circuit_id st = cid) MpE_InvalidCircuit) (\<lambda>_.
     ensure (\<not> (length (ms_public_inputs st) \<noteq> c_num_public c \<or>
                length (ms_expected_outputs st) \<noteq> length (c_outputs c))) MpE_InvalidStatement)))"

section \<open>Views\<close>

record 'f triple_share =
  ts_a :: 'f
  ts_b :: 'f
  ts_c :: 'f

datatype 'f local_operation =
    Op_Add node_id 'f
  | Op_MulPublic node_id 'f 'f
  | Op_BeaverMul node_id nat 'f 'f 'f

record 'f party_view =
  pv_repetition_id :: repetition_id
  pv_party_id :: party_id
  pv_input_shares :: "'f list"
  pv_local_operations :: "'f local_operation list"
  pv_triple_shares :: "'f triple_share list"
  pv_opened_values :: "'f list"

fun zeroize_operation :: "'f::zero local_operation \<Rightarrow> 'f local_operation" where
  "zeroize_operation (Op_Add output share) = Op_Add output 0"
| "zeroize_operation (Op_MulPublic output public share) = Op_MulPublic output public 0"
| "zeroize_operation (Op_BeaverMul output triple_index d e share) = Op_BeaverMul output triple_index 0 0 0"

definition PartyView_zeroize :: "'f::zero party_view \<Rightarrow> 'f party_view" where
  "PartyView_zeroize v = v\<lparr>pv_input_shares := map (\<lambda>_. 0) (pv_input_shares v),
     pv_local_operations := map zeroize_operation (pv_local_operations v),
     pv_triple_shares := map (\<lambda>_. \<lparr>ts_a = 0, ts_b = 0, ts_c = 0\<rparr>) (pv_triple_shares v),
     pv_opened_values := map (\<lambda>_. 0) (pv_opened_values v)\<rparr>"

section \<open>Encoding of views\<close>

definition MPCITH_ENCODING_VERSION :: u8 where "MPCITH_ENCODING_VERSION = 1"
definition MAX_REPETITIONS :: nat where "MAX_REPETITIONS = 10000"
definition OP_TAG_ADD :: u8 where "OP_TAG_ADD = 0"
definition OP_TAG_MUL_PUBLIC :: u8 where "OP_TAG_MUL_PUBLIC = 1"
definition OP_TAG_BEAVER_MUL :: u8 where "OP_TAG_BEAVER_MUL = 2"
definition ELEMENT_WIDTH :: nat where "ELEMENT_WIDTH = 32"

lemmas operation_tags = OP_TAG_ADD_def OP_TAG_MUL_PUBLIC_def OP_TAG_BEAVER_MUL_def

definition put_element :: "('f \<Rightarrow> nat) \<Rightarrow> 'f \<Rightarrow> bytes" where
  "put_element into_bigint v = be_bytes ELEMENT_WIDTH (into_bigint v)"

definition element_from_be_bytes :: "nat \<Rightarrow> bytes \<Rightarrow> 'f::comm_ring_1 option" where
  "element_from_be_bytes modulus bs =
     (if length bs \<noteq> ELEMENT_WIDTH then None else from_bigint modulus (from_bits_be (bits_be bs)))"

fun encode_operation :: "('f \<Rightarrow> nat) \<Rightarrow> 'f local_operation \<Rightarrow> bytes" where
  "encode_operation into_bigint (Op_Add output share) =
     OP_TAG_ADD # u32_to_be_bytes output @ put_element into_bigint share"
| "encode_operation into_bigint (Op_MulPublic output public share) =
     OP_TAG_MUL_PUBLIC # u32_to_be_bytes output @ put_element into_bigint public @ put_element into_bigint share"
| "encode_operation into_bigint (Op_BeaverMul output triple_index d e share) =
     OP_TAG_BEAVER_MUL # u32_to_be_bytes output @ u32_to_be_bytes (of_nat triple_index) @
     put_element into_bigint d @ put_element into_bigint e @ put_element into_bigint share"

definition encode_triple :: "('f \<Rightarrow> nat) \<Rightarrow> 'f triple_share \<Rightarrow> bytes" where
  "encode_triple into_bigint t =
     put_element into_bigint (ts_a t) @ put_element into_bigint (ts_b t) @ put_element into_bigint (ts_c t)"

definition encode_view :: "('f \<Rightarrow> nat) \<Rightarrow> 'f party_view \<Rightarrow> bytes" where
  "encode_view into_bigint v =
     u32_to_be_bytes (pv_repetition_id v) @ [pv_party_id v] @
     put_vec (put_element into_bigint) (pv_input_shares v) @
     put_vec (encode_operation into_bigint) (pv_local_operations v) @
     put_vec (encode_triple into_bigint) (pv_triple_shares v) @
     put_vec (put_element into_bigint) (pv_opened_values v)"

text \<open>The readers; each returns the bytes left in the cursor.\<close>

definition read_party_id :: "bytes \<Rightarrow> (mpcith_error, party_id \<times> bytes) result" where
  "read_party_id bs =
     rbind (read_u8 MpE_MalformedEncoding bs) (\<lambda>(b, rest).
     rbind (map_err (\<lambda>_. MpE_MalformedEncoding) (PartyId_new b)) (\<lambda>p. Inr (p, rest)))"

definition read_element :: "'e \<Rightarrow> nat \<Rightarrow> bytes \<Rightarrow> ('e, 'f::comm_ring_1 \<times> bytes) result" where
  "read_element err modulus bs =
     rbind (read_slice err ELEMENT_WIDTH bs) (\<lambda>(raw, rest).
     rbind (ok_or err (element_from_be_bytes modulus raw)) (\<lambda>v. Inr (v, rest)))"

definition decode_operation :: "nat \<Rightarrow> bytes \<Rightarrow> (mpcith_error, 'f::comm_ring_1 local_operation \<times> bytes) result" where
  "decode_operation modulus bs =
     rbind (read_u8 MpE_MalformedEncoding bs) (\<lambda>(tag, rest).
     if tag = OP_TAG_ADD then
       rbind (read_u32 MpE_MalformedEncoding rest) (\<lambda>(output, rest).
       rbind (read_element MpE_MalformedEncoding modulus rest) (\<lambda>(share, rest). Inr (Op_Add output share, rest)))
     else if tag = OP_TAG_MUL_PUBLIC then
       rbind (read_u32 MpE_MalformedEncoding rest) (\<lambda>(output, rest).
       rbind (read_element MpE_MalformedEncoding modulus rest) (\<lambda>(public, rest).
       rbind (read_element MpE_MalformedEncoding modulus rest) (\<lambda>(share, rest). Inr (Op_MulPublic output public share, rest))))
     else if tag = OP_TAG_BEAVER_MUL then
       rbind (read_u32 MpE_MalformedEncoding rest) (\<lambda>(output, rest).
       rbind (read_u32 MpE_MalformedEncoding rest) (\<lambda>(triple_index, rest).
       rbind (read_element MpE_MalformedEncoding modulus rest) (\<lambda>(d, rest).
       rbind (read_element MpE_MalformedEncoding modulus rest) (\<lambda>(e, rest).
       rbind (read_element MpE_MalformedEncoding modulus rest) (\<lambda>(share, rest).
       Inr (Op_BeaverMul output (unat triple_index) d e share, rest))))))
     else Inl MpE_MalformedEncoding)"

definition decode_triple :: "nat \<Rightarrow> bytes \<Rightarrow> (mpcith_error, 'f::comm_ring_1 triple_share \<times> bytes) result" where
  "decode_triple modulus bs =
     rbind (read_element MpE_MalformedEncoding modulus bs) (\<lambda>(a, rest).
     rbind (read_element MpE_MalformedEncoding modulus rest) (\<lambda>(b, rest).
     rbind (read_element MpE_MalformedEncoding modulus rest) (\<lambda>(c, rest).
     Inr (\<lparr>ts_a = a, ts_b = b, ts_c = c\<rparr>, rest))))"

definition decode_view :: "nat \<Rightarrow> bytes \<Rightarrow> (mpcith_error, 'f::comm_ring_1 party_view \<times> bytes) result" where
  "decode_view modulus bs =
     rbind (read_u32 MpE_MalformedEncoding bs) (\<lambda>(rid, rest).
     rbind (read_party_id rest) (\<lambda>(pid, rest).
     rbind (read_vec MpE_MalformedEncoding (read_element MpE_MalformedEncoding modulus) rest) (\<lambda>(inputs, rest).
     rbind (read_vec MpE_MalformedEncoding (decode_operation modulus) rest) (\<lambda>(ops, rest).
     rbind (read_vec MpE_MalformedEncoding (decode_triple modulus) rest) (\<lambda>(triples, rest).
     rbind (read_vec MpE_MalformedEncoding (read_element MpE_MalformedEncoding modulus) rest) (\<lambda>(opened, rest).
     Inr (\<lparr>pv_repetition_id = rid, pv_party_id = pid, pv_input_shares = inputs, pv_local_operations = ops,
       pv_triple_shares = triples, pv_opened_values = opened\<rparr>, rest)))))))"

section \<open>View commitments\<close>

definition VIEW_COMMITMENT_DOMAIN :: bytes where
  "VIEW_COMMITMENT_DOMAIN = ascii ''private-payment-auth/mpcith/view/v2''"

definition commitment_message :: "('f \<Rightarrow> nat) \<Rightarrow> 'f party_view \<Rightarrow> bytes" where
  "commitment_message into_bigint v = len_prefixed VIEW_COMMITMENT_DOMAIN @ encode_view into_bigint v"

text \<open>\<open>&digest.as_bytes()[..32]\<close> copied into an array.\<close>

definition first_32 :: "bytes \<Rightarrow> bytes option" where
  "first_32 bs = (if length bs < 32 then None else Some (take 32 bs))"

definition commit_view ::
    "(bytes \<Rightarrow> bytes) \<Rightarrow> ('f \<Rightarrow> nat) \<Rightarrow> 'f party_view \<Rightarrow> bytes \<Rightarrow> (mpcith_error, digest) result" where
  "commit_view hash into_bigint v randomness =
     rbind (map_err (\<lambda>_. MpE_MalformedCommitment) (CommitmentRandomness_new randomness)) (\<lambda>r.
     rbind (ok_or MpE_Panic (backend_commit hash (commitment_message into_bigint v) r)) (\<lambda>d.
     rbind (ok_or MpE_Panic (first_32 d)) (\<lambda>b. Inr (Digest b))))"

definition verify_commitment ::
    "(bytes \<Rightarrow> bytes) \<Rightarrow> ('f \<Rightarrow> nat) \<Rightarrow> digest \<Rightarrow> 'f party_view \<Rightarrow> bytes \<Rightarrow> (mpcith_error, bool) result" where
  "verify_commitment hash into_bigint commitment v randomness =
     rbind (map_err (\<lambda>_. MpE_MalformedCommitment) (CommitmentRandomness_new randomness)) (\<lambda>r.
     rbind (ok_or MpE_Panic (backend_commit hash (commitment_message into_bigint v) r)) (\<lambda>d.
     rbind (ok_or MpE_Panic (first_32 d)) (\<lambda>b. Inr (digest_ct_eq (Digest b) commitment))))"

section \<open>Repetitions and proofs\<close>

record 'f opened_view =
  ov_view :: "'f party_view"
  ov_randomness :: bytes

record 'f repetition =
  rep_id :: repetition_id
  rep_commitments :: "digest list"
  rep_challenge :: challenge
  rep_opened_views :: "'f opened_view list"
  rep_hidden_output_shares :: "'f list"
  rep_hidden_broadcasts :: "'f list"

record 'f mpcith_proof =
  mp_repetitions :: "'f repetition list"

definition encode_challenge :: "challenge \<Rightarrow> bytes" where
  "encode_challenge ch = [hidden_party ch]"

definition decode_challenge :: "bytes \<Rightarrow> (mpcith_error, challenge \<times> bytes) result" where
  "decode_challenge bs = rbind (read_party_id bs) (\<lambda>(p, rest). Inr (\<lparr>hidden_party = p\<rparr>, rest))"

definition encode_opened :: "('f \<Rightarrow> nat) \<Rightarrow> 'f opened_view \<Rightarrow> bytes" where
  "encode_opened into_bigint ov =
     (let view_bytes = encode_view into_bigint (ov_view ov)
      in u32_to_be_bytes (of_nat (length view_bytes)) @ view_bytes @ ov_randomness ov)"

definition encode_repetition :: "('f \<Rightarrow> nat) \<Rightarrow> 'f repetition \<Rightarrow> bytes" where
  "encode_repetition into_bigint r =
     u32_to_be_bytes (rep_id r) @ concat (map digest_bytes (rep_commitments r)) @
     encode_challenge (rep_challenge r) @
     put_vec (put_element into_bigint) (rep_hidden_output_shares r) @
     put_vec (put_element into_bigint) (rep_hidden_broadcasts r) @
     concat (map (encode_opened into_bigint) (rep_opened_views r))"

definition read_digest :: "'e \<Rightarrow> bytes \<Rightarrow> ('e, digest \<times> bytes) result" where
  "read_digest err bs = rbind (read_slice err DIGEST_LEN_MPCITH bs) (\<lambda>(raw, rest). Inr (Digest raw, rest))"

text \<open>The view is decoded from its own slice; what the slice holds after the view is dropped.\<close>

definition decode_opened :: "nat \<Rightarrow> bytes \<Rightarrow> (mpcith_error, 'f::comm_ring_1 opened_view \<times> bytes) result" where
  "decode_opened modulus bs =
     rbind (read_u32 MpE_MalformedEncoding bs) (\<lambda>(len, rest).
     rbind (read_slice MpE_MalformedEncoding (unat len) rest) (\<lambda>(view_bytes, rest).
     rbind (decode_view modulus view_bytes) (\<lambda>(v, _).
     rbind (read_slice MpE_MalformedEncoding RANDOMNESS_LEN_MPCITH rest) (\<lambda>(raw, rest).
     Inr (\<lparr>ov_view = v, ov_randomness = raw\<rparr>, rest)))))"

definition decode_repetition :: "nat \<Rightarrow> bytes \<Rightarrow> (mpcith_error, 'f::comm_ring_1 repetition \<times> bytes) result" where
  "decode_repetition modulus bs =
     rbind (read_u32 MpE_MalformedEncoding bs) (\<lambda>(rid, rest).
     rbind (read_n (read_digest MpE_MalformedEncoding) (unat PARTY_COUNT) rest) (\<lambda>(commitments, rest).
     rbind (map_err (\<lambda>_. MpE_MalformedEncoding) (decode_challenge rest)) (\<lambda>(ch, rest).
     rbind (read_vec MpE_MalformedEncoding (read_element MpE_MalformedEncoding modulus) rest) (\<lambda>(outs, rest).
     rbind (read_vec MpE_MalformedEncoding (read_element MpE_MalformedEncoding modulus) rest) (\<lambda>(broadcasts, rest).
     rbind (read_n (decode_opened modulus) 2 rest) (\<lambda>(opened, rest).
     Inr (\<lparr>rep_id = rid, rep_commitments = commitments, rep_challenge = ch, rep_opened_views = opened,
       rep_hidden_output_shares = outs, rep_hidden_broadcasts = broadcasts\<rparr>, rest)))))))"

definition encode_proof :: "('f \<Rightarrow> nat) \<Rightarrow> 'f mpcith_proof \<Rightarrow> bytes" where
  "encode_proof into_bigint pr = [MPCITH_ENCODING_VERSION] @ put_vec (encode_repetition into_bigint) (mp_repetitions pr)"

definition decode_proof :: "nat \<Rightarrow> bytes \<Rightarrow> (mpcith_error, 'f::comm_ring_1 mpcith_proof) result" where
  "decode_proof modulus bs =
     rbind (read_u8 MpE_MalformedEncoding bs) (\<lambda>(version, rest).
     rbind (ensure (version = MPCITH_ENCODING_VERSION) MpE_MalformedEncoding) (\<lambda>_.
     rbind (read_u32 MpE_MalformedEncoding rest) (\<lambda>(n_reps, rest).
     rbind (ensure (\<not> unat n_reps > MAX_REPETITIONS) MpE_MalformedEncoding) (\<lambda>_.
     rbind (read_n (decode_repetition modulus) (unat n_reps) rest) (\<lambda>(reps, rest).
     rbind (ensure (rest = []) MpE_MalformedEncoding) (\<lambda>_. Inr \<lparr>mp_repetitions = reps\<rparr>))))))"

section \<open>The public transcript\<close>

record 'f repetition_transcript =
  rt_repetition_id :: repetition_id
  rt_commitments :: "digest list"
  rt_challenge :: challenge
  rt_opened_parties :: "u8 list"
  rt_opened_views :: "'f party_view list"
  rt_hidden_output_shares :: "'f list"
  rt_hidden_broadcasts :: "'f list"

definition transcript_from_proof :: "'f mpcith_proof \<Rightarrow> 'f repetition_transcript list" where
  "transcript_from_proof pr = map (\<lambda>r.
     let opened = sort_key (\<lambda>ov. pv_party_id (ov_view ov)) (rep_opened_views r);
         party = (\<lambda>k. if k < length opened then pv_party_id (ov_view (opened ! k)) else 0)
     in \<lparr>rt_repetition_id = rep_id r, rt_commitments = rep_commitments r, rt_challenge = rep_challenge r,
         rt_opened_parties = [party 0, party 1], rt_opened_views = map ov_view opened,
         rt_hidden_output_shares = rep_hidden_output_shares r,
         rt_hidden_broadcasts = rep_hidden_broadcasts r\<rparr>) (mp_repetitions pr)"

definition is_ordered :: "'f repetition_transcript list \<Rightarrow> bool" where
  "is_ordered rts \<longleftrightarrow> list_all (\<lambda>(i, rt). rt_repetition_id rt = of_nat i) (zip [0..<length rts] rts)"

end
