(* ===== verification/Mpcith_Prover.thy ===== *)
theory Mpcith_Prover
  imports Mpcith
begin

text \<open>
  Model of \<open>crates/mpcith/src/prover.rs\<close>: one repetition simulates the three parties on the circuit,
  records what each does in its view, commits to the views and, given the challenge, opens two of
  them.

  The generator is the state \<open>'g\<close> with the operations \<open>rand\<close> (\<open>FieldElement::rand\<close>) and \<open>fill\<close>
  (\<open>fill_bytes\<close>). A \<open>[FieldElement; 3]\<close> is a list. The fields of \<open>MpcithProver\<close> that do not change are
  the record \<open>mpcith_prover\<close>; its generator is the state of the operations.
\<close>

section \<open>Data\<close>

datatype 'f node_val =
    NV_Public 'f
  | NV_Shared "'f list"

definition nv_shared :: "'f node_val \<Rightarrow> bool" where
  "nv_shared v = (case v of NV_Shared _ \<Rightarrow> True | NV_Public _ \<Rightarrow> False)"

definition public_part :: "'f::zero node_val \<Rightarrow> 'f" where
  "public_part v = (case v of NV_Public x \<Rightarrow> x | NV_Shared _ \<Rightarrow> 0)"

definition operand :: "'f node_val \<Rightarrow> nat \<Rightarrow> 'f" where
  "operand v p = (case v of NV_Public x \<Rightarrow> x | NV_Shared s \<Rightarrow> s ! p)"

record 'f party_state =
  ps_input_shares :: "'f list"
  ps_local_operations :: "'f local_operation list"
  ps_triple_shares :: "'f triple_share list"
  ps_opened_values :: "'f list"

definition PartyState_empty :: "'f party_state" where
  "PartyState_empty = \<lparr>ps_input_shares = [], ps_local_operations = [], ps_triple_shares = [], ps_opened_values = []\<rparr>"

text \<open>\<open>for p in 0..3 { .. parties[p] .. }\<close>\<close>

definition each_party :: "(nat \<Rightarrow> 'f party_state \<Rightarrow> 'f party_state) \<Rightarrow> 'f party_state list \<Rightarrow> 'f party_state list" where
  "each_party f parties = map (\<lambda>p. f p (parties ! p)) [0..<3]"

definition push_operation :: "'f local_operation \<Rightarrow> 'f party_state \<Rightarrow> 'f party_state" where
  "push_operation op s = s\<lparr>ps_local_operations := ps_local_operations s @ [op]\<rparr>"

record 'f partial_repetition =
  par_id :: repetition_id
  par_commitments :: "digest list"
  par_views :: "'f party_view list"
  par_randomness :: "bytes list"
  par_output_vals :: "(bool \<times> 'f list) list"
  par_broadcasts :: "'f list list"

record 'f mpcith_prover =
  mpv_circuit :: "'f circuit"
  mpv_statement :: "'f mpcith_statement"
  mpv_witness :: "'f list"

definition MpcithProver_new_backend ::
    "(bytes \<Rightarrow> bytes) \<Rightarrow> ('f \<Rightarrow> nat) \<Rightarrow> nat \<Rightarrow> 'f circuit \<Rightarrow> 'f mpcith_statement \<Rightarrow> 'f list \<Rightarrow>
     (mpcith_error, 'f mpcith_prover) result" where
  "MpcithProver_new_backend sha256 into_bigint width c st witness =
     rbind (MpcithStatement_validate sha256 into_bigint width st c) (\<lambda>_.
     rbind (ensure (length witness = c_num_secret c) MpE_InvalidStatement) (\<lambda>_.
     Inr \<lparr>mpv_circuit = c, mpv_statement = st, mpv_witness = witness\<rparr>))"

section \<open>Randomness\<close>

definition share3 :: "('g \<Rightarrow> 'f::comm_ring_1 \<times> 'g) \<Rightarrow> 'f \<Rightarrow> 'g \<Rightarrow> 'f list \<times> 'g" where
  "share3 rand v g =
     (let (s0, g) = rand g; (s1, g) = rand g; s2 = v - s0 - s1 in ([s0, s1, s2], g))"

definition prover_next_triple :: "('g \<Rightarrow> 'f::comm_ring_1 \<times> 'g) \<Rightarrow> 'g \<Rightarrow> ('f list \<times> 'f list \<times> 'f list) \<times> 'g" where
  "prover_next_triple rand g =
     (let (a, g) = rand g; (b, g) = rand g; c = a * b;
          (ta, g) = share3 rand a g; (tb, g) = share3 rand b g; (tc, g) = share3 rand c g
      in ((ta, tb, tc), g))"

definition fresh_randomness :: "('g \<Rightarrow> nat \<Rightarrow> bytes \<times> 'g) \<Rightarrow> ('g, mpcith_error, bytes) op" where
  "fresh_randomness fill g = (let (bs, g') = fill g RANDOMNESS_LEN_MPCITH in (Inr bs, g'))"

section \<open>The simulation\<close>

text \<open>An index into a vector; out of range is a panic.\<close>

definition mp_index :: "'a list \<Rightarrow> nat \<Rightarrow> (mpcith_error, 'a) result" where
  "mp_index xs i = (if i < length xs then Inr (xs ! i) else Inl MpE_Panic)"

fun share_inputs :: "('g \<Rightarrow> 'f::comm_ring_1 \<times> 'g) \<Rightarrow> 'f list \<Rightarrow> 'f party_state list \<Rightarrow> 'g \<Rightarrow> 'f party_state list \<times> 'g" where
  "share_inputs rand [] parties g = (parties, g)"
| "share_inputs rand (secret # rest) parties g =
     (let (ss, g) = share3 rand secret g
      in share_inputs rand rest
           (each_party (\<lambda>p s. s\<lparr>ps_input_shares := ps_input_shares s @ [ss ! p]\<rparr>) parties) g)"

definition prover_add ::
    "node_id \<Rightarrow> 'f::comm_ring_1 node_val \<Rightarrow> 'f node_val \<Rightarrow> 'f party_state list \<Rightarrow> 'f node_val \<times> 'f party_state list" where
  "prover_add out va vb parties =
     (if \<not> nv_shared va \<and> \<not> nv_shared vb then (NV_Public (public_part va + public_part vb), parties)
      else if nv_shared va \<and> nv_shared vb then
        let sum = (\<lambda>p. operand va p + operand vb p)
        in (NV_Shared (map sum [0..<3]), each_party (\<lambda>p. push_operation (Op_Add out (sum p))) parties)
      else
        let public_val = (if nv_shared va then public_part vb else public_part va);
            shared_val = (if nv_shared va then va else vb);
            sum = operand shared_val 0 + public_val
        in (NV_Shared (map (\<lambda>p. if p = 0 then sum else operand shared_val p) [0..<3]),
            each_party (\<lambda>p s. if p = 0 then push_operation (Op_Add out sum) s else s) parties))"

definition prover_mul ::
    "('g \<Rightarrow> 'f::comm_ring_1 \<times> 'g) \<Rightarrow> node_id \<Rightarrow> 'f node_val \<Rightarrow> 'f node_val \<Rightarrow> 'f party_state list \<Rightarrow> 'g \<Rightarrow>
     ('f node_val \<times> 'f party_state list) \<times> 'g" where
  "prover_mul rand out va vb parties g =
     (if \<not> nv_shared va \<and> \<not> nv_shared vb then ((NV_Public (public_part va * public_part vb), parties), g)
      else if nv_shared va \<noteq> nv_shared vb then
        let (shared_val, scalar) = (if nv_shared va then (va, public_part vb) else (vb, public_part va));
            product = (\<lambda>p. operand shared_val p * scalar)
        in ((NV_Shared (map product [0..<3]),
             each_party (\<lambda>p. push_operation (Op_MulPublic out scalar (product p))) parties), g)
      else
        let triple_index = length (ps_triple_shares (parties ! 0));
            ((ta, tb, tc), g) = prover_next_triple rand g;
            dp = (\<lambda>p. operand va p - ta ! p);
            ep = (\<lambda>p. operand vb p - tb ! p);
            d = foldl (\<lambda>acc p. acc + dp p) 0 [0..<3];
            e = foldl (\<lambda>acc p. acc + ep p) 0 [0..<3];
            z = (\<lambda>p. let z = tc ! p + d * tb ! p + e * ta ! p in if p = 0 then z + d * e else z)
        in ((NV_Shared (map z [0..<3]),
             each_party (\<lambda>p s. push_operation (Op_BeaverMul out triple_index d e (z p))
               (s\<lparr>ps_triple_shares := ps_triple_shares s @ [\<lparr>ts_a = ta ! p, ts_b = tb ! p, ts_c = tc ! p\<rparr>],
                  ps_opened_values := ps_opened_values s @ [dp p, ep p]\<rparr>)) parties), g))"

definition prover_node ::
    "('g \<Rightarrow> 'f::comm_ring_1 \<times> 'g) \<Rightarrow> 'f list \<Rightarrow> nat \<Rightarrow> 'f node \<Rightarrow> nat \<Rightarrow> nat \<Rightarrow> 'f node_val list \<Rightarrow> 'f party_state list \<Rightarrow>
     ('g, mpcith_error, nat \<times> nat \<times> 'f node_val \<times> 'f party_state list) op" where
  "prover_node rand publics index node next_secret next_public values parties =
     (let out = of_nat index in
      case node of
        SecretInput \<Rightarrow>
          obind (oret (rmap (\<lambda>p. mp_index (ps_input_shares (parties ! p)) next_secret) [0..<3])) (\<lambda>ss.
          oret (Inr (next_secret + 1, next_public, NV_Shared ss, parties)))
      | PublicInput \<Rightarrow>
          obind (oret (mp_index publics next_public)) (\<lambda>v.
          oret (Inr (next_secret, next_public + 1, NV_Public v, parties)))
      | Constant c \<Rightarrow> oret (Inr (next_secret, next_public, NV_Public c, parties))
      | Add a b \<Rightarrow>
          obind (oret (mp_index values (as_usize a))) (\<lambda>va.
          obind (oret (mp_index values (as_usize b))) (\<lambda>vb.
          let (val, parties') = prover_add out va vb parties
          in oret (Inr (next_secret, next_public, val, parties'))))
      | Mul a b \<Rightarrow>
          obind (oret (mp_index values (as_usize a))) (\<lambda>va.
          obind (oret (mp_index values (as_usize b))) (\<lambda>vb.
          (\<lambda>g. let ((val, parties'), g') = prover_mul rand out va vb parties g
               in (Inr (next_secret, next_public, val, parties'), g')))))"

fun prover_nodes ::
    "('g \<Rightarrow> 'f::comm_ring_1 \<times> 'g) \<Rightarrow> 'f list \<Rightarrow> nat \<Rightarrow> 'f node list \<Rightarrow> nat \<Rightarrow> nat \<Rightarrow> 'f node_val list \<Rightarrow> 'f party_state list \<Rightarrow>
     ('g, mpcith_error, 'f node_val list \<times> 'f party_state list) op" where
  "prover_nodes rand publics index [] next_secret next_public values parties = oret (Inr (values, parties))"
| "prover_nodes rand publics index (node # rest) next_secret next_public values parties =
     obind (prover_node rand publics index node next_secret next_public values parties)
       (\<lambda>(next_secret', next_public', val, parties').
          prover_nodes rand publics (Suc index) rest next_secret' next_public' (values @ [val]) parties')"

section \<open>Committing and opening\<close>

definition VIEW_CONTEXT_DOMAIN :: u8 where "VIEW_CONTEXT_DOMAIN = 0x51"

definition build_view :: "repetition_id \<Rightarrow> nat \<Rightarrow> 'f party_state list \<Rightarrow> (mpcith_error, 'f party_view) result" where
  "build_view rid p parties =
     rbind (ok_or MpE_InvalidProtocolState (if p < length parties then Some (parties ! p) else None)) (\<lambda>s.
     rbind (PartyId_new (of_nat p)) (\<lambda>pid.
     Inr \<lparr>pv_repetition_id = rid, pv_party_id = pid, pv_input_shares = ps_input_shares s,
       pv_local_operations = ps_local_operations s, pv_triple_shares = ps_triple_shares s,
       pv_opened_values = ps_opened_values s\<rparr>))"

text \<open>The loop that builds and commits the views: commitment, randomness and view of each party.\<close>

fun commit_views ::
    "(bytes \<Rightarrow> bytes) \<Rightarrow> ('f \<Rightarrow> nat) \<Rightarrow> ('g \<Rightarrow> nat \<Rightarrow> bytes \<times> 'g) \<Rightarrow> repetition_id \<Rightarrow> 'f party_state list \<Rightarrow> nat list \<Rightarrow>
     ('g, mpcith_error, (digest \<times> bytes \<times> 'f party_view) list) op" where
  "commit_views hash into_bigint fill rid parties [] = oret (Inr [])"
| "commit_views hash into_bigint fill rid parties (p # ps) =
     obind (oret (build_view rid p parties)) (\<lambda>view.
     obind (fresh_randomness fill) (\<lambda>r.
     obind (oret (commit_view hash into_bigint view r)) (\<lambda>c.
     obind (commit_views hash into_bigint fill rid parties ps) (\<lambda>rest.
     oret (Inr ((c, r, view) # rest))))))"

definition commit_repetition ::
    "(bytes \<Rightarrow> bytes) \<Rightarrow> ('f::comm_ring_1 \<Rightarrow> nat) \<Rightarrow> ('g \<Rightarrow> 'f \<times> 'g) \<Rightarrow> ('g \<Rightarrow> nat \<Rightarrow> bytes \<times> 'g) \<Rightarrow>
     'f mpcith_prover \<Rightarrow> repetition_id \<Rightarrow> ('g, mpcith_error, 'f partial_repetition) op" where
  "commit_repetition hash into_bigint rand fill pv rid =
     obind (oret (map_err (\<lambda>_. MpE_InvalidProtocolState) (ShareContext_new (unat PARTY_COUNT) (ucast rid) VIEW_CONTEXT_DOMAIN))) (\<lambda>_.
     obind (\<lambda>g. let (parties, g') = share_inputs rand (mpv_witness pv) (replicate (unat PARTY_COUNT) PartyState_empty) g
                in (Inr parties, g')) (\<lambda>parties.
     obind (prover_nodes rand (ms_public_inputs (mpv_statement pv)) 0 (c_nodes (mpv_circuit pv)) 0 0 [] parties) (\<lambda>(values, parties).
     obind (oret (rmap (\<lambda>nid. rbind (mp_index values (as_usize nid)) (\<lambda>v.
         Inr (case v of NV_Public _ \<Rightarrow> (False, [0, 0, 0]) | NV_Shared s \<Rightarrow> (True, s)))) (c_outputs (mpv_circuit pv)))) (\<lambda>output_vals.
     obind (commit_views hash into_bigint fill rid parties [0..<3]) (\<lambda>committed.
     oret (Inr \<lparr>par_id = rid, par_commitments = map fst committed, par_views = map (\<lambda>(c, r, v). v) committed,
       par_randomness = map (\<lambda>(c, r, v). r) committed, par_output_vals = output_vals,
       par_broadcasts = map ps_opened_values parties\<rparr>))))))"

definition finish_repetition :: "'f::zero partial_repetition \<Rightarrow> challenge \<Rightarrow> (mpcith_error, 'f repetition) result" where
  "finish_repetition partial ch =
     (let hidden_index = unat (hidden_party ch) in
      if hidden_index \<ge> unat PARTY_COUNT then Inl MpE_InvalidChallenge
      else
        rbind (PartyId_new (hidden_party ch)) (\<lambda>hidden.
        rbind (rmap (\<lambda>p. rbind (mp_index (par_views partial) (unat p)) (\<lambda>v.
            rbind (mp_index (par_randomness partial) (unat p)) (\<lambda>r. Inr \<lparr>ov_view = v, ov_randomness = r\<rparr>))) (others hidden)) (\<lambda>opened.
        rbind (rmap (\<lambda>(shared, ss). if shared then mp_index ss hidden_index else Inr 0) (par_output_vals partial)) (\<lambda>outs.
        rbind (mp_index (par_broadcasts partial) hidden_index) (\<lambda>broadcasts.
        Inr \<lparr>rep_id = par_id partial, rep_commitments = par_commitments partial, rep_challenge = ch,
          rep_opened_views = sort_key (\<lambda>ov. pv_party_id (ov_view ov)) opened,
          rep_hidden_output_shares = outs, rep_hidden_broadcasts = broadcasts\<rparr>)))))"

section \<open>Proving\<close>

text \<open>The closure \<open>challenge_of\<close> has a state of its own; the pair of both states is threaded.\<close>

definition on_left :: "('q, 'e, 'a) op \<Rightarrow> ('q \<times> 'g, 'e, 'a) op" where
  "on_left m s = (let (r, q) = m (fst s) in (r, (q, snd s)))"

definition on_right :: "('g, 'e, 'a) op \<Rightarrow> ('q \<times> 'g, 'e, 'a) op" where
  "on_right m s = (let (r, g) = m (snd s) in (r, (fst s, g)))"

fun prove_with_loop ::
    "(bytes \<Rightarrow> bytes) \<Rightarrow> ('f::comm_ring_1 \<Rightarrow> nat) \<Rightarrow> ('g \<Rightarrow> 'f \<times> 'g) \<Rightarrow> ('g \<Rightarrow> nat \<Rightarrow> bytes \<times> 'g) \<Rightarrow>
     (repetition_id \<Rightarrow> digest list \<Rightarrow> ('q, mpcith_error, challenge) op) \<Rightarrow> 'f mpcith_prover \<Rightarrow> nat list \<Rightarrow>
     ('q \<times> 'g, mpcith_error, 'f repetition list) op" where
  "prove_with_loop hash into_bigint rand fill challenge_of pv [] = oret (Inr [])"
| "prove_with_loop hash into_bigint rand fill challenge_of pv (index # rest) =
     obind (on_right (commit_repetition hash into_bigint rand fill pv (of_nat index))) (\<lambda>partial.
     obind (on_left (challenge_of (par_id partial) (par_commitments partial))) (\<lambda>ch.
     obind (oret (finish_repetition partial ch)) (\<lambda>r.
     obind (prove_with_loop hash into_bigint rand fill challenge_of pv rest) (\<lambda>rs. oret (Inr (r # rs))))))"

definition prove_with ::
    "(bytes \<Rightarrow> bytes) \<Rightarrow> ('f::comm_ring_1 \<Rightarrow> nat) \<Rightarrow> ('g \<Rightarrow> 'f \<times> 'g) \<Rightarrow> ('g \<Rightarrow> nat \<Rightarrow> bytes \<times> 'g) \<Rightarrow>
     'f mpcith_prover \<Rightarrow> u32 \<Rightarrow> (repetition_id \<Rightarrow> digest list \<Rightarrow> ('q, mpcith_error, challenge) op) \<Rightarrow>
     ('q \<times> 'g, mpcith_error, 'f mpcith_proof) op" where
  "prove_with hash into_bigint rand fill pv repetition_count challenge_of =
     (if repetition_count = 0 then oret (Inl MpE_InvalidRepetitionCount)
      else obind (prove_with_loop hash into_bigint rand fill challenge_of pv [0..<unat repetition_count]) (\<lambda>reps.
        oret (Inr \<lparr>mp_repetitions = reps\<rparr>)))"

definition mpcith_prove ::
    "(bytes \<Rightarrow> bytes) \<Rightarrow> ('f::comm_ring_1 \<Rightarrow> nat) \<Rightarrow> ('g \<Rightarrow> 'f \<times> 'g) \<Rightarrow> ('g \<Rightarrow> nat \<Rightarrow> bytes \<times> 'g) \<Rightarrow>
     ('q, mpcith_error, challenge) op \<Rightarrow> 'f mpcith_prover \<Rightarrow> u32 \<Rightarrow> ('q \<times> 'g, mpcith_error, 'f mpcith_proof) op" where
  "mpcith_prove hash into_bigint rand fill next_challenge pv repetition_count =
     prove_with hash into_bigint rand fill pv repetition_count (\<lambda>_ _. next_challenge)"

fun commit_all ::
    "(bytes \<Rightarrow> bytes) \<Rightarrow> ('f::comm_ring_1 \<Rightarrow> nat) \<Rightarrow> ('g \<Rightarrow> 'f \<times> 'g) \<Rightarrow> ('g \<Rightarrow> nat \<Rightarrow> bytes \<times> 'g) \<Rightarrow>
     'f mpcith_prover \<Rightarrow> nat list \<Rightarrow> ('g, mpcith_error, 'f partial_repetition list) op" where
  "commit_all hash into_bigint rand fill pv [] = oret (Inr [])"
| "commit_all hash into_bigint rand fill pv (index # rest) =
     obind (commit_repetition hash into_bigint rand fill pv (of_nat index)) (\<lambda>p.
     obind (commit_all hash into_bigint rand fill pv rest) (\<lambda>ps. oret (Inr (p # ps))))"

definition commit_phase ::
    "(bytes \<Rightarrow> bytes) \<Rightarrow> ('f::comm_ring_1 \<Rightarrow> nat) \<Rightarrow> ('g \<Rightarrow> 'f \<times> 'g) \<Rightarrow> ('g \<Rightarrow> nat \<Rightarrow> bytes \<times> 'g) \<Rightarrow>
     'f mpcith_prover \<Rightarrow> u32 \<Rightarrow> ('g, mpcith_error, 'f partial_repetition list) op" where
  "commit_phase hash into_bigint rand fill pv repetition_count =
     (if repetition_count = 0 then oret (Inl MpE_InvalidRepetitionCount)
      else commit_all hash into_bigint rand fill pv [0..<unat repetition_count])"

definition prove_joint_fs ::
    "(bytes \<Rightarrow> bytes) \<Rightarrow> ('f::comm_ring_1 \<Rightarrow> nat) \<Rightarrow> ('g \<Rightarrow> 'f \<times> 'g) \<Rightarrow> ('g \<Rightarrow> nat \<Rightarrow> bytes \<times> 'g) \<Rightarrow>
     'f mpcith_prover \<Rightarrow> u32 \<Rightarrow> ((repetition_id \<times> digest list) list \<Rightarrow> (mpcith_error, challenge list) result) \<Rightarrow>
     ('g, mpcith_error, 'f mpcith_proof) op" where
  "prove_joint_fs hash into_bigint rand fill pv repetition_count challenges_of =
     (if repetition_count = 0 then oret (Inl MpE_InvalidRepetitionCount)
      else obind (commit_phase hash into_bigint rand fill pv repetition_count) (\<lambda>partials.
        let sessions = map (\<lambda>p. (par_id p, par_commitments p)) partials in
        obind (oret (challenges_of sessions)) (\<lambda>challenges.
        obind (oret (ensure (length challenges = length partials) MpE_InvalidProtocolState)) (\<lambda>_.
        obind (oret (rmap (\<lambda>(partial, ch). finish_repetition partial ch) (zip partials challenges))) (\<lambda>reps.
        oret (Inr \<lparr>mp_repetitions = reps\<rparr>))))))"

end
