(* ===== verification/Mpcith_Verifier.thy ===== *)
theory Mpcith_Verifier
  imports Mpcith_Prover
begin

text \<open>
  Model of \<open>crates/mpcith/src/verifier.rs\<close>: the replay of the opened parties and the check of the
  outputs. The counters of \<open>replay_party\<close> are the fields of the record \<open>replay\<close>. The loop of
  \<open>node_depends_on_secrets\<close> need not end on a node list with cycles, so it is a partial function:
  \<open>None\<close> is a loop that does not end, \<open>Some (Inl MpE_Panic)\<close> a failed index or \<open>unwrap\<close>. Its stack is
  listed from the top.
\<close>

section \<open>Replaying one party\<close>

datatype verification_result = VR_Valid | VR_Invalid

datatype 'f replay_val = RV_Public 'f | RV_Shared 'f

fun as_field :: "'f replay_val \<Rightarrow> 'f" where
  "as_field (RV_Public v) = v"
| "as_field (RV_Shared v) = v"

record 'f replay =
  rs_values :: "'f replay_val list"
  rs_next_secret :: nat
  rs_next_public :: nat
  rs_next_op :: nat
  rs_next_triple :: nat
  rs_next_opened :: nat

definition replay_start :: "'f replay" where
  "replay_start = \<lparr>rs_values = [], rs_next_secret = 0, rs_next_public = 0, rs_next_op = 0, rs_next_triple = 0, rs_next_opened = 0\<rparr>"

text \<open>\<open>xs.get(i).ok_or(e)\<close>\<close>

definition get_or :: "mpcith_error \<Rightarrow> 'a list \<Rightarrow> nat \<Rightarrow> (mpcith_error, 'a) result" where
  "get_or e xs i = (if i < length xs then Inr (xs ! i) else Inl e)"

text \<open>The macros \<open>take_op!\<close> and \<open>expect_op!\<close>: the next recorded operation must have the constructor of
  the gate and the recomputed fields.\<close>

definition take_op :: "'f party_view \<Rightarrow> 'f replay \<Rightarrow> (mpcith_error, 'f local_operation \<times> 'f replay) result" where
  "take_op view s =
     rbind (get_or MpE_InconsistentView (pv_local_operations view) (rs_next_op s)) (\<lambda>op.
     Inr (op, s\<lparr>rs_next_op := rs_next_op s + 1\<rparr>))"

definition expect_add :: "'f party_view \<Rightarrow> node_id \<Rightarrow> 'f \<Rightarrow> 'f replay \<Rightarrow> (mpcith_error, 'f replay) result" where
  "expect_add view out expected s =
     rbind (take_op view s) (\<lambda>(op, s).
     case op of
       Op_Add output share \<Rightarrow> if output \<noteq> out \<or> share \<noteq> expected then Inl MpE_InconsistentView else Inr s
     | _ \<Rightarrow> Inl MpE_InvalidOperation)"

definition expect_mul_public :: "'f party_view \<Rightarrow> node_id \<Rightarrow> 'f \<Rightarrow> 'f \<Rightarrow> 'f replay \<Rightarrow> (mpcith_error, 'f replay) result" where
  "expect_mul_public view out scalar expected s =
     rbind (take_op view s) (\<lambda>(op, s).
     case op of
       Op_MulPublic output public share \<Rightarrow>
         if output \<noteq> out \<or> public \<noteq> scalar \<or> share \<noteq> expected then Inl MpE_InconsistentView else Inr s
     | _ \<Rightarrow> Inl MpE_InvalidOperation)"

definition expect_beaver ::
    "'f party_view \<Rightarrow> node_id \<Rightarrow> nat \<Rightarrow> 'f \<Rightarrow> 'f \<Rightarrow> 'f \<Rightarrow> 'f replay \<Rightarrow> (mpcith_error, 'f replay) result" where
  "expect_beaver view out triple_index d_global e_global expected s =
     rbind (take_op view s) (\<lambda>(op, s).
     case op of
       Op_BeaverMul output ti d e share \<Rightarrow>
         if output \<noteq> out \<or> ti \<noteq> triple_index \<or> d \<noteq> d_global \<or> e \<noteq> e_global \<or> share \<noteq> expected
         then Inl MpE_InconsistentView else Inr s
     | _ \<Rightarrow> Inl MpE_InvalidOperation)"

definition replay_add ::
    "'f::comm_ring_1 party_view \<Rightarrow> node_id \<Rightarrow> 'f replay_val \<Rightarrow> 'f replay_val \<Rightarrow> 'f replay \<Rightarrow>
     (mpcith_error, 'f replay_val \<times> 'f replay) result" where
  "replay_add view out va vb s =
     (case (va, vb) of
        (RV_Public x, RV_Public y) \<Rightarrow> Inr (RV_Public (x + y), s)
      | (RV_Shared x, RV_Shared y) \<Rightarrow>
          rbind (expect_add view out (x + y) s) (\<lambda>s. Inr (RV_Shared (x + y), s))
      | _ \<Rightarrow>
          if pv_party_id view = 0 then
            rbind (expect_add view out (as_field va + as_field vb) s) (\<lambda>s. Inr (RV_Shared (as_field va + as_field vb), s))
          else
            (case (va, vb) of
               (RV_Shared x, _) \<Rightarrow> Inr (RV_Shared x, s)
             | (_, RV_Shared y) \<Rightarrow> Inr (RV_Shared y, s)
             | _ \<Rightarrow> Inl MpE_InvalidOperation))"

definition replay_beaver ::
    "'f::comm_ring_1 party_view \<Rightarrow> 'f list \<Rightarrow> node_id \<Rightarrow> 'f \<Rightarrow> 'f \<Rightarrow> 'f replay \<Rightarrow>
     (mpcith_error, 'f replay_val \<times> 'f replay) result" where
  "replay_beaver view globals out x y s =
     rbind (get_or MpE_InconsistentView (pv_triple_shares view) (rs_next_triple s)) (\<lambda>triple.
     let s = s\<lparr>rs_next_triple := rs_next_triple s + 1\<rparr> in
     rbind (get_or MpE_MissingResponse (pv_opened_values view) (rs_next_opened s)) (\<lambda>d_claim.
     rbind (get_or MpE_MissingResponse (pv_opened_values view) (rs_next_opened s + 1)) (\<lambda>e_claim.
     let s = s\<lparr>rs_next_opened := rs_next_opened s + 2\<rparr> in
     if d_claim \<noteq> x - ts_a triple \<or> e_claim \<noteq> y - ts_b triple then Inl MpE_InvalidOpening
     else
       rbind (get_or MpE_InvalidOpening globals (rs_next_opened s - 2)) (\<lambda>d_global.
       rbind (get_or MpE_InvalidOpening globals (rs_next_opened s - 1)) (\<lambda>e_global.
       let z = ts_c triple + d_global * ts_b triple + e_global * ts_a triple;
           z_expected = (if pv_party_id view = 0 then z + d_global * e_global else z)
       in rbind (expect_beaver view out (rs_next_triple s - 1) d_global e_global z_expected s) (\<lambda>s.
          Inr (RV_Shared z_expected, s)))))))"

definition replay_mul ::
    "'f::comm_ring_1 party_view \<Rightarrow> 'f list \<Rightarrow> node_id \<Rightarrow> 'f replay_val \<Rightarrow> 'f replay_val \<Rightarrow> 'f replay \<Rightarrow>
     (mpcith_error, 'f replay_val \<times> 'f replay) result" where
  "replay_mul view globals out va vb s =
     (case (va, vb) of
        (RV_Public x, RV_Public y) \<Rightarrow> Inr (RV_Public (x * y), s)
      | (RV_Shared x, RV_Public y) \<Rightarrow>
          rbind (expect_mul_public view out y (x * y) s) (\<lambda>s. Inr (RV_Shared (x * y), s))
      | (RV_Public x, RV_Shared y) \<Rightarrow>
          rbind (expect_mul_public view out x (x * y) s) (\<lambda>s. Inr (RV_Shared (x * y), s))
      | (RV_Shared x, RV_Shared y) \<Rightarrow> replay_beaver view globals out x y s)"

definition replay_node ::
    "'f::comm_ring_1 list \<Rightarrow> 'f party_view \<Rightarrow> 'f list \<Rightarrow> nat \<Rightarrow> 'f node \<Rightarrow> 'f replay \<Rightarrow> (mpcith_error, 'f replay) result" where
  "replay_node publics view globals index node s =
     (let out = of_nat index in
      rbind (case node of
          SecretInput \<Rightarrow>
            rbind (get_or MpE_InconsistentView (pv_input_shares view) (rs_next_secret s)) (\<lambda>share.
            Inr (RV_Shared share, s\<lparr>rs_next_secret := rs_next_secret s + 1\<rparr>))
        | PublicInput \<Rightarrow>
            rbind (get_or MpE_InvalidStatement publics (rs_next_public s)) (\<lambda>v.
            Inr (RV_Public v, s\<lparr>rs_next_public := rs_next_public s + 1\<rparr>))
        | Constant c \<Rightarrow> Inr (RV_Public c, s)
        | Add a b \<Rightarrow>
            rbind (mp_index (rs_values s) (as_usize a)) (\<lambda>va.
            rbind (mp_index (rs_values s) (as_usize b)) (\<lambda>vb. replay_add view out va vb s))
        | Mul a b \<Rightarrow>
            rbind (mp_index (rs_values s) (as_usize a)) (\<lambda>va.
            rbind (mp_index (rs_values s) (as_usize b)) (\<lambda>vb. replay_mul view globals out va vb s)))
        (\<lambda>(val, s). Inr (s\<lparr>rs_values := rs_values s @ [val]\<rparr>)))"

fun replay_nodes ::
    "'f::comm_ring_1 list \<Rightarrow> 'f party_view \<Rightarrow> 'f list \<Rightarrow> nat \<Rightarrow> 'f node list \<Rightarrow> 'f replay \<Rightarrow> (mpcith_error, 'f replay) result" where
  "replay_nodes publics view globals index [] s = Inr s"
| "replay_nodes publics view globals index (node # rest) s =
     rbind (replay_node publics view globals index node s) (\<lambda>s. replay_nodes publics view globals (Suc index) rest s)"

definition replay_party ::
    "'f::comm_ring_1 mpcith_statement \<Rightarrow> 'f party_view \<Rightarrow> 'f circuit \<Rightarrow> 'f list \<Rightarrow> (mpcith_error, 'f replay_val list) result" where
  "replay_party st view c globals =
     (if length (pv_input_shares view) \<noteq> c_num_secret c then Inl MpE_InconsistentView
      else
        rbind (replay_nodes (ms_public_inputs st) view globals 0 (c_nodes c) replay_start) (\<lambda>s.
        if rs_next_op s \<noteq> length (pv_local_operations view) \<or> rs_next_triple s \<noteq> length (pv_triple_shares view) \<or>
           rs_next_opened s \<noteq> length (pv_opened_values view)
        then Inl MpE_InconsistentView else Inr (rs_values s)))"

section \<open>Dependence on secrets\<close>

text \<open>One round of the loop: the new stack and cache.\<close>

definition depends_step ::
    "'f node list \<Rightarrow> nat \<Rightarrow> bool \<Rightarrow> (nat \<times> bool) list \<Rightarrow> bool option list \<Rightarrow>
     (mpcith_error, (nat \<times> bool) list \<times> bool option list) result" where
  "depends_step nodes idx processed rest cache =
     rbind (mp_index cache idx) (\<lambda>cached.
     if cached \<noteq> None then Inr (rest, cache)
     else
       rbind (mp_index nodes idx) (\<lambda>node.
       if processed then
         rbind (case operands node of
             Some (a, b) \<Rightarrow>
               rbind (mp_index cache (as_usize a)) (\<lambda>ca. rbind (ok_or MpE_Panic ca) (\<lambda>da.
               if da then Inr True
               else rbind (mp_index cache (as_usize b)) (\<lambda>cb. ok_or MpE_Panic cb)))
           | None \<Rightarrow> Inr (case node of SecretInput \<Rightarrow> True | _ \<Rightarrow> False)) (\<lambda>res.
         Inr (rest, cache[idx := Some res]))
       else
         (case operands node of
            Some (a, b) \<Rightarrow>
              rbind (mp_index cache (as_usize a)) (\<lambda>ca. rbind (mp_index cache (as_usize b)) (\<lambda>cb.
              Inr ((if cb = None then [(as_usize b, False)] else []) @ (if ca = None then [(as_usize a, False)] else []) @
                (idx, True) # rest, cache)))
          | None \<Rightarrow> Inr ((idx, True) # rest, cache))))"

partial_function (option) depends_loop ::
    "'f node list \<Rightarrow> (nat \<times> bool) list \<Rightarrow> bool option list \<Rightarrow> (mpcith_error, bool option list) result option" where
  "depends_loop nodes stack cache =
     (case stack of
        [] \<Rightarrow> Some (Inr cache)
      | (idx, processed) # rest \<Rightarrow>
          (case depends_step nodes idx processed rest cache of
             Inl e \<Rightarrow> Some (Inl e)
           | Inr (stack', cache') \<Rightarrow> depends_loop nodes stack' cache'))"

definition node_depends_on_secrets :: "'f circuit \<Rightarrow> node_id \<Rightarrow> (mpcith_error, bool) result option" where
  "node_depends_on_secrets c nid =
     map_option (\<lambda>r. rbind r (\<lambda>cache. rbind (mp_index cache (as_usize nid)) (\<lambda>v. Inr (case v of None \<Rightarrow> False | Some b \<Rightarrow> b))))
       (depends_loop (c_nodes c) [(as_usize nid, False)] (replicate (length (c_nodes c)) None))"

section \<open>Verification\<close>

text \<open>The loop over the outputs; \<open>Some (Inr False)\<close> is a wrong total.\<close>

fun add_replays :: "'f::comm_ring_1 \<Rightarrow> nat \<Rightarrow> 'f replay_val list list \<Rightarrow> (mpcith_error, 'f) result" where
  "add_replays tot i [] = Inr tot"
| "add_replays tot i (values # rest) =
     rbind (mp_index values i) (\<lambda>v.
     case v of RV_Shared x \<Rightarrow> add_replays (tot + x) i rest | RV_Public _ \<Rightarrow> Inl MpE_InconsistentView)"

fun output_loop ::
    "'f::comm_ring_1 circuit \<Rightarrow> 'f list \<Rightarrow> 'f list \<Rightarrow> 'f replay_val list list \<Rightarrow> nat \<Rightarrow> node_id list \<Rightarrow>
     (mpcith_error, bool) result option" where
  "output_loop c expected_outputs hidden_shares replays k [] = Some (Inr True)"
| "output_loop c expected_outputs hidden_shares replays k (output_id # rest) =
     (case get_or MpE_InvalidStatement expected_outputs k of
        Inl e \<Rightarrow> Some (Inl e)
      | Inr expected \<Rightarrow>
          (case node_depends_on_secrets c output_id of
             None \<Rightarrow> None
           | Some (Inl e) \<Rightarrow> Some (Inl e)
           | Some (Inr False) \<Rightarrow>
               if hidden_shares ! k \<noteq> 0 then Some (Inl MpE_OutputMismatch)
               else output_loop c expected_outputs hidden_shares replays (Suc k) rest
           | Some (Inr True) \<Rightarrow>
               (case add_replays (hidden_shares ! k) (as_usize output_id) replays of
                  Inl e \<Rightarrow> Some (Inl e)
                | Inr tot \<Rightarrow>
                    if tot \<noteq> expected then Some (Inr False)
                    else output_loop c expected_outputs hidden_shares replays (Suc k) rest)))"

definition check_outputs ::
    "'f::comm_ring_1 mpcith_statement \<Rightarrow> 'f repetition \<Rightarrow> 'f circuit \<Rightarrow> 'f replay_val list list \<Rightarrow> (mpcith_error, bool) result option" where
  "check_outputs st r c replays =
     (if length (rep_hidden_output_shares r) \<noteq> length (c_outputs c) then Some (Inl MpE_OutputMismatch)
      else output_loop c (ms_expected_outputs st) (rep_hidden_output_shares r) replays 0 (c_outputs c))"

definition check_opened ::
    "(bytes \<Rightarrow> bytes) \<Rightarrow> ('f \<Rightarrow> nat) \<Rightarrow> 'f repetition \<Rightarrow> 'f opened_view \<Rightarrow> (mpcith_error, unit) result" where
  "check_opened hash into_bigint r opened =
     (let view = ov_view opened in
      if pv_repetition_id view \<noteq> rep_id r then Inl MpE_InconsistentView
      else
        rbind (mp_index (rep_commitments r) (unat (pv_party_id view))) (\<lambda>committed.
        rbind (verify_commitment hash into_bigint committed view (ov_randomness opened)) (\<lambda>ok.
        ensure ok MpE_CommitmentMismatch)))"

text \<open>The masks \<open>d\<close> or \<open>e\<close> at position \<open>k\<close>: the hidden party's broadcast and those of the opened views.\<close>

fun global_mask :: "'f::comm_ring_1 \<Rightarrow> nat \<Rightarrow> 'f opened_view list \<Rightarrow> (mpcith_error, 'f) result" where
  "global_mask acc k [] = Inr acc"
| "global_mask acc k (opened # rest) =
     rbind (get_or MpE_InconsistentView (pv_opened_values (ov_view opened)) k) (\<lambda>v. global_mask (acc + v) k rest)"

definition global_masks :: "'f::comm_ring_1 repetition \<Rightarrow> (mpcith_error, 'f list) result" where
  "global_masks r =
     (if odd (length (rep_hidden_broadcasts r)) then Inl MpE_InvalidOpening
      else rmap (\<lambda>k. global_mask (rep_hidden_broadcasts r ! k) k (rep_opened_views r)) [0..<length (rep_hidden_broadcasts r)])"

definition verify_repetition ::
    "(bytes \<Rightarrow> bytes) \<Rightarrow> ('f::comm_ring_1 \<Rightarrow> nat) \<Rightarrow> 'f mpcith_statement \<Rightarrow> 'f repetition \<Rightarrow> 'f circuit \<Rightarrow>
     (mpcith_error, bool) result option" where
  "verify_repetition hash into_bigint st r c =
     (let checked =
        rbind (map_err (\<lambda>_. MpE_InvalidChallenge) (PartyId_new (hidden_party (rep_challenge r)))) (\<lambda>hidden.
        let expected_opened = others hidden in
        rbind (ensure (length (rep_commitments r) = unat PARTY_COUNT) MpE_MissingCommitment) (\<lambda>_.
        rbind (ensure (\<not> (length (rep_opened_views r) \<noteq> 2 \<or>
            pv_party_id (ov_view (rep_opened_views r ! 0)) \<noteq> expected_opened ! 0 \<or>
            pv_party_id (ov_view (rep_opened_views r ! 1)) \<noteq> expected_opened ! 1)) MpE_MissingResponse) (\<lambda>_.
        rbind (rmap (check_opened hash into_bigint r) (rep_opened_views r)) (\<lambda>_.
        rbind (global_masks r) (\<lambda>globals.
        rmap (\<lambda>opened. replay_party st (ov_view opened) c globals) (rep_opened_views r))))))
      in case checked of
           Inl e \<Rightarrow> Some (Inl e)
         | Inr replays \<Rightarrow> check_outputs st r c replays)"

fun verify_loop ::
    "(bytes \<Rightarrow> bytes) \<Rightarrow> ('f::comm_ring_1 \<Rightarrow> nat) \<Rightarrow> 'f mpcith_statement \<Rightarrow> 'f circuit \<Rightarrow> nat \<Rightarrow> 'f repetition list \<Rightarrow>
     (mpcith_error, verification_result) result option" where
  "verify_loop hash into_bigint st c index [] = Some (Inr VR_Valid)"
| "verify_loop hash into_bigint st c index (r # rest) =
     (if rep_id r \<noteq> of_nat index then Some (Inl MpE_InconsistentView)
      else
        case verify_repetition hash into_bigint st r c of
          None \<Rightarrow> None
        | Some (Inl e) \<Rightarrow> Some (Inl e)
        | Some (Inr ok) \<Rightarrow> if \<not> ok then Some (Inr VR_Invalid) else verify_loop hash into_bigint st c (Suc index) rest)"

definition mpcith_verify ::
    "(bytes \<Rightarrow> bytes) \<Rightarrow> (bytes \<Rightarrow> bytes) \<Rightarrow> ('f::comm_ring_1 \<Rightarrow> nat) \<Rightarrow> nat \<Rightarrow> 'f mpcith_statement \<Rightarrow> 'f mpcith_proof \<Rightarrow>
     'f circuit \<Rightarrow> (mpcith_error, verification_result) result option" where
  "mpcith_verify sha256 hash into_bigint width st proof c =
     (case MpcithStatement_validate sha256 into_bigint width st c of
        Inl e \<Rightarrow> Some (Inl e)
      | Inr _ \<Rightarrow>
          if mp_repetitions proof = [] then Some (Inl MpE_InvalidProtocolState)
          else verify_loop hash into_bigint st c 0 (mp_repetitions proof))"

end
