(* ===== verification/Mpcith_Depends.thy ===== *)
theory Mpcith_Depends
  imports Mpcith_Verifier
begin

text \<open>
  The loop of \<open>node_depends_on_secrets\<close> ends on valid circuits and computes which nodes depend on a
  secret input, as the list \<open>deps\<close> defines it by one pass over the nodes.
\<close>

section \<open>Dependence on secrets\<close>

fun dep_node :: "bool list \<Rightarrow> 'f node \<Rightarrow> bool" where
  "dep_node ds SecretInput = True"
| "dep_node ds PublicInput = False"
| "dep_node ds (Constant c) = False"
| "dep_node ds (Add a b) = (ds ! as_usize a \<or> ds ! as_usize b)"
| "dep_node ds (Mul a b) = (ds ! as_usize a \<or> ds ! as_usize b)"

definition deps :: "'f node list \<Rightarrow> bool list" where
  "deps nodes = foldl (\<lambda>ds n. ds @ [dep_node ds n]) [] nodes"

lemma deps_Nil [simp]: "deps [] = []"
  by (simp add: deps_def)

lemma deps_snoc [simp]: "deps (nodes @ [n]) = deps nodes @ [dep_node (deps nodes) n]"
  by (simp add: deps_def)

lemma length_deps [simp]: "length (deps nodes) = length nodes"
  by (induction nodes rule: rev_induct) auto

lemma dep_node_cong: "node_wf k n \<Longrightarrow> (\<And>i. i < k \<Longrightarrow> ds ! i = es ! i) \<Longrightarrow> dep_node ds n = dep_node es n"
  by (cases n) auto

lemma deps_nth: "nodes_wf nodes \<Longrightarrow> i < length nodes \<Longrightarrow> deps nodes ! i = dep_node (deps nodes) (nodes ! i)"
proof (induction nodes rule: rev_induct)
  case Nil
  then show ?case by simp
next
  case (snoc n nodes)
  have cong: "node_wf k m \<Longrightarrow> k \<le> length nodes \<Longrightarrow> dep_node (deps nodes @ [b]) m = dep_node (deps nodes) m" for k m b
    by (rule dep_node_cong) (auto simp: nth_append)
  have wf: "nodes_wf nodes" "node_wf (length nodes) n" using snoc.prems by simp_all
  then have "node_wf i (nodes ! i)" if "i < length nodes"
    using that by (simp add: nodes_wf_def)
  then show ?case
    using wf snoc cong [of i "nodes ! i"] cong [of "length nodes" n] by (auto simp: nth_append less_Suc_eq)
qed

lemma dep_node_operands:
  "dep_node ds n = (case operands n of Some (a, b) \<Rightarrow> ds ! as_usize a \<or> ds ! as_usize b
     | None \<Rightarrow> (case n of SecretInput \<Rightarrow> True | _ \<Rightarrow> False))"
  by (cases n) auto

text \<open>The cache of the loop holds only correct answers.\<close>

definition cache_ok :: "'f node list \<Rightarrow> bool option list \<Rightarrow> bool" where
  "cache_ok nodes cache \<longleftrightarrow> length cache = length nodes \<and>
     (\<forall>i<length nodes. cache ! i \<noteq> None \<longrightarrow> cache ! i = Some (deps nodes ! i))"

definition cache_le :: "bool option list \<Rightarrow> bool option list \<Rightarrow> bool" where
  "cache_le cache cache' \<longleftrightarrow> (\<forall>i<length cache. cache ! i \<noteq> None \<longrightarrow> cache' ! i = cache ! i)"

lemma depends_loop_Nil [simp]: "depends_loop nodes [] cache = Some (Inr cache)"
  by (subst depends_loop.simps) simp

lemma depends_loop_step:
  "depends_step nodes idx processed rest cache = Inr (stack', cache') \<Longrightarrow>
   depends_loop nodes ((idx, processed) # rest) cache = depends_loop nodes stack' cache'"
  by (subst depends_loop.simps) simp

lemma depends_cached:
  "cache_ok nodes cache \<Longrightarrow> idx < length nodes \<Longrightarrow> cache ! idx \<noteq> None \<Longrightarrow>
   depends_loop nodes ((idx, processed) # st) cache = depends_loop nodes st cache"
  by (rule depends_loop_step) (auto simp: depends_step_def mp_index_def cache_ok_def)

text \<open>The second visit to an entry, when the operands are in the cache.\<close>

lemma depends_second:
  assumes wf: "nodes_wf nodes" and c: "cache_ok nodes cache" and i: "idx < length nodes"
    and ops: "\<And>a b. operands (nodes ! idx) = Some (a, b) \<Longrightarrow> cache ! as_usize a \<noteq> None \<and> cache ! as_usize b \<noteq> None"
  shows "\<exists>cache'. cache_ok nodes cache' \<and> cache_le cache cache' \<and> cache' ! idx \<noteq> None \<and>
    depends_loop nodes ((idx, True) # st) cache = depends_loop nodes st cache'"
proof (cases "cache ! idx = None")
  case False
  then show ?thesis using depends_cached [OF c i, of True st] c by (auto simp: cache_le_def)
next
  case True
  let ?cache = "cache[idx := Some (deps nodes ! idx)]"
  have len: "length cache = length nodes" using c by (simp add: cache_ok_def)
  have "depends_step nodes idx True st cache = Inr (st, ?cache)"
  proof (cases "operands (nodes ! idx)")
    case None
    then show ?thesis
      using len i True deps_nth [OF wf i]
      by (simp add: depends_step_def mp_index_def dep_node_operands)
  next
    case (Some ab)
    then obtain a b where ab: "operands (nodes ! idx) = Some (a, b)" by (cases ab) auto
    then have lt: "as_usize a < length nodes" "as_usize b < length nodes"
      using wf i by (auto simp: nodes_wf_def node_wf_def)
    then have "cache ! as_usize a = Some (deps nodes ! as_usize a)" "cache ! as_usize b = Some (deps nodes ! as_usize b)"
      using ops [OF ab] c by (auto simp: cache_ok_def)
    then show ?thesis
      using len i lt True ab deps_nth [OF wf i]
      by (auto simp: depends_step_def mp_index_def dep_node_operands)
  qed
  then have "depends_loop nodes ((idx, True) # st) cache = depends_loop nodes st ?cache"
    by (rule depends_loop_step)
  moreover have "cache_ok nodes ?cache" using c i by (auto simp: cache_ok_def nth_list_update split: if_splits)
  moreover have "cache_le cache ?cache" using True i len by (auto simp: cache_le_def nth_list_update)
  ultimately show ?thesis using i len by (intro exI [of _ ?cache]) simp
qed

lemma cache_le_trans: "cache_le a b \<Longrightarrow> cache_le b c \<Longrightarrow> length a = length b \<Longrightarrow> cache_le a c"
  by (auto simp: cache_le_def)

lemma depends_visit:
  assumes wf: "nodes_wf nodes"
  shows "idx < length nodes \<Longrightarrow> cache_ok nodes cache \<Longrightarrow>
    \<exists>cache'. cache_ok nodes cache' \<and> cache_le cache cache' \<and> cache' ! idx \<noteq> None \<and>
      depends_loop nodes ((idx, False) # st) cache = depends_loop nodes st cache'"
proof (induction idx arbitrary: cache st rule: less_induct)
  case (less idx)
  note i = less.prems(1) and c = less.prems(2)
  show ?case
  proof (cases "cache ! idx = None")
    case False
    then show ?thesis using depends_cached [OF c i, of False st] c by (auto simp: cache_le_def)
  next
    case None: True
    show ?thesis
    proof (cases "operands (nodes ! idx)")
      case None
      then have "depends_step nodes idx False st cache = Inr ((idx, True) # st, cache)"
        using \<open>cache ! idx = None\<close> c i by (simp add: depends_step_def mp_index_def cache_ok_def)
      then show ?thesis using depends_loop_step depends_second [OF wf c i, of st] None by fastforce
    next
      case (Some ab)
      then obtain a b where ab: "operands (nodes ! idx) = Some (a, b)" by (cases ab) auto
      then have lt: "as_usize a < idx" "as_usize b < idx"
        using wf i by (auto simp: nodes_wf_def node_wf_def)
      let ?visit = "\<lambda>n rest. if cache ! as_usize n = None then (as_usize n, False) # rest else rest"
      have first: "depends_loop nodes ((idx, False) # st) cache = depends_loop nodes (?visit b (?visit a ((idx, True) # st))) cache"
        using \<open>cache ! idx = None\<close> c i lt ab
        by (intro depends_loop_step) (simp add: depends_step_def mp_index_def cache_ok_def)
      have visit: "\<exists>cache'. cache_ok nodes cache' \<and> cache_le cache1 cache' \<and> cache' ! as_usize n \<noteq> None \<and>
          depends_loop nodes (?visit n rest) cache1 = depends_loop nodes rest cache'"
        if "n = a \<or> n = b" "cache_ok nodes cache1" "cache_le cache cache1" for n cache1 rest
        using less.IH [of "as_usize n" cache1 rest] that lt i c
        by (auto simp: cache_le_def cache_ok_def)
      obtain cache1 where c1: "cache_ok nodes cache1" "cache_le cache cache1" "cache1 ! as_usize b \<noteq> None"
          "depends_loop nodes (?visit b (?visit a ((idx, True) # st))) cache = depends_loop nodes (?visit a ((idx, True) # st)) cache1"
        using visit [of b cache "?visit a ((idx, True) # st)"] c by (auto simp: cache_le_def)
      obtain cache2 where c2: "cache_ok nodes cache2" "cache_le cache1 cache2" "cache2 ! as_usize a \<noteq> None"
          "depends_loop nodes (?visit a ((idx, True) # st)) cache1 = depends_loop nodes ((idx, True) # st) cache2"
        using visit [of a cache1 "(idx, True) # st"] c1 by auto
      have "cache2 ! as_usize b \<noteq> None"
        using c1 c2 lt i by (auto simp: cache_le_def cache_ok_def)
      then obtain cache3 where "cache_ok nodes cache3" "cache_le cache2 cache3" "cache3 ! idx \<noteq> None"
          "depends_loop nodes ((idx, True) # st) cache2 = depends_loop nodes st cache3"
        using depends_second [OF wf c2(1) i, of st] ab c2(3) by auto
      then show ?thesis
        using first c1 c2 c cache_le_trans [of cache cache1 cache2] cache_le_trans [of cache cache2 cache3]
        by (intro exI [of _ cache3]) (auto simp: cache_ok_def)
    qed
  qed
qed

lemma node_depends_eq:
  assumes "circuit_wf c" "as_usize nid < length (c_nodes c)"
  shows "node_depends_on_secrets c nid = Some (Inr (deps (c_nodes c) ! as_usize nid))"
proof -
  let ?cache = "replicate (length (c_nodes c)) (None :: bool option)"
  have "cache_ok (c_nodes c) ?cache" by (simp add: cache_ok_def)
  then obtain cache where "cache_ok (c_nodes c) cache" "cache ! as_usize nid \<noteq> None"
      "depends_loop (c_nodes c) [(as_usize nid, False)] ?cache = Some (Inr cache)"
    using depends_visit [of "c_nodes c" "as_usize nid" ?cache "[]"] assms by (auto simp: circuit_wf_def)
  then show ?thesis
    using assms by (auto simp: node_depends_on_secrets_def mp_index_def cache_ok_def)
qed

end
