(* ===== verification/Mpcith_Codec.thy ===== *)
theory Mpcith_Codec
  imports Mpcith
begin

text \<open>
  The byte formats of \<open>crates/mpcith\<close> as codecs: elements, operations, triples and views are canonical
  encodings; repetitions and proofs decode to what was encoded. The commitments to views are binding
  because the view encoding is injective.
\<close>

section \<open>Views\<close>

text \<open>A field whose elements fit in the fixed 32 bytes.\<close>

locale view_field = circuit_field modulus into_bigint ELEMENT_WIDTH
  for modulus :: nat and into_bigint :: "'f::comm_ring_1 \<Rightarrow> nat"
begin

lemma element_codec: "codec (put_element into_bigint) (read_element e modulus) (\<lambda>_. True)"
proof
  have eq: "element_from_be_bytes modulus bs = circuit_element_from_be_bytes modulus bs" if "length bs = ELEMENT_WIDTH" for bs
    using that by (simp add: element_from_be_bytes_def circuit_element_from_be_bytes_def)
  have put: "put_element into_bigint v = circuit_element_to_be_bytes into_bigint ELEMENT_WIDTH v" for v
    by (simp add: put_element_def circuit_element_to_be_bytes_def)
  have len: "length (put_element into_bigint v) = ELEMENT_WIDTH" for v
    by (simp add: put_element_def)
  show "read_element e modulus (put_element into_bigint x @ rest) = Inr (x, rest)" for x rest
    using element_to_from len [of x] by (simp add: read_element_def eq put)
  show "bs = put_element into_bigint x @ rest \<and> True" if "read_element e modulus bs = Inr (x, rest)" for bs x rest
    using that element_from_to by (auto simp: read_element_def slice_codec.dec_iff eq put)
qed

end

sublocale view_field \<subseteq> elem: codec "put_element into_bigint" "read_element e modulus" "\<lambda>_. True" for e :: 'e
  by (rule element_codec)

fun operation_wf :: "'f local_operation \<Rightarrow> bool" where
  "operation_wf (Op_BeaverMul output triple_index d e share) \<longleftrightarrow> triple_index < 2 ^ 32"
| "operation_wf _ \<longleftrightarrow> True"

definition view_wf :: "'f party_view \<Rightarrow> bool" where
  "view_wf v \<longleftrightarrow> pv_party_id v < PARTY_COUNT \<and> length (pv_input_shares v) < 2 ^ 32 \<and>
     length (pv_local_operations v) < 2 ^ 32 \<and> list_all operation_wf (pv_local_operations v) \<and>
     length (pv_triple_shares v) < 2 ^ 32 \<and> length (pv_opened_values v) < 2 ^ 32"

lemma unat_u32_less: "unat (n :: u32) < 2 ^ 32"
  using unsigned_less [of n, where ?'a = nat] by simp

lemma read_party_id_iff: "read_party_id bs = Inr (p, rest) \<longleftrightarrow> p < PARTY_COUNT \<and> bs = p # rest"
  by (auto simp: read_party_id_def u8_codec.dec_iff PartyId_new_def not_le)

context view_field
begin

lemma operation_codec: "codec (encode_operation into_bigint) (decode_operation modulus) operation_wf"
proof
  show "decode_operation modulus (encode_operation into_bigint op @ rest) = Inr (op, rest)" if "operation_wf op" for op rest
    using that by (cases op) (auto simp: decode_operation_def operation_tags elem.dec_enc unat_of_nat)
  show "bs = encode_operation into_bigint op @ rest \<and> operation_wf op" if "decode_operation modulus bs = Inr (op, rest)" for bs op rest
    using that by (auto simp: decode_operation_def reader_iffs elem.dec_iff operation_tags unat_u32_less [simplified] split: if_splits)
qed

lemma triple_codec: "codec (encode_triple into_bigint) (decode_triple modulus) (\<lambda>_. True)"
proof
  show "decode_triple modulus (encode_triple into_bigint t @ rest) = Inr (t, rest)" for t rest
    by (simp add: decode_triple_def encode_triple_def elem.dec_enc)
  show "bs = encode_triple into_bigint t @ rest \<and> True" if "decode_triple modulus bs = Inr (t, rest)" for bs t rest
    using that by (auto simp: decode_triple_def encode_triple_def elem.dec_iff)
qed

lemma view_codec: "codec (encode_view into_bigint) (decode_view modulus) view_wf"
proof
  note iffs = reader_iffs read_party_id_iff elem.read_vec_iff codec.read_vec_iff [OF operation_codec]
    codec.read_vec_iff [OF triple_codec]
  have pid: "read_party_id (p # r) = Inr (p, r)" if "p < PARTY_COUNT" for p r
    using that by (simp add: read_party_id_iff)
  note encs = elem.vec_codec [THEN codec.dec_enc] operation_codec [THEN codec.vec_codec, THEN codec.dec_enc]
    triple_codec [THEN codec.vec_codec, THEN codec.dec_enc]
  show "decode_view modulus (encode_view into_bigint v @ rest) = Inr (v, rest)" if "view_wf v" for v rest
    unfolding decode_view_def encode_view_def using that
    by (cases v) (simp add: encs pid view_wf_def list_all_iff)
  show "bs = encode_view into_bigint v @ rest \<and> view_wf v" if "decode_view modulus bs = Inr (v, rest)" for bs v rest
    using that by (auto simp: decode_view_def encode_view_def iffs view_wf_def list_all_iff)
qed

end

section \<open>Repetitions and proofs\<close>

definition opened_wf :: "('f \<Rightarrow> nat) \<Rightarrow> 'f opened_view \<Rightarrow> bool" where
  "opened_wf into_bigint ov \<longleftrightarrow> view_wf (ov_view ov) \<and> length (encode_view into_bigint (ov_view ov)) < 2 ^ 32 \<and>
     length (ov_randomness ov) = RANDOMNESS_LEN_MPCITH"

definition repetition_wf :: "('f \<Rightarrow> nat) \<Rightarrow> 'f repetition \<Rightarrow> bool" where
  "repetition_wf into_bigint r \<longleftrightarrow>
     length (rep_commitments r) = unat PARTY_COUNT \<and> list_all digest_wf (rep_commitments r) \<and>
     hidden_party (rep_challenge r) < PARTY_COUNT \<and> length (rep_hidden_output_shares r) < 2 ^ 32 \<and>
     length (rep_hidden_broadcasts r) < 2 ^ 32 \<and> length (rep_opened_views r) = 2 \<and>
     list_all (opened_wf into_bigint) (rep_opened_views r)"

definition mpcith_proof_wf :: "('f \<Rightarrow> nat) \<Rightarrow> 'f mpcith_proof \<Rightarrow> bool" where
  "mpcith_proof_wf into_bigint pr \<longleftrightarrow>
     length (mp_repetitions pr) \<le> MAX_REPETITIONS \<and> list_all (repetition_wf into_bigint) (mp_repetitions pr)"

interpretation digest_codec: codec digest_bytes "read_digest e" digest_wf for e
proof
  show "read_digest e (digest_bytes d @ rest) = Inr (d, rest)" if "digest_wf d" for d rest
    using that by (cases d) (simp add: read_digest_def digest_wf_def DIGEST_LEN_def DIGEST_LEN_MPCITH_def)
  show "bs = digest_bytes d @ rest \<and> digest_wf d" if "read_digest e bs = Inr (d, rest)" for bs d rest
    using that by (auto simp: read_digest_def slice_codec.dec_iff digest_wf_def DIGEST_LEN_def DIGEST_LEN_MPCITH_def)
qed

text \<open>Reading back a counted sequence of encodings, for a reader that need not be canonical.\<close>

lemma read_n_concat:
  "(\<And>x rest. x \<in> set xs \<Longrightarrow> dec (enc x @ rest) = Inr (x, rest)) \<Longrightarrow>
   length xs = n \<Longrightarrow> read_n dec n (concat (map enc xs) @ rest) = Inr (xs, rest)"
  by (induction xs arbitrary: n) auto

context view_field
begin

lemma decode_encode_opened:
  assumes "opened_wf into_bigint ov"
  shows "decode_opened modulus (encode_opened into_bigint ov @ rest) = Inr (ov, rest)"
proof -
  have "unat (of_nat (length (encode_view into_bigint (ov_view ov))) :: u32) = length (encode_view into_bigint (ov_view ov))"
    using assms by (simp add: opened_wf_def unat_of_nat)
  moreover have "decode_view modulus (encode_view into_bigint (ov_view ov)) = Inr (ov_view ov, [])"
    using codec.dec_enc [OF view_codec, of "ov_view ov" "[]"] assms by (simp add: opened_wf_def)
  ultimately show ?thesis
    using assms by (simp add: decode_opened_def encode_opened_def opened_wf_def Let_def)
qed

lemma decode_encode_repetition:
  assumes "repetition_wf into_bigint r"
  shows "decode_repetition modulus (encode_repetition into_bigint r @ rest) = Inr (r, rest)"
proof -
  have "read_n (read_digest MpE_MalformedEncoding) (unat PARTY_COUNT) (concat (map digest_bytes (rep_commitments r)) @ s) =
      Inr (rep_commitments r, s)" for s
    using assms by (intro read_n_concat digest_codec.dec_enc) (auto simp: repetition_wf_def list_all_iff)
  moreover have "decode_challenge (hidden_party (rep_challenge r) # s) = Inr (rep_challenge r, s)" for s
    using assms read_party_id_iff [of "hidden_party (rep_challenge r) # s"]
    by (simp add: decode_challenge_def repetition_wf_def)
  moreover have "read_n (decode_opened modulus) 2 (concat (map (encode_opened into_bigint) (rep_opened_views r)) @ s) =
      Inr (rep_opened_views r, s)" for s
    using assms by (intro read_n_concat decode_encode_opened) (auto simp: repetition_wf_def list_all_iff)
  ultimately show ?thesis
    using assms
    by (simp add: elem.vec_codec [THEN codec.dec_enc] decode_repetition_def encode_repetition_def encode_challenge_def repetition_wf_def)
qed

lemma decode_encode_proof:
  assumes "mpcith_proof_wf into_bigint pr"
  shows "decode_proof modulus (encode_proof into_bigint pr) = Inr pr"
proof -
  have len: "length (mp_repetitions pr) \<le> 10000"
    using assms by (simp add: mpcith_proof_wf_def MAX_REPETITIONS_def)
  then have n: "unat (of_nat (length (mp_repetitions pr)) :: u32) = length (mp_repetitions pr)"
    by (simp add: unat_of_nat)
  have "read_n (decode_repetition modulus) (length (mp_repetitions pr))
      (concat (map (encode_repetition into_bigint) (mp_repetitions pr)) @ []) = Inr (mp_repetitions pr, [])"
    using assms by (intro read_n_concat decode_encode_repetition) (auto simp: mpcith_proof_wf_def list_all_iff)
  then show ?thesis
    using len by (simp add: decode_proof_def encode_proof_def put_vec_def n MAX_REPETITIONS_def)
qed

text \<open>A view commitment binds the prover to the view.\<close>

lemma verify_commitment_iff:
  "verify_commitment hash into_bigint c v r = Inr True \<longleftrightarrow>
     length r = RANDOMNESS_LEN \<and> fits_u32 (commitment_message into_bigint v) \<and>
     32 \<le> length (hash (commit_input (commitment_message into_bigint v) r)) \<and>
     c = Digest (take 32 (hash (commit_input (commitment_message into_bigint v) r)))"
  using commit_Some [of hash "commitment_message into_bigint v" r]
  by (auto simp: verify_commitment_def CommitmentRandomness_new_def commit_def first_32_def fits_u32_def
      RANDOMNESS_LEN_def split: if_splits)

lemma commitment_message_inject:
  "view_wf v \<Longrightarrow> view_wf v' \<Longrightarrow> commitment_message into_bigint v = commitment_message into_bigint v' \<Longrightarrow> v = v'"
  using codec.enc_inject [OF view_codec] by (simp add: commitment_message_def)

lemma view_commitment_collision:
  assumes "verify_commitment hash into_bigint c v r = Inr True" "verify_commitment hash into_bigint c v' r' = Inr True"
    and "view_wf v" "view_wf v'" and "v \<noteq> v'"
  shows "commit_input (commitment_message into_bigint v) r \<noteq> commit_input (commitment_message into_bigint v') r' \<and>
    take 32 (hash (commit_input (commitment_message into_bigint v) r)) =
    take 32 (hash (commit_input (commitment_message into_bigint v') r'))"
  using assms commit_input_inject commitment_message_inject
  by (auto simp: verify_commitment_iff fits_u32_def RANDOMNESS_LEN_def)

end

interpretation fr_view: view_field fr_modulus fr_into_bigint
  by unfold_locales (simp add: fr_modulus_def ELEMENT_WIDTH_def)

interpretation fp_view: view_field fp_modulus fp_into_bigint
  by unfold_locales (simp add: fp_modulus_def ELEMENT_WIDTH_def)

lemma view_fieldI: "field_ops modulus into_big \<Longrightarrow> modulus \<le> 256 ^ ELEMENT_WIDTH \<Longrightarrow> view_field modulus into_big"
  by (simp add: view_field_def circuit_field_def circuit_field_axioms_def)

end
