(* ===== verification/Mpcith_Replay.thy ===== *)
theory Mpcith_Replay
  imports Mpcith_Depends Mpcith_Codec "HOL-Library.Sublist"
begin

text \<open>
  The simulation of the prover against the replay of the verifier, node by node: the shares of every
  node add up to its value in the clear, a node is shared exactly when it depends on a secret input,
  and the replay of a recorded view recomputes the shares of its party.
\<close>

section \<open>States of the simulation\<close>

lemma upt_3: "[0..<3] = [0, 1, 2 :: nat]"
  by (simp add: upt_rec)

lemma each_party_nth [simp]: "p < 3 \<Longrightarrow> each_party f parties ! p = f p (parties ! p)"
  by (simp add: each_party_def)

lemma length_each_party [simp]: "length (each_party f parties) = 3"
  by (simp add: each_party_def)

lemma less_3: "p < 3 \<longleftrightarrow> p = 0 \<or> p = 1 \<or> p = (2 :: nat)"
  by auto

text \<open>The sum over the three parties.\<close>

definition sum3 :: "(nat \<Rightarrow> 'f::comm_ring_1) \<Rightarrow> 'f" where
  "sum3 f = f 0 + f 1 + f 2"

fun nv_wf :: "'f node_val \<Rightarrow> bool" where
  "nv_wf (NV_Public v) \<longleftrightarrow> True"
| "nv_wf (NV_Shared ss) \<longleftrightarrow> length ss = 3"

fun nv_value :: "'f::comm_ring_1 node_val \<Rightarrow> 'f" where
  "nv_value (NV_Public v) = v"
| "nv_value (NV_Shared ss) = sum3 (\<lambda>p. ss ! p)"

fun project :: "nat \<Rightarrow> 'f node_val \<Rightarrow> 'f replay_val" where
  "project p (NV_Public v) = RV_Public v"
| "project p (NV_Shared ss) = RV_Shared (ss ! p)"

lemma operand_simps [simp]: "operand (NV_Public v) p = v" "operand (NV_Shared ss) p = ss ! p"
  by (simp_all add: operand_def)

lemma nv_shared_simps [simp]: "\<not> nv_shared (NV_Public v)" "nv_shared (NV_Shared ss)"
  by (simp_all add: nv_shared_def)

lemma public_part_simps [simp]: "public_part (NV_Public v) = v"
  by (simp add: public_part_def)

text \<open>The parties hold their input shares and have consumed the same triples.\<close>

definition parties_inv :: "(nat \<Rightarrow> 'f list) \<Rightarrow> 'f party_state list \<Rightarrow> bool" where
  "parties_inv inputs parties \<longleftrightarrow> length parties = 3 \<and> (\<exists>n. \<forall>p<3.
     ps_input_shares (parties ! p) = inputs p \<and> length (ps_triple_shares (parties ! p)) = n \<and>
     length (ps_opened_values (parties ! p)) = 2 * n)"

text \<open>A view holds at least what a party has recorded so far.\<close>

definition follows :: "nat \<Rightarrow> 'f party_state \<Rightarrow> 'f party_view \<Rightarrow> bool" where
  "follows p s view \<longleftrightarrow> pv_party_id view = of_nat p \<and> pv_input_shares view = ps_input_shares s \<and>
     prefix (ps_local_operations s) (pv_local_operations view) \<and>
     prefix (ps_triple_shares s) (pv_triple_shares view) \<and>
     prefix (ps_opened_values s) (pv_opened_values view)"

definition masks_of :: "'f::comm_ring_1 party_state list \<Rightarrow> 'f list" where
  "masks_of parties = map (\<lambda>k. sum3 (\<lambda>p. ps_opened_values (parties ! p) ! k)) [0..<length (ps_opened_values (parties ! 0))]"

definition replay_at :: "nat \<Rightarrow> 'f node_val list \<Rightarrow> nat \<Rightarrow> nat \<Rightarrow> 'f party_state \<Rightarrow> 'f replay" where
  "replay_at p values ns np s = \<lparr>rs_values = map (project p) values, rs_next_secret = ns, rs_next_public = np,
     rs_next_op = length (ps_local_operations s), rs_next_triple = length (ps_triple_shares s),
     rs_next_opened = length (ps_opened_values s)\<rparr>"

lemma prefix_snoc_nth: "prefix (xs @ [x]) ys \<Longrightarrow> length xs < length ys \<and> ys ! length xs = x"
  by (auto simp: prefix_def nth_append)

lemma prefix_snoc2_nth:
  "prefix (xs @ [x, y]) ys \<Longrightarrow> Suc (length xs) < length ys \<and> ys ! length xs = x \<and> ys ! Suc (length xs) = y"
  by (auto simp: prefix_def nth_append)

lemma party_0_iff: "p < 3 \<Longrightarrow> (of_nat p :: u8) = 0 \<longleftrightarrow> p = 0"
  by (auto simp: less_3)

text \<open>Bounds on what a party has recorded after \<open>n\<close> gates.\<close>

fun operation_below :: "nat \<Rightarrow> 'f local_operation \<Rightarrow> bool" where
  "operation_below n (Op_BeaverMul output ti d e share) \<longleftrightarrow> ti < n"
| "operation_below n _ \<longleftrightarrow> True"

definition sizes_le :: "'f party_state list \<Rightarrow> nat \<Rightarrow> bool" where
  "sizes_le parties n \<longleftrightarrow> (\<forall>p<3. length (ps_local_operations (parties ! p)) \<le> n \<and>
     length (ps_triple_shares (parties ! p)) \<le> n \<and> list_all (operation_below n) (ps_local_operations (parties ! p)))"

lemma operation_below_Suc: "list_all (operation_below n) ops \<Longrightarrow> list_all (operation_below (Suc n)) ops"
  by (erule list.pred_mono_strong) (metis less_SucI operation_below.elims(2) operation_below.simps)

lemma sizes_le_Suc: "sizes_le parties n \<Longrightarrow> sizes_le parties (Suc n)"
  by (auto simp: sizes_le_def le_SucI operation_below_Suc)

section \<open>One gate\<close>

text \<open>What a gate leaves behind: the value of the node, its dependence, and the states of the parties.\<close>

definition gate_step ::
    "'f::comm_ring_1 \<Rightarrow> bool \<Rightarrow> (nat \<Rightarrow> 'f list) \<Rightarrow> 'f party_state list \<Rightarrow> 'f node_val \<Rightarrow> 'f party_state list \<Rightarrow> bool" where
  "gate_step v dep inputs parties val parties' \<longleftrightarrow>
     nv_wf val \<and> nv_value val = v \<and> (nv_shared val \<longleftrightarrow> dep) \<and> parties_inv inputs parties' \<and>
     (\<forall>p<3. \<forall>view. follows p (parties' ! p) view \<longrightarrow> follows p (parties ! p) view) \<and>
     prefix (masks_of parties) (masks_of parties') \<and> (\<forall>n. sizes_le parties n \<longrightarrow> sizes_le parties' (Suc n))"

lemma push_operation_simps [simp]:
  "ps_input_shares (push_operation op s) = ps_input_shares s"
  "ps_local_operations (push_operation op s) = ps_local_operations s @ [op]"
  "ps_triple_shares (push_operation op s) = ps_triple_shares s"
  "ps_opened_values (push_operation op s) = ps_opened_values s"
  by (simp_all add: push_operation_def)

lemma follows_push: "follows p (push_operation op s) view \<Longrightarrow> follows p s view"
  by (auto simp: follows_def dest: append_prefixD)

lemma take_op_push:
  assumes "follows p (push_operation op s) view"
  shows "take_op view (replay_at p values ns np s) = Inr (op, replay_at p values ns np (push_operation op s))"
  using assms prefix_snoc_nth [of "ps_local_operations s" op "pv_local_operations view"]
  by (simp add: follows_def take_op_def get_or_def replay_at_def)

lemma masks_push [simp]:
  "masks_of (each_party (\<lambda>p. push_operation (f p)) parties) = masks_of parties"
  "masks_of (each_party (\<lambda>p s. if p = 0 then push_operation (g p) s else s) parties) = masks_of parties"
  by (simp_all add: masks_of_def sum3_def)

lemma parties_inv_push:
  "parties_inv inputs parties \<Longrightarrow> parties_inv inputs (each_party (\<lambda>p. push_operation (f p)) parties)"
  "parties_inv inputs parties \<Longrightarrow> parties_inv inputs (each_party (\<lambda>p s. if p = 0 then push_operation (g p) s else s) parties)"
  by (auto simp: parties_inv_def)

lemma sizes_push:
  "(\<And>p n. operation_below n (f p)) \<Longrightarrow> sizes_le parties n \<Longrightarrow> sizes_le (each_party (\<lambda>p. push_operation (f p)) parties) (Suc n)"
  "(\<And>p n. operation_below n (g p)) \<Longrightarrow> sizes_le parties n \<Longrightarrow>
     sizes_le (each_party (\<lambda>p s. if p = 0 then push_operation (g p) s else s) parties) (Suc n)"
  by (auto simp: sizes_le_def le_SucI operation_below_Suc)

lemma gate_step_public: "parties_inv inputs parties \<Longrightarrow> gate_step v False inputs parties (NV_Public v) parties"
  by (simp add: gate_step_def sizes_le_Suc)

lemma nv_value_map: "nv_value (NV_Shared (map z [0..<3])) = sum3 z"
  by (simp add: sum3_def upt_3 del: upt_rec_numeral)

lemma gate_step_push:
  "parties_inv inputs parties \<Longrightarrow> v = sum3 z \<Longrightarrow> (\<And>p n. operation_below n (f p)) \<Longrightarrow>
   gate_step v True inputs parties (NV_Shared (map z [0..<3])) (each_party (\<lambda>p. push_operation (f p)) parties)"
  using follows_push by (auto simp: gate_step_def sizes_push parties_inv_push nv_value_map simp del: nv_value.simps upt_rec_numeral)

lemma gate_step_push_0:
  "parties_inv inputs parties \<Longrightarrow> v = sum3 z \<Longrightarrow> (\<And>p n. operation_below n (g p)) \<Longrightarrow>
   gate_step v True inputs parties (NV_Shared (map z [0..<3]))
     (each_party (\<lambda>p s. if p = 0 then push_operation (g p) s else s) parties)"
  using follows_push by (auto simp: gate_step_def sizes_push parties_inv_push nv_value_map simp del: nv_value.simps upt_rec_numeral split: if_splits)

lemma prover_add_simps:
  "prover_add out (NV_Public x) (NV_Public y) parties = (NV_Public (x + y), parties)"
  "prover_add out (NV_Shared xs) (NV_Shared ys) parties =
     (NV_Shared (map (\<lambda>p. xs ! p + ys ! p) [0..<3]), each_party (\<lambda>p. push_operation (Op_Add out (xs ! p + ys ! p))) parties)"
  "prover_add out (NV_Shared xs) (NV_Public y) parties =
     (NV_Shared (map (\<lambda>p. if p = 0 then xs ! 0 + y else xs ! p) [0..<3]),
      each_party (\<lambda>p s. if p = 0 then push_operation (Op_Add out (xs ! 0 + y)) s else s) parties)"
  "prover_add out (NV_Public x) (NV_Shared ys) parties =
     (NV_Shared (map (\<lambda>p. if p = 0 then ys ! 0 + x else ys ! p) [0..<3]),
      each_party (\<lambda>p s. if p = 0 then push_operation (Op_Add out (ys ! 0 + x)) s else s) parties)"
  by (simp_all add: prover_add_def Let_def cong: if_cong del: upt_rec_numeral)

lemma add_gate_step:
  assumes wf: "nv_wf va" "nv_wf vb" and inv: "parties_inv inputs parties"
    and run: "prover_add out va vb parties = (val, parties')"
  shows "gate_step (nv_value va + nv_value vb) (nv_shared va \<or> nv_shared vb) inputs parties val parties'"
proof (cases va)
  case x: (NV_Public x)
  show ?thesis
  proof (cases vb)
    case (NV_Public y)
    then show ?thesis using run inv x by (auto simp: prover_add_simps gate_step_public)
  next
    case (NV_Shared ys)
    then show ?thesis using run gate_step_push_0 [OF inv, of "x + sum3 (\<lambda>p. ys ! p)" "\<lambda>p. if p = 0 then ys ! 0 + x else ys ! p"] x
      by (auto simp: prover_add_simps sum3_def algebra_simps simp del: upt_rec_numeral)
  qed
next
  case x: (NV_Shared xs)
  show ?thesis
  proof (cases vb)
    case (NV_Public y)
    then show ?thesis using run gate_step_push_0 [OF inv, of "sum3 (\<lambda>p. xs ! p) + y" "\<lambda>p. if p = 0 then xs ! 0 + y else xs ! p"] x
      by (auto simp: prover_add_simps sum3_def algebra_simps simp del: upt_rec_numeral)
  next
    case (NV_Shared ys)
    then show ?thesis using run gate_step_push [OF inv, of "sum3 (\<lambda>p. xs ! p) + sum3 (\<lambda>p. ys ! p)" "\<lambda>p. xs ! p + ys ! p"] x
      by (auto simp: prover_add_simps sum3_def algebra_simps simp del: upt_rec_numeral)
  qed
qed

lemma replay_add_simps:
  "replay_add view out (RV_Public x) (RV_Public y) s = Inr (RV_Public (x + y), s)"
  "replay_add view out (RV_Shared x) (RV_Shared y) s =
     rbind (expect_add view out (x + y) s) (\<lambda>s. Inr (RV_Shared (x + y), s))"
  "replay_add view out (RV_Shared x) (RV_Public y) s =
     (if pv_party_id view = 0 then rbind (expect_add view out (x + y) s) (\<lambda>s. Inr (RV_Shared (x + y), s)) else Inr (RV_Shared x, s))"
  "replay_add view out (RV_Public x) (RV_Shared y) s =
     (if pv_party_id view = 0 then rbind (expect_add view out (x + y) s) (\<lambda>s. Inr (RV_Shared (x + y), s)) else Inr (RV_Shared y, s))"
  by (simp_all add: replay_add_def)

lemma add_gate_replay:
  assumes run: "prover_add out va vb parties = (val, parties')"
    and p: "p < 3" and view: "follows p (parties' ! p) view"
  shows "replay_add view out (project p va) (project p vb) (replay_at p values ns np (parties ! p)) =
    Inr (project p val, replay_at p values ns np (parties' ! p))"
proof -
  have pid: "pv_party_id view = 0 \<longleftrightarrow> p = 0"
    using p view party_0_iff by (simp add: follows_def)
  show ?thesis
    using run view p pid
    by (cases va; cases vb)
      (auto simp: prover_add_simps replay_add_simps expect_add_def take_op_push add.commute simp del: upt_rec_numeral)
qed

lemma prover_next_triple_spec:
  assumes "prover_next_triple rand g = ((ta, tb, tc), g')"
  shows "sum3 (\<lambda>p. tc ! p) = sum3 (\<lambda>p. ta ! p) * sum3 (\<lambda>p. tb ! p)"
  using assms by (auto simp: prover_next_triple_def share3_def sum3_def Let_def split: prod.splits)

lemma prover_mul_simps:
  "prover_mul rand out (NV_Public x) (NV_Public y) parties g = ((NV_Public (x * y), parties), g)"
  "prover_mul rand out (NV_Shared xs) (NV_Public y) parties g =
     ((NV_Shared (map (\<lambda>p. xs ! p * y) [0..<3]), each_party (\<lambda>p. push_operation (Op_MulPublic out y (xs ! p * y))) parties), g)"
  "prover_mul rand out (NV_Public x) (NV_Shared ys) parties g =
     ((NV_Shared (map (\<lambda>p. ys ! p * x) [0..<3]), each_party (\<lambda>p. push_operation (Op_MulPublic out x (ys ! p * x))) parties), g)"
  by (simp_all add: prover_mul_def Let_def del: upt_rec_numeral)

text \<open>A multiplication of two shared values, as an update of the parties.\<close>

definition beaver_share :: "'f::comm_ring_1 list \<Rightarrow> 'f list \<Rightarrow> 'f list \<Rightarrow> 'f \<Rightarrow> 'f \<Rightarrow> nat \<Rightarrow> 'f" where
  "beaver_share ta tb tc d e p =
     (if p = 0 then tc ! p + d * tb ! p + e * ta ! p + d * e else tc ! p + d * tb ! p + e * ta ! p)"

definition beaver_update ::
    "node_id \<Rightarrow> nat \<Rightarrow> 'f::comm_ring_1 list \<Rightarrow> 'f list \<Rightarrow> 'f list \<Rightarrow> 'f list \<Rightarrow> 'f list \<Rightarrow> 'f \<Rightarrow> 'f \<Rightarrow> nat \<Rightarrow> 'f party_state \<Rightarrow> 'f party_state" where
  "beaver_update out ti xs ys ta tb tc d e p s =
     push_operation (Op_BeaverMul out ti d e (beaver_share ta tb tc d e p))
       (s\<lparr>ps_triple_shares := ps_triple_shares s @ [\<lparr>ts_a = ta ! p, ts_b = tb ! p, ts_c = tc ! p\<rparr>],
          ps_opened_values := ps_opened_values s @ [xs ! p - ta ! p, ys ! p - tb ! p]\<rparr>)"

lemma prover_mul_shared:
  assumes "prover_mul rand out (NV_Shared xs) (NV_Shared ys) parties g = ((val, parties'), g')"
  obtains ta tb tc where "sum3 (\<lambda>p. tc ! p) = sum3 (\<lambda>p. ta ! p) * sum3 (\<lambda>p. tb ! p)"
    and "val = NV_Shared (map (beaver_share ta tb tc (sum3 (\<lambda>p. xs ! p - ta ! p)) (sum3 (\<lambda>p. ys ! p - tb ! p))) [0..<3])"
    and "parties' = each_party (beaver_update out (length (ps_triple_shares (parties ! 0))) xs ys ta tb tc
      (sum3 (\<lambda>p. xs ! p - ta ! p)) (sum3 (\<lambda>p. ys ! p - tb ! p))) parties"
proof -
  obtain ta tb tc h where t: "prover_next_triple rand g = ((ta, tb, tc), h)" by (metis prod_cases3 surj_pair)
  have sums: "foldl (\<lambda>acc p. acc + f p) 0 [0..<3] = sum3 f" for f :: "nat \<Rightarrow> 'a"
    by (simp add: upt_3 sum3_def del: upt_rec_numeral)
  show thesis
    using assms prover_next_triple_spec [OF t]
    by (intro that) (auto simp: prover_mul_def t Let_def sums beaver_update_def [abs_def] beaver_share_def [abs_def] simp del: upt_rec_numeral)
qed

lemma beaver_update_simps [simp]:
  "ps_input_shares (beaver_update out ti xs ys ta tb tc d e p s) = ps_input_shares s"
  "ps_local_operations (beaver_update out ti xs ys ta tb tc d e p s) =
     ps_local_operations s @ [Op_BeaverMul out ti d e (beaver_share ta tb tc d e p)]"
  "ps_triple_shares (beaver_update out ti xs ys ta tb tc d e p s) =
     ps_triple_shares s @ [\<lparr>ts_a = ta ! p, ts_b = tb ! p, ts_c = tc ! p\<rparr>]"
  "ps_opened_values (beaver_update out ti xs ys ta tb tc d e p s) =
     ps_opened_values s @ [xs ! p - ta ! p, ys ! p - tb ! p]"
  by (simp_all add: beaver_update_def)

lemma beaver_sum:
  fixes ta tb tc xs ys :: "'f::comm_ring_1 list"
  assumes "sum3 (\<lambda>p. tc ! p) = sum3 (\<lambda>p. ta ! p) * sum3 (\<lambda>p. tb ! p)"
  shows "sum3 (beaver_share ta tb tc (sum3 (\<lambda>p. xs ! p - ta ! p)) (sum3 (\<lambda>p. ys ! p - tb ! p))) =
    sum3 (\<lambda>p. xs ! p) * sum3 (\<lambda>p. ys ! p)"
proof -
  let ?A = "sum3 (\<lambda>p. ta ! p)" and ?B = "sum3 (\<lambda>p. tb ! p)" and ?X = "sum3 (\<lambda>p. xs ! p)" and ?Y = "sum3 (\<lambda>p. ys ! p)"
  have diff: "sum3 (\<lambda>p. xs ! p - ta ! p) = ?X - ?A" "sum3 (\<lambda>p. ys ! p - tb ! p) = ?Y - ?B"
    by (simp_all add: sum3_def)
  have "sum3 (beaver_share ta tb tc d e) = sum3 (\<lambda>p. tc ! p) + d * ?B + e * ?A + d * e" for d e :: 'f
    by (simp add: sum3_def beaver_share_def algebra_simps)
  then show ?thesis unfolding diff assms by (simp add: algebra_simps)
qed

lemma parties_invE:
  assumes "parties_inv inputs parties"
  obtains n where "length parties = 3" "\<And>p. p < 3 \<Longrightarrow> ps_input_shares (parties ! p) = inputs p"
    "\<And>p. p < 3 \<Longrightarrow> length (ps_triple_shares (parties ! p)) = n"
    "\<And>p. p < 3 \<Longrightarrow> length (ps_opened_values (parties ! p)) = 2 * n"
  using assms by (auto simp: parties_inv_def)

lemma masks_beaver:
  assumes "parties_inv inputs parties"
  shows "masks_of (each_party (beaver_update out ti xs ys ta tb tc d e) parties) =
    masks_of parties @ [sum3 (\<lambda>p. xs ! p - ta ! p), sum3 (\<lambda>p. ys ! p - tb ! p)]"
proof -
  obtain n where n: "\<And>p. p < 3 \<Longrightarrow> length (ps_opened_values (parties ! p)) = 2 * n"
    using assms by (auto simp: parties_inv_def)
  have l: "length (ps_opened_values (parties ! 0)) = 2 * n" "length (ps_opened_values (parties ! Suc 0)) = 2 * n"
    "length (ps_opened_values (parties ! 2)) = 2 * n"
    using n by simp_all
  have "[0..<Suc (Suc (2 * n))] = [0..<2 * n] @ [2 * n, Suc (2 * n)]" by simp
  then show ?thesis
    by (simp add: masks_of_def sum3_def l nth_append)
qed

lemma mul_gate_step:
  assumes inv: "parties_inv inputs parties"
    and run: "prover_mul rand out va vb parties g = ((val, parties'), g')"
  shows "gate_step (nv_value va * nv_value vb) (nv_shared va \<or> nv_shared vb) inputs parties val parties'"
proof (cases va)
  case x: (NV_Public x)
  show ?thesis
  proof (cases vb)
    case (NV_Public y)
    then show ?thesis using run inv x by (auto simp: prover_mul_simps gate_step_public)
  next
    case (NV_Shared ys)
    then show ?thesis using run gate_step_push [OF inv, of "x * sum3 (\<lambda>p. ys ! p)" "\<lambda>p. ys ! p * x"] x
      by (auto simp: prover_mul_simps sum3_def algebra_simps simp del: upt_rec_numeral)
  qed
next
  case x: (NV_Shared xs)
  show ?thesis
  proof (cases vb)
    case (NV_Public y)
    then show ?thesis using run gate_step_push [OF inv, of "sum3 (\<lambda>p. xs ! p) * y" "\<lambda>p. xs ! p * y"] x
      by (auto simp: prover_mul_simps sum3_def algebra_simps simp del: upt_rec_numeral)
  next
    case y: (NV_Shared ys)
    obtain ta tb tc where t: "sum3 (\<lambda>p. tc ! p) = sum3 (\<lambda>p. ta ! p) * sum3 (\<lambda>p. tb ! p)"
      and val: "val = NV_Shared (map (beaver_share ta tb tc (sum3 (\<lambda>p. xs ! p - ta ! p)) (sum3 (\<lambda>p. ys ! p - tb ! p))) [0..<3])"
      and parties': "parties' = each_party (beaver_update out (length (ps_triple_shares (parties ! 0))) xs ys ta tb tc
        (sum3 (\<lambda>p. xs ! p - ta ! p)) (sum3 (\<lambda>p. ys ! p - tb ! p))) parties"
      by (rule prover_mul_shared [OF run [unfolded x y]]) (rule that)
    have "parties_inv inputs parties'"
      using inv unfolding parties' by (elim parties_invE) (auto simp: parties_inv_def)
    moreover have "prefix (masks_of parties) (masks_of parties')"
      unfolding parties' using masks_beaver [OF inv] by (simp add: prefix_def)
    moreover have "follows p (parties' ! p) view \<Longrightarrow> follows p (parties ! p) view" if "p < 3" for p view
      using that by (auto simp: parties' follows_def dest: append_prefixD)
    moreover have "sizes_le parties' (Suc n)" if "sizes_le parties n" for n
      using that by (auto simp: parties' sizes_le_def le_SucI operation_below_Suc less_Suc_eq_le)
    moreover have "nv_value val = nv_value va * nv_value vb" "nv_wf val" "nv_shared val"
      using beaver_sum [OF t, of xs ys] by (simp_all only: val nv_value_map) (simp_all add: x y)
    ultimately show ?thesis
      unfolding gate_step_def by (simp add: x)
  qed
qed

lemma replay_mul_simps:
  "replay_mul view G out (RV_Public x) (RV_Public y) s = Inr (RV_Public (x * y), s)"
  "replay_mul view G out (RV_Shared x) (RV_Public y) s =
     rbind (expect_mul_public view out y (x * y) s) (\<lambda>s. Inr (RV_Shared (x * y), s))"
  "replay_mul view G out (RV_Public x) (RV_Shared y) s =
     rbind (expect_mul_public view out x (x * y) s) (\<lambda>s. Inr (RV_Shared (x * y), s))"
  "replay_mul view G out (RV_Shared x) (RV_Shared y) s = replay_beaver view G out x y s"
  by (simp_all add: replay_mul_def)

lemma mul_gate_replay:
  assumes inv: "parties_inv inputs parties" and run: "prover_mul rand out va vb parties g = ((val, parties'), g')"
    and p: "p < 3" and view: "follows p (parties' ! p) view" and G: "prefix (masks_of parties') G"
  shows "replay_mul view G out (project p va) (project p vb) (replay_at p values ns np (parties ! p)) =
    Inr (project p val, replay_at p values ns np (parties' ! p))"
proof (cases "\<exists>xs ys. va = NV_Shared xs \<and> vb = NV_Shared ys")
  case False
  then show ?thesis
    using run view p
    by (cases va; cases vb)
      (auto simp: prover_mul_simps replay_mul_simps expect_mul_public_def take_op_push mult.commute simp del: upt_rec_numeral)
next
  case True
  then obtain xs ys where xy: "va = NV_Shared xs" "vb = NV_Shared ys" by auto
  obtain ta tb tc where t: "sum3 (\<lambda>p. tc ! p) = sum3 (\<lambda>p. ta ! p) * sum3 (\<lambda>p. tb ! p)"
    and val: "val = NV_Shared (map (beaver_share ta tb tc (sum3 (\<lambda>p. xs ! p - ta ! p)) (sum3 (\<lambda>p. ys ! p - tb ! p))) [0..<3])"
    and parties': "parties' = each_party (beaver_update out (length (ps_triple_shares (parties ! 0))) xs ys ta tb tc
      (sum3 (\<lambda>p. xs ! p - ta ! p)) (sum3 (\<lambda>p. ys ! p - tb ! p))) parties"
    by (rule prover_mul_shared [OF run [unfolded xy]]) (rule that)
  let ?d = "sum3 (\<lambda>p. xs ! p - ta ! p)" and ?e = "sum3 (\<lambda>p. ys ! p - tb ! p)" and ?s = "parties ! p"
  obtain n where n: "\<And>p. p < 3 \<Longrightarrow> length (ps_triple_shares (parties ! p)) = n"
      "\<And>p. p < 3 \<Longrightarrow> length (ps_opened_values (parties ! p)) = 2 * n"
    using inv by (auto simp: parties_inv_def)
  have pid: "pv_party_id view = 0 \<longleftrightarrow> p = 0" using p view party_0_iff by (simp add: follows_def)
  have op: "length (ps_local_operations ?s) < length (pv_local_operations view)"
      "pv_local_operations view ! length (ps_local_operations ?s) = Op_BeaverMul out n ?d ?e (beaver_share ta tb tc ?d ?e p)"
    using view p n prefix_snoc_nth [of "ps_local_operations ?s"] by (auto simp: parties' follows_def)
  have tr: "n < length (pv_triple_shares view)" "pv_triple_shares view ! n = \<lparr>ts_a = ta ! p, ts_b = tb ! p, ts_c = tc ! p\<rparr>"
    using view p n prefix_snoc_nth [of "ps_triple_shares ?s"] by (auto simp: parties' follows_def)
  have opened: "Suc (2 * n) < length (pv_opened_values view)" "pv_opened_values view ! (2 * n) = xs ! p - ta ! p"
      "pv_opened_values view ! Suc (2 * n) = ys ! p - tb ! p"
    using view p n prefix_snoc2_nth [of "ps_opened_values ?s"] by (auto simp: parties' follows_def)
  have lm: "length (masks_of parties) = 2 * n" using n by (simp add: masks_of_def)
  have G: "Suc (2 * n) < length G" "G ! (2 * n) = ?d" "G ! Suc (2 * n) = ?e"
    using G prefix_snoc2_nth [of "masks_of parties" ?d ?e G] by (auto simp: parties' masks_beaver [OF inv] lm)
  show ?thesis
    using p n op tr opened G pid
    by (simp add: xy val parties' replay_mul_simps replay_beaver_def replay_at_def get_or_def expect_beaver_def take_op_def
        beaver_share_def Let_def del: upt_rec_numeral)
qed

section \<open>The run over the nodes\<close>

lemma prover_node_leaf:
  "parties_inv inputs parties \<Longrightarrow> (\<And>p. p < 3 \<Longrightarrow> ns < length (inputs p)) \<Longrightarrow>
   prover_node rand pub k SecretInput ns np values parties g = (Inr (ns + 1, np, NV_Shared (map (\<lambda>p. inputs p ! ns) [0..<3]), parties), g)"
  "np < length pub \<Longrightarrow> prover_node rand pub k PublicInput ns np values parties g = (Inr (ns, np + 1, NV_Public (pub ! np), parties), g)"
  "prover_node rand pub k (Constant c) ns np values parties g = (Inr (ns, np, NV_Public c, parties), g)"
proof -
  assume inv: "parties_inv inputs parties" and ns: "\<And>p. p < 3 \<Longrightarrow> ns < length (inputs p)"
  have "rmap (\<lambda>p. mp_index (ps_input_shares (parties ! p)) ns) [0..<3] = Inr (map (\<lambda>p. inputs p ! ns) [0..<3])"
    using inv ns by (intro rmap_total) (auto simp: mp_index_def elim!: parties_invE simp del: upt_rec_numeral)
  then show "prover_node rand pub k SecretInput ns np values parties g =
      (Inr (ns + 1, np, NV_Shared (map (\<lambda>p. inputs p ! ns) [0..<3]), parties), g)"
    by (simp add: prover_node_def obind_def del: upt_rec_numeral)
qed (simp_all add: prover_node_def mp_index_def obind_def)

text \<open>The total of the input shares at a position.\<close>

definition joined :: "(nat \<Rightarrow> 'f::comm_ring_1 list) \<Rightarrow> nat \<Rightarrow> 'f list" where
  "joined inputs n = map (\<lambda>k. sum3 (\<lambda>p. inputs p ! k)) [0..<n]"

lemma prover_node_ok:
  assumes inv: "parties_inv inputs parties" and inputs: "\<And>p. p < 3 \<Longrightarrow> length (inputs p) = S"
    and wf: "list_all nv_wf values" "node_wf (length values) n"
    and ns: "n = SecretInput \<Longrightarrow> ns < S" and np: "n = PublicInput \<Longrightarrow> np < length pub"
  obtains val parties' g' where
    "prover_node rand pub k n ns np values parties g =
       (Inr (ns + secret_leaves [n], np + public_leaves [n], val, parties'), g')"
    "gate_step (node_value (joined inputs S) pub ns np (map nv_value values) n)
       (dep_node (map nv_shared values) n) inputs parties val parties'"
    "\<And>p view G. p < 3 \<Longrightarrow> follows p (parties' ! p) view \<Longrightarrow> prefix (masks_of parties') G \<Longrightarrow>
       replay_node pub view G k n (replay_at p values ns np (parties ! p)) =
         Inr (replay_at p (values @ [val]) (ns + secret_leaves [n]) (np + public_leaves [n]) (parties' ! p))"
proof (cases n)
  case SecretInput
  have "gate_step (joined inputs S ! ns) True inputs parties (NV_Shared (map (\<lambda>p. inputs p ! ns) [0..<3])) parties"
    using inv ns SecretInput by (simp add: gate_step_def sizes_le_Suc nv_value_map joined_def del: nv_value.simps upt_rec_numeral)
  moreover have "pv_input_shares view = inputs p" if "p < 3" "follows p (parties ! p) view" for p view
    using inv that by (auto simp: follows_def elim!: parties_invE)
  ultimately show ?thesis
    using SecretInput prover_node_leaf(1) [OF inv] inputs ns
    by (intro that [of "NV_Shared (map (\<lambda>p. inputs p ! ns) [0..<3])" parties g]) (auto simp: replay_node_def get_or_def replay_at_def simp del: upt_rec_numeral)
next
  case PublicInput
  then show ?thesis
    using prover_node_leaf(2) np gate_step_public [OF inv]
    by (intro that [of "NV_Public (pub ! np)" parties g]) (auto simp: replay_node_def get_or_def replay_at_def)
next
  case (Constant c)
  then show ?thesis
    using prover_node_leaf(3) gate_step_public [OF inv]
    by (intro that [of "NV_Public c" parties g]) (auto simp: replay_node_def get_or_def replay_at_def)
next
  case (Add a b)
  let ?va = "values ! as_usize a" and ?vb = "values ! as_usize b"
  obtain val parties' where r: "prover_add (of_nat k) ?va ?vb parties = (val, parties')" by fastforce
  have ab: "as_usize a < length values" "as_usize b < length values" using wf Add by auto
  then have "nv_wf ?va" "nv_wf ?vb" using wf by (auto simp: list_all_length)
  then show ?thesis
    using ab add_gate_step [OF _ _ inv r] add_gate_replay [OF r] r Add
    by (intro that [of val parties' g])
      (auto simp: prover_node_def mp_index_def obind_def replay_node_def replay_at_def)
next
  case (Mul a b)
  let ?va = "values ! as_usize a" and ?vb = "values ! as_usize b"
  obtain val parties' g' where r: "prover_mul rand (of_nat k) ?va ?vb parties g = ((val, parties'), g')" by (metis surj_pair)
  have ab: "as_usize a < length values" "as_usize b < length values" using wf Mul by auto
  then show ?thesis
    using mul_gate_step [OF inv r] mul_gate_replay [OF inv r] r Mul
    by (intro that [of val parties' g'])
      (auto simp: prover_node_def mp_index_def obind_def replay_node_def replay_at_def)
qed

text \<open>All nodes: the values, their dependence, and the replay of every party from the recorded views.\<close>

definition run_ok ::
    "'f::comm_ring_1 list \<Rightarrow> bool list \<Rightarrow> (nat \<Rightarrow> 'f list) \<Rightarrow> 'f node_val list \<Rightarrow> 'f party_state list \<Rightarrow> bool" where
  "run_ok vs ds inputs values parties \<longleftrightarrow> list_all nv_wf values \<and> map nv_value values = vs \<and>
     map nv_shared values = ds \<and> parties_inv inputs parties \<and> sizes_le parties (length values)"

lemma prover_nodes_ok:
  assumes inputs: "\<And>p. p < 3 \<Longrightarrow> length (inputs p) = S"
    and "run_ok vs (deps before) inputs vals parties" and "length vals = length before"
    and "nodes_ok S (length pub) nodes ns np (length before)"
  shows "\<exists>vals' parties' g'.
    prover_nodes rand pub (length before) nodes ns np vals parties g = (Inr (vals', parties'), g') \<and>
    run_ok (trace_from (joined inputs S) pub nodes ns np vs) (deps (before @ nodes)) inputs vals' parties' \<and>
    (\<forall>p<3. \<forall>view. follows p (parties' ! p) view \<longrightarrow> follows p (parties ! p) view) \<and>
    prefix (masks_of parties) (masks_of parties') \<and>
    (\<forall>p<3. \<forall>view G. follows p (parties' ! p) view \<longrightarrow> prefix (masks_of parties') G \<longrightarrow>
       replay_nodes pub view G (length before) nodes (replay_at p vals ns np (parties ! p)) =
         Inr (replay_at p vals' (ns + secret_leaves nodes) (np + public_leaves nodes) (parties' ! p)))"
  using assms(2,3,4)
proof (induction nodes arbitrary: before vs vals parties ns np g)
  case Nil
  then show ?case by simp
next
  case (Cons n nodes)
  have wf: "list_all nv_wf vals" "node_wf (length vals) n" and inv: "parties_inv inputs parties"
    and vs: "map nv_value vals = vs" "map nv_shared vals = deps before"
    and ok: "n = SecretInput \<Longrightarrow> ns < S" "n = PublicInput \<Longrightarrow> np < length pub"
    using Cons.prems by (auto simp: run_ok_def)
  obtain val parties1 g1 where
    run: "prover_node rand pub (length before) n ns np vals parties g =
       (Inr (ns + secret_leaves [n], np + public_leaves [n], val, parties1), g1)" and
    gate: "gate_step (node_value (joined inputs S) pub ns np (map nv_value vals) n)
       (dep_node (map nv_shared vals) n) inputs parties val parties1" and
    replay: "\<And>p view G. p < 3 \<Longrightarrow> follows p (parties1 ! p) view \<Longrightarrow> prefix (masks_of parties1) G \<Longrightarrow>
       replay_node pub view G (length before) n (replay_at p vals ns np (parties ! p)) =
         Inr (replay_at p (vals @ [val]) (ns + secret_leaves [n]) (np + public_leaves [n]) (parties1 ! p))"
    by (rule prover_node_ok [OF inv inputs wf ok]) blast+
  let ?vs = "vs @ [node_value (joined inputs S) pub ns np vs n]"
  have "run_ok ?vs (deps (before @ [n])) inputs (vals @ [val]) parties1"
    using Cons.prems gate vs by (simp add: run_ok_def gate_step_def)
  moreover have "nodes_ok S (length pub) nodes (ns + secret_leaves [n]) (np + public_leaves [n]) (length (before @ [n]))"
    "length (vals @ [val]) = length (before @ [n])" using Cons.prems by simp_all
  ultimately obtain vals' parties' g' where
    IH: "prover_nodes rand pub (length (before @ [n])) nodes (ns + secret_leaves [n]) (np + public_leaves [n]) (vals @ [val]) parties1 g1 =
        (Inr (vals', parties'), g')"
      "run_ok (trace_from (joined inputs S) pub nodes (ns + secret_leaves [n]) (np + public_leaves [n]) ?vs)
         (deps ((before @ [n]) @ nodes)) inputs vals' parties'"
      "\<And>p view. p < 3 \<Longrightarrow> follows p (parties' ! p) view \<Longrightarrow> follows p (parties1 ! p) view"
      "prefix (masks_of parties1) (masks_of parties')"
      "\<And>p view G. p < 3 \<Longrightarrow> follows p (parties' ! p) view \<Longrightarrow> prefix (masks_of parties') G \<Longrightarrow>
       replay_nodes pub view G (length (before @ [n])) nodes
         (replay_at p (vals @ [val]) (ns + secret_leaves [n]) (np + public_leaves [n]) (parties1 ! p)) =
         Inr (replay_at p vals' (ns + secret_leaves [n] + secret_leaves nodes) (np + public_leaves [n] + public_leaves nodes) (parties' ! p))"
    using Cons.IH [of ?vs "before @ [n]" "vals @ [val]" parties1 "ns + secret_leaves [n]" "np + public_leaves [n]" g1] by blast
  have step: "prefix (masks_of parties) (masks_of parties1)"
    "\<And>p view. p < 3 \<Longrightarrow> follows p (parties1 ! p) view \<Longrightarrow> follows p (parties ! p) view"
    using gate by (auto simp: gate_step_def)
  have leaves: "secret_leaves (n # nodes) = secret_leaves [n] + secret_leaves nodes"
    "public_leaves (n # nodes) = public_leaves [n] + public_leaves nodes"
    by (rule secret_leaves_simps(2) public_leaves_simps(2))+
  have "replay_nodes pub view G (length before) (n # nodes) (replay_at p vals ns np (parties ! p)) =
      Inr (replay_at p vals' (ns + secret_leaves (n # nodes)) (np + public_leaves (n # nodes)) (parties' ! p))"
    if "p < 3" "follows p (parties' ! p) view" "prefix (masks_of parties') G" for p view G
    using IH(5) [OF that] replay [OF that(1) IH(3) [OF that(1,2)] prefix_order.trans [OF IH(4) that(3)]]
    by (simp add: leaves add.assoc)
  then show ?case
    using IH step run vs prefix_order.trans [OF step(1) IH(4)]
    by (intro exI [of _ vals'] exI [of _ parties'] exI [of _ g']) (auto simp: obind_def)
qed

end
