(* ===== verification/Mpcith_Protocol.thy ===== *)
theory Mpcith_Protocol
  imports Mpcith_Replay
begin

text \<open>
  The MPC-in-the-head protocol end to end: a committed repetition, finished for any challenge, passes
  every check of the verifier up to the outputs, and the outputs are compared with the sum of the
  shares. Completeness follows; so does a limit of the protocol, since the shares of the hidden party
  are not bound by the commitments.
\<close>

section \<open>Input sharing\<close>

lemma share3_spec: "share3 rand v g = (ss, g') \<Longrightarrow> length ss = 3 \<and> sum3 (\<lambda>p. ss ! p) = v"
  by (auto simp: share3_def sum3_def Let_def split: prod.splits)

lemma share_inputs_spec:
  "length parties = 3 \<Longrightarrow> share_inputs rand secrets parties g = (parties', g') \<Longrightarrow>
   length parties' = 3 \<and> (\<exists>ts. map (\<lambda>t. sum3 (\<lambda>p. t ! p)) ts = secrets \<and>
     (\<forall>p<3. parties' ! p = (parties ! p)\<lparr>ps_input_shares := ps_input_shares (parties ! p) @ map (\<lambda>t. t ! p) ts\<rparr>))"
proof (induction secrets arbitrary: parties g)
  case Nil
  then show ?case by (intro conjI exI [of _ "[]"]) auto
next
  case (Cons secret rest)
  obtain ss h where sh: "share3 rand secret g = (ss, h)" by fastforce
  let ?parties = "each_party (\<lambda>p s. s\<lparr>ps_input_shares := ps_input_shares s @ [ss ! p]\<rparr>) parties"
  from Cons.IH [of ?parties h] Cons.prems sh obtain ts where ts: "length parties' = 3" "map (\<lambda>t. sum3 (\<lambda>p. t ! p)) ts = rest"
      "\<And>p. p < 3 \<Longrightarrow> parties' ! p = (?parties ! p)\<lparr>ps_input_shares := ps_input_shares (?parties ! p) @ map (\<lambda>t. t ! p) ts\<rparr>"
    by auto
  then show ?case using share3_spec [OF sh] by (intro conjI exI [of _ "ss # ts"]) auto
qed

definition start_parties :: "'f party_state list" where
  "start_parties = replicate 3 PartyState_empty"

lemma share_inputs_start:
  assumes "share_inputs rand secrets start_parties g = (parties, g')"
  obtains inputs where "\<And>p. p < 3 \<Longrightarrow> length (inputs p) = length secrets" "joined inputs (length secrets) = secrets"
    "run_ok [] [] inputs [] parties" "masks_of parties = []"
    "\<And>p. p < 3 \<Longrightarrow> ps_input_shares (parties ! p) = inputs p \<and> ps_local_operations (parties ! p) = [] \<and>
       ps_triple_shares (parties ! p) = [] \<and> ps_opened_values (parties ! p) = []"
proof -
  obtain ts where ts: "length parties = 3" "map (\<lambda>t. sum3 (\<lambda>p. t ! p)) ts = secrets"
      "\<And>p. p < 3 \<Longrightarrow> parties ! p = (PartyState_empty)\<lparr>ps_input_shares := map (\<lambda>t. t ! p) ts\<rparr>"
    using share_inputs_spec [OF _ assms] by (auto simp: start_parties_def PartyState_empty_def)
  have len: "length ts = length secrets" using ts(2) by (metis length_map)
  have state: "ps_input_shares (parties ! p) = map (\<lambda>t. t ! p) ts \<and> ps_local_operations (parties ! p) = [] \<and>
       ps_triple_shares (parties ! p) = [] \<and> ps_opened_values (parties ! p) = []" if "p < 3" for p
    using ts(3) [OF that] by (simp add: PartyState_empty_def)
  show thesis
  proof (rule that [of "\<lambda>p. map (\<lambda>t. t ! p) ts"])
    show "joined (\<lambda>p. map (\<lambda>t. t ! p) ts) (length secrets) = secrets"
      using ts(2) len by (intro nth_equalityI) (auto simp: joined_def sum3_def)
    show "run_ok [] [] (\<lambda>p. map (\<lambda>t. t ! p) ts) [] parties"
      using ts(1) state by (simp add: run_ok_def parties_inv_def sizes_le_def)
    show "masks_of parties = []" using state [of 0] by (simp add: masks_of_def)
  qed (use len state in simp_all)
qed

section \<open>Committing\<close>

definition view_of :: "repetition_id \<Rightarrow> nat \<Rightarrow> 'f party_state \<Rightarrow> 'f party_view" where
  "view_of rid p s = \<lparr>pv_repetition_id = rid, pv_party_id = of_nat p, pv_input_shares = ps_input_shares s,
     pv_local_operations = ps_local_operations s, pv_triple_shares = ps_triple_shares s,
     pv_opened_values = ps_opened_values s\<rparr>"

lemma view_of_simps [simp]:
  "pv_repetition_id (view_of rid p s) = rid" "pv_party_id (view_of rid p s) = of_nat p"
  "pv_input_shares (view_of rid p s) = ps_input_shares s" "pv_local_operations (view_of rid p s) = ps_local_operations s"
  "pv_triple_shares (view_of rid p s) = ps_triple_shares s" "pv_opened_values (view_of rid p s) = ps_opened_values s"
  by (simp_all add: view_of_def)

lemma build_view_eq: "length parties = 3 \<Longrightarrow> p < 3 \<Longrightarrow> build_view rid p parties = Inr (view_of rid p (parties ! p))"
  by (auto simp: build_view_def PartyId_new_def PARTY_COUNT_def view_of_def less_3 word_le_nat_alt)

lemma length_encode_operation: "length (encode_operation into_bigint op) \<le> 105"
  by (cases op) (simp_all add: put_element_def ELEMENT_WIDTH_def)

lemma length_concat_le: "(\<And>x. x \<in> set xs \<Longrightarrow> length (f x) \<le> k) \<Longrightarrow> length (concat (map f xs)) \<le> k * length xs"
  by (induction xs) fastforce+

lemma length_encode_view:
  "length (encode_view into_bigint v) \<le> 21 + 32 * length (pv_input_shares v) + 105 * length (pv_local_operations v) +
     96 * length (pv_triple_shares v) + 32 * length (pv_opened_values v)"
proof -
  have el: "length (concat (map (put_element into_bigint) xs)) \<le> 32 * length xs" for xs
    by (rule length_concat_le) (simp add: put_element_def ELEMENT_WIDTH_def)
  have tr: "length (concat (map (encode_triple into_bigint) xs)) \<le> 96 * length xs" for xs
    by (rule length_concat_le) (simp add: encode_triple_def put_element_def ELEMENT_WIDTH_def)
  have op: "length (concat (map (encode_operation into_bigint) xs)) \<le> 105 * length xs" for xs
    by (rule length_concat_le) (simp add: length_encode_operation)
  show ?thesis
    unfolding encode_view_def put_vec_def length_append length_uN_to_be_bytes list.size(3,4)
    using el [of "pv_input_shares v"] el [of "pv_opened_values v"] tr [of "pv_triple_shares v"] op [of "pv_local_operations v"]
    by linarith
qed

text \<open>What the prover relies on: a 32 byte hash and a generator that fills the buffer.\<close>

locale commit_env =
  fixes hash :: "bytes \<Rightarrow> bytes" and fill :: "'g \<Rightarrow> nat \<Rightarrow> bytes \<times> 'g"
  assumes length_hash: "length (hash x) = 32"
    and length_fill: "length (fst (fill g n)) = n"
begin

lemma commit_verify:
  assumes "length r = RANDOMNESS_LEN_MPCITH" "fits_u32 (commitment_message into_bigint v)"
  shows "\<exists>c. commit_view hash into_bigint v r = Inr c \<and> digest_wf c \<and> verify_commitment hash into_bigint c v r = Inr True"
  using assms commit_eq [of "commitment_message into_bigint v" r hash]
  by (simp add: commit_view_def verify_commitment_def CommitmentRandomness_new_def commit_def first_32_def
      length_hash RANDOMNESS_LEN_def RANDOMNESS_LEN_MPCITH_def fits_u32_def digest_wf_def DIGEST_LEN_def)

lemma commit_views_ok:
  assumes "length parties = 3" "\<forall>p\<in>set ps. p < 3"
    and "\<And>p. p < 3 \<Longrightarrow> fits_u32 (commitment_message into_bigint (view_of rid p (parties ! p)))"
  shows "\<exists>committed g'. commit_views hash into_bigint fill rid parties ps g = (Inr committed, g') \<and>
    list_all2 (\<lambda>p (c, r, v). v = view_of rid p (parties ! p) \<and> digest_wf c \<and> length r = RANDOMNESS_LEN_MPCITH \<and>
      verify_commitment hash into_bigint c v r = Inr True) ps committed"
  using assms(2)
proof (induction ps arbitrary: g)
  case Nil
  then show ?case by simp
next
  case (Cons p ps)
  obtain r g1 where r: "fill g RANDOMNESS_LEN_MPCITH = (r, g1)" by fastforce
  have len: "length r = RANDOMNESS_LEN_MPCITH" using length_fill [of g RANDOMNESS_LEN_MPCITH] r by simp
  obtain c where c: "commit_view hash into_bigint (view_of rid p (parties ! p)) r = Inr c" "digest_wf c"
      "verify_commitment hash into_bigint c (view_of rid p (parties ! p)) r = Inr True"
    using commit_verify [OF len assms(3) [of p]] Cons.prems by auto
  obtain committed g' where "commit_views hash into_bigint fill rid parties ps g1 = (Inr committed, g')"
      "list_all2 (\<lambda>p (c, r, v). v = view_of rid p (parties ! p) \<and> digest_wf c \<and> length r = RANDOMNESS_LEN_MPCITH \<and>
        verify_commitment hash into_bigint c v r = Inr True) ps committed"
    using Cons.IH [of g1] Cons.prems by auto
  then show ?case
    using c r len Cons.prems build_view_eq [OF assms(1)]
    by (intro exI [of _ "(c, r, view_of rid p (parties ! p)) # committed"] exI [of _ g'])
      (simp add: obind_def fresh_randomness_def)
qed

end

definition output_val :: "'f::zero node_val \<Rightarrow> bool \<times> 'f list" where
  "output_val v = (case v of NV_Public _ \<Rightarrow> (False, [0, 0, 0]) | NV_Shared s \<Rightarrow> (True, s))"

text \<open>A repetition in which the prover has run the parties on the witness, committed to their views and
  recorded the shares of the outputs.\<close>

definition honest_partial ::
    "(bytes \<Rightarrow> bytes) \<Rightarrow> ('f::comm_ring_1 \<Rightarrow> nat) \<Rightarrow> 'f mpcith_statement \<Rightarrow> 'f circuit \<Rightarrow> 'f list \<Rightarrow> 'f partial_repetition \<Rightarrow>
     'f node_val list \<Rightarrow> 'f party_state list \<Rightarrow> bool" where
  "honest_partial hash into_bigint st c witness partial values parties \<longleftrightarrow>
     length (par_commitments partial) = 3 \<and> length (par_randomness partial) = 3 \<and>
     par_views partial = map (\<lambda>p. view_of (par_id partial) p (parties ! p)) [0..<3] \<and>
     par_output_vals partial = map (\<lambda>nid. output_val (values ! as_usize nid)) (c_outputs c) \<and>
     par_broadcasts partial = map ps_opened_values parties \<and>
     (\<forall>p<3. digest_wf (par_commitments partial ! p) \<and> length (par_randomness partial ! p) = RANDOMNESS_LEN_MPCITH \<and>
        verify_commitment hash into_bigint (par_commitments partial ! p) (par_views partial ! p) (par_randomness partial ! p) = Inr True) \<and>
     (\<forall>p<3. replay_party st (par_views partial ! p) c (masks_of parties) = Inr (map (project p) values)) \<and>
     (\<exists>inputs. run_ok (trace witness (ms_public_inputs st) (c_nodes c)) (deps (c_nodes c)) inputs values parties \<and>
        (\<forall>p<3. length (inputs p) = length witness))"

lemma secret_leaves_le: "secret_leaves nodes \<le> length nodes"
  by (simp add: secret_leaves_def)

lemma view_message_fits:
  assumes "run_ok vs ds inputs values parties" "length values = n" "n \<le> MAX_CIRCUIT_NODES" "length (inputs p) \<le> n" "p < 3"
  shows "fits_u32 (commitment_message into_bigint (view_of rid p (parties ! p)))"
proof -
  have "length (ps_input_shares (parties ! p)) = length (inputs p)" "length (ps_local_operations (parties ! p)) \<le> n"
      "length (ps_triple_shares (parties ! p)) \<le> n" "length (ps_opened_values (parties ! p)) \<le> 2 * n"
    using assms by (auto simp: run_ok_def parties_inv_def sizes_le_def)
  then have "length (encode_view into_bigint (view_of rid p (parties ! p))) \<le> 21 + 32 * n + 105 * n + 96 * n + 64 * n"
    using length_encode_view [of into_bigint "view_of rid p (parties ! p)"] assms(4) by simp
  then show ?thesis
    using assms(3) by (simp add: commitment_message_def VIEW_COMMITMENT_DOMAIN_def ascii_def fits_u32_def MAX_CIRCUIT_NODES_def)
qed

context commit_env
begin

lemma commit_repetition_ok:
  assumes wf: "circuit_wf (mpv_circuit pv)" and size: "length (c_nodes (mpv_circuit pv)) \<le> MAX_CIRCUIT_NODES"
    and lens: "inputs_fit (mpv_circuit pv) (mpv_witness pv) (ms_public_inputs (mpv_statement pv))"
  shows "\<exists>partial vals parties g'. commit_repetition hash into_bigint rand fill pv rid g = (Inr partial, g') \<and>
    par_id partial = rid \<and>
    honest_partial hash into_bigint (mpv_statement pv) (mpv_circuit pv) (mpv_witness pv) partial vals parties"
proof -
  let ?c = "mpv_circuit pv" and ?pub = "ms_public_inputs (mpv_statement pv)" and ?w = "mpv_witness pv"
  obtain parties0 g0 where sh: "share_inputs rand ?w start_parties g = (parties0, g0)" by fastforce
  obtain inputs where inputs: "\<And>p. p < 3 \<Longrightarrow> length (inputs p) = length ?w" "joined inputs (length ?w) = ?w"
      "run_ok [] [] inputs [] parties0" "masks_of parties0 = []"
      "\<And>p. p < 3 \<Longrightarrow> ps_input_shares (parties0 ! p) = inputs p \<and> ps_local_operations (parties0 ! p) = [] \<and>
        ps_triple_shares (parties0 ! p) = [] \<and> ps_opened_values (parties0 ! p) = []"
    using share_inputs_start [OF sh] by blast
  obtain vals parties g1 where run: "prover_nodes rand ?pub 0 (c_nodes ?c) 0 0 [] parties0 g0 = (Inr (vals, parties), g1)"
    and ok: "run_ok (trace ?w ?pub (c_nodes ?c)) (deps (c_nodes ?c)) inputs vals parties"
    and replay: "\<And>p view G. p < 3 \<Longrightarrow> follows p (parties ! p) view \<Longrightarrow> prefix (masks_of parties) G \<Longrightarrow>
       replay_nodes ?pub view G 0 (c_nodes ?c) (replay_at p [] 0 0 (parties0 ! p)) =
         Inr (replay_at p vals (secret_leaves (c_nodes ?c)) (public_leaves (c_nodes ?c)) (parties ! p))"
    using prover_nodes_ok [where inputs = inputs and S = "length ?w" and before = "[]" and vs = "[]" and vals = "[]" and parties = parties0 and pub = ?pub and
        nodes = "c_nodes ?c" and ns = 0 and np = 0 and rand = rand and g = g0] circuit_nodes_ok [OF wf lens] inputs(1,3)
    by (auto simp: inputs(2) trace_def)
  have len: "length vals = length (c_nodes ?c)" "length parties = 3"
    using ok by (auto simp: run_ok_def parties_inv_def dest: arg_cong [of _ _ length])
  have n: "length ?w \<le> length (c_nodes ?c)"
    using wf lens secret_leaves_le [of "c_nodes ?c"] by (simp add: inputs_fit_def circuit_wf_def)
  have fits: "fits_u32 (commitment_message into_bigint (view_of rid p (parties ! p)))" if "p < 3" for p
    using view_message_fits [OF ok len(1) size _ that] inputs(1) [OF that] n by simp
  obtain committed g2 where com: "commit_views hash into_bigint fill rid parties [0..<3] g1 = (Inr committed, g2)"
      "list_all2 (\<lambda>p (c, r, v). v = view_of rid p (parties ! p) \<and> digest_wf c \<and> length r = RANDOMNESS_LEN_MPCITH \<and>
        verify_commitment hash into_bigint c v r = Inr True) [0..<3] committed"
    using commit_views_ok [OF len(2), of "[0..<3]" into_bigint rid g1] fits by auto
  have outs: "rmap (\<lambda>nid. rbind (mp_index vals (as_usize nid)) (\<lambda>v.
         Inr (case v of NV_Public _ \<Rightarrow> (False, [0, 0, 0]) | NV_Shared s \<Rightarrow> (True, s)))) (c_outputs ?c) =
      Inr (map (\<lambda>nid. output_val (vals ! as_usize nid)) (c_outputs ?c))"
    using wf len by (intro rmap_total) (auto simp: mp_index_def output_val_def circuit_wf_def)
  have rep: "replay_party (mpv_statement pv) (view_of rid p (parties ! p)) ?c (masks_of parties) = Inr (map (project p) vals)" if "p < 3" for p
  proof -
    have "follows p (parties ! p) (view_of rid p (parties ! p))" by (simp add: follows_def)
    moreover have "replay_at p [] 0 0 (parties0 ! p) = replay_start"
      using inputs(5) [OF that] by (simp add: replay_at_def replay_start_def)
    moreover have "length (ps_input_shares (parties ! p)) = c_num_secret ?c"
      using ok inputs(1) [OF that] lens that by (auto simp: run_ok_def parties_inv_def inputs_fit_def)
    ultimately show ?thesis
      using replay [OF that, of "view_of rid p (parties ! p)" "masks_of parties"]
      by (simp add: replay_party_def replay_at_def)
  qed
  let ?partial = "\<lparr>par_id = rid, par_commitments = map fst committed, par_views = map (\<lambda>(c, r, v). v) committed,
       par_randomness = map (\<lambda>(c, r, v). r) committed, par_output_vals = map (\<lambda>nid. output_val (vals ! as_usize nid)) (c_outputs ?c),
       par_broadcasts = map ps_opened_values parties\<rparr>"
  have "ShareContext_new (unat PARTY_COUNT) (ucast rid) VIEW_CONTEXT_DOMAIN =
      Inr \<lparr>party_count = 3, execution_id = ucast rid, domain = VIEW_CONTEXT_DOMAIN\<rparr>"
    by (simp add: ShareContext_new_def PARTY_COUNT_def)
  then have "commit_repetition hash into_bigint rand fill pv rid g = (Inr ?partial, g2)"
    using sh run outs com(1)
    by (simp add: commit_repetition_def obind_def start_parties_def PARTY_COUNT_def del: upt_rec_numeral)
  moreover have "honest_partial hash into_bigint (mpv_statement pv) ?c ?w ?partial vals parties"
  proof -
    have len3: "length committed = 3" using list_all2_lengthD [OF com(2)] by simp
    have nth: "(\<lambda>(c, r, v). v) (committed ! p) = view_of rid p (parties ! p)" "digest_wf (fst (committed ! p))"
        "length ((\<lambda>(c, r, v). r) (committed ! p)) = RANDOMNESS_LEN_MPCITH"
        "verify_commitment hash into_bigint (fst (committed ! p)) (view_of rid p (parties ! p)) ((\<lambda>(c, r, v). r) (committed ! p)) = Inr True"
      if "p < 3" for p
      using list_all2_nthD [OF com(2), of p] that by (cases "committed ! p"; simp)+
    have "map (\<lambda>(c, r, v). v) committed = map (\<lambda>p. view_of rid p (parties ! p)) [0..<3]"
      using len3 nth(1) by (intro nth_equalityI) (simp_all del: upt_rec_numeral)
    then show ?thesis
      using len3 nth rep ok inputs(1) by (auto simp: honest_partial_def simp del: upt_rec_numeral)
  qed
  ultimately show ?thesis by (intro exI [of _ ?partial] exI [of _ vals] exI [of _ parties] exI [of _ g2]) simp
qed

end

section \<open>Opening\<close>

lemma rmap_map: "rmap f (map g xs) = rmap (\<lambda>x. f (g x)) xs"
  by (induction xs) auto

definition other :: "nat \<Rightarrow> nat list" where
  "other h = (if h = 0 then [1, 2] else if h = 1 then [0, 2] else [0, 1])"

lemma others_other: "h < 3 \<Longrightarrow> others (of_nat h) = map of_nat (other h)"
  by (auto simp: others_def other_def less_3)

lemma other_less: "h < 3 \<Longrightarrow> p \<in> set (other h) \<Longrightarrow> p < 3"
  by (auto simp: other_def less_3 split: if_splits)

lemma length_other [simp]: "length (other h) = 2"
  by (simp add: other_def)

lemma unat_party: "h < 3 \<Longrightarrow> unat (of_nat h :: u8) = h"
  by (auto simp: less_3)

lemma sum3_other: "h < 3 \<Longrightarrow> f h + f (other h ! 0) + f (other h ! 1) = sum3 f"
  by (auto simp: other_def sum3_def less_3 algebra_simps)

definition opened_of :: "'f partial_repetition \<Rightarrow> nat \<Rightarrow> 'f opened_view" where
  "opened_of partial p = \<lparr>ov_view = par_views partial ! p, ov_randomness = par_randomness partial ! p\<rparr>"

definition response :: "'f partial_repetition \<Rightarrow> nat \<Rightarrow> 'f list \<Rightarrow> 'f repetition" where
  "response partial h outs = \<lparr>rep_id = par_id partial, rep_commitments = par_commitments partial,
     rep_challenge = \<lparr>hidden_party = of_nat h\<rparr>, rep_opened_views = map (opened_of partial) (other h),
     rep_hidden_output_shares = outs, rep_hidden_broadcasts = par_broadcasts partial ! h\<rparr>"

definition hidden_share :: "nat \<Rightarrow> 'f::zero node_val \<Rightarrow> 'f" where
  "hidden_share h v = (case v of NV_Public _ \<Rightarrow> 0 | NV_Shared s \<Rightarrow> s ! h)"

lemma sort_key_pair: "f x \<le> f y \<Longrightarrow> sort_key f [x, y] = [x, y]"
  by simp

lemma honest_nth:
  assumes "honest_partial hash into_bigint st c witness partial vals parties" "p < 3"
  shows "par_views partial ! p = view_of (par_id partial) p (parties ! p)"
    "par_broadcasts partial ! p = ps_opened_values (parties ! p)" "length parties = 3"
  using assms by (auto simp: honest_partial_def run_ok_def parties_inv_def simp del: upt_rec_numeral)

lemma finish_eq:
  assumes len: "length (par_views partial) = 3" "length (par_randomness partial) = 3" "length (par_broadcasts partial) = 3"
    and ids: "\<And>p. p < 3 \<Longrightarrow> pv_party_id (par_views partial ! p) = of_nat p" and h: "h < 3"
    and vals: "par_output_vals partial = map (\<lambda>nid. output_val (vals ! as_usize nid)) outputs"
      "\<And>nid. nid \<in> set outputs \<Longrightarrow> nv_wf (vals ! as_usize nid)"
  shows "finish_repetition partial \<lparr>hidden_party = of_nat h\<rparr> =
    Inr (response partial h (map (\<lambda>nid. hidden_share h (vals ! as_usize nid)) outputs))"
proof -
  have opened: "rmap (\<lambda>p. rbind (mp_index (par_views partial) (unat p)) (\<lambda>v.
      rbind (mp_index (par_randomness partial) (unat p)) (\<lambda>r. Inr \<lparr>ov_view = v, ov_randomness = r\<rparr>))) (others (of_nat h)) =
      Inr (map (opened_of partial) (other h))"
    unfolding others_other [OF h] rmap_map
    by (rule rmap_total) (simp add: mp_index_def len unat_party opened_of_def other_less [OF h])
  have sorted: "sort_key (\<lambda>ov. pv_party_id (ov_view ov)) (map (opened_of partial) (other h)) = map (opened_of partial) (other h)"
    using ids by (auto simp: other_def opened_of_def)
  have outs: "rmap (\<lambda>(shared, ss). if shared then mp_index ss h else Inr 0) (par_output_vals partial) =
      Inr (map (\<lambda>nid. hidden_share h (vals ! as_usize nid)) outputs)"
    unfolding vals(1) rmap_map
    using vals(2) h by (intro rmap_total) (force simp: output_val_def hidden_share_def mp_index_def split: node_val.splits)
  have "PartyId_new (of_nat h) = Inr (of_nat h :: u8)"
    using h by (auto simp: PartyId_new_def PARTY_COUNT_def less_3 word_le_nat_alt)
  then show ?thesis
    using h len opened sorted outs
    by (simp add: finish_repetition_def unat_party PARTY_COUNT_def mp_index_def response_def)
qed

lemma finish_honest:
  assumes hp: "honest_partial hash into_bigint st c witness partial vals parties" and wf: "circuit_wf c" and h: "h < 3"
  shows "finish_repetition partial \<lparr>hidden_party = of_nat h\<rparr> =
    Inr (response partial h (map (\<lambda>nid. hidden_share h (vals ! as_usize nid)) (c_outputs c)))"
proof (rule finish_eq)
  show "nv_wf (vals ! as_usize nid)" if "nid \<in> set (c_outputs c)" for nid
    using hp wf that by (auto simp: honest_partial_def run_ok_def circuit_wf_def list_all_length dest!: arg_cong [of _ _ length])
qed (use hp h honest_nth [OF hp] in \<open>simp_all add: honest_partial_def del: upt_rec_numeral\<close>)

section \<open>Verifying\<close>

lemma global_masks_response:
  assumes hp: "honest_partial hash into_bigint st c witness partial vals parties" and h: "h < 3"
  shows "global_masks (response partial h outs) = Inr (masks_of parties)"
proof -
  obtain n where n: "\<And>p. p < 3 \<Longrightarrow> length (ps_opened_values (parties ! p)) = 2 * n"
    using hp by (auto simp: honest_partial_def run_ok_def parties_inv_def)
  have oth: "other h ! 0 < 3" "other h ! 1 < 3" "other h = [other h ! 0, other h ! 1]"
    by (auto simp: other_def)
  have "global_mask (ps_opened_values (parties ! h) ! k) k (map (opened_of partial) (other h)) =
      Inr (sum3 (\<lambda>p. ps_opened_values (parties ! p) ! k))" if "k < 2 * n" for k
    unfolding sum3_other [OF h, symmetric]
    using that oth(1,2) n honest_nth(1) [OF hp] by (subst oth(3)) (simp add: opened_of_def get_or_def)
  then show ?thesis
    using h n honest_nth(2) [OF hp]
    by (auto simp: global_masks_def response_def masks_of_def intro!: rmap_total)
qed

lemma checks_response:
  assumes hp: "honest_partial hash into_bigint st c witness partial vals parties" and h: "h < 3" and p: "p < 3"
  shows "check_opened hash into_bigint (response partial h outs) (opened_of partial p) = Inr ()"
proof -
  have "verify_commitment hash into_bigint (par_commitments partial ! p) (view_of (par_id partial) p (parties ! p))
      (par_randomness partial ! p) = Inr True" "length (par_commitments partial) = 3"
    using hp p by (auto simp: honest_partial_def simp del: upt_rec_numeral)
  then show ?thesis
    using p honest_nth(1) [OF hp p]
    by (simp add: check_opened_def response_def opened_of_def mp_index_def unat_party)
qed

lemma verify_response:
  assumes hp: "honest_partial hash into_bigint st c witness partial vals parties" and h: "h < 3"
    and outs: "length outs = length (c_outputs c)"
  shows "verify_repetition hash into_bigint st (response partial h outs) c =
    output_loop c (ms_expected_outputs st) outs (map (\<lambda>p. map (project p) vals) (other h)) 0 (c_outputs c)"
proof -
  have oth: "other h ! 0 < 3" "other h ! 1 < 3" "other h ! Suc 0 < 3" by (auto simp: other_def)
  have pid: "PartyId_new (of_nat h) = Inr (of_nat h :: u8)"
    using h by (auto simp: PartyId_new_def PARTY_COUNT_def less_3 word_le_nat_alt)
  have opened: "rmap (check_opened hash into_bigint (response partial h outs)) (map (opened_of partial) (other h)) =
      Inr (map (\<lambda>_. ()) (other h))"
    unfolding rmap_map by (rule rmap_total) (simp add: checks_response [OF hp h] other_less [OF h])
  have replays: "rmap (\<lambda>opened. replay_party st (ov_view opened) c (masks_of parties)) (map (opened_of partial) (other h)) =
      Inr (map (\<lambda>p. map (project p) vals) (other h))"
    unfolding rmap_map using hp other_less [OF h]
    by (intro rmap_total) (auto simp: opened_of_def honest_partial_def)
  have parties: "pv_party_id (ov_view (opened_of partial p)) = of_nat p" if "p < 3" for p
    using honest_nth(1) [OF hp that] by (simp add: opened_of_def)
  have sel: "rep_challenge (response partial h outs) = \<lparr>hidden_party = of_nat h\<rparr>"
      "rep_opened_views (response partial h outs) = map (opened_of partial) (other h)"
      "rep_commitments (response partial h outs) = par_commitments partial"
      "rep_hidden_output_shares (response partial h outs) = outs"
    by (simp_all add: response_def)
  have com: "length (par_commitments partial) = 3" using hp by (simp add: honest_partial_def)
  show ?thesis
    unfolding verify_repetition_def sel challenge.simps pid map_err_simps rbind_simps Let_def others_other [OF h]
      global_masks_response [OF hp h] opened replays
    using outs oth by (simp add: com PARTY_COUNT_def parties check_outputs_def sel)
qed

lemma get_or_simp: "i < length xs \<Longrightarrow> get_or e xs i = Inr (xs ! i)"
  by (simp add: get_or_def)

text \<open>The loop over the outputs: the total of every secret output is compared with the expected value; the
  expected value of an output that does not depend on a secret plays no role.\<close>

lemma output_loop_eq:
  assumes wf: "circuit_wf c"
  shows "set ids \<subseteq> set (c_outputs c) \<Longrightarrow> k + length ids \<le> length expected \<Longrightarrow>
    (\<And>i. i < length ids \<Longrightarrow> \<not> deps (c_nodes c) ! as_usize (ids ! i) \<Longrightarrow> outs ! (k + i) = 0) \<Longrightarrow>
    (\<And>i. i < length ids \<Longrightarrow> deps (c_nodes c) ! as_usize (ids ! i) \<Longrightarrow>
       add_replays (outs ! (k + i)) (as_usize (ids ! i)) replays = Inr (tot (k + i))) \<Longrightarrow>
    output_loop c expected outs replays k ids =
      Some (Inr (\<forall>i<length ids. deps (c_nodes c) ! as_usize (ids ! i) \<longrightarrow> tot (k + i) = expected ! (k + i)))"
proof (induction ids arbitrary: k)
  case Nil
  then show ?case by simp
next
  case (Cons nid ids)
  have dep: "node_depends_on_secrets c nid = Some (Inr (deps (c_nodes c) ! as_usize nid))"
    using wf Cons.prems(1) by (intro node_depends_eq) (auto simp: circuit_wf_def)
  have IH: "output_loop c expected outs replays (Suc k) ids =
      Some (Inr (\<forall>i<length ids. deps (c_nodes c) ! as_usize (ids ! i) \<longrightarrow> tot (Suc k + i) = expected ! (Suc k + i)))"
    using Cons.prems(1,2) Cons.prems(3) [of "Suc i" for i] Cons.prems(4) [of "Suc i" for i] by (intro Cons.IH) auto
  show ?case
    using Cons.prems(2) Cons.prems(3) [of 0] Cons.prems(4) [of 0] IH
    by (cases "deps (c_nodes c) ! as_usize nid") (simp_all add: all_less_Suc_shift dep get_or_simp)
qed

lemma add_replays_shared:
  assumes "vals ! i = NV_Shared ss" "i < length vals"
  shows "add_replays t i (map (\<lambda>p. map (project p) vals) (other h)) = Inr (t + ss ! (other h ! 0) + ss ! (other h ! 1))"
  using assms by (simp add: other_def mp_index_def)

lemma honest_run_values:
  assumes hp: "honest_partial hash into_bigint st c witness partial vals parties" and wf: "circuit_wf c" and nid: "nid \<in> set (c_outputs c)"
  shows "as_usize nid < length vals" "nv_wf (vals ! as_usize nid)"
    "nv_shared (vals ! as_usize nid) = deps (c_nodes c) ! as_usize nid"
    "nv_value (vals ! as_usize nid) = trace witness (ms_public_inputs st) (c_nodes c) ! as_usize nid"
proof -
  have maps: "map nv_value vals = trace witness (ms_public_inputs st) (c_nodes c)" "map nv_shared vals = deps (c_nodes c)"
    "list_all nv_wf vals" using hp by (auto simp: honest_partial_def run_ok_def)
  then show i: "as_usize nid < length vals" using nid wf by (auto simp: circuit_wf_def dest!: arg_cong [of _ _ length])
  show "nv_wf (vals ! as_usize nid)" "nv_shared (vals ! as_usize nid) = deps (c_nodes c) ! as_usize nid"
    "nv_value (vals ! as_usize nid) = trace witness (ms_public_inputs st) (c_nodes c) ! as_usize nid"
    using maps i by (auto simp: list_all_length simp flip: maps(1,2))
qed

text \<open>The verdict on an opened repetition, for any shares claimed for the hidden party.\<close>

definition opened_sum :: "nat \<Rightarrow> 'f::comm_ring_1 node_val \<Rightarrow> 'f" where
  "opened_sum h v = (case v of NV_Public _ \<Rightarrow> 0 | NV_Shared ss \<Rightarrow> ss ! (other h ! 0) + ss ! (other h ! 1))"

lemma verdict_response:
  assumes hp: "honest_partial hash into_bigint st c witness partial vals parties" and wf: "circuit_wf c" and h: "h < 3"
    and outs: "length outs = length (c_outputs c)" and exp: "length (ms_expected_outputs st) = length (c_outputs c)"
    and pub: "\<And>k. k < length (c_outputs c) \<Longrightarrow> \<not> deps (c_nodes c) ! as_usize (c_outputs c ! k) \<Longrightarrow> outs ! k = 0"
  shows "verify_repetition hash into_bigint st (response partial h outs) c =
    Some (Inr (\<forall>k<length (c_outputs c). deps (c_nodes c) ! as_usize (c_outputs c ! k) \<longrightarrow>
      outs ! k + opened_sum h (vals ! as_usize (c_outputs c ! k)) = ms_expected_outputs st ! k))"
proof -
  have "add_replays (outs ! k) (as_usize (c_outputs c ! k)) (map (\<lambda>p. map (project p) vals) (other h)) =
      Inr (outs ! k + opened_sum h (vals ! as_usize (c_outputs c ! k)))"
    if "k < length (c_outputs c)" "deps (c_nodes c) ! as_usize (c_outputs c ! k)" for k
  proof -
    have "c_outputs c ! k \<in> set (c_outputs c)" using that(1) by simp
    note v = honest_run_values [OF hp wf this]
    show ?thesis
    proof (cases "vals ! as_usize (c_outputs c ! k)")
      case (NV_Public x)
      then show ?thesis using v(3) that(2) by simp
    next
      case (NV_Shared ss)
      then show ?thesis using add_replays_shared [OF NV_Shared v(1)] by (simp add: opened_sum_def add.assoc)
    qed
  qed
  then show ?thesis
    unfolding verify_response [OF hp h outs]
    using output_loop_eq [OF wf, of "c_outputs c" 0 "ms_expected_outputs st" outs] pub exp by simp
qed

text \<open>The response of the prover: the verdict is that the outputs in the clear are the expected ones,
  where they depend on secrets.\<close>

definition secret_outputs_match :: "'f::comm_ring_1 circuit \<Rightarrow> 'f list \<Rightarrow> 'f mpcith_statement \<Rightarrow> bool" where
  "secret_outputs_match c witness st \<longleftrightarrow> (\<forall>k<length (c_outputs c). deps (c_nodes c) ! as_usize (c_outputs c ! k) \<longrightarrow>
     circuit_outputs c witness (ms_public_inputs st) ! k = ms_expected_outputs st ! k)"

lemma verdict_honest:
  assumes hp: "honest_partial hash into_bigint st c witness partial vals parties" and wf: "circuit_wf c" and h: "h < 3"
    and exp: "length (ms_expected_outputs st) = length (c_outputs c)"
    and fin: "finish_repetition partial \<lparr>hidden_party = of_nat h\<rparr> = Inr r"
  shows "verify_repetition hash into_bigint st r c = Some (Inr (secret_outputs_match c witness st))"
proof -
  let ?outs = "map (\<lambda>nid. hidden_share h (vals ! as_usize nid)) (c_outputs c)"
  have r: "r = response partial h ?outs" using finish_honest [OF hp wf h] fin by simp
  have share: "hidden_share h (vals ! as_usize nid) + opened_sum h (vals ! as_usize nid) =
      trace witness (ms_public_inputs st) (c_nodes c) ! as_usize nid"
    if "nid \<in> set (c_outputs c)" "deps (c_nodes c) ! as_usize nid" for nid
    using honest_run_values [OF hp wf that(1)] that(2)
    by (cases "vals ! as_usize nid")
      (simp_all add: hidden_share_def opened_sum_def add.assoc [symmetric] sum3_other [OF h, of "(!) ss" for ss, simplified])
  have pub: "hidden_share h (vals ! as_usize nid) = 0" if "nid \<in> set (c_outputs c)" "\<not> deps (c_nodes c) ! as_usize nid" for nid
    using honest_run_values [OF hp wf that(1)] that(2) by (cases "vals ! as_usize nid") (simp_all add: hidden_share_def)
  show ?thesis
    unfolding r using verdict_response [OF hp wf h, of ?outs] exp share pub
    by (simp add: secret_outputs_match_def circuit_outputs_def cong: imp_cong)
qed

end
