(* ===== verification/Mpcith_Security.thy ===== *)
theory Mpcith_Security
  imports Mpcith_Protocol
begin

text \<open>
  What the interactive protocol guarantees: the proof of a prover that follows it is accepted exactly
  when the outputs are the expected ones, for every choice of challenges, and the exact extent to which
  an accepting proof does not bind the prover.
\<close>

section \<open>All repetitions\<close>

definition partial_ok ::
    "(bytes \<Rightarrow> bytes) \<Rightarrow> ('f::comm_ring_1 \<Rightarrow> nat) \<Rightarrow> 'f mpcith_prover \<Rightarrow> nat \<Rightarrow> 'f partial_repetition \<Rightarrow> bool" where
  "partial_ok hash into_bigint pv i partial \<longleftrightarrow> par_id partial = of_nat i \<and>
     (\<exists>vals parties. honest_partial hash into_bigint (mpv_statement pv) (mpv_circuit pv) (mpv_witness pv) partial vals parties)"

definition prover_ready :: "'f mpcith_prover \<Rightarrow> bool" where
  "prover_ready pv \<longleftrightarrow> circuit_wf (mpv_circuit pv) \<and> length (c_nodes (mpv_circuit pv)) \<le> MAX_CIRCUIT_NODES \<and>
     inputs_fit (mpv_circuit pv) (mpv_witness pv) (ms_public_inputs (mpv_statement pv)) \<and>
     length (ms_expected_outputs (mpv_statement pv)) = length (c_outputs (mpv_circuit pv))"

lemma MpcithStatement_validate_iff:
  "MpcithStatement_validate sha256 into_bigint width st c = Inr () \<longleftrightarrow>
     circuit_wf c \<and> compute_id sha256 into_bigint width c = Some (ms_circuit_id st) \<and>
     length (ms_public_inputs st) = c_num_public c \<and> length (ms_expected_outputs st) = length (c_outputs c)"
  by (auto simp: MpcithStatement_validate_def validate_iff)

lemma MpcithProver_new_ready:
  assumes "MpcithProver_new_backend sha256 into_bigint width c st w = Inr pv" "length (c_nodes c) \<le> MAX_CIRCUIT_NODES"
  shows "pv = \<lparr>mpv_circuit = c, mpv_statement = st, mpv_witness = w\<rparr>" "prover_ready pv"
    "MpcithStatement_validate sha256 into_bigint width st c = Inr ()"
  using assms by (auto simp: MpcithProver_new_backend_def prover_ready_def MpcithStatement_validate_iff inputs_fit_def)

lemma verify_loop_valid:
  "(\<And>i. i < length reps \<Longrightarrow> rep_id (reps ! i) = of_nat (k + i) \<and> verify_repetition hash into_bigint st (reps ! i) c = Some (Inr True)) \<Longrightarrow>
   verify_loop hash into_bigint st c k reps = Some (Inr VR_Valid)"
proof (induction reps arbitrary: k)
  case Nil
  then show ?case by simp
next
  case (Cons r reps)
  have "verify_loop hash into_bigint st c (Suc k) reps = Some (Inr VR_Valid)"
    using Cons.prems [of "Suc i" for i] by (intro Cons.IH) auto
  then show ?case using Cons.prems [of 0] by simp
qed

lemma verify_loop_invalid:
  "reps \<noteq> [] \<Longrightarrow> rep_id (reps ! 0) = of_nat k \<Longrightarrow> verify_repetition hash into_bigint st (reps ! 0) c = Some (Inr False) \<Longrightarrow>
   verify_loop hash into_bigint st c k reps = Some (Inr VR_Invalid)"
  by (cases reps) simp_all

context commit_env
begin

lemma commit_partial_ok:
  assumes "prover_ready pv"
  shows "\<exists>partial g'. commit_repetition hash into_bigint rand fill pv (of_nat i) g = (Inr partial, g') \<and> partial_ok hash into_bigint pv i partial"
  using commit_repetition_ok [of pv into_bigint rand "of_nat i" g] assms by (auto simp: prover_ready_def partial_ok_def)

lemma commit_all_ok:
  assumes "prover_ready pv"
  shows "\<exists>partials g'. commit_all hash into_bigint rand fill pv is g = (Inr partials, g') \<and>
    list_all2 (partial_ok hash into_bigint pv) is partials"
proof (induction "is" arbitrary: g)
  case Nil
  then show ?case by simp
next
  case (Cons i "is")
  obtain partial g1 where "commit_repetition hash into_bigint rand fill pv (of_nat i) g = (Inr partial, g1)" "partial_ok hash into_bigint pv i partial"
    using commit_partial_ok [OF assms] by blast
  moreover obtain partials g2 where "commit_all hash into_bigint rand fill pv is g1 = (Inr partials, g2)" "list_all2 (partial_ok hash into_bigint pv) is partials"
    using Cons.IH by blast
  ultimately show ?case by (auto simp: obind_def)
qed

end

lemma finish_ok:
  assumes "prover_ready pv" "partial_ok hash into_bigint pv i partial" "hidden_party ch < PARTY_COUNT"
  shows "\<exists>r. finish_repetition partial ch = Inr r \<and> rep_id r = of_nat i \<and>
    verify_repetition hash into_bigint (mpv_statement pv) r (mpv_circuit pv) =
      Some (Inr (secret_outputs_match (mpv_circuit pv) (mpv_witness pv) (mpv_statement pv)))"
proof -
  obtain vals parties where hp: "honest_partial hash into_bigint (mpv_statement pv) (mpv_circuit pv) (mpv_witness pv) partial vals parties"
    and rid: "par_id partial = of_nat i" using assms(2) by (auto simp: partial_ok_def)
  define h where "h = unat (hidden_party ch)"
  have h: "h < 3" "ch = \<lparr>hidden_party = of_nat h\<rparr>"
    using assms(3) by (simp_all add: h_def PARTY_COUNT_def word_less_nat_alt)
  have wf: "circuit_wf (mpv_circuit pv)" using assms(1) by (simp add: prover_ready_def)
  show ?thesis
    using finish_honest [OF hp wf h(1)] verdict_honest [OF hp wf h(1)] assms(1) rid
    by (simp add: h(2) prover_ready_def response_def)
qed

text \<open>The challenges are valid, one per session.\<close>

definition challenges_valid :: "('s list \<Rightarrow> ('e, challenge list) result) \<Rightarrow> 's list \<Rightarrow> bool" where
  "challenges_valid challenges_of sessions \<longleftrightarrow> (\<exists>chs. challenges_of sessions = Inr chs \<and> length chs = length sessions \<and>
     list_all (\<lambda>ch. hidden_party ch < PARTY_COUNT) chs)"

text \<open>A list of responses, one for each committed repetition, and their verdict.\<close>

lemma rmap_nth:
  "rmap f xs = Inr ys \<longleftrightarrow> length ys = length xs \<and> (\<forall>i<length xs. f (xs ! i) = Inr (ys ! i))"
proof (induction xs arbitrary: ys)
  case Nil
  then show ?case by auto
next
  case (Cons x xs)
  show ?case by (cases ys) (auto simp: Cons all_less_Suc_shift)
qed

lemma responses_exist:
  assumes "list_all2 R [0..<n] partials" "length chs = n" "list_all Q chs"
    and "\<And>i p ch. R i p \<Longrightarrow> Q ch \<Longrightarrow> \<exists>r. f (p, ch) = Inr r \<and> S i r"
  shows "\<exists>reps. rmap f (zip partials chs) = Inr reps \<and> length reps = n \<and> (\<forall>i<n. S i (reps ! i))"
proof -
  have len: "length partials = n" using list_all2_lengthD [OF assms(1)] by simp
  have "\<exists>r. f (zip partials chs ! i) = Inr r \<and> S i r" if "i < n" for i
    using assms(4) [of i "partials ! i" "chs ! i"] list_all2_nthD [OF assms(1), of i] assms(2,3) len that by (auto simp: list_all_length)
  then obtain r where "\<And>i. i < n \<Longrightarrow> f (zip partials chs ! i) = Inr (r i) \<and> S i (r i)" by metis
  then show ?thesis using len assms(2) by (intro exI [of _ "map r [0..<n]"]) (simp add: rmap_nth)
qed

context commit_env
begin

lemma prove_joint_fs_ok:
  assumes ready: "prover_ready pv" and count: "count \<noteq> 0"
    and chs: "\<And>sessions. length sessions = unat count \<Longrightarrow> \<forall>s\<in>set sessions. length (snd s) = 3 \<Longrightarrow> challenges_valid challenges_of sessions"
  shows "\<exists>partials challenges reps g'.
    commit_phase hash into_bigint rand fill pv count g = (Inr partials, g') \<and>
    list_all2 (partial_ok hash into_bigint pv) [0..<unat count] partials \<and>
    challenges_of (map (\<lambda>p. (par_id p, par_commitments p)) partials) = Inr challenges \<and>
    list_all (\<lambda>ch. hidden_party ch < PARTY_COUNT) challenges \<and> length challenges = unat count \<and>
    prove_joint_fs hash into_bigint rand fill pv count challenges_of g = (Inr \<lparr>mp_repetitions = reps\<rparr>, g') \<and>
    rmap (\<lambda>(p, ch). finish_repetition p ch) (zip partials challenges) = Inr reps \<and> length reps = unat count \<and>
    (\<forall>i<unat count. rep_id (reps ! i) = of_nat i \<and> verify_repetition hash into_bigint (mpv_statement pv) (reps ! i) (mpv_circuit pv) =
      Some (Inr (secret_outputs_match (mpv_circuit pv) (mpv_witness pv) (mpv_statement pv))))"
proof -
  obtain partials g' where com: "commit_all hash into_bigint rand fill pv [0..<unat count] g = (Inr partials, g')"
      "list_all2 (partial_ok hash into_bigint pv) [0..<unat count] partials"
    using commit_all_ok [OF ready] by blast
  have len: "length partials = unat count" using list_all2_lengthD [OF com(2)] by simp
  have "length (par_commitments p) = 3" if "p \<in> set partials" for p
    using com(2) that by (auto simp: list_all2_conv_all_nth in_set_conv_nth partial_ok_def honest_partial_def)
  then obtain challenges where c: "challenges_of (map (\<lambda>p. (par_id p, par_commitments p)) partials) = Inr challenges"
      "length challenges = unat count" "list_all (\<lambda>ch. hidden_party ch < PARTY_COUNT) challenges"
    using chs [of "map (\<lambda>p. (par_id p, par_commitments p)) partials"] len by (auto simp: challenges_valid_def)
  obtain reps where "rmap (\<lambda>(p, ch). finish_repetition p ch) (zip partials challenges) = Inr reps" "length reps = unat count"
      "\<forall>i<unat count. rep_id (reps ! i) = of_nat i \<and> verify_repetition hash into_bigint (mpv_statement pv) (reps ! i) (mpv_circuit pv) =
        Some (Inr (secret_outputs_match (mpv_circuit pv) (mpv_witness pv) (mpv_statement pv)))"
    using responses_exist [OF com(2) c(2,3), of "\<lambda>(p, ch). finish_repetition p ch"
        "\<lambda>i r. rep_id r = of_nat i \<and> verify_repetition hash into_bigint (mpv_statement pv) r (mpv_circuit pv) =
          Some (Inr (secret_outputs_match (mpv_circuit pv) (mpv_witness pv) (mpv_statement pv)))"]
      finish_ok [OF ready] by auto
  then show ?thesis
    using com c count len
    by (intro exI [of _ partials] exI [of _ challenges] exI [of _ reps] exI [of _ g'])
      (simp add: commit_phase_def prove_joint_fs_def obind_def Let_def)
qed

end

section \<open>The interactive prover\<close>

definition always_valid :: "(repetition_id \<Rightarrow> digest list \<Rightarrow> ('q, mpcith_error, challenge) op) \<Rightarrow> bool" where
  "always_valid challenge_of \<longleftrightarrow> (\<forall>rid cs q. \<exists>ch q'. challenge_of rid cs q = (Inr ch, q') \<and> hidden_party ch < PARTY_COUNT)"

lemma random_always_valid: "always_valid (\<lambda>_ _. random_next_challenge next_u64)"
proof -
  have "(of_nat (unat (w mod of_nat (unat PARTY_COUNT))) :: u8) < PARTY_COUNT" for w :: u64
  proof -
    have "unat (w mod 3) < 3"
      using unat_mod [of w 3] by simp
    moreover have "(of_nat n :: u8) < 3" if "n < 3" for n
      using that unat_party [OF that] by (simp add: word_less_nat_alt)
    ultimately have "(of_nat (unat (w mod 3)) :: u8) < 3" by blast
    then show ?thesis by (simp add: PARTY_COUNT_def)
  qed
  note less = this and nle = this [unfolded not_le [symmetric]]
  show ?thesis
    using less nle by (auto simp: always_valid_def random_next_challenge_def PartyId_new_def Let_def split: prod.splits)
qed

context commit_env
begin

lemma prove_with_loop_ok:
  assumes ready: "prover_ready pv" and chs: "always_valid challenge_of"
  shows "\<exists>reps s'. prove_with_loop hash into_bigint rand fill challenge_of pv is s = (Inr reps, s') \<and>
    list_all2 (\<lambda>i r. rep_id r = of_nat i \<and> verify_repetition hash into_bigint (mpv_statement pv) r (mpv_circuit pv) =
      Some (Inr (secret_outputs_match (mpv_circuit pv) (mpv_witness pv) (mpv_statement pv)))) is reps"
proof (induction "is" arbitrary: s)
  case Nil
  then show ?case by simp
next
  case (Cons i "is")
  obtain partial g1 where com: "commit_repetition hash into_bigint rand fill pv (of_nat i) (snd s) = (Inr partial, g1)" "partial_ok hash into_bigint pv i partial"
    using commit_partial_ok [OF ready] by blast
  obtain ch q1 where ch: "challenge_of (par_id partial) (par_commitments partial) (fst s) = (Inr ch, q1)" "hidden_party ch < PARTY_COUNT"
    using chs by (auto simp: always_valid_def) blast
  obtain r where r: "finish_repetition partial ch = Inr r" "rep_id r = of_nat i \<and> verify_repetition hash into_bigint (mpv_statement pv) r (mpv_circuit pv) =
      Some (Inr (secret_outputs_match (mpv_circuit pv) (mpv_witness pv) (mpv_statement pv)))"
    using finish_ok [OF ready com(2) ch(2)] by blast
  obtain reps s' where "prove_with_loop hash into_bigint rand fill challenge_of pv is (q1, g1) = (Inr reps, s')"
    "list_all2 (\<lambda>i r. rep_id r = of_nat i \<and> verify_repetition hash into_bigint (mpv_statement pv) r (mpv_circuit pv) =
      Some (Inr (secret_outputs_match (mpv_circuit pv) (mpv_witness pv) (mpv_statement pv)))) is reps"
    using Cons.IH by blast
  then show ?case
    using com(1) ch(1) r by (auto simp: obind_def on_right_def on_left_def)
qed

lemma mpcith_prove_ok:
  assumes new: "MpcithProver_new_backend sha256 into_bigint width c st w = Inr pv"
    and size: "length (c_nodes c) \<le> MAX_CIRCUIT_NODES" and count: "count \<noteq> 0"
    and chs: "always_valid (\<lambda>_ _. next_challenge)"
  shows "\<exists>proof s'. mpcith_prove hash into_bigint rand fill next_challenge pv count s = (Inr proof, s') \<and>
    mpcith_verify sha256 hash into_bigint width st proof c = Some (Inr (if secret_outputs_match c w st then VR_Valid else VR_Invalid))"
proof -
  note pv = MpcithProver_new_ready [OF new size]
  obtain reps s' where reps: "prove_with_loop hash into_bigint rand fill (\<lambda>_ _. next_challenge) pv [0..<unat count] s = (Inr reps, s')"
    "list_all2 (\<lambda>i r. rep_id r = of_nat i \<and> verify_repetition hash into_bigint st r c = Some (Inr (secret_outputs_match c w st))) [0..<unat count] reps"
    using prove_with_loop_ok [OF pv(2) chs, of into_bigint rand "[0..<unat count]" s] by (auto simp: pv(1))
  have nth: "length reps = unat count" "i < unat count \<Longrightarrow> rep_id (reps ! i) = of_nat i \<and> verify_repetition hash into_bigint st (reps ! i) c = Some (Inr (secret_outputs_match c w st))" for i
    using reps(2) by (auto simp: list_all2_conv_all_nth)
  have pos: "0 < unat count" using count by (simp add: unat_gt_0)
  have "verify_loop hash into_bigint st c 0 reps = Some (Inr (if secret_outputs_match c w st then VR_Valid else VR_Invalid))"
  proof (cases "secret_outputs_match c w st")
    case True
    then show ?thesis using nth by (simp add: verify_loop_valid)
  next
    case False
    then show ?thesis using nth(1) nth(2) [of 0] pos by (auto intro!: verify_loop_invalid)
  qed
  moreover have "reps \<noteq> []" using nth(1) pos by auto
  ultimately show ?thesis
    using reps(1) count pv(3) by (auto simp: mpcith_prove_def prove_with_def obind_def mpcith_verify_def)
qed

end

section \<open>Forged responses\<close>

text \<open>The shares of the hidden party are sent after the challenge and compared with nothing but the expected
  outputs. \<open>forge_response\<close> is a prover that has run the parties on an arbitrary witness and, once the
  challenge is known, replaces the shares of the hidden party by what is missing to the expected outputs. It
  uses only what the opened parties computed.\<close>

definition forged_shares :: "'f::comm_ring_1 mpcith_statement \<Rightarrow> 'f circuit \<Rightarrow> 'f replay_val list list \<Rightarrow> 'f list" where
  "forged_shares st c replays = map (\<lambda>(nid, expected).
     foldl (\<lambda>acc vs. case vs ! as_usize nid of RV_Shared x \<Rightarrow> acc - x | RV_Public _ \<Rightarrow> 0) expected replays)
     (zip (c_outputs c) (ms_expected_outputs st))"

definition forge_response ::
    "'f::comm_ring_1 mpcith_statement \<Rightarrow> 'f circuit \<Rightarrow> 'f partial_repetition \<Rightarrow> challenge \<Rightarrow> (mpcith_error, 'f repetition) result" where
  "forge_response st c partial ch =
     rbind (finish_repetition partial ch) (\<lambda>r.
     rbind (global_masks r) (\<lambda>globals.
     rbind (rmap (\<lambda>opened. replay_party st (ov_view opened) c globals) (rep_opened_views r)) (\<lambda>replays.
     Inr (r\<lparr>rep_hidden_output_shares := forged_shares st c replays\<rparr>))))"

lemma forged_shares_nth:
  assumes "k < length (c_outputs c)" "length (ms_expected_outputs st) = length (c_outputs c)" "as_usize (c_outputs c ! k) < length vals"
  shows "forged_shares st c (map (\<lambda>p. map (project p) vals) (other h)) ! k =
    (if nv_shared (vals ! as_usize (c_outputs c ! k)) then ms_expected_outputs st ! k - opened_sum h (vals ! as_usize (c_outputs c ! k)) else 0)"
  using assms
  by (cases "vals ! as_usize (c_outputs c ! k)") (auto simp: forged_shares_def other_def opened_sum_def algebra_simps)

lemma forge_ok:
  assumes ready: "prover_ready pv" and p: "partial_ok hash into_bigint pv i partial" and ch: "hidden_party ch < PARTY_COUNT"
  shows "\<exists>r. forge_response (mpv_statement pv) (mpv_circuit pv) partial ch = Inr r \<and> rep_id r = of_nat i \<and>
    verify_repetition hash into_bigint (mpv_statement pv) r (mpv_circuit pv) = Some (Inr True)"
proof -
  let ?st = "mpv_statement pv" and ?c = "mpv_circuit pv"
  obtain vals parties where hp: "honest_partial hash into_bigint ?st ?c (mpv_witness pv) partial vals parties"
    and rid: "par_id partial = of_nat i" using p by (auto simp: partial_ok_def)
  define h where "h = unat (hidden_party ch)"
  have h: "h < 3" "ch = \<lparr>hidden_party = of_nat h\<rparr>"
    using ch by (simp_all add: h_def PARTY_COUNT_def word_less_nat_alt)
  have wf: "circuit_wf ?c" and exp: "length (ms_expected_outputs ?st) = length (c_outputs ?c)"
    using ready by (simp_all add: prover_ready_def)
  let ?replays = "map (\<lambda>p. map (project p) vals) (other h)" let ?outs = "forged_shares ?st ?c ?replays"
  have replays: "rmap (\<lambda>opened. replay_party ?st (ov_view opened) ?c (masks_of parties)) (map (opened_of partial) (other h)) = Inr ?replays"
    unfolding rmap_map using hp other_less [OF h(1)]
    by (intro rmap_total) (auto simp: opened_of_def honest_partial_def)
  have "forge_response ?st ?c partial ch = Inr (response partial h ?outs)"
    using finish_honest [OF hp wf h(1)] global_masks_response [OF hp h(1)] replays
    by (simp add: forge_response_def h(2)) (simp add: response_def)
  moreover have nth: "?outs ! k = (if deps (c_nodes ?c) ! as_usize (c_outputs ?c ! k)
      then ms_expected_outputs ?st ! k - opened_sum h (vals ! as_usize (c_outputs ?c ! k)) else 0)" if "k < length (c_outputs ?c)" for k
    using forged_shares_nth [OF that exp, of vals h] honest_run_values [OF hp wf, of "c_outputs ?c ! k"] that by simp
  have "length ?outs = length (c_outputs ?c)" using exp by (simp add: forged_shares_def)
  from verdict_response [OF hp wf h(1) this exp] nth
  have "verify_repetition hash into_bigint ?st (response partial h ?outs) ?c = Some (Inr True)" by simp
  moreover have "rep_id (response partial h ?outs) = of_nat i" using rid by (simp add: response_def)
  ultimately show ?thesis by blast
qed

section \<open>Properties\<close>

definition zero_fill :: "'g \<Rightarrow> nat \<Rightarrow> bytes \<times> 'g" where
  "zero_fill g n = (replicate n 0, g)"

interpretation low_env: commit_env "Sha256Backend_hash low32" zero_fill
  by unfold_locales (simp_all add: Sha256Backend_hash_def low32_def zero_fill_def)

text \<open>C7: the interactive protocol is complete, whatever challenges are drawn: for a circuit of permitted size
  the prover returns a proof, no index or assertion fails, and the verifier accepts it when the witness
  gives the expected outputs. It returns \<open>Invalid\<close>, without an error, exactly when an output that depends
  on a secret differs from the expected one; the expected values of outputs that depend on no secret are
  not compared.\<close>

theorem mpcith_complete:
  assumes "\<And>x. length (hash x) = 32" "\<And>g n. length (fst (fill g n)) = n"
    and new: "MpcithProver_new_backend sha256 into_bigint width c st w = Inr pv"
    and "length (c_nodes c) \<le> MAX_CIRCUIT_NODES" "count \<noteq> 0"
  shows "\<exists>proof s'. mpcith_prove hash into_bigint rand fill (random_next_challenge next_word) pv count s = (Inr proof, s') \<and>
    mpcith_verify sha256 hash into_bigint width st proof c =
      Some (Inr (if secret_outputs_match c w st then VR_Valid else VR_Invalid)) \<and>
    (evaluate_reference c w (ms_public_inputs st) = Inr (ms_expected_outputs st) \<longrightarrow> secret_outputs_match c w st)"
proof -
  have env: "commit_env hash fill" by unfold_locales (simp_all add: assms)
  have "circuit_wf c" "inputs_fit c w (ms_public_inputs st)"
    using new by (auto simp: MpcithProver_new_backend_def MpcithStatement_validate_iff inputs_fit_def)
  then have "evaluate_reference c w (ms_public_inputs st) = Inr (circuit_outputs c w (ms_public_inputs st))"
    by (rule evaluate_reference_eq)
  then show ?thesis
    using commit_env.mpcith_prove_ok [OF env new assms(4,5) random_always_valid, of rand next_word s]
    by (auto simp: secret_outputs_match_def)
qed

definition demo_mpcith_statement :: "fp mpcith_statement" where
  "demo_mpcith_statement = \<lparr>ms_circuit_id = the (compute_id low32 fp_into_bigint 16 demo_circuit),
     ms_public_inputs = [2], ms_expected_outputs = [14]\<rparr>"

definition demo_prover :: "fp mpcith_prover" where
  "demo_prover = \<lparr>mpv_circuit = demo_circuit, mpv_statement = demo_mpcith_statement, mpv_witness = [4]\<rparr>"

lemma demo_prover_new:
  "MpcithProver_new_backend low32 fp_into_bigint 16 demo_circuit demo_mpcith_statement [4] = Inr demo_prover"
proof -
  have "compute_id low32 fp_into_bigint 16 demo_circuit = Some (ms_circuit_id demo_mpcith_statement)"
    by (simp add: demo_mpcith_statement_def compute_id_def demo_circuit_bytes)
  then have "MpcithStatement_validate low32 fp_into_bigint 16 demo_mpcith_statement demo_circuit = Inr ()"
    using demo_circuit_valid by (simp add: MpcithStatement_validate_iff validate_iff) (simp add: demo_mpcith_statement_def demo_circuit_def)
  then show ?thesis by (simp add: MpcithProver_new_backend_def demo_prover_def) (simp add: demo_circuit_def)
qed

theorem mpcith_complete_witness:
  "\<exists>proof s'. mpcith_prove (Sha256Backend_hash low32) fp_into_bigint (\<lambda>g. (of_nat g, g + 1)) zero_fill
      (random_next_challenge (\<lambda>q. (of_nat q, q + 1))) demo_prover 2 (0, 0) = (Inr proof, s') \<and>
    mpcith_verify low32 (Sha256Backend_hash low32) fp_into_bigint 16 demo_mpcith_statement proof demo_circuit = Some (Inr VR_Valid)"
proof -
  have "evaluate_reference demo_circuit [4] (ms_public_inputs demo_mpcith_statement) = Inr (ms_expected_outputs demo_mpcith_statement)"
    by (simp add: evaluate_reference_def demo_circuit_def demo_mpcith_statement_def index_at_def)
  then show ?thesis
    using mpcith_complete [where hash = "Sha256Backend_hash low32" and fill = zero_fill and rand = "\<lambda>g :: nat. (of_nat g, g + 1)" and
        next_word = "\<lambda>q :: nat. (of_nat q, q + 1)" and s = "(0, 0)" and count = 2,
        OF low_env.length_hash low_env.length_fill demo_prover_new]
    by (fastforce simp: demo_circuit_def MAX_CIRCUIT_NODES_def)
qed

text \<open>C22: on a valid circuit the stack loop of \<open>node_depends_on_secrets\<close> ends, no index or \<open>unwrap\<close> fails, and
  the answer is whether the node is computed from a secret input.\<close>

theorem node_depends_terminates:
  assumes "validate c = Inr ()" "as_usize nid < length (c_nodes c)"
  shows "node_depends_on_secrets c nid = Some (Inr (deps (c_nodes c) ! as_usize nid))"
  using assms node_depends_eq by (simp add: validate_iff)

theorem node_depends_terminates_witness:
  "node_depends_on_secrets demo_circuit 4 = Some (Inr True) \<and> node_depends_on_secrets demo_circuit 2 = Some (Inr False)"
  using node_depends_terminates [OF demo_circuit_valid, of 4] node_depends_terminates [OF demo_circuit_valid, of 2]
  by (simp_all add: demo_circuit_def deps_def)

text \<open>The encodings of \<open>crates/mpcith\<close>. A byte string decodes to a view exactly when it starts with the
  encoding of that view, so view encodings are canonical and self-delimiting; and every proof whose counts
  fit their fields is decoded from its encoding unchanged.\<close>

theorem mpcith_codec:
  assumes "field_ops modulus into_big" "modulus \<le> 256 ^ ELEMENT_WIDTH"
  shows "(decode_view modulus bs = Inr (v, rest) \<longleftrightarrow> view_wf v \<and> bs = encode_view into_big v @ rest) \<and>
    (mpcith_proof_wf into_big pr \<longrightarrow> decode_proof modulus (encode_proof into_big pr) = Inr pr)"
proof -
  have f: "view_field modulus into_big" by (rule view_fieldI [OF assms])
  show ?thesis
    using codec.dec_iff [OF view_field.view_codec [OF f]] view_field.decode_encode_proof [OF f] by blast
qed

definition demo_view :: "u8 \<Rightarrow> fp party_view" where
  "demo_view p = \<lparr>pv_repetition_id = 7, pv_party_id = p, pv_input_shares = [5],
     pv_local_operations = [Op_Add 2 9, Op_BeaverMul 3 0 1 2 8], pv_triple_shares = [\<lparr>ts_a = 1, ts_b = 2, ts_c = 3\<rparr>],
     pv_opened_values = [4, 6]\<rparr>"

definition demo_mpcith_proof :: "fp mpcith_proof" where
  "demo_mpcith_proof = \<lparr>mp_repetitions = [\<lparr>rep_id = 0, rep_commitments = replicate 3 (Digest (replicate 32 1)),
     rep_challenge = \<lparr>hidden_party = 2\<rparr>,
     rep_opened_views = map (\<lambda>p. \<lparr>ov_view = demo_view p, ov_randomness = replicate 32 0\<rparr>) [0, 1],
     rep_hidden_output_shares = [3], rep_hidden_broadcasts = [1, 2]\<rparr>]\<rparr>"

theorem mpcith_codec_witness:
  "decode_view fp_modulus (encode_view fp_into_bigint (demo_view 1) @ [9]) = Inr (demo_view 1, [9]) \<and>
   decode_proof fp_modulus (encode_proof fp_into_bigint demo_mpcith_proof) = Inr demo_mpcith_proof"
proof -
  have "view_wf (demo_view p)" if "p < 3" for p
    using that by (simp add: view_wf_def demo_view_def PARTY_COUNT_def)
  moreover have "length (encode_view fp_into_bigint (demo_view p)) < 2 ^ 32" for p
    using length_encode_view [of fp_into_bigint "demo_view p"] by (simp add: demo_view_def)
  ultimately have "mpcith_proof_wf fp_into_bigint demo_mpcith_proof" "view_wf (demo_view 1)"
    by (simp_all add: list_all_iff mpcith_proof_wf_def demo_mpcith_proof_def MAX_REPETITIONS_def repetition_wf_def opened_wf_def
        PARTY_COUNT_def digest_wf_def DIGEST_LEN_def RANDOMNESS_LEN_MPCITH_def)
  then show ?thesis
    using mpcith_codec [OF fp_ops.field_ops_axioms fp_view.modulus_fits] by blast
qed

end
