(* ===== verification/Mpcith_Privacy.thy ===== *)
theory Mpcith_Privacy
  imports Mpcith_Security
begin

text \<open>
  Privacy of the opened views. The field elements that the prover draws are a tape; a bijection on tapes
  keeps the uniform distribution, so two runs that are related by a bijection look the same to the verifier.
  Runs are compared with a small relational program logic: \<open>coupled\<close> relates two programs that draw the
  same number of elements, and composes along \<open>obind\<close>.
\<close>

section \<open>Coupled runs\<close>

definition tapes :: "nat \<Rightarrow> 'f list set" where
  "tapes k = {t. length t = k}"

text \<open>The generator: a tape of field elements, and a separate source of bytes.\<close>

definition tape_gen :: "'f list \<times> 's \<Rightarrow> 'f \<times> ('f list \<times> 's)" where
  "tape_gen g = (hd (fst g), (tl (fst g), snd g))"

definition tape_fill :: "('s \<Rightarrow> nat \<Rightarrow> bytes \<times> 's) \<Rightarrow> 'f list \<times> 's \<Rightarrow> nat \<Rightarrow> bytes \<times> ('f list \<times> 's)" where
  "tape_fill fill g n = (let (bs, s) = fill (snd g) n in (bs, (fst g, s)))"

definition coupled ::
    "nat \<Rightarrow> 's \<Rightarrow> ('f list \<times> 's, 'e, 'a) op \<Rightarrow> ('f list \<times> 's, 'e, 'b) op \<Rightarrow> ('a \<Rightarrow> 'b \<Rightarrow> bool) \<Rightarrow> bool" where
  "coupled k s m m' R \<longleftrightarrow> (\<exists>f. bij_betw f (tapes k) (tapes k) \<and>
     (\<forall>t\<in>tapes k. \<exists>x x' s1. R x x' \<and> (\<forall>rest. m (t @ rest, s) = (Inr x, (rest, s1)) \<and> m' (f t @ rest, s) = (Inr x', (rest, s1)))))"

lemma coupledI:
  assumes "bij_betw f (tapes k) (tapes k)"
    and "\<And>t. length t = k \<Longrightarrow> \<exists>x x' s1. R x x' \<and> (\<forall>rest. m (t @ rest, s) = (Inr x, (rest, s1)) \<and> m' (f t @ rest, s) = (Inr x', (rest, s1)))"
  shows "coupled k s m m' R"
  using assms unfolding coupled_def tapes_def by blast

lemma coupled_ret: "R x x' \<Longrightarrow> coupled 0 s (oret (Inr x)) (oret (Inr x')) R"
  by (rule coupledI [of id]) auto

lemma coupled_Pair: "R x x' \<Longrightarrow> coupled 0 s (Pair (Inr x)) (Pair (Inr x')) R"
  by (rule coupledI [of id]) auto

lemma coupled_weaken: "coupled k s m m' R \<Longrightarrow> (\<And>x x'. R x x' \<Longrightarrow> R' x x') \<Longrightarrow> coupled k s m m' R'"
  unfolding coupled_def by blast

text \<open>Facts about each run alone may be added to the relation.\<close>

lemma coupled_facts:
  fixes m :: "('f list \<times> 's, 'e, 'a) op" and m' :: "('f list \<times> 's, 'e, 'b) op"
  assumes "coupled k s m m' R" and "\<And>g x g'. m g = (Inr x, g') \<Longrightarrow> P x" "\<And>g x g'. m' g = (Inr x, g') \<Longrightarrow> P' x"
  shows "coupled k s m m' (\<lambda>x x'. R x x' \<and> P x \<and> P' x')"
proof -
  obtain f where f: "bij_betw f (tapes k) (tapes k)"
    "\<forall>t\<in>tapes k. \<exists>x x' s1. R x x' \<and> (\<forall>rest. m (t @ rest, s) = (Inr x, (rest, s1)) \<and> m' (f t @ rest, s) = (Inr x', (rest, s1)))"
    using assms(1) unfolding coupled_def by blast
  show ?thesis
  proof (rule coupledI [OF f(1)])
    fix t :: "'f list" assume "length t = k"
    then obtain x x' s1 where "R x x'" "\<forall>rest. m (t @ rest, s) = (Inr x, (rest, s1)) \<and> m' (f t @ rest, s) = (Inr x', (rest, s1))"
      using f(2) by (auto simp: tapes_def)
    then show "\<exists>x x' s1. (R x x' \<and> P x \<and> P' x') \<and> (\<forall>rest. m (t @ rest, s) = (Inr x, (rest, s1)) \<and> m' (f t @ rest, s) = (Inr x', (rest, s1)))"
      using assms(2,3) by blast
  qed
qed

text \<open>Bijections on consecutive parts of a tape, the second of which may depend on the first part.\<close>

lemma bij_tape_append:
  fixes f :: "'f list \<Rightarrow> 'f list"
  assumes f: "bij_betw f (tapes k) (tapes k)" and h: "\<And>t. t \<in> tapes k \<Longrightarrow> bij_betw (h t) (tapes l) (tapes l)"
  shows "bij_betw (\<lambda>t. f (take k t) @ h (take k t) (drop k t)) (tapes (k + l)) (tapes (k + l))"
proof -
  let ?F = "\<lambda>t. f (take k t) @ h (take k t) (drop k t)"
  have len: "length (f t) = k" if "length t = k" for t
    using bij_betwE [OF f] that by (auto simp: tapes_def)
  have parts: "take k t \<in> tapes k" "drop k t \<in> tapes l" if "t \<in> tapes (k + l)" for t :: "'f list"
    using that by (auto simp: tapes_def)
  have inj: "t = t'" if t: "t \<in> tapes (k + l)" "t' \<in> tapes (k + l)" and eq: "?F t = ?F t'" for t t'
  proof -
    have "f (take k t) = f (take k t')" "h (take k t) (drop k t) = h (take k t') (drop k t')"
      using eq len [of "take k t"] len [of "take k t'"] t by (auto simp: tapes_def)
    moreover from this(1) have "take k t = take k t'" using f parts t by (auto simp: bij_betw_def inj_on_def)
    ultimately have "drop k t = drop k t'" using h [OF parts(1)] parts t by (auto simp: bij_betw_def inj_on_def)
    with \<open>take k t = take k t'\<close> show ?thesis by (metis append_take_drop_id)
  qed
  have surj: "\<exists>t\<in>tapes (k + l). ?F t = u" if u: "u \<in> tapes (k + l)" for u
  proof -
    obtain a where a: "a \<in> tapes k" "f a = take k u" using f parts(1) [OF u] by (metis bij_betw_iff_bijections)
    obtain b where b: "b \<in> tapes l" "h a b = drop k u" using h [OF a(1)] parts(2) [OF u] by (metis bij_betw_iff_bijections)
    have "?F (a @ b) = u" "a @ b \<in> tapes (k + l)" using a b by (auto simp: tapes_def)
    then show ?thesis by blast
  qed
  have "?F t \<in> tapes (k + l)" if t: "t \<in> tapes (k + l)" for t
    using len [of "take k t"] bij_betwE [OF h [OF parts(1) [OF t]]] parts [OF t] by (auto simp: tapes_def)
  then show ?thesis using inj surj by (intro bij_betw_imageI inj_onI subset_antisym) (auto simp: image_iff, metis)
qed

lemma coupled_bind:
  fixes m :: "('f list \<times> 's, 'e, 'a) op" and m' :: "('f list \<times> 's, 'e, 'b) op"
  assumes m: "coupled k s m m' R" and n: "\<And>x x' s1. R x x' \<Longrightarrow> coupled l s1 (n x) (n' x') R'"
  shows "coupled (k + l) s (obind m n) (obind m' n') R'"
proof -
  obtain f where f: "bij_betw f (tapes k) (tapes k)"
    "\<And>t. t \<in> tapes k \<Longrightarrow> \<exists>x x' s1. R x x' \<and> (\<forall>rest. m (t @ rest, s) = (Inr x, (rest, s1)) \<and> m' (f t @ rest, s) = (Inr x', (rest, s1)))"
    using m unfolding coupled_def by blast
  have "\<exists>h. bij_betw h (tapes l) (tapes l) \<and> (\<forall>u\<in>tapes l. \<exists>y y' s2. R' y y' \<and>
      (\<forall>rest. obind m n ((t @ u) @ rest, s) = (Inr y, (rest, s2)) \<and> obind m' n' ((f t @ h u) @ rest, s) = (Inr y', (rest, s2))))"
    if t: "t \<in> tapes k" for t
  proof -
    obtain x x' s1 where x: "R x x'" "\<And>rest. m (t @ rest, s) = (Inr x, (rest, s1))" "\<And>rest. m' (f t @ rest, s) = (Inr x', (rest, s1))"
      using f(2) [OF t] by blast
    obtain h where "bij_betw h (tapes l) (tapes l)"
      "\<forall>u\<in>tapes l. \<exists>y y' s2. R' y y' \<and> (\<forall>rest. n x (u @ rest, s1) = (Inr y, (rest, s2)) \<and> n' x' (h u @ rest, s1) = (Inr y', (rest, s2)))"
      using n [OF x(1), of s1] unfolding coupled_def by blast
    then show ?thesis by (intro exI [of _ h]) (simp add: obind_def x(2,3))
  qed
  then obtain h where h: "\<And>t. t \<in> tapes k \<Longrightarrow> bij_betw (h t) (tapes l) (tapes l)"
    "\<And>t u. t \<in> tapes k \<Longrightarrow> u \<in> tapes l \<Longrightarrow> \<exists>y y' s2. R' y y' \<and>
      (\<forall>rest. obind m n ((t @ u) @ rest, s) = (Inr y, (rest, s2)) \<and> obind m' n' ((f t @ h t u) @ rest, s) = (Inr y', (rest, s2)))"
    by metis
  show ?thesis
  proof (rule coupledI [OF bij_tape_append [where f = f and h = h, OF f(1) h(1)]])
    fix t :: "'f list" assume "length t = k + l"
    then show "\<exists>x x' s1. R' x x' \<and> (\<forall>rest. obind m n (t @ rest, s) = (Inr x, (rest, s1)) \<and>
        obind m' n' ((f (take k t) @ h (take k t) (drop k t)) @ rest, s) = (Inr x', (rest, s1)))"
      using h(2) [of "take k t" "drop k t"] by (simp add: tapes_def)
  qed
qed

lemma coupled_bind0:
  assumes "coupled 0 s m m' R" "\<And>x x' s1. R x x' \<Longrightarrow> coupled l s1 (n x) (n' x') R'"
  shows "coupled l s (obind m n) (obind m' n') R'"
  using coupled_bind [OF assms] by simp

section \<open>Sharing\<close>

text \<open>A function that draws without failing, as an operation.\<close>

definition drawing :: "('g \<Rightarrow> 'a \<times> 'g) \<Rightarrow> ('g, mpcith_error, 'a) op" where
  "drawing m g = (let (x, g') = m g in (Inr x, g'))"

lemma drawing_const: "(\<And>g. m g = (x, g)) \<Longrightarrow> drawing m = oret (Inr x)"
  by (simp add: fun_eq_iff drawing_def)

text \<open>Lists of three shares that agree except for the hidden party.\<close>

definition same_but :: "nat \<Rightarrow> 'f list \<Rightarrow> 'f list \<Rightarrow> bool" where
  "same_but h ss ss' \<longleftrightarrow> length ss = 3 \<and> length ss' = 3 \<and> (\<forall>p<3. p \<noteq> h \<longrightarrow> ss' ! p = ss ! p)"

lemma same_but_3: "same_but h [a, b, c] [a', b', c'] \<longleftrightarrow> (h \<noteq> 0 \<longrightarrow> a' = a) \<and> (h \<noteq> 1 \<longrightarrow> b' = b) \<and> (h \<noteq> 2 \<longrightarrow> c' = c)"
proof -
  have "(\<forall>p<3. P p) \<longleftrightarrow> P 0 \<and> P 1 \<and> P (2 :: nat)" for P by (auto simp: less_3)
  then show ?thesis by (auto simp: same_but_def)
qed

lemma length_2: "length t = 2 \<longleftrightarrow> (\<exists>a b. t = [a, b])"
  by (auto simp: numeral_2_eq_2 length_Suc_conv)

lemma length_8: "length t = 8 \<longleftrightarrow> (\<exists>a b c d e f g h. t = [a, b, c, d, e, f, g, h])"
  by (auto simp: numeral_eq_Suc length_Suc_conv)

lemma drawing_share3:
  "drawing (share3 tape_gen v) ([s0, s1] @ rest, s) = (Inr [s0, s1, v - s0 - s1], (rest, s))"
  by (simp add: drawing_def share3_def tape_gen_def)

definition shift2 :: "nat \<Rightarrow> 'f::comm_ring_1 \<Rightarrow> 'f list \<Rightarrow> 'f list" where
  "shift2 h x t = [t ! 0 + (if h = 0 then x else 0), t ! 1 + (if h = 1 then x else 0)]"

lemma shift2_bij: "bij_betw (shift2 h x) (tapes 2) (tapes 2)"
  by (rule bij_betw_byWitness [where f' = "shift2 h (- x)"]) (auto simp: tapes_def length_2 shift2_def)

lemma share3_coupled:
  fixes v v' :: "'f::comm_ring_1"
  assumes "h < 3"
  shows "coupled 2 s (drawing (share3 tape_gen v)) (drawing (share3 tape_gen v')) (same_but h)"
proof (rule coupledI [OF shift2_bij [of h "v' - v"]])
  fix t :: "'f list" assume "length t = 2"
  then obtain s0 s1 where t: "t = [s0, s1]" by (auto simp: length_2)
  let ?u = "shift2 h (v' - v) t"
  have "same_but h [s0, s1, v - s0 - s1] [?u ! 0, ?u ! 1, v' - ?u ! 0 - ?u ! 1]"
    using assms by (auto simp: same_but_3 shift2_def t less_3)
  then show "\<exists>ss ss' s1. same_but h ss ss' \<and> (\<forall>rest. drawing (share3 tape_gen v) (t @ rest, s) = (Inr ss, (rest, s1)) \<and>
      drawing (share3 tape_gen v') (shift2 h (v' - v) t @ rest, s) = (Inr ss', (rest, s1)))"
    using drawing_share3 [of v s0 s1] drawing_share3 [of v' "?u ! 0" "?u ! 1"]
    by (intro exI conjI allI) (assumption, auto simp: t shift2_def)
qed

text \<open>Beaver triples: the hidden shares of \<open>a\<close> and \<open>b\<close> move by given amounts, and the hidden share of \<open>c\<close> makes up
  for the product.\<close>

definition triple_rel :: "nat \<Rightarrow> 'f::comm_ring_1 \<Rightarrow> 'f \<Rightarrow> 'f list \<times> 'f list \<times> 'f list \<Rightarrow> 'f list \<times> 'f list \<times> 'f list \<Rightarrow> bool" where
  "triple_rel h x y T T' \<longleftrightarrow> (case (T, T') of ((ta, tb, tc), (ta', tb', tc')) \<Rightarrow>
     same_but h ta ta' \<and> same_but h tb tb' \<and> same_but h tc tc' \<and> ta' ! h = ta ! h + x \<and> tb' ! h = tb ! h + y)"

definition shift8 :: "nat \<Rightarrow> 'f::comm_ring_1 \<Rightarrow> 'f \<Rightarrow> 'f list \<Rightarrow> 'f list" where
  "shift8 h x y t =
     (let a = t ! 0; b = t ! 1; z = (a + x) * (b + y) - a * b
      in [a + x, b + y, t ! 2 + (if h = 0 then x else 0), t ! 3 + (if h = 1 then x else 0),
          t ! 4 + (if h = 0 then y else 0), t ! 5 + (if h = 1 then y else 0),
          t ! 6 + (if h = 0 then z else 0), t ! 7 + (if h = 1 then z else 0)])"

lemma shift8_bij: "bij_betw (shift8 h x y) (tapes 8) (tapes 8)"
  by (rule bij_betw_byWitness [where f' = "shift8 h (- x) (- y)"]) (auto simp: tapes_def length_8 shift8_def Let_def)

lemma drawing_triple:
  "drawing (prover_next_triple tape_gen) ([a, b, a0, a1, b0, b1, c0, c1] @ rest, s) =
     (Inr ([a0, a1, a - a0 - a1], [b0, b1, b - b0 - b1], [c0, c1, a * b - c0 - c1]), (rest, s))"
  by (simp add: drawing_def prover_next_triple_def share3_def tape_gen_def)

lemma triple_coupled:
  fixes x y :: "'f::comm_ring_1" and s :: 's
  assumes "h < 3"
  shows "coupled 8 s (drawing (prover_next_triple tape_gen)) (drawing (prover_next_triple tape_gen)) (triple_rel h x y)"
proof (rule coupledI [OF shift8_bij [of h x y]])
  fix t :: "'f list" assume "length t = 8"
  then obtain a b a0 a1 b0 b1 c0 c1 where t: "t = [a, b, a0, a1, b0, b1, c0, c1]" by (auto simp: length_8)
  let ?u = "shift8 h x y t"
  have u: "?u = [?u ! 0, ?u ! 1, ?u ! 2, ?u ! 3, ?u ! 4, ?u ! 5, ?u ! 6, ?u ! 7]" by (simp add: shift8_def Let_def)
  let ?T = "([a0, a1, a - a0 - a1], [b0, b1, b - b0 - b1], [c0, c1, a * b - c0 - c1])"
  let ?T' = "([?u ! 2, ?u ! 3, ?u ! 0 - ?u ! 2 - ?u ! 3], [?u ! 4, ?u ! 5, ?u ! 1 - ?u ! 4 - ?u ! 5],
    [?u ! 6, ?u ! 7, ?u ! 0 * ?u ! 1 - ?u ! 6 - ?u ! 7])"
  have "triple_rel h x y ?T ?T'"
    using assms by (auto simp: triple_rel_def same_but_3 shift8_def t less_3 Let_def)
  moreover have "drawing (prover_next_triple tape_gen) (?u @ rest, s) = (Inr ?T', (rest, s))" for rest
    by (subst u) (rule drawing_triple)
  moreover have "drawing (prover_next_triple tape_gen) (t @ rest, s) = (Inr ?T, (rest, s))" for rest
    unfolding t by (rule drawing_triple)
  ultimately show "\<exists>T T' s1. triple_rel h x y T T' \<and> (\<forall>rest. drawing (prover_next_triple tape_gen) (t @ rest, s) = (Inr T, (rest, s1)) \<and>
      drawing (prover_next_triple tape_gen) (?u @ rest, s) = (Inr T', (rest, s1)))"
    by blast
qed

section \<open>Gates\<close>

text \<open>Two runs look the same to the verifier when party \<open>h\<close> is hidden: the other parties are in the same state and the
  hidden party has broadcast the same masks.\<close>

fun same_val :: "nat \<Rightarrow> 'f node_val \<Rightarrow> 'f node_val \<Rightarrow> bool" where
  "same_val h (NV_Public x) (NV_Public y) \<longleftrightarrow> x = y"
| "same_val h (NV_Shared ss) (NV_Shared ss') \<longleftrightarrow> same_but h ss ss'"
| "same_val h _ _ \<longleftrightarrow> False"

definition agree_states :: "nat \<Rightarrow> nat \<Rightarrow> 'f party_state list \<Rightarrow> 'f party_state list \<Rightarrow> bool" where
  "agree_states h S ps ps' \<longleftrightarrow> length ps = 3 \<and> length ps' = 3 \<and> (\<forall>p<3. p \<noteq> h \<longrightarrow> ps' ! p = ps ! p) \<and>
     ps_opened_values (ps' ! h) = ps_opened_values (ps ! h) \<and>
     length (ps_triple_shares (ps' ! h)) = length (ps_triple_shares (ps ! h)) \<and>
     (\<forall>p<3. length (ps_input_shares (ps ! p)) = S \<and> length (ps_input_shares (ps' ! p)) = S)"

abbreviation same_step :: "nat \<Rightarrow> nat \<Rightarrow> 'f node_val \<times> 'f party_state list \<Rightarrow> 'f node_val \<times> 'f party_state list \<Rightarrow> bool" where
  "same_step h S r r' \<equiv> same_val h (fst r) (fst r') \<and> agree_states h S (snd r) (snd r')"

lemma same_val_shared: "same_val h v v' \<Longrightarrow> nv_shared v' \<longleftrightarrow> nv_shared v"
  by (cases "(h, v, v')" rule: same_val.cases) auto

lemma agree_triples: "agree_states h S ps ps' \<Longrightarrow> h < 3 \<Longrightarrow> length (ps_triple_shares (ps' ! 0)) = length (ps_triple_shares (ps ! 0))"
  by (cases "h = 0") (auto simp: agree_states_def)

lemma same_but_map: "(\<And>p. p < 3 \<Longrightarrow> p \<noteq> h \<Longrightarrow> f' p = f p) \<Longrightarrow> same_but h (map f [0..<3]) (map f' [0..<3])"
  by (simp add: same_but_def del: upt_rec_numeral)

lemma same_but_nth: "same_but h ss ss' \<Longrightarrow> p < 3 \<Longrightarrow> p \<noteq> h \<Longrightarrow> ss' ! p = ss ! p"
  by (simp add: same_but_def)

lemma agree_push:
  "agree_states h S ps ps' \<Longrightarrow> (\<And>p. p < 3 \<Longrightarrow> p \<noteq> h \<Longrightarrow> f' p = f p) \<Longrightarrow> h < 3 \<Longrightarrow>
   agree_states h S (each_party (\<lambda>p. push_operation (f p)) ps) (each_party (\<lambda>p. push_operation (f' p)) ps')"
  "agree_states h S ps ps' \<Longrightarrow> (h \<noteq> 0 \<Longrightarrow> o' = o1) \<Longrightarrow> h < 3 \<Longrightarrow>
   agree_states h S (each_party (\<lambda>p s. if p = 0 then push_operation o1 s else s) ps)
     (each_party (\<lambda>p s. if p = 0 then push_operation o' s else s) ps')"
  by (auto simp: agree_states_def)

lemma add_same:
  assumes h: "h < 3" and v: "same_val h va va'" "same_val h vb vb'" and ps: "agree_states h S ps ps'"
  shows "same_step h S (prover_add out va vb ps) (prover_add out va' vb' ps')"
  using v h ps
  by (cases "(h, va, va')" rule: same_val.cases; cases "(h, vb, vb')" rule: same_val.cases)
    (auto simp: prover_add_simps same_but_nth intro!: same_but_map agree_push simp del: upt_rec_numeral)

lemma mul_public_same:
  assumes h: "h < 3" and v: "same_val h va va'" "same_val h vb vb'" and ps: "agree_states h S ps ps'"
    and pub: "\<not> (nv_shared va \<and> nv_shared vb)"
  shows "\<exists>r r'. same_step h S r r' \<and> (\<forall>g. prover_mul rand out va vb ps g = (r, g)) \<and> (\<forall>g. prover_mul rand out va' vb' ps' g = (r', g))"
  using v h ps pub
  by (cases "(h, va, va')" rule: same_val.cases; cases "(h, vb, vb')" rule: same_val.cases)
    (auto simp: prover_mul_simps same_but_nth intro!: same_but_map agree_push simp del: upt_rec_numeral)

text \<open>A multiplication of shared values draws a triple and updates the parties.\<close>

definition beaver_result ::
    "node_id \<Rightarrow> 'f::comm_ring_1 list \<Rightarrow> 'f list \<Rightarrow> 'f party_state list \<Rightarrow> 'f list \<times> 'f list \<times> 'f list \<Rightarrow> 'f node_val \<times> 'f party_state list" where
  "beaver_result out xs ys ps T = (case T of (ta, tb, tc) \<Rightarrow>
     let d = sum3 (\<lambda>p. xs ! p - ta ! p); e = sum3 (\<lambda>p. ys ! p - tb ! p)
     in (NV_Shared (map (beaver_share ta tb tc d e) [0..<3]),
         each_party (beaver_update out (length (ps_triple_shares (ps ! 0))) xs ys ta tb tc d e) ps))"

lemma drawing_mul_shared:
  fixes xs ys :: "'f::comm_ring_1 list"
  shows
  "drawing (prover_mul rand out (NV_Shared xs) (NV_Shared ys) ps) =
     obind (drawing (prover_next_triple rand)) (\<lambda>T. oret (Inr (beaver_result out xs ys ps T)))"
proof
  fix g
  obtain ta tb tc g' where t: "prover_next_triple rand g = ((ta, tb, tc), g')" by (metis prod_cases3 surj_pair)
  have sums: "foldl (\<lambda>acc p. acc + f p) 0 [0..<3] = sum3 f" for f :: "nat \<Rightarrow> 'f"
    by (simp add: upt_3 sum3_def del: upt_rec_numeral)
  show "drawing (prover_mul rand out (NV_Shared xs) (NV_Shared ys) ps) g =
     obind (drawing (prover_next_triple rand)) (\<lambda>T. oret (Inr (beaver_result out xs ys ps T))) g"
    by (simp add: drawing_def obind_def t prover_mul_def beaver_result_def Let_def sums beaver_update_def [abs_def] beaver_share_def [abs_def]
        del: upt_rec_numeral)
qed

lemma sum3_cong: "(\<And>p. p < 3 \<Longrightarrow> f p = g p) \<Longrightarrow> sum3 f = sum3 g"
  by (simp add: sum3_def)

lemma beaver_same:
  assumes h: "h < 3" and v: "same_but h xs xs'" "same_but h ys ys'" and ps: "agree_states h S ps ps'"
    and T: "triple_rel h (xs' ! h - xs ! h) (ys' ! h - ys ! h) T T'"
  shows "same_step h S (beaver_result out xs ys ps T) (beaver_result out xs' ys' ps' T')"
proof -
  obtain ta tb tc ta' tb' tc' where TT: "T = (ta, tb, tc)" "T' = (ta', tb', tc')" by (metis prod_cases3)
  have t: "same_but h ta ta'" "same_but h tb tb'" "same_but h tc tc'" "ta' ! h = ta ! h + (xs' ! h - xs ! h)" "tb' ! h = tb ! h + (ys' ! h - ys ! h)"
    using T by (simp_all add: triple_rel_def TT)
  have masks: "xs' ! p - ta' ! p = xs ! p - ta ! p" "ys' ! p - tb' ! p = ys ! p - tb ! p" if "p < 3" for p
    using that t same_but_nth [OF v(1)] same_but_nth [OF v(2)] same_but_nth [OF t(1)] same_but_nth [OF t(2)] by (cases "p = h"; simp)+
  have de: "sum3 (\<lambda>p. xs' ! p - ta' ! p) = sum3 (\<lambda>p. xs ! p - ta ! p)" "sum3 (\<lambda>p. ys' ! p - tb' ! p) = sum3 (\<lambda>p. ys ! p - tb ! p)"
    by (rule sum3_cong, simp add: masks)+
  have ti: "length (ps_triple_shares (ps' ! 0)) = length (ps_triple_shares (ps ! 0))" by (rule agree_triples [OF ps h])
  have sh: "beaver_share ta' tb' tc' d e p = beaver_share ta tb tc d e p" if "p < 3" "p \<noteq> h" for d e p
    using same_but_nth [OF t(1) that] same_but_nth [OF t(2) that] same_but_nth [OF t(3) that] by (simp add: beaver_share_def split: if_split) metis
  have up: "beaver_update out i xs' ys' ta' tb' tc' d e p (ps' ! p) = beaver_update out i xs ys ta tb tc d e p (ps ! p)" if "p < 3" "p \<noteq> h" for i d e p
    using same_but_nth [OF t(1) that] same_but_nth [OF t(2) that] same_but_nth [OF t(3) that] masks [OF that(1)] sh [OF that] ps that
    by (simp add: beaver_update_def agree_states_def)
  have "agree_states h S (snd (beaver_result out xs ys ps T)) (snd (beaver_result out xs' ys' ps' T'))"
    unfolding agree_states_def using ps h up masks [OF h]
    by (auto simp: beaver_result_def TT Let_def de ti) (auto simp: agree_states_def)
  then show ?thesis using sh by (auto simp: beaver_result_def TT Let_def de intro!: same_but_map simp del: upt_rec_numeral)
qed

lemma mul_coupled:
  fixes va vb va' vb' :: "'f::comm_ring_1 node_val" and s :: 's
  assumes h: "h < 3" and v: "same_val h va va'" "same_val h vb vb'" and ps: "agree_states h S ps ps'"
  shows "coupled (if nv_shared va \<and> nv_shared vb then 8 else 0) s
    (drawing (prover_mul tape_gen out va vb ps)) (drawing (prover_mul tape_gen out va' vb' ps')) (same_step h S)"
proof (cases "nv_shared va \<and> nv_shared vb")
  case True
  then obtain xs ys where sh: "va = NV_Shared xs" "vb = NV_Shared ys" by (cases va; cases vb) auto
  then obtain xs' ys' where sh': "va' = NV_Shared xs'" "vb' = NV_Shared ys'" "same_but h xs xs'" "same_but h ys ys'"
    using v by (cases va'; cases vb') auto
  have "coupled (8 + 0) s (drawing (prover_mul tape_gen out va vb ps)) (drawing (prover_mul tape_gen out va' vb' ps')) (same_step h S)"
    unfolding sh sh'(1,2) drawing_mul_shared
    by (rule coupled_bind [OF triple_coupled [OF h, of _ "xs' ! h - xs ! h" "ys' ! h - ys ! h"]])
      (rule coupled_ret, rule beaver_same [OF h sh'(3,4) ps])
  then show ?thesis using True by simp
next
  case False
  let ?rand = "tape_gen :: 'f list \<times> 's \<Rightarrow> _"
  obtain r r' where r: "same_step h S r r'" "\<And>g. prover_mul ?rand out va vb ps g = (r, g)" "\<And>g. prover_mul ?rand out va' vb' ps' g = (r', g)"
    using mul_public_same [OF h v ps False, of ?rand out] by blast
  then show ?thesis unfolding if_not_P [OF False] by (simp only: drawing_const coupled_ret)
qed

section \<open>The simulation of the parties\<close>

text \<open>The field elements drawn for a node and for a circuit.\<close>

fun node_draws :: "bool list \<Rightarrow> 'f node \<Rightarrow> nat" where
  "node_draws ds (Mul a b) = (if ds ! as_usize a \<and> ds ! as_usize b then 8 else 0)"
| "node_draws ds _ = 0"

fun nodes_draws :: "bool list \<Rightarrow> 'f node list \<Rightarrow> nat" where
  "nodes_draws ds [] = 0"
| "nodes_draws ds (n # nodes) = node_draws ds n + nodes_draws (ds @ [dep_node ds n]) nodes"

definition draws :: "'f circuit \<Rightarrow> nat" where
  "draws c = 2 * c_num_secret c + nodes_draws [] (c_nodes c)"

lemma prover_add_shared: "nv_shared (fst (prover_add out va vb ps)) \<longleftrightarrow> nv_shared va \<or> nv_shared vb"
  by (cases va; cases vb) (simp_all add: prover_add_simps del: upt_rec_numeral)

lemma prover_mul_dep: "prover_mul rand out va vb ps g = ((v, ps'), g') \<Longrightarrow> nv_shared v \<longleftrightarrow> nv_shared va \<or> nv_shared vb"
  by (cases va; cases vb) (auto simp: prover_mul_def Let_def split: prod.splits)

definition same_node :: "nat \<Rightarrow> nat \<Rightarrow> bool \<Rightarrow> nat \<Rightarrow> nat \<Rightarrow> nat \<times> nat \<times> 'f node_val \<times> 'f party_state list \<Rightarrow>
    nat \<times> nat \<times> 'f node_val \<times> 'f party_state list \<Rightarrow> bool" where
  "same_node h S dep ns np r r' \<longleftrightarrow> (\<exists>v ps v' ps'. r = (ns, np, v, ps) \<and> r' = (ns, np, v', ps') \<and>
     same_val h v v' \<and> agree_states h S ps ps' \<and> (nv_shared v \<longleftrightarrow> dep))"

lemma secret_leaf:
  assumes "agree_states h S ps ps'" "ns < S"
  shows "rmap (\<lambda>p. mp_index (ps_input_shares (ps ! p)) ns) [0..<3] = Inr (map (\<lambda>p. ps_input_shares (ps ! p) ! ns) [0..<3])"
    and "rmap (\<lambda>p. mp_index (ps_input_shares (ps' ! p)) ns) [0..<3] = Inr (map (\<lambda>p. ps_input_shares (ps' ! p) ! ns) [0..<3])"
  using assms by (auto simp: agree_states_def mp_index_def intro!: rmap_total simp del: upt_rec_numeral)

lemma node_coupled:
  fixes vals vals' :: "'f::comm_ring_1 node_val list" and s :: 's
  assumes h: "h < 3" and vals: "list_all2 (same_val h) vals vals'" and ps: "agree_states h S ps ps'"
    and wf: "node_wf (length vals) n" and ok: "n = SecretInput \<Longrightarrow> ns < S" "n = PublicInput \<Longrightarrow> np < length pub"
  shows "coupled (node_draws (map nv_shared vals) n) s (prover_node tape_gen pub k n ns np vals ps) (prover_node tape_gen pub k n ns np vals' ps')
    (same_node h S (dep_node (map nv_shared vals) n) (ns + secret_leaves [n]) (np + public_leaves [n]))"
proof -
  let ?rand = "tape_gen :: 'f list \<times> 's \<Rightarrow> _"
  have len: "length vals' = length vals" using list_all2_lengthD [OF vals] by simp
  have val: "same_val h (vals ! i) (vals' ! i)" if "i < length vals" for i using list_all2_nthD [OF vals that] .
  show ?thesis
  proof (cases n)
    case SecretInput
    have "same_but h (map (\<lambda>p. ps_input_shares (ps ! p) ! ns) [0..<3]) (map (\<lambda>p. ps_input_shares (ps' ! p) ! ns) [0..<3])"
      using ps by (intro same_but_map) (simp add: agree_states_def)
    then show ?thesis
      using SecretInput ok ps secret_leaf [OF ps, of ns]
      by (simp add: prover_node_def del: upt_rec_numeral) (rule coupled_Pair, simp add: same_node_def del: upt_rec_numeral)
  next
    case PublicInput
    then show ?thesis using ok ps by (simp add: prover_node_def mp_index_def) (rule coupled_Pair, simp add: same_node_def)
  next
    case (Constant c)
    then show ?thesis using ps by (simp add: prover_node_def) (rule coupled_ret, simp add: same_node_def)
  next
    case (Add a b)
    then have ab: "as_usize a < length vals" "as_usize b < length vals" using wf by simp_all
    obtain v qs v' qs' where r: "prover_add (of_nat k) (vals ! as_usize a) (vals ! as_usize b) ps = (v, qs)"
      "prover_add (of_nat k) (vals' ! as_usize a) (vals' ! as_usize b) ps' = (v', qs')" by (metis surj_pair)
    then have "same_val h v v'" "agree_states h S qs qs'" "nv_shared v \<longleftrightarrow> nv_shared (vals ! as_usize a) \<or> nv_shared (vals ! as_usize b)"
      using add_same [OF h val [OF ab(1)] val [OF ab(2)] ps, of "of_nat k"] prover_add_shared [of "of_nat k" "vals ! as_usize a" "vals ! as_usize b" ps]
      by simp_all
    then show ?thesis
      using Add ab len r by (simp add: prover_node_def mp_index_def) (rule coupled_Pair, simp add: same_node_def)
  next
    case (Mul a b)
    then have ab: "as_usize a < length vals" "as_usize b < length vals" using wf by simp_all
    let ?va = "vals ! as_usize a" and ?vb = "vals ! as_usize b" and ?va' = "vals' ! as_usize a" and ?vb' = "vals' ! as_usize b"
    have node: "prover_node ?rand pub k n ns np vals ps = obind (drawing (prover_mul ?rand (of_nat k) ?va ?vb ps)) (\<lambda>r. oret (Inr (ns, np, r)))"
      "prover_node ?rand pub k n ns np vals' ps' = obind (drawing (prover_mul ?rand (of_nat k) ?va' ?vb' ps')) (\<lambda>r. oret (Inr (ns, np, r)))"
      using Mul ab len by (simp_all add: fun_eq_iff prover_node_def mp_index_def obind_def drawing_def case_prod_unfold Let_def)
    have "coupled (node_draws (map nv_shared vals) n) s (drawing (prover_mul ?rand (of_nat k) ?va ?vb ps)) (drawing (prover_mul ?rand (of_nat k) ?va' ?vb' ps'))
        (\<lambda>r r'. same_step h S r r' \<and> (nv_shared (fst r) \<longleftrightarrow> dep_node (map nv_shared vals) n) \<and> True)"
      using mul_coupled [OF h val [OF ab(1)] val [OF ab(2)] ps, of s "of_nat k"] Mul ab
      by (intro coupled_facts) (auto simp: drawing_def prover_mul_dep split: prod.splits)
    then have "coupled (node_draws (map nv_shared vals) n + 0) s (prover_node ?rand pub k n ns np vals ps) (prover_node ?rand pub k n ns np vals' ps')
        (same_node h S (dep_node (map nv_shared vals) n) ns np)"
      unfolding node by (rule coupled_bind) (rule coupled_ret, auto simp: same_node_def)
    then show ?thesis using Mul by simp
  qed
qed

lemma nodes_coupled:
  fixes vals vals' :: "'f::comm_ring_1 node_val list" and s :: 's
  assumes h: "h < 3"
  shows "list_all2 (same_val h) vals vals' \<Longrightarrow> agree_states h S ps ps' \<Longrightarrow> nodes_ok S (length pub) nodes ns np (length vals) \<Longrightarrow>
    coupled (nodes_draws (map nv_shared vals) nodes) s (prover_nodes tape_gen pub (length vals) nodes ns np vals ps)
      (prover_nodes tape_gen pub (length vals) nodes ns np vals' ps')
      (\<lambda>r r'. list_all2 (same_val h) (fst r) (fst r') \<and> agree_states h S (snd r) (snd r'))"
proof (induction nodes arbitrary: ns np vals vals' ps ps' s)
  case Nil
  then show ?case by (simp add: coupled_Pair)
next
  case (Cons n nodes)
  have wf: "node_wf (length vals) n" and ok: "n = SecretInput \<Longrightarrow> ns < S" "n = PublicInput \<Longrightarrow> np < length pub"
    and rest: "nodes_ok S (length pub) nodes (ns + secret_leaves [n]) (np + public_leaves [n]) (Suc (length vals))"
    using Cons.prems by auto
  show ?case
    unfolding prover_nodes.simps nodes_draws.simps
  proof (rule coupled_bind [OF node_coupled [OF h Cons.prems(1,2) wf ok]])
    fix r r' :: "nat \<times> nat \<times> 'f node_val \<times> 'f party_state list" and s1 :: 's
    assume "same_node h S (dep_node (map nv_shared vals) n) (ns + secret_leaves [n]) (np + public_leaves [n]) r r'"
    then obtain v ps1 v' ps1' where r: "r = (ns + secret_leaves [n], np + public_leaves [n], v, ps1)"
      "r' = (ns + secret_leaves [n], np + public_leaves [n], v', ps1')" "same_val h v v'" "agree_states h S ps1 ps1'"
      "nv_shared v \<longleftrightarrow> dep_node (map nv_shared vals) n"
      unfolding same_node_def by blast
    have "list_all2 (same_val h) (vals @ [v]) (vals' @ [v'])" using Cons.prems(1) r(3) by (simp add: list_all2_appendI)
    from Cons.IH [OF this r(4), of "ns + secret_leaves [n]" "np + public_leaves [n]" s1] rest r(5)
    show "coupled (nodes_draws (map nv_shared vals @ [dep_node (map nv_shared vals) n]) nodes) s1
        (case r of (ns, np, v, ps) \<Rightarrow> prover_nodes tape_gen pub (Suc (length vals)) nodes ns np (vals @ [v]) ps)
        (case r' of (ns, np, v, ps) \<Rightarrow> prover_nodes tape_gen pub (Suc (length vals)) nodes ns np (vals' @ [v]) ps)
        (\<lambda>r r'. list_all2 (same_val h) (fst r) (fst r') \<and> agree_states h S (snd r) (snd r'))"
      by (simp add: r(1,2))
  qed
qed

text \<open>The shares of the inputs.\<close>

lemma drawing_share_inputs:
  "drawing (share_inputs rand (v # vs) ps) = obind (drawing (share3 rand v)) (\<lambda>ss.
     drawing (share_inputs rand vs (each_party (\<lambda>p s. s\<lparr>ps_input_shares := ps_input_shares s @ [ss ! p]\<rparr>) ps)))"
  by (simp add: fun_eq_iff drawing_def obind_def Let_def split: prod.splits)

lemma inputs_coupled:
  fixes w w' :: "'f::comm_ring_1 list" and s :: 's
  assumes h: "h < 3"
  shows "length w' = length w \<Longrightarrow> agree_states h S ps ps' \<Longrightarrow>
    coupled (2 * length w) s (drawing (share_inputs tape_gen w ps)) (drawing (share_inputs tape_gen w' ps')) (agree_states h (S + length w))"
proof (induction w arbitrary: w' ps ps' S s)
  case Nil
  then show ?case by (simp add: drawing_const coupled_Pair)
next
  case (Cons v w)
  then obtain v' u' where w': "w' = v' # u'" "length u' = length w" by (cases w') auto
  have "coupled (2 + 2 * length w) s (drawing (share_inputs tape_gen (v # w) ps)) (drawing (share_inputs tape_gen (v' # u') ps'))
      (agree_states h (Suc S + length w))"
    unfolding drawing_share_inputs
  proof (rule coupled_bind [OF share3_coupled [OF h]])
    fix ss ss' :: "'f list" and s1 :: 's assume ss: "same_but h ss ss'"
    have "agree_states h (Suc S) (each_party (\<lambda>p s. s\<lparr>ps_input_shares := ps_input_shares s @ [ss ! p]\<rparr>) ps)
        (each_party (\<lambda>p s. s\<lparr>ps_input_shares := ps_input_shares s @ [ss' ! p]\<rparr>) ps')"
      using Cons.prems(2) h by (auto simp: agree_states_def same_but_nth [OF ss])
    from Cons.IH [OF w'(2) this]
    show "coupled (2 * length w) s1
        (drawing (share_inputs tape_gen w (each_party (\<lambda>p s. s\<lparr>ps_input_shares := ps_input_shares s @ [ss ! p]\<rparr>) ps)))
        (drawing (share_inputs tape_gen u' (each_party (\<lambda>p s. s\<lparr>ps_input_shares := ps_input_shares s @ [ss' ! p]\<rparr>) ps')))
        (agree_states h (Suc S + length w))" .
  qed
  then show ?case by (simp add: w'(1) del: share_inputs.simps)
qed

text \<open>The run of the parties on a witness.\<close>

definition simulate ::
    "('g \<Rightarrow> 'f::comm_ring_1 \<times> 'g) \<Rightarrow> 'f list \<Rightarrow> 'f circuit \<Rightarrow> 'f list \<Rightarrow> ('g, mpcith_error, 'f node_val list \<times> 'f party_state list) op" where
  "simulate rand pub c w = obind (drawing (share_inputs rand w start_parties)) (prover_nodes rand pub 0 (c_nodes c) 0 0 [])"

text \<open>What a run leaves behind: values that add up to those of the circuit, and views that can be committed to.\<close>

definition simulated :: "'f::comm_ring_1 list \<Rightarrow> 'f circuit \<Rightarrow> 'f list \<Rightarrow> 'f node_val list \<times> 'f party_state list \<Rightarrow> bool" where
  "simulated pub c w r \<longleftrightarrow> list_all nv_wf (fst r) \<and> map nv_value (fst r) = trace w pub (c_nodes c) \<and> length (fst r) = length (c_nodes c) \<and>
     length (snd r) = 3 \<and> (\<exists>inputs. run_ok (trace w pub (c_nodes c)) (deps (c_nodes c)) inputs (fst r) (snd r) \<and> (\<forall>p<3. length (inputs p) = length w))"

lemma simulate_ok:
  assumes wf: "circuit_wf c" and lens: "inputs_fit c w pub" and run: "simulate rand pub c w g = (Inr r, g')"
  shows "simulated pub c w r"
proof -
  obtain parties0 g0 where sh: "share_inputs rand w start_parties g = (parties0, g0)" by fastforce
  obtain inputs where inputs: "\<And>p. p < 3 \<Longrightarrow> length (inputs p) = length w" "joined inputs (length w) = w" "run_ok [] [] inputs [] parties0"
    by (rule share_inputs_start [OF sh]) (rule that, assumption+)
  have "\<exists>vals parties g1. prover_nodes rand pub (length []) (c_nodes c) 0 0 [] parties0 g0 = (Inr (vals, parties), g1) \<and>
      run_ok (trace_from (joined inputs (length w)) pub (c_nodes c) 0 0 []) (deps ([] @ c_nodes c)) inputs vals parties"
  proof -
    have "run_ok [] (deps []) inputs [] parties0" "nodes_ok (length w) (length pub) (c_nodes c) 0 0 (length [])"
      using inputs(3) circuit_nodes_ok [OF wf lens] by simp_all
    then show ?thesis
      using prover_nodes_ok [where inputs = inputs and S = "length w" and before = "[]" and vs = "[]" and vals = "[]" and parties = parties0 and
          pub = pub and nodes = "c_nodes c" and ns = 0 and np = 0 and rand = rand and g = g0, OF inputs(1)] by fastforce
  qed
  then obtain vals parties g1 where "prover_nodes rand pub 0 (c_nodes c) 0 0 [] parties0 g0 = (Inr (vals, parties), g1)"
    and ok: "run_ok (trace w pub (c_nodes c)) (deps (c_nodes c)) inputs vals parties"
    unfolding inputs(2) trace_def by auto
  then have "r = (vals, parties)" using run sh by (simp add: simulate_def obind_def drawing_def)
  then show ?thesis
    using ok inputs(1) by (auto simp: simulated_def run_ok_def parties_inv_def dest: arg_cong [of _ _ length])
qed

lemma simulate_coupled:
  fixes w w' pub :: "'f::comm_ring_1 list" and s :: 's
  assumes h: "h < 3" and wf: "circuit_wf c" and fit: "inputs_fit c w pub" "inputs_fit c w' pub"
  shows "coupled (draws c) s (simulate tape_gen pub c w) (simulate tape_gen pub c w')
    (\<lambda>r r'. (list_all2 (same_val h) (fst r) (fst r') \<and> agree_states h (length w) (snd r) (snd r')) \<and> simulated pub c w r \<and> simulated pub c w' r')"
proof -
  have len: "length w = c_num_secret c" "length w' = length w" "length pub = c_num_public c" using fit by (simp_all add: inputs_fit_def)
  have start: "agree_states h 0 start_parties (start_parties :: 'f party_state list)"
    by (simp add: agree_states_def start_parties_def PartyState_empty_def)
  have "coupled (2 * length w + nodes_draws [] (c_nodes c)) s (simulate tape_gen pub c w) (simulate tape_gen pub c w')
      (\<lambda>r r'. list_all2 (same_val h) (fst r) (fst r') \<and> agree_states h (length w) (snd r) (snd r'))"
    unfolding simulate_def
  proof (rule coupled_bind [OF inputs_coupled [OF h len(2) start]])
    fix ps ps' :: "'f party_state list" and s1 :: 's assume "agree_states h (0 + length w) ps ps'"
    then show "coupled (nodes_draws [] (c_nodes c)) s1 (prover_nodes tape_gen pub 0 (c_nodes c) 0 0 [] ps) (prover_nodes tape_gen pub 0 (c_nodes c) 0 0 [] ps')
        (\<lambda>r r'. list_all2 (same_val h) (fst r) (fst r') \<and> agree_states h (length w) (snd r) (snd r'))"
      using nodes_coupled [OF h, of "[]" "[]" "length w" ps ps' pub "c_nodes c" 0 0 s1] circuit_nodes_ok [OF wf fit(1)] by simp
  qed
  then show ?thesis
    unfolding draws_def len(1) [symmetric] by (rule coupled_facts) (blast intro: simulate_ok [OF wf fit(1)] simulate_ok [OF wf fit(2)])+
qed

section \<open>Committing and opening\<close>

lemma hidden_share_same:
  assumes "h < 3" "same_val h v v'" "nv_value v' = nv_value v"
  shows "hidden_share h v' = hidden_share h v"
proof (cases "(h, v, v')" rule: same_val.cases)
  case (2 k ss ss')
  have o: "other h ! 0 < 3" "other h ! 1 < 3" "other h ! 0 \<noteq> h" "other h ! 1 \<noteq> h" using assms(1) by (auto simp: other_def less_3)
  have "ss' ! (other h ! 0) = ss ! (other h ! 0)" "ss' ! (other h ! 1) = ss ! (other h ! 1)"
    using assms(2) 2 same_but_nth [OF _ o(1,3)] same_but_nth [OF _ o(2,4)] by auto
  moreover have "sum3 (\<lambda>p. ss' ! p) = sum3 (\<lambda>p. ss ! p)" using assms(3) 2 by simp
  ultimately show ?thesis using 2 by (simp add: sum3_other [OF assms(1), symmetric] hidden_share_def)
qed (use assms in \<open>simp_all add: hidden_share_def\<close>)

definition commit_rest ::
    "(bytes \<Rightarrow> bytes) \<Rightarrow> ('f::comm_ring_1 \<Rightarrow> nat) \<Rightarrow> ('g \<Rightarrow> nat \<Rightarrow> bytes \<times> 'g) \<Rightarrow> repetition_id \<Rightarrow> node_id list \<Rightarrow>
     'f node_val list \<times> 'f party_state list \<Rightarrow> ('g, mpcith_error, 'f partial_repetition) op" where
  "commit_rest hash into_bigint fill rid outputs r =
     obind (oret (rmap (\<lambda>nid. rbind (mp_index (fst r) (as_usize nid)) (\<lambda>v.
         Inr (case v of NV_Public _ \<Rightarrow> (False, [0, 0, 0]) | NV_Shared s \<Rightarrow> (True, s)))) outputs)) (\<lambda>output_vals.
     obind (commit_views hash into_bigint fill rid (snd r) [0..<3]) (\<lambda>committed.
     oret (Inr \<lparr>par_id = rid, par_commitments = map fst committed, par_views = map (\<lambda>(c, r, v). v) committed,
       par_randomness = map (\<lambda>(c, r, v). r) committed, par_output_vals = output_vals,
       par_broadcasts = map ps_opened_values (snd r)\<rparr>)))"

lemma commit_repetition_eq:
  "commit_repetition hash into_bigint rand fill pv rid =
     obind (simulate rand (ms_public_inputs (mpv_statement pv)) (mpv_circuit pv) (mpv_witness pv))
       (commit_rest hash into_bigint fill rid (c_outputs (mpv_circuit pv)))"
proof -
  have "ShareContext_new (unat PARTY_COUNT) (ucast rid) VIEW_CONTEXT_DOMAIN =
      Inr \<lparr>party_count = 3, execution_id = ucast rid, domain = VIEW_CONTEXT_DOMAIN\<rparr>"
    by (simp add: ShareContext_new_def PARTY_COUNT_def)
  then show ?thesis
    by (simp add: fun_eq_iff commit_repetition_def commit_rest_def [abs_def] simulate_def obind_def drawing_def start_parties_def PARTY_COUNT_def
        Let_def split: prod.splits sum.splits del: upt_rec_numeral)
qed

text \<open>Committed views that differ for the hidden party only.\<close>

definition same_committed ::
    "nat \<Rightarrow> repetition_id \<Rightarrow> 'f party_state list \<Rightarrow> 'f party_state list \<Rightarrow> nat list \<Rightarrow> (digest \<times> bytes \<times> 'f party_view) list \<Rightarrow>
     (digest \<times> bytes \<times> 'f party_view) list \<Rightarrow> bool" where
  "same_committed h rid ps ps' L xs xs' \<longleftrightarrow> length xs = length L \<and> length xs' = length L \<and>
     (\<forall>i<length L. \<exists>c c' r. xs ! i = (c, r, view_of rid (L ! i) (ps ! (L ! i))) \<and> xs' ! i = (c', r, view_of rid (L ! i) (ps' ! (L ! i))) \<and>
        (L ! i \<noteq> h \<longrightarrow> c' = c))"

context commit_env
begin

lemma fresh_coupled:
  "coupled 0 s (fresh_randomness (tape_fill fill)) (fresh_randomness (tape_fill fill)) (\<lambda>r r'. r' = r \<and> length r = RANDOMNESS_LEN_MPCITH)"
proof -
  obtain r s1 where "fill s RANDOMNESS_LEN_MPCITH = (r, s1)" by fastforce
  then show ?thesis
    using length_fill [of s RANDOMNESS_LEN_MPCITH]
    by (intro coupledI [of id]) (auto simp: fresh_randomness_def tape_fill_def)
qed

lemma commit_views_coupled:
  fixes ps ps' :: "'f::comm_ring_1 party_state list"
  defines "F \<equiv> tape_fill fill :: 'f list \<times> 'g \<Rightarrow> nat \<Rightarrow> bytes \<times> ('f list \<times> 'g)"
  assumes ps: "agree_states h S ps ps'"
    and fits: "\<And>p. p < 3 \<Longrightarrow> fits_u32 (commitment_message into_bigint (view_of rid p (ps ! p)))"
      "\<And>p. p < 3 \<Longrightarrow> fits_u32 (commitment_message into_bigint (view_of rid p (ps' ! p)))"
  shows "\<forall>p\<in>set L. p < 3 \<Longrightarrow> coupled 0 s (commit_views hash into_bigint F rid ps L)
    (commit_views hash into_bigint F rid ps' L) (same_committed h rid ps ps' L)"
proof (induction L arbitrary: s)
  case Nil
  then show ?case by (simp add: coupled_Pair same_committed_def)
next
  case (Cons p L)
  have len: "length ps = 3" "length ps' = 3" "p < 3" using ps Cons.prems by (simp_all add: agree_states_def)
  let ?v = "view_of rid p (ps ! p)" and ?v' = "view_of rid p (ps' ! p)"
  have fresh: "coupled 0 s (fresh_randomness F) (fresh_randomness F) (\<lambda>r r'. r' = r \<and> length r = RANDOMNESS_LEN_MPCITH)"
    unfolding F_def by (rule fresh_coupled)
  show ?case
    unfolding commit_views.simps build_view_eq [OF len(1,3)] build_view_eq [OF len(2,3)] obind_oret
  proof (rule coupled_bind0 [OF fresh])
    fix r r' :: bytes and s1 :: 'g assume "r' = r \<and> length r = RANDOMNESS_LEN_MPCITH"
    then have r: "r' = r" "length r = RANDOMNESS_LEN_MPCITH" by simp_all
    obtain c c' where c: "commit_view hash into_bigint ?v r = Inr c" "commit_view hash into_bigint ?v' r = Inr c'"
      using commit_verify [OF r(2) fits(1) [OF len(3)]] commit_verify [OF r(2) fits(2) [OF len(3)]] by blast
    have same: "c' = c" if "p \<noteq> h" using c ps len(3) that by (simp add: agree_states_def)
    have "coupled 0 s1 (obind (commit_views hash into_bigint F rid ps L) (\<lambda>rest. oret (Inr ((c, r, ?v) # rest))))
        (obind (commit_views hash into_bigint F rid ps' L) (\<lambda>rest. oret (Inr ((c', r, ?v') # rest))))
        (same_committed h rid ps ps' (p # L))"
      by (rule coupled_bind0 [OF Cons.IH]) (use Cons.prems same in \<open>auto simp: same_committed_def all_less_Suc_shift intro!: coupled_ret\<close>)
    then show "coupled 0 s1
        (obind (oret (commit_view hash into_bigint ?v r)) (\<lambda>c. obind (commit_views hash into_bigint F rid ps L) (\<lambda>rest. oret (Inr ((c, r, ?v) # rest)))))
        (obind (oret (commit_view hash into_bigint ?v' r')) (\<lambda>c. obind (commit_views hash into_bigint F rid ps' L) (\<lambda>rest. oret (Inr ((c, r', ?v') # rest)))))
        (same_committed h rid ps ps' (p # L))"
      by (simp only: c r(1) obind_oret)
  qed
qed

lemma simulated_fits:
  assumes "simulated pub c w r" "circuit_wf c" "inputs_fit c w pub" "length (c_nodes c) \<le> MAX_CIRCUIT_NODES" "p < 3"
  shows "fits_u32 (commitment_message into_bigint (view_of rid p (snd r ! p)))"
proof -
  obtain inputs where ok: "run_ok (trace w pub (c_nodes c)) (deps (c_nodes c)) inputs (fst r) (snd r)" "\<forall>p<3. length (inputs p) = length w"
    using assms(1) by (auto simp: simulated_def)
  have "length (inputs p) \<le> length (c_nodes c)"
    using ok(2) assms(2,3,5) secret_leaves_le [of "c_nodes c"] by (simp add: inputs_fit_def circuit_wf_def)
  moreover have "length (fst r) = length (c_nodes c)" using assms(1) by (simp add: simulated_def)
  ultimately show ?thesis using view_message_fits [OF ok(1) _ assms(4) _ assms(5)] by blast
qed

end

text \<open>The partial repetition of a run, and the response to a challenge.\<close>

definition partial_of :: "repetition_id \<Rightarrow> node_id list \<Rightarrow> 'f::zero node_val list \<times> 'f party_state list \<Rightarrow> (digest \<times> bytes \<times> 'f party_view) list \<Rightarrow> 'f partial_repetition" where
  "partial_of rid outputs r committed = \<lparr>par_id = rid, par_commitments = map fst committed, par_views = map (\<lambda>(c, r, v). v) committed,
     par_randomness = map (\<lambda>(c, r, v). r) committed, par_output_vals = map (\<lambda>nid. output_val (fst r ! as_usize nid)) outputs,
     par_broadcasts = map ps_opened_values (snd r)\<rparr>"

lemma partial_of_simps [simp]:
  "par_id (partial_of rid outputs r xs) = rid" "par_commitments (partial_of rid outputs r xs) = map fst xs"
  "par_broadcasts (partial_of rid outputs r xs) = map ps_opened_values (snd r)"
  by (simp_all add: partial_of_def)

text \<open>What the verifier sees of a repetition, except for the commitment to the hidden view.\<close>

definition seen :: "'f repetition \<Rightarrow> 'f repetition" where
  "seen r = r\<lparr>rep_commitments := (rep_commitments r)[unat (hidden_party (rep_challenge r)) := Digest []]\<rparr>"

abbreviation finish_all :: "'f::zero partial_repetition list \<Rightarrow> challenge list \<Rightarrow> (mpcith_error, 'f repetition list) result" where
  "finish_all ps chs \<equiv> rmap (\<lambda>(partial, ch). finish_repetition partial ch) (zip ps chs)"

lemma finish_same:
  fixes r r' :: "'f::comm_ring_1 node_val list \<times> 'f party_state list"
  assumes h: "h < 3" and vals: "list_all2 (same_val h) (fst r) (fst r')" and ps: "agree_states h S (snd r) (snd r')"
    and com: "same_committed h rid (snd r) (snd r') [0..<3] xs xs'"
    and outs: "\<And>nid. nid \<in> set outputs \<Longrightarrow> as_usize nid < length (fst r) \<and> nv_value (fst r' ! as_usize nid) = nv_value (fst r ! as_usize nid)"
    and wf: "list_all nv_wf (fst r)" "list_all nv_wf (fst r')"
  shows "\<exists>q q'. finish_repetition (partial_of rid outputs r xs) \<lparr>hidden_party = of_nat h\<rparr> = Inr q \<and>
    finish_repetition (partial_of rid outputs r' xs') \<lparr>hidden_party = of_nat h\<rparr> = Inr q' \<and> seen q' = seen q"
proof -
  have xs: "length xs = 3" "length xs' = 3" "\<And>p. p < 3 \<Longrightarrow> \<exists>c c' b. xs ! p = (c, b, view_of rid p (snd r ! p)) \<and>
      xs' ! p = (c', b, view_of rid p (snd r' ! p)) \<and> (p \<noteq> h \<longrightarrow> c' = c)"
    using com by (auto simp: same_committed_def simp del: upt_rec_numeral)
  have len: "length (snd r) = 3" "length (snd r') = 3" "length (fst r') = length (fst r)"
    using ps list_all2_lengthD [OF vals] by (simp_all add: agree_states_def)
  let ?P = "partial_of rid outputs r xs" and ?P' = "partial_of rid outputs r' xs'"
  have fin: "finish_repetition ?P \<lparr>hidden_party = of_nat h\<rparr> = Inr (response ?P h (map (\<lambda>nid. hidden_share h (fst r ! as_usize nid)) outputs))"
    "finish_repetition ?P' \<lparr>hidden_party = of_nat h\<rparr> = Inr (response ?P' h (map (\<lambda>nid. hidden_share h (fst r' ! as_usize nid)) outputs))"
    using xs len outs wf by (intro finish_eq h; force simp: partial_of_def list_all_length)+
  have shares: "map (\<lambda>nid. hidden_share h (fst r' ! as_usize nid)) outputs = map (\<lambda>nid. hidden_share h (fst r ! as_usize nid)) outputs"
    using outs list_all2_nthD [OF vals] by (intro map_cong refl hidden_share_same [OF h]) blast+
  have opened: "map (opened_of ?P') (other h) = map (opened_of ?P) (other h)"
  proof (rule map_cong [OF refl])
    fix p assume "p \<in> set (other h)"
    then have p: "p < 3" "p \<noteq> h" using other_less [OF h] by (auto simp: other_def split: if_splits)
    then show "opened_of ?P' p = opened_of ?P p"
      using xs(1,2) xs(3) [OF p(1)] ps by (auto simp: opened_of_def partial_of_def agree_states_def)
  qed
  have "(map fst xs')[h := Digest []] = (map fst xs)[h := Digest []]"
  proof (rule nth_equalityI)
    fix i assume "i < length ((map fst xs')[h := Digest []])"
    then have "i < 3" using xs by simp
    then show "(map fst xs')[h := Digest []] ! i = (map fst xs)[h := Digest []] ! i"
      using xs(1,2) xs(3) [of i] by (cases "i = h") auto
  qed (simp add: xs(1,2))
  then have "seen (response ?P' h (map (\<lambda>nid. hidden_share h (fst r' ! as_usize nid)) outputs)) =
      seen (response ?P h (map (\<lambda>nid. hidden_share h (fst r ! as_usize nid)) outputs))"
    using ps h len unfolding shares
    by (simp add: seen_def response_def opened unat_party agree_states_def)
  then show ?thesis using fin by blast
qed

context commit_env
begin

lemma repetition_coupled:
  fixes pv pv' :: "'f::comm_ring_1 mpcith_prover" and s :: 'g
  assumes h: "h < 3" and ready: "prover_ready pv" "prover_ready pv'"
    and same: "mpv_circuit pv' = mpv_circuit pv" "mpv_statement pv' = mpv_statement pv"
    and outs: "circuit_outputs (mpv_circuit pv) (mpv_witness pv') (ms_public_inputs (mpv_statement pv)) =
      circuit_outputs (mpv_circuit pv) (mpv_witness pv) (ms_public_inputs (mpv_statement pv))"
  shows "coupled (draws (mpv_circuit pv)) s (commit_repetition hash into_bigint tape_gen (tape_fill fill) pv rid)
    (commit_repetition hash into_bigint tape_gen (tape_fill fill) pv' rid)
    (\<lambda>par par'. \<exists>q q'. finish_repetition par \<lparr>hidden_party = of_nat h\<rparr> = Inr q \<and> finish_repetition par' \<lparr>hidden_party = of_nat h\<rparr> = Inr q' \<and>
       seen q' = seen q)" (is "coupled _ s _ _ ?R")
proof -
  let ?c = "mpv_circuit pv" and ?pub = "ms_public_inputs (mpv_statement pv)" and ?w = "mpv_witness pv" and ?w' = "mpv_witness pv'"
  let ?fill = "tape_fill fill :: 'f list \<times> 'g \<Rightarrow> _"
  have wf: "circuit_wf ?c" and size: "length (c_nodes ?c) \<le> MAX_CIRCUIT_NODES" and fit: "inputs_fit ?c ?w ?pub" "inputs_fit ?c ?w' ?pub"
    using ready same by (simp_all add: prover_ready_def)
  have "coupled (draws ?c + 0) s (commit_repetition hash into_bigint tape_gen ?fill pv rid)
      (commit_repetition hash into_bigint tape_gen ?fill pv' rid) ?R"
    unfolding commit_repetition_eq same
  proof (rule coupled_bind [OF simulate_coupled [OF h wf fit]], elim conjE)
    fix r r' :: "'f node_val list \<times> 'f party_state list" and s1 :: 'g
    assume r: "list_all2 (same_val h) (fst r) (fst r')" "agree_states h (length ?w) (snd r) (snd r')"
      and sim: "simulated ?pub ?c ?w r" "simulated ?pub ?c ?w' r'"
    have in_range: "as_usize nid < length (c_nodes ?c)" if "nid \<in> set (c_outputs ?c)" for nid
      using wf that by (auto simp: circuit_wf_def)
    have out_vals: "rmap (\<lambda>nid. rbind (mp_index (fst q) (as_usize nid)) (\<lambda>v.
        Inr (case v of NV_Public _ \<Rightarrow> (False, [0, 0, 0]) | NV_Shared s \<Rightarrow> (True, s)))) (c_outputs ?c) =
        Inr (map (\<lambda>nid. output_val (fst q ! as_usize nid)) (c_outputs ?c))" if "length (fst q) = length (c_nodes ?c)" for q :: "'f node_val list \<times> 'f party_state list"
      using in_range that by (intro rmap_total) (auto simp: mp_index_def output_val_def)
    have rest: "commit_rest hash into_bigint ?fill rid (c_outputs ?c) q =
        obind (commit_views hash into_bigint ?fill rid (snd q) [0..<3]) (\<lambda>xs. oret (Inr (partial_of rid (c_outputs ?c) q xs)))"
      if "length (fst q) = length (c_nodes ?c)" for q
      by (simp only: commit_rest_def out_vals [OF that] obind_oret partial_of_def)
    have len: "length (fst r) = length (c_nodes ?c)" "length (fst r') = length (c_nodes ?c)" using sim by (simp_all add: simulated_def)
    have eq: "nv_value (fst r' ! as_usize nid) = nv_value (fst r ! as_usize nid)" if "nid \<in> set (c_outputs ?c)" for nid
    proof -
      have "map nv_value (fst r) ! as_usize nid = map nv_value (fst r') ! as_usize nid"
        using outs sim that by (auto simp: simulated_def circuit_outputs_def)
      then show ?thesis using in_range [OF that] len by simp
    qed
    show "coupled 0 s1 (commit_rest hash into_bigint ?fill rid (c_outputs ?c) r) (commit_rest hash into_bigint ?fill rid (c_outputs ?c) r') ?R"
      unfolding rest [OF len(1)] rest [OF len(2)]
    proof (rule coupled_bind0 [OF commit_views_coupled [OF r(2)]])
      fix xs xs' s2 assume "same_committed h rid (snd r) (snd r') [0..<3] xs xs'"
      from finish_same [OF h r this, of "c_outputs ?c"] in_range eq len sim
      show "coupled 0 s2 (oret (Inr (partial_of rid (c_outputs ?c) r xs))) (oret (Inr (partial_of rid (c_outputs ?c) r' xs'))) ?R"
        by (intro coupled_ret) (simp add: simulated_def)
    qed (use simulated_fits [OF sim(1) wf fit(1) size] simulated_fits [OF sim(2) wf fit(2) size] in auto)
  qed
  then show ?thesis by simp
qed

lemma all_coupled:
  fixes pv pv' :: "'f::comm_ring_1 mpcith_prover" and s :: 'g
  assumes ready: "prover_ready pv" "prover_ready pv'"
    and same: "mpv_circuit pv' = mpv_circuit pv" "mpv_statement pv' = mpv_statement pv"
    and outs: "circuit_outputs (mpv_circuit pv) (mpv_witness pv') (ms_public_inputs (mpv_statement pv)) =
      circuit_outputs (mpv_circuit pv) (mpv_witness pv) (ms_public_inputs (mpv_statement pv))"
  shows "length chs = length ids \<Longrightarrow> list_all (\<lambda>ch. hidden_party ch < PARTY_COUNT) chs \<Longrightarrow>
    coupled (length ids * draws (mpv_circuit pv)) s (commit_all hash into_bigint tape_gen (tape_fill fill) pv ids)
      (commit_all hash into_bigint tape_gen (tape_fill fill) pv' ids)
      (\<lambda>ps ps'. length ps = length ids \<and> length ps' = length ids \<and>
         (\<exists>qs qs'. finish_all ps chs = Inr qs \<and> finish_all ps' chs = Inr qs' \<and> map seen qs' = map seen qs))"
proof (induction ids arbitrary: chs s)
  case Nil
  then show ?case by (simp add: coupled_Pair)
next
  case (Cons i ids)
  then obtain ch chs1 where chs: "chs = ch # chs1" by (cases chs) auto
  define h where "h = unat (hidden_party ch)"
  have h: "h < 3" "ch = \<lparr>hidden_party = of_nat h\<rparr>" using Cons.prems chs by (simp_all add: h_def PARTY_COUNT_def word_less_nat_alt)
  let ?k = "draws (mpv_circuit pv)" and ?fill = "tape_fill fill :: 'f list \<times> 'g \<Rightarrow> _"
  let ?R = "\<lambda>(ps :: 'f partial_repetition list) ps'. length ps = length ids \<and> length ps' = length ids \<and>
    (\<exists>qs qs'. finish_all ps chs1 = Inr qs \<and> finish_all ps' chs1 = Inr qs' \<and> map seen qs' = map seen qs)"
  have IH: "coupled (length ids * ?k) s1 (commit_all hash into_bigint tape_gen ?fill pv ids) (commit_all hash into_bigint tape_gen ?fill pv' ids) ?R" for s1
    using Cons.IH [of chs1] Cons.prems by (simp add: chs)
  have "coupled (?k + length ids * ?k) s (commit_all hash into_bigint tape_gen ?fill pv (i # ids)) (commit_all hash into_bigint tape_gen ?fill pv' (i # ids))
      (\<lambda>ps ps'. length ps = length (i # ids) \<and> length ps' = length (i # ids) \<and>
        (\<exists>qs qs'. finish_all ps chs = Inr qs \<and> finish_all ps' chs = Inr qs' \<and> map seen qs' = map seen qs))"
    unfolding commit_all.simps
  proof (rule coupled_bind [OF repetition_coupled [OF h(1) ready same outs]], elim exE conjE)
    fix p p' :: "'f partial_repetition" and q q' and s1 :: 'g
    assume p: "finish_repetition p \<lparr>hidden_party = of_nat h\<rparr> = Inr q" "finish_repetition p' \<lparr>hidden_party = of_nat h\<rparr> = Inr q'" "seen q' = seen q"
    have "coupled (length ids * ?k + 0) s1 (obind (commit_all hash into_bigint tape_gen ?fill pv ids) (\<lambda>ps. oret (Inr (p # ps))))
        (obind (commit_all hash into_bigint tape_gen ?fill pv' ids) (\<lambda>ps. oret (Inr (p' # ps))))
        (\<lambda>ps ps'. length ps = length (i # ids) \<and> length ps' = length (i # ids) \<and>
          (\<exists>qs qs'. finish_all ps chs = Inr qs \<and> finish_all ps' chs = Inr qs' \<and> map seen qs' = map seen qs))"
      by (rule coupled_bind [OF IH], rule coupled_ret) (use p in \<open>auto simp: chs h(2)\<close>)
    then show "coupled (length ids * ?k) s1 (obind (commit_all hash into_bigint tape_gen ?fill pv ids) (\<lambda>ps. oret (Inr (p # ps))))
        (obind (commit_all hash into_bigint tape_gen ?fill pv' ids) (\<lambda>ps. oret (Inr (p' # ps))))
        (\<lambda>ps ps'. length ps = length (i # ids) \<and> length ps' = length (i # ids) \<and>
          (\<exists>qs qs'. finish_all ps chs = Inr qs \<and> finish_all ps' chs = Inr qs' \<and> map seen qs' = map seen qs))"
      by simp
  qed
  then show ?case by (simp del: commit_all.simps)
qed

end

section \<open>Properties\<close>

text \<open>C4: proofs hide the witness from a verifier whose challenges do not depend on the commitments. Take two witnesses with
  the same outputs, any challenges and any bytes for the commitments. There is a bijection between the field
  elements that the prover draws for the one witness and for the other under which the verifier sees the same proof: in
  every repetition the same two views with their openings and commitments, the same broadcasts and the same output shares
  of the hidden party. Uniform draws therefore give the same distribution for both; only the commitment to
  the hidden view, a hash over fresh random bytes, is left out.\<close>

theorem proof_views_private:
  fixes into_bigint :: "'f::comm_ring_1 \<Rightarrow> nat"
  assumes "\<And>x. length (hash x) = 32" "\<And>s n. length (fst (fill s n)) = n"
    and "MpcithProver_new_backend sha256 into_bigint width c st w = Inr pv"
    and "MpcithProver_new_backend sha256 into_bigint width c st w' = Inr pv'"
    and size: "length (c_nodes c) \<le> MAX_CIRCUIT_NODES"
    and outs: "evaluate_reference c w' (ms_public_inputs st) = evaluate_reference c w (ms_public_inputs st)"
    and chs: "length chs = unat count" "count \<noteq> 0" "list_all (\<lambda>ch. hidden_party ch < PARTY_COUNT) chs"
  shows "\<exists>f. bij_betw f (tapes (unat count * draws c)) (tapes (unat count * draws c)) \<and>
    (\<forall>t\<in>tapes (unat count * draws c). \<exists>pr pr' s1.
       prove_joint_fs hash into_bigint tape_gen (tape_fill fill) pv count (\<lambda>_. Inr chs) (t, s) = (Inr pr, ([], s1)) \<and>
       prove_joint_fs hash into_bigint tape_gen (tape_fill fill) pv' count (\<lambda>_. Inr chs) (f t, s) = (Inr pr', ([], s1)) \<and>
       map seen (mp_repetitions pr') = map seen (mp_repetitions pr))"
proof -
  have env: "commit_env hash fill" by unfold_locales (simp_all add: assms(1,2))
  have ready: "prover_ready pv" "prover_ready pv'" and pv: "mpv_circuit pv = c" "mpv_statement pv = st" "mpv_witness pv = w"
      "mpv_circuit pv' = c" "mpv_statement pv' = st" "mpv_witness pv' = w'"
    using MpcithProver_new_ready [OF assms(3) size] MpcithProver_new_ready [OF assms(4) size] by simp_all
  have "circuit_outputs c w' (ms_public_inputs st) = circuit_outputs c w (ms_public_inputs st)"
    using outs ready pv by (simp add: prover_ready_def evaluate_reference_eq)
  then have "coupled (unat count * draws c) s (commit_all hash into_bigint tape_gen (tape_fill fill) pv [0..<unat count])
      (commit_all hash into_bigint tape_gen (tape_fill fill) pv' [0..<unat count])
      (\<lambda>ps ps'. length ps = unat count \<and> length ps' = unat count \<and>
         (\<exists>qs qs'. finish_all ps chs = Inr qs \<and> finish_all ps' chs = Inr qs' \<and> map seen qs' = map seen qs))"
    using commit_env.all_coupled [OF env ready, of chs "[0..<unat count]" s into_bigint] pv chs by simp
  then obtain f where f: "bij_betw f (tapes (unat count * draws c)) (tapes (unat count * draws c))"
    "\<forall>t\<in>tapes (unat count * draws c). \<exists>ps ps' s1. (length ps = unat count \<and> length ps' = unat count \<and>
        (\<exists>qs qs'. finish_all ps chs = Inr qs \<and> finish_all ps' chs = Inr qs' \<and> map seen qs' = map seen qs)) \<and>
      (\<forall>rest. commit_all hash into_bigint tape_gen (tape_fill fill) pv [0..<unat count] (t @ rest, s) = (Inr ps, (rest, s1)) \<and>
        commit_all hash into_bigint tape_gen (tape_fill fill) pv' [0..<unat count] (f t @ rest, s) = (Inr ps', (rest, s1)))"
    unfolding coupled_def by blast
  show ?thesis
  proof (rule exI [of _ f], intro conjI ballI)
    fix t :: "'f list" assume "t \<in> tapes (unat count * draws c)"
    then obtain ps ps' s1 qs qs' where "length ps = unat count" "length ps' = unat count"
      "finish_all ps chs = Inr qs" "finish_all ps' chs = Inr qs'" "map seen qs' = map seen qs"
      "commit_all hash into_bigint tape_gen (tape_fill fill) pv [0..<unat count] (t @ [], s) = (Inr ps, ([], s1))"
      "commit_all hash into_bigint tape_gen (tape_fill fill) pv' [0..<unat count] (f t @ [], s) = (Inr ps', ([], s1))"
      using f(2) by blast
    then show "\<exists>pr pr' s1. prove_joint_fs hash into_bigint tape_gen (tape_fill fill) pv count (\<lambda>_. Inr chs) (t, s) = (Inr pr, ([], s1)) \<and>
       prove_joint_fs hash into_bigint tape_gen (tape_fill fill) pv' count (\<lambda>_. Inr chs) (f t, s) = (Inr pr', ([], s1)) \<and>
       map seen (mp_repetitions pr') = map seen (mp_repetitions pr)"
      using chs by (simp add: prove_joint_fs_def commit_phase_def obind_def)
  qed (rule f(1))
qed

text \<open>The product of two secrets.\<close>

definition product_circuit :: "fp circuit" where
  "product_circuit = \<lparr>c_nodes = [SecretInput, SecretInput, Mul 0 1], c_num_secret = 2, c_num_public = 0, c_outputs = [2]\<rparr>"

definition product_statement :: "fp mpcith_statement" where
  "product_statement = \<lparr>ms_circuit_id = the (compute_id low32 fp_into_bigint 16 product_circuit), ms_public_inputs = [], ms_expected_outputs = [6]\<rparr>"

lemma product_prover:
  assumes "length w = 2"
  shows "MpcithProver_new_backend low32 fp_into_bigint 16 product_circuit product_statement w =
    Inr \<lparr>mpv_circuit = product_circuit, mpv_statement = product_statement, mpv_witness = w\<rparr>"
proof -
  have "circuit_wf product_circuit"
    unfolding validate_iff [symmetric] by (simp add: validate_def product_circuit_def check_operand_def secret_leaves_def public_leaves_def)
  moreover have "compute_id low32 fp_into_bigint 16 product_circuit = Some (ms_circuit_id product_statement)"
    by (simp add: product_statement_def compute_id_def serialize_def product_circuit_def)
  ultimately have "MpcithStatement_validate low32 fp_into_bigint 16 product_statement product_circuit = Inr ()"
    by (simp add: MpcithStatement_validate_iff) (simp add: product_statement_def product_circuit_def)
  then show ?thesis using assms by (simp add: MpcithProver_new_backend_def) (simp add: product_circuit_def)
qed

theorem proof_views_private_witness:
  "draws product_circuit = 12 \<and> (\<exists>f. bij_betw f (tapes 24) (tapes 24) \<and> (\<forall>t\<in>tapes 24. \<exists>pr pr' s1.
     prove_joint_fs low32 fp_into_bigint tape_gen (tape_fill zero_fill)
       \<lparr>mpv_circuit = product_circuit, mpv_statement = product_statement, mpv_witness = [2, 3]\<rparr> 2
       (\<lambda>_. Inr [\<lparr>hidden_party = 1\<rparr>, \<lparr>hidden_party = 0\<rparr>]) (t, 0 :: nat) = (Inr pr, ([], s1)) \<and>
     prove_joint_fs low32 fp_into_bigint tape_gen (tape_fill zero_fill)
       \<lparr>mpv_circuit = product_circuit, mpv_statement = product_statement, mpv_witness = [6, 1]\<rparr> 2
       (\<lambda>_. Inr [\<lparr>hidden_party = 1\<rparr>, \<lparr>hidden_party = 0\<rparr>]) (f t, 0) = (Inr pr', ([], s1)) \<and>
     map seen (mp_repetitions pr') = map seen (mp_repetitions pr)))"
proof -
  have d: "draws product_circuit = 12" by (simp add: draws_def product_circuit_def)
  have e: "evaluate_reference product_circuit [6, 1] (ms_public_inputs product_statement) =
      evaluate_reference product_circuit [2, 3] (ms_public_inputs product_statement)"
    by (simp add: evaluate_reference_def product_circuit_def product_statement_def index_at_def)
  have size: "length (c_nodes product_circuit) \<le> MAX_CIRCUIT_NODES" by (simp add: product_circuit_def MAX_CIRCUIT_NODES_def)
  show ?thesis
    using proof_views_private [where hash = low32 and fill = zero_fill and s = "0 :: nat" and count = 2 and
        chs = "[\<lparr>hidden_party = 1\<rparr>, \<lparr>hidden_party = 0\<rparr>]", OF low32.length_sha256 low_env.length_fill product_prover product_prover size e] d
    by (simp add: PARTY_COUNT_def)
qed

end
