(* ===== verification/Proof_System.thy ===== *)
theory Proof_System
  imports Mpcith_Prover Mpcith_Verifier
begin

text \<open>
  Model of \<open>crates/proof\<close>: the statement and its encoding, the Fiat-Shamir derivation of the challenges, the
  non-interactive proof with its encoding and id, the prover and the verifier.

  A value of the record \<open>backend\<close> is an implementation of the trait \<open>CryptoBackend\<close>. \<open>None\<close> in the
  result of \<open>Verifier_verify\<close> is a verification that does not return. \<open>PfE_Panic\<close> stands for a panic.
\<close>

section \<open>Backends, configuration, errors\<close>

record backend =
  be_id :: bytes
  be_hash :: "bytes \<Rightarrow> bytes"
  be_hash_domain :: "bytes \<Rightarrow> bytes \<Rightarrow> bytes"
  be_expand :: "bytes \<Rightarrow> bytes \<Rightarrow> nat \<Rightarrow> bytes option"

definition Sha256Backend :: "(bytes \<Rightarrow> bytes) \<Rightarrow> backend" where
  "Sha256Backend sha256 = \<lparr>be_id = Sha256Backend_ID, be_hash = Sha256Backend_hash sha256,
     be_hash_domain = Sha256Backend_hash_domain sha256, be_expand = Sha256Backend_expand sha256\<rparr>"

definition Shake256Backend :: "(bytes \<Rightarrow> nat \<Rightarrow> bytes) \<Rightarrow> backend" where
  "Shake256Backend shake256 = \<lparr>be_id = Shake256Backend_ID, be_hash = Shake256Backend_hash shake256,
     be_hash_domain = Shake256Backend_hash_domain shake256, be_expand = Shake256Backend_expand shake256\<rparr>"

record protocol_config =
  pc_repetitions :: u32

definition ProtocolConfig_default :: protocol_config where
  "ProtocolConfig_default = \<lparr>pc_repetitions = 12\<rparr>"

datatype proof_error =
    PfE_InvalidStatement
  | PfE_InvalidCircuit
  | PfE_InvalidWitness
  | PfE_ChallengeMismatch
  | PfE_VerificationFailed
  | PfE_MalformedEncoding
  | PfE_InvalidVersion
  | PfE_CircuitIdMismatch
  | PfE_OutputMismatch
  | PfE_UnsupportedBackend
  | PfE_ExcessiveRepetitions
  | PfE_Panic

definition PROTOCOL_VERSION :: u8 where "PROTOCOL_VERSION = 2"

section \<open>The statement\<close>

definition PROOF_STATEMENT_VERSION :: u8 where "PROOF_STATEMENT_VERSION = 1"

record 'f proof_statement =
  sta_circuit_id :: digest
  sta_public_inputs :: "'f list"
  sta_expected_outputs :: "'f list"

definition ProofStatement_validate ::
    "(bytes \<Rightarrow> bytes) \<Rightarrow> ('f \<Rightarrow> nat) \<Rightarrow> nat \<Rightarrow> 'f proof_statement \<Rightarrow> 'f circuit \<Rightarrow> (proof_error, unit) result" where
  "ProofStatement_validate sha256 into_bigint width st c =
     rbind (map_err (\<lambda>_. PfE_InvalidCircuit) (validate c)) (\<lambda>_.
     rbind (ok_or PfE_Panic (compute_id sha256 into_bigint width c)) (\<lambda>cid.
     rbind (ensure (sta_circuit_id st = cid) PfE_CircuitIdMismatch) (\<lambda>_.
     ensure (\<not> (length (sta_public_inputs st) \<noteq> c_num_public c \<or>
                length (sta_expected_outputs st) \<noteq> length (c_outputs c))) PfE_InvalidStatement)))"

definition ProofStatement_encode :: "('f \<Rightarrow> nat) \<Rightarrow> 'f proof_statement \<Rightarrow> bytes" where
  "ProofStatement_encode into_bigint st =
     [PROOF_STATEMENT_VERSION] @ digest_bytes (sta_circuit_id st) @
     put_vec (put_element into_bigint) (sta_public_inputs st) @
     put_vec (put_element into_bigint) (sta_expected_outputs st)"

definition ProofStatement_decode_prefix :: "nat \<Rightarrow> bytes \<Rightarrow> (proof_error, 'f::comm_ring_1 proof_statement \<times> bytes) result" where
  "ProofStatement_decode_prefix modulus bs =
     rbind (read_u8 PfE_MalformedEncoding bs) (\<lambda>(version, rest).
     rbind (ensure (version = PROOF_STATEMENT_VERSION) PfE_InvalidVersion) (\<lambda>_.
     rbind (read_digest PfE_MalformedEncoding rest) (\<lambda>(cid, rest).
     rbind (read_vec PfE_MalformedEncoding (read_element PfE_MalformedEncoding modulus) rest) (\<lambda>(pub, rest).
     rbind (read_vec PfE_MalformedEncoding (read_element PfE_MalformedEncoding modulus) rest) (\<lambda>(outs, rest).
     Inr (\<lparr>sta_circuit_id = cid, sta_public_inputs = pub, sta_expected_outputs = outs\<rparr>, rest))))))"

definition ProofStatement_decode :: "nat \<Rightarrow> bytes \<Rightarrow> (proof_error, 'f::comm_ring_1 proof_statement) result" where
  "ProofStatement_decode modulus bs =
     rbind (ProofStatement_decode_prefix modulus bs) (\<lambda>(st, rest).
     if rest \<noteq> [] then Inl PfE_MalformedEncoding else Inr st)"

definition to_mpcith :: "'f proof_statement \<Rightarrow> 'f mpcith_statement" where
  "to_mpcith st = \<lparr>ms_circuit_id = sta_circuit_id st, ms_public_inputs = sta_public_inputs st,
     ms_expected_outputs = sta_expected_outputs st\<rparr>"

definition from_mpcith :: "'f mpcith_statement \<Rightarrow> 'f proof_statement" where
  "from_mpcith st = \<lparr>sta_circuit_id = ms_circuit_id st, sta_public_inputs = ms_public_inputs st,
     sta_expected_outputs = ms_expected_outputs st\<rparr>"

section \<open>Fiat-Shamir\<close>

record fs_session =
  fs_repetition_id :: repetition_id
  fs_commitments :: "digest list"

definition FsSession_new :: "repetition_id \<Rightarrow> digest list \<Rightarrow> fs_session" where
  "FsSession_new rid commitments = \<lparr>fs_repetition_id = rid, fs_commitments = commitments\<rparr>"

definition encode_session :: "fs_session \<Rightarrow> bytes" where
  "encode_session s = u32_to_be_bytes (fs_repetition_id s) @ concat (map digest_bytes (fs_commitments s))"

definition fs_input ::
    "backend \<Rightarrow> ('f \<Rightarrow> nat) \<Rightarrow> 'f proof_statement \<Rightarrow> fs_session list \<Rightarrow> nat \<Rightarrow> (proof_error, bytes) result" where
  "fs_input B into_bigint st sessions selector =
     rbind (ok_or PfE_MalformedEncoding (if selector < length sessions then Some (sessions ! selector) else None)) (\<lambda>selected.
     Inr (DOMAIN_FS @ be_id B @ [PROTOCOL_VERSION] @ ProofStatement_encode into_bigint st @
       u32_to_be_bytes (of_nat (length sessions)) @ concat (map encode_session sessions) @
       u32_to_be_bytes (fs_repetition_id selected)))"

definition fs_digest ::
    "backend \<Rightarrow> ('f \<Rightarrow> nat) \<Rightarrow> 'f proof_statement \<Rightarrow> fs_session list \<Rightarrow> nat \<Rightarrow> (proof_error, bytes) result" where
  "fs_digest B into_bigint st sessions selector =
     rbind (fs_input B into_bigint st sessions selector) (\<lambda>input. Inr (be_hash_domain B DOMAIN_FS input))"

definition derive_one ::
    "backend \<Rightarrow> ('f \<Rightarrow> nat) \<Rightarrow> 'f proof_statement \<Rightarrow> fs_session list \<Rightarrow> nat \<Rightarrow> (proof_error, challenge) result" where
  "derive_one B into_bigint st sessions index =
     rbind (fs_input B into_bigint st sessions index) (\<lambda>input.
     rbind (ok_or PfE_Panic (be_expand B DOMAIN_FS input 64)) (\<lambda>expanded.
     rbind (ensure (8 \<le> length expanded) PfE_Panic) (\<lambda>_.
     let v = u64_from_be_bytes (take 8 expanded) mod 3 in
     rbind (map_err (\<lambda>_. PfE_MalformedEncoding) (PartyId_new (of_nat (unat v)))) (\<lambda>p.
     Inr \<lparr>hidden_party = p\<rparr>))))"

definition derive_all ::
    "backend \<Rightarrow> ('f \<Rightarrow> nat) \<Rightarrow> 'f proof_statement \<Rightarrow> fs_session list \<Rightarrow> (proof_error, challenge list) result" where
  "derive_all B into_bigint st sessions =
     (if sessions = [] \<or> list_ex (\<lambda>s. length (fs_commitments s) \<noteq> 3) sessions then Inl PfE_InvalidStatement
      else rmap (derive_one B into_bigint st sessions) [0..<length sessions])"

section \<open>Proofs and their encoding\<close>

definition PROOF_ENCODING_VERSION :: u8 where "PROOF_ENCODING_VERSION = 2"
definition PROTOCOL_ID :: u8 where "PROTOCOL_ID = 1"
definition SUPPORTED_BACKEND_IDS :: "bytes list" where
  "SUPPORTED_BACKEND_IDS = [Sha256Backend_ID, Shake256Backend_ID]"
definition MAX_PROOF_REPETITIONS :: nat where "MAX_PROOF_REPETITIONS = 10000"
definition PROOF_ID_DOMAIN :: bytes where "PROOF_ID_DOMAIN = ascii ''private-payment-auth/proof/id/v2''"

record 'f proof_repetition =
  pr_commitments :: "digest list"
  pr_challenge :: challenge
  pr_opened_views :: "'f party_view list"
  pr_opening_randomness :: "bytes list"
  pr_hidden_broadcasts :: "'f list"
  pr_hidden_output_shares :: "'f list"

record 'f noninteractive_proof =
  np_version :: u8
  np_protocol_id :: u8
  np_backend_id :: bytes
  np_statement :: "'f proof_statement"
  np_repetitions :: "'f proof_repetition list"

definition encode_opening :: "('f \<Rightarrow> nat) \<Rightarrow> 'f party_view \<times> bytes \<Rightarrow> bytes" where
  "encode_opening into_bigint vr =
     (let view_bytes = encode_view into_bigint (fst vr)
      in u32_to_be_bytes (of_nat (length view_bytes)) @ view_bytes @ snd vr)"

definition encode_proof_repetition :: "('f \<Rightarrow> nat) \<Rightarrow> 'f proof_repetition \<Rightarrow> bytes" where
  "encode_proof_repetition into_bigint r =
     concat (map digest_bytes (pr_commitments r)) @ [hidden_party (pr_challenge r)] @
     put_vec (put_element into_bigint) (pr_hidden_broadcasts r) @
     put_vec (put_element into_bigint) (pr_hidden_output_shares r) @
     u32_to_be_bytes (of_nat (length (pr_opened_views r))) @
     concat (map (encode_opening into_bigint) (zip (pr_opened_views r) (pr_opening_randomness r)))"

definition serialize_proof :: "('f \<Rightarrow> nat) \<Rightarrow> 'f noninteractive_proof \<Rightarrow> bytes" where
  "serialize_proof into_bigint p =
     [np_version p] @ [np_protocol_id p] @ np_backend_id p @ ProofStatement_encode into_bigint (np_statement p) @
     put_vec (encode_proof_repetition into_bigint) (np_repetitions p)"

definition proof_id :: "(bytes \<Rightarrow> bytes) \<Rightarrow> ('f \<Rightarrow> nat) \<Rightarrow> 'f noninteractive_proof \<Rightarrow> digest" where
  "proof_id sha256 into_bigint p = Digest (Sha256Hash_hash_domain sha256 PROOF_ID_DOMAIN (serialize_proof into_bigint p))"

definition decode_opening :: "nat \<Rightarrow> bytes \<Rightarrow> (proof_error, ('f::comm_ring_1 party_view \<times> bytes) \<times> bytes) result" where
  "decode_opening modulus bs =
     rbind (read_u32 PfE_MalformedEncoding bs) (\<lambda>(len, rest).
     rbind (read_slice PfE_MalformedEncoding (unat len) rest) (\<lambda>(view_bytes, rest).
     rbind (map_err (\<lambda>_. PfE_MalformedEncoding) (decode_view modulus view_bytes)) (\<lambda>(v, left).
     rbind (ensure (left = []) PfE_MalformedEncoding) (\<lambda>_.
     rbind (read_slice PfE_MalformedEncoding RANDOMNESS_LEN_MPCITH rest) (\<lambda>(raw, rest).
     Inr ((v, raw), rest))))))"

definition decode_proof_repetition :: "nat \<Rightarrow> bytes \<Rightarrow> (proof_error, 'f::comm_ring_1 proof_repetition \<times> bytes) result" where
  "decode_proof_repetition modulus bs =
     rbind (read_n (read_digest PfE_MalformedEncoding) 3 bs) (\<lambda>(commitments, rest).
     rbind (read_u8 PfE_MalformedEncoding rest) (\<lambda>(b, rest).
     rbind (map_err (\<lambda>_. PfE_MalformedEncoding) (PartyId_new b)) (\<lambda>hidden.
     rbind (read_vec PfE_MalformedEncoding (read_element PfE_MalformedEncoding modulus) rest) (\<lambda>(broadcasts, rest).
     rbind (read_vec PfE_MalformedEncoding (read_element PfE_MalformedEncoding modulus) rest) (\<lambda>(outs, rest).
     rbind (read_u32 PfE_MalformedEncoding rest) (\<lambda>(n_opened, rest).
     rbind (ensure (\<not> unat n_opened \<noteq> 2) PfE_MalformedEncoding) (\<lambda>_.
     rbind (read_n (decode_opening modulus) (unat n_opened) rest) (\<lambda>(opened, rest).
     Inr (\<lparr>pr_commitments = commitments, pr_challenge = \<lparr>hidden_party = hidden\<rparr>, pr_opened_views = map fst opened,
       pr_opening_randomness = map snd opened, pr_hidden_broadcasts = broadcasts, pr_hidden_output_shares = outs\<rparr>, rest)))))))))"

definition deserialize_proof :: "nat \<Rightarrow> bytes \<Rightarrow> (proof_error, 'f::comm_ring_1 noninteractive_proof) result" where
  "deserialize_proof modulus bs =
     rbind (read_u8 PfE_MalformedEncoding bs) (\<lambda>(version, rest).
     rbind (ensure (version = PROOF_ENCODING_VERSION) PfE_InvalidVersion) (\<lambda>_.
     rbind (read_u8 PfE_MalformedEncoding rest) (\<lambda>(protocol, rest).
     rbind (ensure (protocol = PROTOCOL_ID) PfE_InvalidVersion) (\<lambda>_.
     rbind (read_slice PfE_MalformedEncoding BACKEND_ID_LEN rest) (\<lambda>(bid, rest).
     rbind (ensure (bid \<in> set SUPPORTED_BACKEND_IDS) PfE_UnsupportedBackend) (\<lambda>_.
     rbind (ProofStatement_decode_prefix modulus rest) (\<lambda>(st, rest).
     rbind (read_u32 PfE_MalformedEncoding rest) (\<lambda>(n_reps, rest).
     rbind (ensure (\<not> unat n_reps > MAX_PROOF_REPETITIONS) PfE_ExcessiveRepetitions) (\<lambda>_.
     rbind (read_n (decode_proof_repetition modulus) (unat n_reps) rest) (\<lambda>(reps, rest).
     rbind (ensure (rest = []) PfE_MalformedEncoding) (\<lambda>_.
     Inr \<lparr>np_version = version, np_protocol_id = protocol, np_backend_id = bid, np_statement = st,
       np_repetitions = reps\<rparr>)))))))))))"

section \<open>The prover\<close>

record 'f proof_prover =
  pp_circuit :: "'f circuit"
  pp_statement :: "'f proof_statement"
  pp_witness :: "'f list"

definition Prover_new ::
    "(bytes \<Rightarrow> bytes) \<Rightarrow> ('f \<Rightarrow> nat) \<Rightarrow> nat \<Rightarrow> 'f circuit \<Rightarrow> 'f proof_statement \<Rightarrow> 'f list \<Rightarrow> (proof_error, 'f proof_prover) result" where
  "Prover_new sha256 into_bigint width c st witness =
     rbind (ProofStatement_validate sha256 into_bigint width st c) (\<lambda>_.
     rbind (ensure (length witness = c_num_secret c) PfE_InvalidWitness) (\<lambda>_.
     Inr \<lparr>pp_circuit = c, pp_statement = st, pp_witness = witness\<rparr>))"

text \<open>\<open>proof_error\<close> maps every inner error to \<open>VerificationFailed\<close>; a panic is not an error.\<close>

definition map_inner :: "mpcith_error \<Rightarrow> proof_error" where
  "map_inner e = (if e = MpE_Panic then PfE_Panic else PfE_VerificationFailed)"

text \<open>The closure that \<open>prove\<close> hands to \<open>prove_joint_fs\<close>.\<close>

definition joint_challenges ::
    "backend \<Rightarrow> ('f \<Rightarrow> nat) \<Rightarrow> 'f proof_statement \<Rightarrow> (repetition_id \<times> digest list) list \<Rightarrow> (mpcith_error, challenge list) result" where
  "joint_challenges B into_bigint st sessions =
     map_err (\<lambda>e. if e = PfE_Panic then MpE_Panic else MpE_InvalidProtocolState)
       (derive_all B into_bigint st (map (\<lambda>(rid, commitments). FsSession_new rid commitments) sessions))"

definition to_proof_repetition :: "'f repetition \<Rightarrow> 'f proof_repetition" where
  "to_proof_repetition r =
     (let pairs = sort_key (\<lambda>(pid, v, rnd). pid)
        (map (\<lambda>ov. (pv_party_id (ov_view ov), ov_view ov, ov_randomness ov)) (rep_opened_views r))
      in \<lparr>pr_commitments = rep_commitments r, pr_challenge = rep_challenge r,
          pr_opened_views = map (\<lambda>(pid, v, rnd). v) pairs, pr_opening_randomness = map (\<lambda>(pid, v, rnd). rnd) pairs,
          pr_hidden_broadcasts = rep_hidden_broadcasts r, pr_hidden_output_shares = rep_hidden_output_shares r\<rparr>)"

definition Prover_prove ::
    "(bytes \<Rightarrow> bytes) \<Rightarrow> backend \<Rightarrow> ('f::comm_ring_1 \<Rightarrow> nat) \<Rightarrow> nat \<Rightarrow> ('g \<Rightarrow> 'f \<times> 'g) \<Rightarrow> ('g \<Rightarrow> nat \<Rightarrow> bytes \<times> 'g) \<Rightarrow>
     'f proof_prover \<Rightarrow> u32 \<Rightarrow> ('g, proof_error, 'f noninteractive_proof) op" where
  "Prover_prove sha256 B into_bigint width rand fill pp repetition_count g =
     (if repetition_count = 0 then (Inl PfE_InvalidStatement, g)
      else
        case MpcithProver_new_backend sha256 into_bigint width (pp_circuit pp) (to_mpcith (pp_statement pp)) (pp_witness pp) of
          Inl e \<Rightarrow> (Inl (map_inner e), g)
        | Inr inner \<Rightarrow>
            (let (r, g') = prove_joint_fs (be_hash B) into_bigint rand fill inner repetition_count
                 (joint_challenges B into_bigint (pp_statement pp)) g
             in (rbind (map_err map_inner r) (\<lambda>interactive.
                 Inr \<lparr>np_version = PROTOCOL_VERSION, np_protocol_id = PROTOCOL_ID, np_backend_id = be_id B,
                   np_statement = pp_statement pp,
                   np_repetitions = map to_proof_repetition (mp_repetitions interactive)\<rparr>), g')))"

section \<open>The verifier\<close>

definition to_inner_repetition :: "'f proof_repetition \<Rightarrow> u32 \<Rightarrow> 'f repetition" where
  "to_inner_repetition r index = \<lparr>rep_id = index, rep_commitments = pr_commitments r, rep_challenge = pr_challenge r,
     rep_opened_views = map (\<lambda>(v, rnd). \<lparr>ov_view = v, ov_randomness = rnd\<rparr>) (zip (pr_opened_views r) (pr_opening_randomness r)),
     rep_hidden_output_shares = pr_hidden_output_shares r, rep_hidden_broadcasts = pr_hidden_broadcasts r\<rparr>"

definition indexed :: "'a list \<Rightarrow> (u32 \<times> 'a) list" where
  "indexed xs = zip (map of_nat [0..<length xs]) xs"

definition verify_structure ::
    "(bytes \<Rightarrow> bytes) \<Rightarrow> backend \<Rightarrow> ('f::comm_ring_1 \<Rightarrow> nat) \<Rightarrow> nat \<Rightarrow> 'f circuit \<Rightarrow> 'f proof_statement \<Rightarrow>
     'f noninteractive_proof \<Rightarrow> (proof_error, unit) result" where
  "verify_structure sha256 B into_bigint width c st p =
     rbind (ensure (\<not> (np_version p \<noteq> PROTOCOL_VERSION \<or> np_protocol_id p \<noteq> PROTOCOL_ID)) PfE_InvalidVersion) (\<lambda>_.
     rbind (ensure (np_repetitions p \<noteq> []) PfE_VerificationFailed) (\<lambda>_.
     rbind (ProofStatement_validate sha256 into_bigint width st c) (\<lambda>_.
     rbind (ensure (np_statement p = st) PfE_InvalidStatement) (\<lambda>_.
     rbind (derive_all B into_bigint st (map (\<lambda>(index, r). FsSession_new index (pr_commitments r)) (indexed (np_repetitions p)))) (\<lambda>derived.
     ensure (list_all (\<lambda>(r, ch). hidden_party (pr_challenge r) = hidden_party ch) (zip (np_repetitions p) derived))
       PfE_ChallengeMismatch)))))"

definition Verifier_verify ::
    "(bytes \<Rightarrow> bytes) \<Rightarrow> backend \<Rightarrow> ('f::comm_ring_1 \<Rightarrow> nat) \<Rightarrow> nat \<Rightarrow> 'f circuit \<Rightarrow> 'f proof_statement \<Rightarrow>
     'f noninteractive_proof \<Rightarrow> (proof_error, verification_result) result option" where
  "Verifier_verify sha256 B into_bigint width c st p =
     (if np_backend_id p \<noteq> be_id B then Some (Inl PfE_UnsupportedBackend)
      else
        case verify_structure sha256 B into_bigint width c st p of
          Inl e \<Rightarrow> Some (Inl e)
        | Inr _ \<Rightarrow>
            map_option (\<lambda>r. rbind (map_err map_inner r) (\<lambda>verdict.
                case verdict of VR_Valid \<Rightarrow> Inr VR_Valid | VR_Invalid \<Rightarrow> Inl PfE_OutputMismatch))
              (mpcith_verify sha256 (be_hash B) into_bigint width (to_mpcith st)
                 \<lparr>mp_repetitions = map (\<lambda>(index, r). to_inner_repetition r index) (indexed (np_repetitions p))\<rparr> c))"

end
