(* ===== verification/Proof_Codec.thy ===== *)
theory Proof_Codec
  imports Proof_System Mpcith_Codec
begin

text \<open>
  The encodings of \<open>crates/proof\<close> are canonical: a byte string is accepted exactly when it is the encoding of
  the proof it decodes to. The input of the Fiat-Shamir hash determines the statement, all commitments and
  the selected repetition.
\<close>

section \<open>Statements\<close>

definition statement_ok :: "'f proof_statement \<Rightarrow> bool" where
  "statement_ok st \<longleftrightarrow> digest_wf (sta_circuit_id st) \<and> length (sta_public_inputs st) < 2 ^ 32 \<and>
     length (sta_expected_outputs st) < 2 ^ 32"

context view_field
begin

lemma proof_statement_codec: "codec (ProofStatement_encode into_bigint) (ProofStatement_decode_prefix modulus) statement_ok"
proof
  show "ProofStatement_decode_prefix modulus (ProofStatement_encode into_bigint st @ rest) = Inr (st, rest)" if "statement_ok st" for st rest
    using that
    by (simp add: ProofStatement_decode_prefix_def ProofStatement_encode_def statement_ok_def digest_codec.dec_enc
        elem.vec_codec [THEN codec.dec_enc])
  show "bs = ProofStatement_encode into_bigint st @ rest \<and> statement_ok st"
    if "ProofStatement_decode_prefix modulus bs = Inr (st, rest)" for bs st rest
    using that
    by (auto simp: ProofStatement_decode_prefix_def ProofStatement_encode_def statement_ok_def reader_iffs digest_codec.dec_iff elem.read_vec_iff)
qed

end

section \<open>Repetitions\<close>

definition opening_ok :: "('f \<Rightarrow> nat) \<Rightarrow> 'f party_view \<times> bytes \<Rightarrow> bool" where
  "opening_ok into_bigint vr \<longleftrightarrow> view_wf (fst vr) \<and> length (encode_view into_bigint (fst vr)) < 2 ^ 32 \<and>
     length (snd vr) = RANDOMNESS_LEN_MPCITH"

definition proof_repetition_ok :: "('f \<Rightarrow> nat) \<Rightarrow> 'f proof_repetition \<Rightarrow> bool" where
  "proof_repetition_ok into_bigint r \<longleftrightarrow> length (pr_commitments r) = 3 \<and> (\<forall>d\<in>set (pr_commitments r). digest_wf d) \<and>
     hidden_party (pr_challenge r) < PARTY_COUNT \<and> length (pr_hidden_broadcasts r) < 2 ^ 32 \<and>
     length (pr_hidden_output_shares r) < 2 ^ 32 \<and> length (pr_opened_views r) = 2 \<and> length (pr_opening_randomness r) = 2 \<and>
     (\<forall>vr\<in>set (zip (pr_opened_views r) (pr_opening_randomness r)). opening_ok into_bigint vr)"

context view_field
begin

lemma opening_codec: "codec (encode_opening into_bigint) (decode_opening modulus) (opening_ok into_bigint)"
proof
  show "decode_opening modulus (encode_opening into_bigint vr @ rest) = Inr (vr, rest)" if "opening_ok into_bigint vr" for vr rest
  proof -
    have "unat (of_nat (length (encode_view into_bigint (fst vr))) :: u32) = length (encode_view into_bigint (fst vr))"
      using that by (simp add: opening_ok_def unat_of_nat)
    moreover have "decode_view modulus (encode_view into_bigint (fst vr)) = Inr (fst vr, [])"
      using codec.dec_enc [OF view_codec, of "fst vr" "[]"] that by (simp add: opening_ok_def)
    ultimately show ?thesis
      using that by (simp add: decode_opening_def encode_opening_def opening_ok_def Let_def)
  qed
  show "bs = encode_opening into_bigint vr @ rest \<and> opening_ok into_bigint vr" if "decode_opening modulus bs = Inr (vr, rest)" for bs vr rest
    using that codec.dec_iff [OF view_codec, of _ _ "[]"]
    by (auto simp: decode_opening_def encode_opening_def opening_ok_def reader_iffs unat_u32_less [simplified] Let_def)
qed

lemma PartyId_new_iff: "PartyId_new b = Inr p \<longleftrightarrow> p = b \<and> b < PARTY_COUNT"
  by (auto simp: PartyId_new_def not_le)

lemma proof_repetition_codec:
  "codec (encode_proof_repetition into_bigint) (decode_proof_repetition modulus) (proof_repetition_ok into_bigint)"
proof
  show "decode_proof_repetition modulus (encode_proof_repetition into_bigint r @ rest) = Inr (r, rest)"
    if ok: "proof_repetition_ok into_bigint r" for r rest
  proof -
    have "read_n (read_digest PfE_MalformedEncoding) 3 (concat (map digest_bytes (pr_commitments r)) @ s) = Inr (pr_commitments r, s)" for s
      using ok by (intro read_n_concat digest_codec.dec_enc) (auto simp: proof_repetition_ok_def)
    moreover have "read_n (decode_opening modulus) 2 (concat (map (encode_opening into_bigint) (zip (pr_opened_views r) (pr_opening_randomness r))) @ s) =
        Inr (zip (pr_opened_views r) (pr_opening_randomness r), s)" for s
      using ok by (intro read_n_concat codec.dec_enc [OF opening_codec]) (auto simp: proof_repetition_ok_def)
    moreover have "PartyId_new (hidden_party (pr_challenge r)) = Inr (hidden_party (pr_challenge r))"
      using ok by (simp add: PartyId_new_iff proof_repetition_ok_def)
    ultimately show ?thesis
      using ok
      by (simp add: elem.vec_codec [THEN codec.dec_enc] decode_proof_repetition_def encode_proof_repetition_def proof_repetition_ok_def)
  qed
  show "bs = encode_proof_repetition into_bigint r @ rest \<and> proof_repetition_ok into_bigint r"
    if "decode_proof_repetition modulus bs = Inr (r, rest)" for bs r rest
  proof -
    have two: "(of_nat 2 :: u32) = n" if "unat n = 2" for n using that by (metis of_nat_unat ucast_id)
    show ?thesis
      using that
      by (auto simp: decode_proof_repetition_def encode_proof_repetition_def proof_repetition_ok_def reader_iffs PartyId_new_iff
          elem.read_vec_iff digest_codec.read_n_iff codec.read_n_iff [OF opening_codec] zip_map_fst_snd dest!: two)
  qed
qed

end

section \<open>Proofs\<close>

definition noninteractive_ok :: "('f \<Rightarrow> nat) \<Rightarrow> 'f noninteractive_proof \<Rightarrow> bool" where
  "noninteractive_ok into_bigint p \<longleftrightarrow> np_version p = PROOF_ENCODING_VERSION \<and> np_protocol_id p = PROTOCOL_ID \<and>
     np_backend_id p \<in> set SUPPORTED_BACKEND_IDS \<and> statement_ok (np_statement p) \<and>
     length (np_repetitions p) \<le> MAX_PROOF_REPETITIONS \<and> (\<forall>r\<in>set (np_repetitions p). proof_repetition_ok into_bigint r)"

lemma length_supported_backend: "bid \<in> set SUPPORTED_BACKEND_IDS \<Longrightarrow> length bid = BACKEND_ID_LEN"
  using backend_ids by (auto simp: SUPPORTED_BACKEND_IDS_def)

context view_field
begin

lemma deserialize_serialize:
  assumes ok: "noninteractive_ok into_bigint p"
  shows "deserialize_proof modulus (serialize_proof into_bigint p) = Inr p"
proof -
  have n: "unat (of_nat (length (np_repetitions p)) :: u32) = length (np_repetitions p)"
    using ok by (simp add: noninteractive_ok_def MAX_PROOF_REPETITIONS_def unat_of_nat)
  have "read_n (decode_proof_repetition modulus) (length (np_repetitions p))
      (concat (map (encode_proof_repetition into_bigint) (np_repetitions p)) @ []) = Inr (np_repetitions p, [])"
    using ok by (intro read_n_concat codec.dec_enc [OF proof_repetition_codec]) (auto simp: noninteractive_ok_def)
  then show ?thesis
    using ok length_supported_backend [of "np_backend_id p"]
    by (simp add: deserialize_proof_def serialize_proof_def put_vec_def n noninteractive_ok_def
        codec.dec_enc [OF proof_statement_codec])
qed

lemma serialize_deserialize:
  assumes "deserialize_proof modulus bs = Inr p"
  shows "bs = serialize_proof into_bigint p \<and> noninteractive_ok into_bigint p"
proof -
  have count: "of_nat (unat n) = n" for n :: u32 by simp
  show ?thesis
    using assms
    by (auto simp: deserialize_proof_def serialize_proof_def put_vec_def noninteractive_ok_def reader_iffs
        codec.dec_iff [OF proof_statement_codec] codec.read_n_iff [OF proof_repetition_codec] not_less)
qed

lemma proof_codec: "deserialize_proof modulus bs = Inr p \<longleftrightarrow> noninteractive_ok into_bigint p \<and> bs = serialize_proof into_bigint p"
  using deserialize_serialize serialize_deserialize by blast

end

section \<open>The Fiat-Shamir input\<close>

definition session_ok :: "fs_session \<Rightarrow> bool" where
  "session_ok s \<longleftrightarrow> length (fs_commitments s) = 3 \<and> (\<forall>d\<in>set (fs_commitments s). digest_wf d)"

definition read_session :: "bytes \<Rightarrow> (proof_error, fs_session \<times> bytes) result" where
  "read_session bs =
     rbind (read_u32 PfE_MalformedEncoding bs) (\<lambda>(rid, rest).
     rbind (read_n (read_digest PfE_MalformedEncoding) 3 rest) (\<lambda>(ds, rest). Inr (FsSession_new rid ds, rest)))"

interpretation session_codec: codec encode_session read_session session_ok
proof
  show "read_session (encode_session s @ rest) = Inr (s, rest)" if "session_ok s" for s rest
  proof -
    have "read_n (read_digest PfE_MalformedEncoding) 3 (concat (map digest_bytes (fs_commitments s)) @ rest) = Inr (fs_commitments s, rest)"
      using that by (intro read_n_concat digest_codec.dec_enc) (auto simp: session_ok_def)
    then show ?thesis by (simp add: read_session_def encode_session_def FsSession_new_def)
  qed
  show "bs = encode_session s @ rest \<and> session_ok s" if "read_session bs = Inr (s, rest)" for bs s rest
    using that by (auto simp: read_session_def encode_session_def session_ok_def FsSession_new_def reader_iffs digest_codec.read_n_iff)
qed

lemma fs_input_Inr:
  "fs_input B into_bigint st sessions i = Inr m \<longleftrightarrow> i < length sessions \<and>
     m = DOMAIN_FS @ be_id B @ PROTOCOL_VERSION # ProofStatement_encode into_bigint st @ put_vec encode_session sessions @
       u32_to_be_bytes (fs_repetition_id (sessions ! i))"
  by (auto simp: fs_input_def put_vec_def)

context view_field
begin

lemma fs_input_inject:
  assumes "fs_input B into_bigint st sessions i = Inr m" "fs_input B' into_bigint st' sessions' j = Inr m"
    and ok: "statement_ok st" "statement_ok st'" "length (be_id B) = length (be_id B')"
    and "length sessions < 2 ^ 32" "\<forall>s\<in>set sessions. session_ok s" "length sessions' < 2 ^ 32" "\<forall>s\<in>set sessions'. session_ok s"
  shows "be_id B = be_id B' \<and> st = st' \<and> sessions = sessions' \<and> fs_repetition_id (sessions ! i) = fs_repetition_id (sessions' ! j)"
proof -
  let ?tail = "\<lambda>ss k. put_vec encode_session ss @ u32_to_be_bytes (fs_repetition_id (ss ! k))"
  have eq: "be_id B = be_id B'" "ProofStatement_encode into_bigint st @ ?tail sessions i = ProofStatement_encode into_bigint st' @ ?tail sessions' j"
    using assms(1,2) ok(3) by (simp_all add: fs_input_Inr)
  have st: "st = st'" "?tail sessions i = ?tail sessions' j"
    using codec.enc_prefix_free [OF proof_statement_codec ok(1,2) eq(2)] by simp_all
  have "sessions = sessions'" "u32_to_be_bytes (fs_repetition_id (sessions ! i)) = u32_to_be_bytes (fs_repetition_id (sessions' ! j))"
    using codec.enc_prefix_free [OF session_codec.vec_codec _ _ st(2)] assms(6,7,8,9) by auto
  then show ?thesis using eq st by simp
qed

end

end
