(* ===== verification/Proof_Security.thy ===== *)
theory Proof_Security
  imports Proof_Codec Mpcith_Security
begin

text \<open>
  The non-interactive proof system: the proofs of \<open>Prover\<close> are accepted by \<open>Verifier\<close>, with the challenges both
  derive from the commitments, and the forgery of responses carries over since the hidden party's shares
  are not part of what the challenges are derived from.
\<close>

section \<open>Deriving the challenges\<close>

text \<open>What the Fiat-Shamir layer relies on: the contract of a backend and of the generator.\<close>

locale fs_env = commit_env "be_hash B" fill
  for B :: backend and fill :: "'g \<Rightarrow> nat \<Rightarrow> bytes \<times> 'g" +
  assumes expand_returns: "\<exists>out. be_expand B d x n = Some out \<and> length out = n"
begin

lemma derive_one_ok:
  assumes "i < length sessions"
  shows "\<exists>ch. derive_one B into_bigint st sessions i = Inr ch \<and> hidden_party ch < PARTY_COUNT"
proof -
  obtain input where "fs_input B into_bigint st sessions i = Inr input"
    using assms by (simp add: fs_input_def)
  moreover obtain out where "be_expand B DOMAIN_FS input 64 = Some out" "length out = 64"
    using expand_returns by blast
  moreover have "PartyId_new (of_nat (unat (w mod 3))) = Inr (of_nat (unat (w mod 3)))" "(of_nat (unat (w mod 3)) :: u8) < PARTY_COUNT" for w :: u64
  proof -
    have "unat (w mod 3) < 3" using unat_mod [of w 3] by simp
    then have "(of_nat n :: u8) < PARTY_COUNT \<and> PartyId_new (of_nat n) = Inr (of_nat n)" if "n = unat (w mod 3)" for n
      using unat_party [of n] that by (simp add: PartyId_new_def PARTY_COUNT_def word_less_nat_alt word_le_nat_alt)
    then show "PartyId_new (of_nat (unat (w mod 3))) = Inr (of_nat (unat (w mod 3)))" "(of_nat (unat (w mod 3)) :: u8) < PARTY_COUNT"
      by blast+
  qed
  ultimately show ?thesis by (simp add: derive_one_def Let_def del: of_nat_unat)
qed

lemma derive_all_ok:
  assumes "sessions \<noteq> []" "\<forall>s\<in>set sessions. length (fs_commitments s) = 3"
  shows "\<exists>chs. derive_all B into_bigint st sessions = Inr chs \<and> length chs = length sessions \<and>
    list_all (\<lambda>ch. hidden_party ch < PARTY_COUNT) chs"
proof -
  have "\<forall>i. \<exists>ch. i < length sessions \<longrightarrow> derive_one B into_bigint st sessions i = Inr ch \<and> hidden_party ch < PARTY_COUNT"
    using derive_one_ok [of _ sessions into_bigint st] by blast
  then obtain ch where "\<And>i. i < length sessions \<Longrightarrow> derive_one B into_bigint st sessions i = Inr (ch i) \<and> hidden_party (ch i) < PARTY_COUNT"
    by metis
  then have "rmap (derive_one B into_bigint st sessions) [0..<length sessions] = Inr (map ch [0..<length sessions]) \<and>
      list_all (\<lambda>ch. hidden_party ch < PARTY_COUNT) (map ch [0..<length sessions])"
    by (auto simp: list_all_iff intro!: rmap_total)
  then show ?thesis using assms by (simp add: derive_all_def list_ex_iff)
qed

end

section \<open>Between the layers\<close>

definition sorted_views :: "'f repetition \<Rightarrow> bool" where
  "sorted_views r \<longleftrightarrow> sorted (map (\<lambda>ov. pv_party_id (ov_view ov)) (rep_opened_views r))"

lemma to_inner_to_proof:
  assumes "sorted_views r"
  shows "to_inner_repetition (to_proof_repetition r) (rep_id r) = r"
proof -
  let ?pairs = "map (\<lambda>ov. (pv_party_id (ov_view ov), ov_view ov, ov_randomness ov)) (rep_opened_views r)"
  have "sort_key (\<lambda>(pid, v, rnd). pid) ?pairs = ?pairs"
    using assms by (intro sort_key_id_if_sorted) (simp add: sorted_views_def comp_def)
  moreover have "map (\<lambda>(v, rnd). \<lparr>ov_view = v, ov_randomness = rnd\<rparr>) (zip (map ov_view ovs) (map ov_randomness ovs)) = ovs" for ovs :: "'a opened_view list"
    by (induction ovs) auto
  ultimately show "to_inner_repetition (to_proof_repetition r) (rep_id r) = r"
    by (simp add: to_inner_repetition_def to_proof_repetition_def Let_def comp_def)
qed

lemma to_proof_sorted:
  assumes "sorted_views r"
  shows "pr_opened_views (to_proof_repetition r) = map ov_view (rep_opened_views r)"
    "pr_opening_randomness (to_proof_repetition r) = map ov_randomness (rep_opened_views r)"
    "pr_hidden_broadcasts (to_proof_repetition r) = rep_hidden_broadcasts r"
    "pr_hidden_output_shares (to_proof_repetition r) = rep_hidden_output_shares r"
proof -
  let ?pairs = "map (\<lambda>ov. (pv_party_id (ov_view ov), ov_view ov, ov_randomness ov)) (rep_opened_views r)"
  have "sort_key (\<lambda>(pid, v, rnd). pid) ?pairs = ?pairs"
    using assms by (intro sort_key_id_if_sorted) (simp add: sorted_views_def comp_def)
  then show "pr_opened_views (to_proof_repetition r) = map ov_view (rep_opened_views r)"
    "pr_opening_randomness (to_proof_repetition r) = map ov_randomness (rep_opened_views r)"
    "pr_hidden_broadcasts (to_proof_repetition r) = rep_hidden_broadcasts r"
    "pr_hidden_output_shares (to_proof_repetition r) = rep_hidden_output_shares r"
    by (simp_all add: to_proof_repetition_def Let_def comp_def)
qed

lemma to_proof_fields [simp]:
  "pr_commitments (to_proof_repetition r) = rep_commitments r" "pr_challenge (to_proof_repetition r) = rep_challenge r"
  by (simp_all add: to_proof_repetition_def Let_def)

lemma finish_fields:
  assumes "finish_repetition partial ch = Inr r"
  shows "rep_commitments r = par_commitments partial" "rep_challenge r = ch" "sorted_views r" "rep_id r = par_id partial"
  using assms by (auto simp: finish_repetition_def Let_def sorted_views_def split: if_splits)

lemma forge_fields:
  assumes "forge_response st c partial ch = Inr r"
  shows "rep_commitments r = par_commitments partial" "rep_challenge r = ch" "sorted_views r" "rep_id r = par_id partial"
  using assms finish_fields [of partial ch] by (auto simp: forge_response_def sorted_views_def)

section \<open>Assembled proofs\<close>

lemma ProofStatement_validate_iff:
  "ProofStatement_validate sha256 into_bigint width st c = Inr () \<longleftrightarrow>
     MpcithStatement_validate sha256 into_bigint width (to_mpcith st) c = Inr ()"
  by (auto simp: ProofStatement_validate_def MpcithStatement_validate_def to_mpcith_def)

definition assemble :: "backend \<Rightarrow> 'f proof_statement \<Rightarrow> 'f repetition list \<Rightarrow> 'f noninteractive_proof" where
  "assemble B st reps = \<lparr>np_version = PROTOCOL_VERSION, np_protocol_id = PROTOCOL_ID, np_backend_id = be_id B,
     np_statement = st, np_repetitions = map to_proof_repetition reps\<rparr>"

text \<open>Responses that answer the derived challenges for committed repetitions.\<close>

definition answers :: "'f partial_repetition list \<Rightarrow> challenge list \<Rightarrow> 'f repetition list \<Rightarrow> bool" where
  "answers partials challenges reps \<longleftrightarrow> length reps = length partials \<and> length challenges = length partials \<and>
     (\<forall>i<length reps. par_id (partials ! i) = of_nat i \<and> rep_id (reps ! i) = of_nat i \<and> sorted_views (reps ! i) \<and>
        rep_commitments (reps ! i) = par_commitments (partials ! i) \<and> rep_challenge (reps ! i) = challenges ! i)"

lemma indexed_Nil [simp]: "indexed xs = [] \<longleftrightarrow> xs = []"
  by (cases xs) (simp_all add: indexed_def upt_rec)

lemma answers_inner:
  assumes "answers partials challenges reps"
  shows "map (\<lambda>(index, r). to_inner_repetition r index) (indexed (map to_proof_repetition reps)) = reps"
proof (intro nth_equalityI)
  fix i assume "i < length (map (\<lambda>(index, r). to_inner_repetition r index) (indexed (map to_proof_repetition reps)))"
  then have "i < length reps" by (simp add: indexed_def)
  then show "map (\<lambda>(index, r). to_inner_repetition r index) (indexed (map to_proof_repetition reps)) ! i = reps ! i"
    using assms to_inner_to_proof [of "reps ! i"] by (simp add: indexed_def answers_def)
qed (simp add: indexed_def)

lemma answers_sessions:
  assumes "answers partials challenges reps"
  shows "map (\<lambda>(index, r). FsSession_new index (pr_commitments r)) (indexed (map to_proof_repetition reps)) =
    map (\<lambda>(rid, commitments). FsSession_new rid commitments) (map (\<lambda>p. (par_id p, par_commitments p)) partials)"
  using assms by (intro nth_equalityI) (simp_all add: indexed_def answers_def)

lemma verify_assembled:
  assumes ans: "answers partials challenges reps" and ne: "reps \<noteq> []"
    and chs: "joint_challenges B into_bigint st (map (\<lambda>p. (par_id p, par_commitments p)) partials) = Inr challenges"
    and val: "ProofStatement_validate sha256 into_bigint width st c = Inr ()"
    and reps: "\<And>i. i < length reps \<Longrightarrow> verify_repetition (be_hash B) into_bigint (to_mpcith st) (reps ! i) c = Some (Inr ok)"
  shows "Verifier_verify sha256 B into_bigint width c st (assemble B st reps) =
    Some (if ok then Inr VR_Valid else Inl PfE_OutputMismatch)"
proof -
  have derived: "derive_all B into_bigint st (map (\<lambda>(rid, commitments). FsSession_new rid commitments)
      (map (\<lambda>p. (par_id p, par_commitments p)) partials)) = Inr challenges"
    using chs by (simp add: joint_challenges_def)
  have "list_all (\<lambda>(r, ch). hidden_party (pr_challenge r) = hidden_party ch) (zip (map to_proof_repetition reps) challenges)"
    using ans by (auto simp: list_all_length answers_def)
  then have "verify_structure sha256 B into_bigint width c st (assemble B st reps) = Inr ()"
    using val ne derived by (simp add: verify_structure_def assemble_def answers_sessions [OF ans])
  moreover have "verify_loop (be_hash B) into_bigint (to_mpcith st) c 0 reps = Some (Inr (if ok then VR_Valid else VR_Invalid))"
  proof (cases ok)
    case True
    then show ?thesis using reps ans by (auto simp: answers_def intro!: verify_loop_valid)
  next
    case False
    then show ?thesis using reps [of 0] ans ne by (auto simp: answers_def intro!: verify_loop_invalid)
  qed
  ultimately show ?thesis
    using val ne answers_inner [OF ans]
    by (simp add: Verifier_verify_def mpcith_verify_def ProofStatement_validate_iff) (simp add: assemble_def)
qed

context fs_env
begin

lemma joint_challenges_valid:
  assumes "length sessions = n" "n \<noteq> 0" "\<forall>s\<in>set sessions. length (snd s) = 3"
  shows "challenges_valid (joint_challenges B into_bigint st) sessions"
proof -
  let ?fs = "map (\<lambda>(rid, commitments). FsSession_new rid commitments) sessions"
  have "?fs \<noteq> []" "\<forall>s\<in>set ?fs. length (fs_commitments s) = 3" using assms by (auto simp: FsSession_new_def)
  then obtain chs where "derive_all B into_bigint st ?fs = Inr chs"
      "length chs = length sessions" "list_all (\<lambda>ch. hidden_party ch < PARTY_COUNT) chs"
    using derive_all_ok [of ?fs into_bigint st] by auto
  then show ?thesis by (auto simp: challenges_valid_def joint_challenges_def)
qed

text \<open>The run of the prover: committed repetitions, derived challenges, and the responses.\<close>

lemma Prover_prove_run:
  assumes new: "Prover_new sha256 into_bigint width c st w = Inr pp" and size: "length (c_nodes c) \<le> MAX_CIRCUIT_NODES" and count: "count \<noteq> 0"
  obtains pv partials challenges reps g' where
    "pv = \<lparr>mpv_circuit = c, mpv_statement = to_mpcith st, mpv_witness = w\<rparr>" "prover_ready pv"
    "ProofStatement_validate sha256 into_bigint width st c = Inr ()"
    "commit_phase (be_hash B) into_bigint rand fill pv count g = (Inr partials, g')"
    "list_all2 (partial_ok (be_hash B) into_bigint pv) [0..<unat count] partials"
    "joint_challenges B into_bigint st (map (\<lambda>p. (par_id p, par_commitments p)) partials) = Inr challenges"
    "list_all (\<lambda>ch. hidden_party ch < PARTY_COUNT) challenges" "length challenges = unat count"
    "Prover_prove sha256 B into_bigint width rand fill pp count g = (Inr (assemble B st reps), g')"
    "answers partials challenges reps" "length reps = unat count"
    "\<And>i. i < unat count \<Longrightarrow> verify_repetition (be_hash B) into_bigint (to_mpcith st) (reps ! i) c = Some (Inr (secret_outputs_match c w (to_mpcith st)))"
    "rmap (\<lambda>(p, ch). finish_repetition p ch) (zip partials challenges) = Inr reps"
proof -
  let ?pv = "\<lparr>mpv_circuit = c, mpv_statement = to_mpcith st, mpv_witness = w\<rparr>"
  have val: "ProofStatement_validate sha256 into_bigint width st c = Inr ()" and w: "length w = c_num_secret c"
    and pp: "pp = \<lparr>pp_circuit = c, pp_statement = st, pp_witness = w\<rparr>"
    using new by (auto simp: Prover_new_def)
  have inner: "MpcithProver_new_backend sha256 into_bigint width c (to_mpcith st) w = Inr ?pv"
    using val w by (simp add: MpcithProver_new_backend_def ProofStatement_validate_iff)
  note ready = MpcithProver_new_ready(2) [OF inner size]
  have pos: "unat count \<noteq> 0" using count by (simp add: unat_eq_0)
  have chs: "challenges_valid (joint_challenges B into_bigint st) sessions"
    if "length sessions = unat count" "\<forall>s\<in>set sessions. length (snd s) = 3" for sessions
    using joint_challenges_valid [OF that(1) pos that(2)] .
  obtain partials challenges reps g' where run:
    "commit_phase (be_hash B) into_bigint rand fill ?pv count g = (Inr partials, g')"
    "list_all2 (partial_ok (be_hash B) into_bigint ?pv) [0..<unat count] partials"
    "joint_challenges B into_bigint st (map (\<lambda>p. (par_id p, par_commitments p)) partials) = Inr challenges"
    "list_all (\<lambda>ch. hidden_party ch < PARTY_COUNT) challenges" "length challenges = unat count"
    "prove_joint_fs (be_hash B) into_bigint rand fill ?pv count (joint_challenges B into_bigint st) g = (Inr \<lparr>mp_repetitions = reps\<rparr>, g')"
    "rmap (\<lambda>(p, ch). finish_repetition p ch) (zip partials challenges) = Inr reps" "length reps = unat count"
    "\<forall>i<unat count. rep_id (reps ! i) = of_nat i \<and> verify_repetition (be_hash B) into_bigint (to_mpcith st) (reps ! i) c =
      Some (Inr (secret_outputs_match c w (to_mpcith st)))"
    using prove_joint_fs_ok [OF ready count, where challenges_of = "joint_challenges B into_bigint st" and rand = rand and g = g and
        into_bigint = into_bigint, OF chs] by auto
  have len: "length partials = unat count" using list_all2_lengthD [OF run(2)] by simp
  have "answers partials challenges reps"
    unfolding answers_def using run(2,5,7,8,9) len
    by (auto simp: rmap_nth list_all2_conv_all_nth partial_ok_def finish_fields)
  moreover have "Prover_prove sha256 B into_bigint width rand fill pp count g = (Inr (assemble B st reps), g')"
    using count run(6) inner by (simp add: Prover_prove_def pp assemble_def)
  ultimately show thesis
    using run ready val by (intro that [of ?pv partials g' challenges reps]) auto
qed

lemma proof_ok:
  assumes "Prover_new sha256 into_bigint width c st w = Inr pp" "length (c_nodes c) \<le> MAX_CIRCUIT_NODES" "count \<noteq> 0"
  shows "\<exists>p g'. Prover_prove sha256 B into_bigint width rand fill pp count g = (Inr p, g') \<and>
    length (np_repetitions p) = unat count \<and> np_statement p = st \<and>
    Verifier_verify sha256 B into_bigint width c st p =
      Some (if secret_outputs_match c w (to_mpcith st) then Inr VR_Valid else Inl PfE_OutputMismatch)"
proof -
  obtain pv partials challenges reps g' where run: "ProofStatement_validate sha256 into_bigint width st c = Inr ()"
    "joint_challenges B into_bigint st (map (\<lambda>p. (par_id p, par_commitments p)) partials) = Inr challenges"
    "Prover_prove sha256 B into_bigint width rand fill pp count g = (Inr (assemble B st reps), g')"
    "answers partials challenges reps" "length reps = unat count"
    "\<And>i. i < unat count \<Longrightarrow> verify_repetition (be_hash B) into_bigint (to_mpcith st) (reps ! i) c = Some (Inr (secret_outputs_match c w (to_mpcith st)))"
    by (rule Prover_prove_run [OF assms]) (rule that)
  have "reps \<noteq> []" using run(5) assms(3) by (auto simp: unat_eq_0)
  then show ?thesis
    using verify_assembled [OF run(4) _ run(2,1)] run(3,5,6)
    by (intro exI [of _ "assemble B st reps"] exI [of _ g']) (simp add: assemble_def)
qed

end

section \<open>Forged proofs\<close>

text \<open>The committed repetitions of a run on the all-zero witness, answered by forged responses. The
  challenges are the ones derived from the statement and the commitments, as in \<open>Prover_prove\<close>.\<close>

definition forge_proof ::
    "backend \<Rightarrow> ('f::comm_ring_1 \<Rightarrow> nat) \<Rightarrow> ('g \<Rightarrow> 'f \<times> 'g) \<Rightarrow> ('g \<Rightarrow> nat \<Rightarrow> bytes \<times> 'g) \<Rightarrow> 'f circuit \<Rightarrow> 'f proof_statement \<Rightarrow> u32 \<Rightarrow>
     'g \<Rightarrow> (mpcith_error, 'f noninteractive_proof) result" where
  "forge_proof B into_bigint rand fill c st count g =
     rbind (fst (commit_phase (be_hash B) into_bigint rand fill
       \<lparr>mpv_circuit = c, mpv_statement = to_mpcith st, mpv_witness = replicate (c_num_secret c) 0\<rparr> count g)) (\<lambda>partials.
     rbind (joint_challenges B into_bigint st (map (\<lambda>p. (par_id p, par_commitments p)) partials)) (\<lambda>challenges.
     rbind (rmap (\<lambda>(p, ch). forge_response (to_mpcith st) c p ch) (zip partials challenges)) (\<lambda>reps.
     Inr (assemble B st reps))))"

context fs_env
begin

lemma forge_proof_ok:
  assumes val: "ProofStatement_validate sha256 into_bigint width st c = Inr ()"
    and size: "length (c_nodes c) \<le> MAX_CIRCUIT_NODES" and count: "count \<noteq> 0"
  shows "\<exists>p. forge_proof B into_bigint rand fill c st count g = Inr p \<and> length (np_repetitions p) = unat count \<and> np_statement p = st \<and>
    Verifier_verify sha256 B into_bigint width c st p = Some (Inr VR_Valid)"
proof -
  let ?w = "replicate (c_num_secret c) 0"
  let ?pv = "\<lparr>mpv_circuit = c, mpv_statement = to_mpcith st, mpv_witness = ?w\<rparr>"
  have "Prover_new sha256 into_bigint width c st ?w = Inr \<lparr>pp_circuit = c, pp_statement = st, pp_witness = ?w\<rparr>"
    using val by (simp add: Prover_new_def)
  then obtain partials challenges g' where run:
    "prover_ready ?pv" "commit_phase (be_hash B) into_bigint rand fill ?pv count g = (Inr partials, g')"
    "list_all2 (partial_ok (be_hash B) into_bigint ?pv) [0..<unat count] partials"
    "joint_challenges B into_bigint st (map (\<lambda>p. (par_id p, par_commitments p)) partials) = Inr challenges"
    "list_all (\<lambda>ch. hidden_party ch < PARTY_COUNT) challenges" "length challenges = unat count"
    by (rule Prover_prove_run [OF _ size count, of _ _ _ _ _ _ rand g]) (rule that, simp_all)
  have len: "length partials = unat count" using list_all2_lengthD [OF run(3)] by simp
  obtain reps where reps: "rmap (\<lambda>(p, ch). forge_response (to_mpcith st) c p ch) (zip partials challenges) = Inr reps" "length reps = unat count"
      "\<forall>i<unat count. rep_id (reps ! i) = of_nat i \<and> verify_repetition (be_hash B) into_bigint (to_mpcith st) (reps ! i) c = Some (Inr True)"
    using responses_exist [OF run(3,6,5), of "\<lambda>(p, ch). forge_response (to_mpcith st) c p ch"
        "\<lambda>i r. rep_id r = of_nat i \<and> verify_repetition (be_hash B) into_bigint (to_mpcith st) r c = Some (Inr True)"]
      forge_ok [OF run(1)] by auto
  have "answers partials challenges reps"
    unfolding answers_def using run(3,6) reps len
    by (auto simp: rmap_nth list_all2_conv_all_nth partial_ok_def forge_fields)
  moreover have "reps \<noteq> []" using reps(2) count by (auto simp: unat_eq_0)
  ultimately show ?thesis
    using verify_assembled [OF _ _ run(4) val, where reps = reps and ok = True] run(2,4) reps
    by (intro exI [of _ "assemble B st reps"]) (simp add: forge_proof_def assemble_def)
qed

end

section \<open>Properties\<close>

lemma fs_envI:
  assumes "\<And>x. length (be_hash B x) = 32" "\<And>g n. length (fst (fill g n)) = n"
    and "\<And>d x n. \<exists>out. be_expand B d x n = Some out \<and> length out = n"
  shows "fs_env B fill"
  by unfold_locales (use assms in simp_all)

interpretation sha_env: fs_env "Sha256Backend low32" zero_fill
  by unfold_locales (simp_all add: Sha256Backend_def Sha256Backend_hash_def low32_def zero_fill_def low32.expand_length)

interpretation shake_env: fs_env "Shake256Backend low_bytes" zero_fill
  by unfold_locales
    (simp_all add: Shake256Backend_def Shake256Backend_hash_def Shake256Backend_expand_def low_bytes_def zero_fill_def)

text \<open>C3: the non-interactive proof system is complete. For a circuit of permitted size and at least one
  repetition \<open>Prover::prove\<close> returns a proof that carries the statement and the requested number of
  repetitions. \<open>Verifier::verify\<close> returns on it; it accepts when the witness gives the expected outputs, and
  where an output that depends on a secret differs it answers \<open>OutputMismatch\<close> and nothing else. The expected values of
  outputs that depend on no secret are not compared.\<close>

theorem proof_complete:
  assumes "\<And>x. length (be_hash B x) = 32" "\<And>g n. length (fst (fill g n)) = n"
    and "\<And>d x n. \<exists>out. be_expand B d x n = Some out \<and> length out = n"
    and "Prover_new sha256 into_bigint width c st w = Inr pp"
    and "length (c_nodes c) \<le> MAX_CIRCUIT_NODES" "count \<noteq> 0"
  shows "\<exists>p g'. Prover_prove sha256 B into_bigint width rand fill pp count g = (Inr p, g') \<and>
    length (np_repetitions p) = unat count \<and> np_statement p = st \<and>
    Verifier_verify sha256 B into_bigint width c st p =
      Some (if secret_outputs_match c w (to_mpcith st) then Inr VR_Valid else Inl PfE_OutputMismatch) \<and>
    (evaluate_reference c w (sta_public_inputs st) = Inr (sta_expected_outputs st) \<longrightarrow> secret_outputs_match c w (to_mpcith st))"
proof -
  have "circuit_wf c" "inputs_fit c w (sta_public_inputs st)"
    using assms(4) by (auto simp: Prover_new_def ProofStatement_validate_iff MpcithStatement_validate_iff inputs_fit_def to_mpcith_def)
  then have "evaluate_reference c w (sta_public_inputs st) = Inr (circuit_outputs c w (sta_public_inputs st))"
    by (rule evaluate_reference_eq)
  then have "evaluate_reference c w (sta_public_inputs st) = Inr (sta_expected_outputs st) \<longrightarrow> secret_outputs_match c w (to_mpcith st)"
    by (auto simp: secret_outputs_match_def to_mpcith_def)
  moreover have "fs_env B fill" by (rule fs_envI) (simp_all add: assms(1-3))
  ultimately show ?thesis
    using fs_env.proof_ok [OF _ assms(4-6), where fill = fill and B = B and rand = rand and g = g] by auto
qed

definition demo_proof_statement :: "fp proof_statement" where
  "demo_proof_statement = from_mpcith demo_mpcith_statement"

lemma to_from_mpcith [simp]: "to_mpcith (from_mpcith st) = st"
  by (simp add: to_mpcith_def from_mpcith_def)

lemma demo_Prover_new:
  "Prover_new low32 fp_into_bigint 16 demo_circuit demo_proof_statement [4] =
     Inr \<lparr>pp_circuit = demo_circuit, pp_statement = demo_proof_statement, pp_witness = [4]\<rparr>"
  using demo_prover_new
  by (auto simp: Prover_new_def ProofStatement_validate_iff MpcithProver_new_backend_def demo_proof_statement_def)

theorem proof_complete_witness:
  "\<exists>p g'. Prover_prove low32 (Shake256Backend low_bytes) fp_into_bigint 16 (\<lambda>g :: nat. (of_nat g, g + 1)) zero_fill
      \<lparr>pp_circuit = demo_circuit, pp_statement = demo_proof_statement, pp_witness = [4]\<rparr> 12 0 = (Inr p, g') \<and>
    Verifier_verify low32 (Shake256Backend low_bytes) fp_into_bigint 16 demo_circuit demo_proof_statement p = Some (Inr VR_Valid)"
proof -
  have "evaluate_reference demo_circuit [4] (sta_public_inputs demo_proof_statement) = Inr (sta_expected_outputs demo_proof_statement)"
    by (simp add: evaluate_reference_def demo_circuit_def demo_mpcith_statement_def demo_proof_statement_def from_mpcith_def index_at_def)
  then show ?thesis
    using proof_complete [where B = "Shake256Backend low_bytes" and fill = zero_fill and rand = "\<lambda>g :: nat. (of_nat g, g + 1)" and
        g = 0 and count = 12, OF shake_env.length_hash shake_env.length_fill shake_env.expand_returns demo_Prover_new]
    by (fastforce simp: demo_circuit_def MAX_CIRCUIT_NODES_def)
qed

text \<open>C8: the proof system is not sound. The output shares of the hidden party are sent in the clear with
  the response; they are neither committed to nor part of what the challenges are derived from. A prover
  with no witness runs the parties on zeros, waits for its challenges, and sets those shares to the
  difference between the expected outputs and the shares of the opened parties. For every valid circuit of
  permitted size and every statement that fits it, whether or not some witness satisfies it, the verifier
  accepts the result.\<close>

theorem proof_forgery:
  assumes "\<And>x. length (be_hash B x) = 32" "\<And>g n. length (fst (fill g n)) = n"
    and "\<And>d x n. \<exists>out. be_expand B d x n = Some out \<and> length out = n"
    and "ProofStatement_validate sha256 into_bigint width st c = Inr ()"
    and "length (c_nodes c) \<le> MAX_CIRCUIT_NODES" "count \<noteq> 0"
  shows "\<exists>p. forge_proof B into_bigint rand fill c st count g = Inr p \<and> length (np_repetitions p) = unat count \<and>
    Verifier_verify sha256 B into_bigint width c st p = Some (Inr VR_Valid)"
proof -
  have "fs_env B fill" by (rule fs_envI) (simp_all add: assms(1-3))
  from fs_env.forge_proof_ok [OF this assms(4-6), where rand = rand and g = g] show ?thesis by blast
qed

text \<open>A circuit that multiplies its secret input with 0, and the statement that its output is 1.\<close>

definition zero_circuit :: "fp circuit" where
  "zero_circuit = \<lparr>c_nodes = [SecretInput, Constant 0, Mul 0 1], c_num_secret = 1, c_num_public = 0, c_outputs = [2]\<rparr>"

definition false_statement :: "fp proof_statement" where
  "false_statement = \<lparr>sta_circuit_id = the (compute_id low32 fp_into_bigint 16 zero_circuit), sta_public_inputs = [], sta_expected_outputs = [1]\<rparr>"

lemma false_statement_valid: "ProofStatement_validate low32 fp_into_bigint 16 false_statement zero_circuit = Inr ()"
proof -
  have "validate zero_circuit = Inr ()"
    by (simp add: zero_circuit_def validate_def check_operand_def secret_leaves_def public_leaves_def)
  moreover have "compute_id low32 fp_into_bigint 16 zero_circuit \<noteq> None"
    by (simp add: compute_id_def serialize_def zero_circuit_def)
  ultimately show ?thesis
    by (auto simp: ProofStatement_validate_def false_statement_def) (simp_all add: zero_circuit_def)
qed

theorem proof_forgery_witness:
  "(\<forall>x. evaluate_reference zero_circuit [x] [] = Inr [0] \<and> [0] \<noteq> sta_expected_outputs false_statement) \<and>
   (\<exists>p. forge_proof (Sha256Backend low32) fp_into_bigint (\<lambda>g :: nat. (of_nat g, g + 1)) zero_fill zero_circuit false_statement 12 0 = Inr p \<and>
     Verifier_verify low32 (Sha256Backend low32) fp_into_bigint 16 zero_circuit false_statement p = Some (Inr VR_Valid))"
proof
  show "\<forall>x. evaluate_reference zero_circuit [x] [] = Inr [0] \<and> [0] \<noteq> sta_expected_outputs false_statement"
    by (simp add: evaluate_reference_def zero_circuit_def index_at_def false_statement_def)
  show "\<exists>p. forge_proof (Sha256Backend low32) fp_into_bigint (\<lambda>g :: nat. (of_nat g, g + 1)) zero_fill zero_circuit false_statement 12 0 = Inr p \<and>
     Verifier_verify low32 (Sha256Backend low32) fp_into_bigint 16 zero_circuit false_statement p = Some (Inr VR_Valid)"
    using proof_forgery [where B = "Sha256Backend low32" and fill = zero_fill and rand = "\<lambda>g :: nat. (of_nat g, g + 1)" and
        g = 0 and count = 12, OF sha_env.length_hash sha_env.length_fill sha_env.expand_returns false_statement_valid]
    by (fastforce simp: zero_circuit_def MAX_CIRCUIT_NODES_def)
qed

text \<open>C26: the proof encoding is canonical. \<open>deserialize_proof\<close> accepts a byte string exactly when it is the
  encoding of a proof with the supported version, protocol and backend, at most \<open>MAX_PROOF_REPETITIONS\<close>
  repetitions of three commitments and two opened views each, and it returns that proof.\<close>

theorem proof_encoding_canonical:
  assumes "field_ops modulus into_big" "modulus \<le> 256 ^ ELEMENT_WIDTH"
  shows "deserialize_proof modulus bs = Inr p \<longleftrightarrow> noninteractive_ok into_big p \<and> bs = serialize_proof into_big p"
  by (rule view_field.proof_codec [OF view_fieldI [OF assms]])

definition demo_noninteractive :: "fp noninteractive_proof" where
  "demo_noninteractive = \<lparr>np_version = 2, np_protocol_id = 1, np_backend_id = Sha256Backend_ID,
     np_statement = \<lparr>sta_circuit_id = Digest (replicate 32 8), sta_public_inputs = [2], sta_expected_outputs = [14]\<rparr>,
     np_repetitions = [\<lparr>pr_commitments = replicate 3 (Digest (replicate 32 1)), pr_challenge = \<lparr>hidden_party = 2\<rparr>,
       pr_opened_views = [demo_view 0, demo_view 1], pr_opening_randomness = [replicate 32 3, replicate 32 4],
       pr_hidden_broadcasts = [1, 2], pr_hidden_output_shares = [3]\<rparr>]\<rparr>"

lemma demo_noninteractive_ok: "noninteractive_ok fp_into_bigint demo_noninteractive"
proof -
  have "view_wf (demo_view p)" if "p < 3" for p
    using that by (simp add: view_wf_def demo_view_def PARTY_COUNT_def)
  moreover have "length (encode_view fp_into_bigint (demo_view p)) < 2 ^ 32" for p
    using length_encode_view [of fp_into_bigint "demo_view p"] by (simp add: demo_view_def)
  ultimately show ?thesis
    by (simp add: noninteractive_ok_def demo_noninteractive_def PROOF_ENCODING_VERSION_def PROTOCOL_ID_def SUPPORTED_BACKEND_IDS_def
        statement_ok_def digest_wf_def DIGEST_LEN_def proof_repetition_ok_def opening_ok_def MAX_PROOF_REPETITIONS_def PARTY_COUNT_def
        RANDOMNESS_LEN_MPCITH_def)
qed

theorem proof_encoding_canonical_witness:
  "deserialize_proof fp_modulus (serialize_proof fp_into_bigint demo_noninteractive) = Inr demo_noninteractive"
  using proof_encoding_canonical [OF fp_ops.field_ops_axioms fp_view.modulus_fits] demo_noninteractive_ok by blast

text \<open>C23: what a challenge depends on. The inputs of the hash for two sessions are equal exactly when the
  backend, the statement, the commitments of all repetitions and the selected repetition are; there is no
  second way to cut the bytes into these parts.\<close>

theorem fs_input_binding:
  assumes "field_ops modulus into_big" "modulus \<le> 256 ^ ELEMENT_WIDTH"
    and "fs_input B into_big st sessions i = Inr m" "fs_input B' into_big st' sessions' j = Inr m'"
    and "length (be_id B) = length (be_id B')" "statement_ok st" "statement_ok st'"
    and "length sessions < 2 ^ 32" "\<forall>s\<in>set sessions. session_ok s" "length sessions' < 2 ^ 32" "\<forall>s\<in>set sessions'. session_ok s"
  shows "m = m' \<longleftrightarrow> be_id B = be_id B' \<and> st = st' \<and> sessions = sessions' \<and>
    fs_repetition_id (sessions ! i) = fs_repetition_id (sessions' ! j)"
proof
  assume "m = m'"
  then show "be_id B = be_id B' \<and> st = st' \<and> sessions = sessions' \<and> fs_repetition_id (sessions ! i) = fs_repetition_id (sessions' ! j)"
    using view_field.fs_input_inject [OF view_fieldI [OF assms(1,2)], of B st sessions i m B' st' sessions' j] assms(3-11) by blast
next
  assume "be_id B = be_id B' \<and> st = st' \<and> sessions = sessions' \<and> fs_repetition_id (sessions ! i) = fs_repetition_id (sessions' ! j)"
  then show "m = m'" using assms(3,4) by (auto simp: fs_input_Inr)
qed

theorem fs_input_binding_witness:
  "fs_input (Sha256Backend low32) fp_into_bigint (np_statement demo_noninteractive)
      [FsSession_new 0 (replicate 3 (Digest (replicate 32 1))), FsSession_new 1 (replicate 3 (Digest (replicate 32 2)))] 0 \<noteq>
    fs_input (Sha256Backend low32) fp_into_bigint (np_statement demo_noninteractive)
      [FsSession_new 0 (replicate 3 (Digest (replicate 32 1))), FsSession_new 1 (replicate 3 (Digest (replicate 32 2)))] 1"
  (is "fs_input ?B _ ?st ?s 0 \<noteq> _")
proof -
  obtain m m' where m: "fs_input ?B fp_into_bigint ?st ?s 0 = Inr m" "fs_input ?B fp_into_bigint ?st ?s 1 = Inr m'"
    by (simp add: fs_input_def)
  have "statement_ok ?st" by (simp add: statement_ok_def demo_noninteractive_def digest_wf_def DIGEST_LEN_def)
  moreover have "\<forall>s\<in>set ?s. session_ok s" "length ?s < 2 ^ 32"
    by (simp_all add: session_ok_def FsSession_new_def digest_wf_def DIGEST_LEN_def)
  ultimately have "m \<noteq> m'"
    using fs_input_binding [OF fp_ops.field_ops_axioms fp_view.modulus_fits m refl] by (simp add: FsSession_new_def)
  then show ?thesis using m by simp
qed

end
