(* ===== verification/Payment_Authorization.thy ===== *)
theory Payment_Authorization
  imports Payment_Wiring Proof_Security
begin

text \<open>
  Model of \<open>crates/payment/src/authorization.rs\<close>: proving and verifying a payment, from the policy to the
  Fiat-Shamir proof. The proofs use the backend \<open>Sha256Backend\<close>; the field \<open>Fr\<close> is the type \<open>'f\<close> with its
  operations as parameters, and the generator is the state \<open>'g\<close>. \<open>None\<close> in the result of
  \<open>verify_payment_authorization\<close> is a verification that does not return; it does not occur for policies of
  permitted size.
\<close>

section \<open>Definitions\<close>

definition AUTHORIZATION_REPETITIONS :: u32 where "AUTHORIZATION_REPETITIONS = 12"

text \<open>\<open>map_err(|_| e)\<close> on a proof error; a panic stays a panic.\<close>

definition proof_err :: "payment_error \<Rightarrow> proof_error \<Rightarrow> payment_error" where
  "proof_err e pe = (if pe = PfE_Panic then PyE_Panic else e)"

definition payment_circuit_id ::
    "(bytes \<Rightarrow> bytes) \<Rightarrow> ('f::comm_ring_1 \<Rightarrow> nat) \<Rightarrow> nat \<Rightarrow> policy \<Rightarrow> (payment_error, digest) result" where
  "payment_circuit_id sha256 into_bigint width p =
     rbind (wiring_compile into_bigint width p) (\<lambda>compiled.
     rbind (bind_statement compiled) (\<lambda>bound.
     ok_or PyE_Panic (compute_id sha256 into_bigint width bound)))"

definition check_statement_binding ::
    "(bytes \<Rightarrow> bytes) \<Rightarrow> ('f::comm_ring_1 \<Rightarrow> nat) \<Rightarrow> nat \<Rightarrow> payment_statement \<Rightarrow> policy \<Rightarrow> (payment_error, unit) result" where
  "check_statement_binding sha256 into_bigint width st p =
     rbind (ensure (\<not> st_protocol_version st \<noteq> PROTOCOL_VERSION) PyE_StatementMismatch) (\<lambda>_.
     rbind (ok_or PyE_Panic (Policy_policy_id sha256 p)) (\<lambda>pid.
     rbind (ensure (\<not> pid \<noteq> st_policy_id st) PyE_PolicyIdMismatch) (\<lambda>_.
     rbind (payment_circuit_id sha256 into_bigint width p) (\<lambda>cid.
     ensure (\<not> cid \<noteq> st_circuit_id st) PyE_StatementMismatch))))"

definition authorize_payment ::
    "(bytes \<Rightarrow> bytes) \<Rightarrow> ('f::comm_ring_1 \<Rightarrow> nat) \<Rightarrow> nat \<Rightarrow> ('f \<Rightarrow> 'f option) \<Rightarrow> ('g \<Rightarrow> 'f \<times> 'g) \<Rightarrow> ('g \<Rightarrow> nat \<Rightarrow> bytes \<times> 'g) \<Rightarrow>
     payment_statement \<Rightarrow> private_witness \<Rightarrow> policy \<Rightarrow> ('g, payment_error, 'f noninteractive_proof) op" where
  "authorize_payment sha256 into_bigint width inverse_op rand fill_bytes st w p =
     obind (oret (check_statement_binding sha256 into_bigint width st p)) (\<lambda>_.
     obind (oret (Relation_validate sha256 into_bigint width inverse_op st w p)) (\<lambda>_.
     obind (oret (wiring_compile into_bigint width p)) (\<lambda>compiled.
     obind (oret (bind_statement compiled)) (\<lambda>bound.
     obind (oret (wiring_build_inputs sha256 inverse_op compiled p w)) (\<lambda>(secrets, publics).
     let publics = publics @ binding_values st in
     obind (oret (reference_outputs bound secrets publics)) (\<lambda>outputs.
     obind (oret (ok_or PyE_Panic (compute_id sha256 into_bigint width bound))) (\<lambda>cid.
     let fs_statement = \<lparr>sta_circuit_id = cid, sta_public_inputs = publics, sta_expected_outputs = outputs\<rparr> in
     obind (oret (map_err (proof_err PyE_ProofGenerationFailed) (Prover_new sha256 into_bigint width bound fs_statement secrets))) (\<lambda>prover.
     (\<lambda>g. let (r, g') = Prover_prove sha256 (Sha256Backend sha256) into_bigint width rand fill_bytes prover AUTHORIZATION_REPETITIONS g
          in (map_err (proof_err PyE_ProofGenerationFailed) r, g'))))))))))"

text \<open>The circuit and the statement that the verifier recomputes from public data.\<close>

definition recomputed_statement ::
    "(bytes \<Rightarrow> bytes) \<Rightarrow> ('f::comm_ring_1 \<Rightarrow> nat) \<Rightarrow> nat \<Rightarrow> payment_statement \<Rightarrow> digest \<Rightarrow> policy \<Rightarrow>
     (payment_error, 'f circuit \<times> 'f proof_statement) result" where
  "recomputed_statement sha256 into_bigint width st proof_circuit_id p =
     rbind (check_statement_binding sha256 into_bigint width st p) (\<lambda>_.
     rbind (wiring_compile into_bigint width p) (\<lambda>compiled.
     rbind (bind_statement compiled) (\<lambda>bound.
     rbind (ok_or PyE_Panic (compute_id sha256 into_bigint width bound)) (\<lambda>cid.
     rbind (ensure (\<not> proof_circuit_id \<noteq> cid) PyE_StatementMismatch) (\<lambda>_.
     rbind (bound_public_inputs compiled p st) (\<lambda>publics.
     let binding_product = foldl (*) 1 (binding_values st)
     in Inr (bound, \<lparr>sta_circuit_id = cid, sta_public_inputs = publics,
          sta_expected_outputs = replicate (cp_range_check_outputs compiled) 0 @ [binding_product]\<rparr>)))))))"

fun payment_verdict :: "(proof_error, verification_result) result \<Rightarrow> (payment_error, bool) result" where
  "payment_verdict (Inr VR_Valid) = Inr True"
| "payment_verdict (Inr VR_Invalid) = Inr False"
| "payment_verdict (Inl PfE_InvalidStatement) = Inl PyE_StatementMismatch"
| "payment_verdict (Inl e) = Inl (proof_err PyE_ProofRejected e)"

definition verify_payment_authorization ::
    "(bytes \<Rightarrow> bytes) \<Rightarrow> ('f::comm_ring_1 \<Rightarrow> nat) \<Rightarrow> nat \<Rightarrow> payment_statement \<Rightarrow> 'f noninteractive_proof \<Rightarrow> policy \<Rightarrow>
     (payment_error, bool) result option" where
  "verify_payment_authorization sha256 into_bigint width st pr p =
     (case recomputed_statement sha256 into_bigint width st (sta_circuit_id (np_statement pr)) p of
        Inl e \<Rightarrow> Some (Inl e)
      | Inr (bound, fs_statement) \<Rightarrow>
          map_option payment_verdict (Verifier_verify sha256 (Sha256Backend sha256) into_bigint width bound fs_statement pr))"

section \<open>The circuit of a policy\<close>

lemma length_dcons_le: "length (dcons sec pub i j p) \<le> node_count p"
  and length_dconss_le: "length (dconss sec pub i j ms) \<le> sum_list (map node_count ms)"
  by (induction sec pub i j p and sec pub i j ms rule: dcons_dconss.induct) (auto simp: Let_def)

lemma implements_outputs:
  assumes "implements cp p"
  shows "cp_range_check_outputs cp \<le> node_count p"
proof -
  have "node_vals [] [] (cp_circuit cp) (c_outputs (cp_circuit cp)) = dcons [] [] 0 0 p @ [dval [] [] 0 0 p]"
    using assms by (simp add: implements_def)
  from arg_cong [OF this, of length] have "length (c_outputs (cp_circuit cp)) \<le> node_count p + 1"
    using length_dcons_le [of "[] :: 'a list" "[]" 0 0 p] by (simp add: node_vals_def)
  then show ?thesis using assms by (simp add: implements_def)
qed

context compiler_field
begin

lemma bound_compiled:
  assumes "wiring_compile into_bigint width p = Inr cp"
  shows "compile_with_layout into_bigint width p = Inr cp" "implements cp (normalize_node p)"
    "bind_statement cp = Inr (bound_circuit (cp_circuit cp))" "circuit_wf (bound_circuit (cp_circuit cp))"
    "length (c_nodes (bound_circuit (cp_circuit cp))) = length (c_nodes (cp_circuit cp)) + 8"
    "length (c_outputs (bound_circuit (cp_circuit cp))) = cp_range_check_outputs cp + 1"
    "c_num_public (bound_circuit (cp_circuit cp)) = pub_count (normalize_node p) + 4"
    "c_num_secret (bound_circuit (cp_circuit cp)) = sec_count (normalize_node p)"
    "\<exists>d. compute_id sha256 into_bigint width (bound_circuit (cp_circuit cp)) = Some d"
proof -
  show c: "compile_with_layout into_bigint width p = Inr cp" using assms by (simp add: wiring_compile_def)
  show imp: "implements cp (normalize_node p)" by (rule compiled_implements [OF c])
  then have wf: "circuit_wf (cp_circuit cp)" "length (c_nodes (cp_circuit cp)) \<le> 2 ^ 31" by (simp_all add: implements_def)
  show "bind_statement cp = Inr (bound_circuit (cp_circuit cp))" by (rule bind_statement_eq [OF wf])
  show "circuit_wf (bound_circuit (cp_circuit cp))" by (rule bound_circuit_wf [OF wf])
  show n: "length (c_nodes (bound_circuit (cp_circuit cp))) = length (c_nodes (cp_circuit cp)) + 8"
    by (simp add: bound_circuit_def binding_nodes_def)
  show o: "length (c_outputs (bound_circuit (cp_circuit cp))) = cp_range_check_outputs cp + 1"
    using imp by (auto simp: bound_circuit_def implements_def)
  show "c_num_public (bound_circuit (cp_circuit cp)) = pub_count (normalize_node p) + 4"
    "c_num_secret (bound_circuit (cp_circuit cp)) = sec_count (normalize_node p)"
    using imp by (simp_all add: bound_circuit_def implements_def)
  have "node_count (normalize_node p) \<le> 10000"
    using compiled_implements(1) [OF c] by (simp add: policy_valid_def MAX_POLICY_NODES_def)
  then show "\<exists>d. compute_id sha256 into_bigint width (bound_circuit (cp_circuit cp)) = Some d"
    using n o wf(2) implements_outputs [OF imp] by (simp add: compute_id_def serialize_def)
qed

lemma public_inputs_length:
  assumes "wiring_compile into_bigint width p = Inr cp"
  shows "bound_public_inputs cp p st = Inr (fpubs (normalize_node p) @ binding_values st)"
    "length (fpubs (normalize_node p) @ binding_values st :: 'f list) = c_num_public (bound_circuit (cp_circuit cp))"
  using policy_public_inputs_eq [OF bound_compiled(1) [OF assms]] bound_compiled(7) [OF assms]
  by (simp_all add: bound_public_inputs_def binding_values_def length_fpubs)

end

section \<open>What both sides compute\<close>

text \<open>The statement of the proof system for a payment.\<close>

definition payment_fs :: "'f::comm_ring_1 compiled_policy \<Rightarrow> policy \<Rightarrow> payment_statement \<Rightarrow> 'f proof_statement" where
  "payment_fs cp p st = \<lparr>sta_circuit_id = st_circuit_id st, sta_public_inputs = fpubs (normalize_node p) @ binding_values st,
     sta_expected_outputs = replicate (cp_range_check_outputs cp) 0 @ [prod_list (binding_values st)]\<rparr>"

lemma foldl_mult: "foldl (*) c xs = c * prod_list xs" for c :: "'a::comm_ring_1"
  by (induction xs arbitrary: c) (simp_all add: mult.assoc)

lemma evaluate_reference_fits: "evaluate_reference c sec pub = Inr outs \<Longrightarrow> inputs_fit c sec pub"
  by (simp add: evaluate_reference_def inputs_fit_def split: if_splits)

context compiler_field
begin

lemma check_statement_binding_iff:
  "check_statement_binding sha256 into_bigint width st p = Inr () \<longleftrightarrow>
     st_protocol_version st = PROTOCOL_VERSION \<and> Policy_policy_id sha256 p = Some (st_policy_id st) \<and>
     payment_circuit_id sha256 into_bigint width p = Inr (st_circuit_id st)"
  by (auto simp: check_statement_binding_def)

lemma payment_circuit_id_iff:
  "payment_circuit_id sha256 into_bigint width p = Inr cid \<longleftrightarrow>
     (\<exists>cp. wiring_compile into_bigint width p = Inr cp \<and>
        compute_id sha256 into_bigint width (bound_circuit (cp_circuit cp)) = Some cid)"
proof (cases "wiring_compile into_bigint width p")
  case (Inr cp)
  then show ?thesis using bound_compiled(3) [OF Inr] by (auto simp: payment_circuit_id_def)
qed (simp add: payment_circuit_id_def)

lemma recomputed_statement_eq:
  assumes bind: "check_statement_binding sha256 into_bigint width st p = Inr ()" and cp: "wiring_compile into_bigint width p = Inr cp"
  shows "recomputed_statement sha256 into_bigint width st pcid p =
      (if pcid = st_circuit_id st then Inr (bound_circuit (cp_circuit cp), payment_fs cp p st) else Inl PyE_StatementMismatch)"
    and "ProofStatement_validate sha256 into_bigint width (payment_fs cp p st) (bound_circuit (cp_circuit cp)) = Inr ()"
proof -
  have cid: "compute_id sha256 into_bigint width (bound_circuit (cp_circuit cp)) = Some (st_circuit_id st)"
    using bind cp by (auto simp: check_statement_binding_iff payment_circuit_id_iff)
  show "recomputed_statement sha256 into_bigint width st pcid p =
      (if pcid = st_circuit_id st then Inr (bound_circuit (cp_circuit cp), payment_fs cp p st) else Inl PyE_StatementMismatch)"
    using bind cp cid bound_compiled(3) [OF cp] public_inputs_length(1) [OF cp]
    by (simp add: recomputed_statement_def payment_fs_def Let_def foldl_mult)
  show "ProofStatement_validate sha256 into_bigint width (payment_fs cp p st) (bound_circuit (cp_circuit cp)) = Inr ()"
    using cid bound_compiled(4,6) [OF cp] public_inputs_length(2) [OF cp]
    by (simp add: ProofStatement_validate_def payment_fs_def validate_iff)
qed

end

section \<open>Authorising and verifying\<close>

locale payment_env = compiler_field modulus into_bigint inverse_op width + fs_env "Sha256Backend sha256" fill_bytes
  for modulus :: nat and into_bigint :: "'f::comm_ring_1 \<Rightarrow> nat" and inverse_op :: "'f \<Rightarrow> 'f option" and width :: nat
    and sha256 :: "bytes \<Rightarrow> bytes" and fill_bytes :: "'g \<Rightarrow> nat \<Rightarrow> bytes \<times> 'g"
begin

lemma authorize_checks:
  assumes "fst (authorize_payment sha256 into_bigint width inverse_op rand fill_bytes st w p g) = Inr pr"
  shows "check_statement_binding sha256 into_bigint width st p = Inr ()"
    "Relation_validate sha256 into_bigint width inverse_op st w p = Inr ()"
  using assms by (auto simp: authorize_payment_def obind_def split: sum.splits prod.splits)

lemma authorize_payment_ok:
  assumes small: "policy_small p" and ok: "payment_ok sha256 st w p"
    and bind: "check_statement_binding sha256 into_bigint width st p = Inr ()"
    and cp: "wiring_compile into_bigint width p = Inr cp" and size: "length (c_nodes (cp_circuit cp)) + 8 \<le> MAX_CIRCUIT_NODES"
  shows "\<exists>pr g'. authorize_payment sha256 into_bigint width inverse_op rand fill_bytes st w p g = (Inr pr, g') \<and>
    length (np_repetitions pr) = 12 \<and> verify_payment_authorization sha256 into_bigint width st pr p = Some (Inr True)"
proof -
  let ?c = "bound_circuit (cp_circuit cp)" and ?fs = "payment_fs cp p st"
  obtain secs where wire: "wiring_build_inputs sha256 inverse_op cp p w = Inr (secs, fpubs (normalize_node p))"
    "reference_outputs ?c secs (fpubs (normalize_node p) @ binding_values st) = Inr (sta_expected_outputs ?fs)"
    using payment_outputs [OF small ok] cp by (auto simp: payment_fs_def)
  have ev: "evaluate_reference ?c secs (sta_public_inputs ?fs) = Inr (sta_expected_outputs ?fs)"
    using wire(2) by (auto simp: reference_outputs_def payment_fs_def)
  have cid: "compute_id sha256 into_bigint width ?c = Some (st_circuit_id st)"
    using bind cp by (auto simp: check_statement_binding_iff payment_circuit_id_iff)
  note val = recomputed_statement_eq(2) [OF bind cp]
  have wf: "circuit_wf ?c" and fit: "inputs_fit ?c secs (sta_public_inputs ?fs)"
    using bound_compiled(4) [OF cp] ev evaluate_reference_fits by auto
  then have new: "Prover_new sha256 into_bigint width ?c ?fs secs = Inr \<lparr>pp_circuit = ?c, pp_statement = ?fs, pp_witness = secs\<rparr>"
    using val by (simp add: Prover_new_def inputs_fit_def)
  have match: "secret_outputs_match ?c secs (to_mpcith ?fs)"
    using ev evaluate_reference_eq [OF wf fit] by (simp add: secret_outputs_match_def to_mpcith_def)
  have n: "length (c_nodes ?c) \<le> MAX_CIRCUIT_NODES" using size bound_compiled(5) [OF cp] by simp
  obtain pr g' where pr: "Prover_prove sha256 (Sha256Backend sha256) into_bigint width rand fill_bytes
        \<lparr>pp_circuit = ?c, pp_statement = ?fs, pp_witness = secs\<rparr> 12 g = (Inr pr, g')"
    "length (np_repetitions pr) = 12" "np_statement pr = ?fs"
    "Verifier_verify sha256 (Sha256Backend sha256) into_bigint width ?c ?fs pr = Some (Inr VR_Valid)"
    using proof_ok [OF new n, where count = 12 and rand = rand and g = g] match by auto
  have "Relation_validate sha256 into_bigint width inverse_op st w p = Inr ()" using relation_iff [OF small] ok by blast
  then have "authorize_payment sha256 into_bigint width inverse_op rand fill_bytes st w p g = (Inr pr, g')"
    using bind cp bound_compiled(3) [OF cp] wire cid new pr(1)
    by (simp add: authorize_payment_def obind_def AUTHORIZATION_REPETITIONS_def payment_fs_def Let_def)
  moreover have "verify_payment_authorization sha256 into_bigint width st pr p = Some (Inr True)"
    using recomputed_statement_eq(1) [OF bind cp] pr(3,4) by (simp add: verify_payment_authorization_def payment_fs_def)
  ultimately show ?thesis using pr(2) by blast
qed

end

section \<open>Forged authorisations\<close>

text \<open>A forged authorisation uses the policy and the statement alone.\<close>

definition forge_payment ::
    "(bytes \<Rightarrow> bytes) \<Rightarrow> ('f::comm_ring_1 \<Rightarrow> nat) \<Rightarrow> nat \<Rightarrow> ('g \<Rightarrow> 'f \<times> 'g) \<Rightarrow> ('g \<Rightarrow> nat \<Rightarrow> bytes \<times> 'g) \<Rightarrow> payment_statement \<Rightarrow> policy \<Rightarrow>
     'g \<Rightarrow> (payment_error, 'f noninteractive_proof) result" where
  "forge_payment sha256 into_bigint width rand fill_bytes st p g =
     rbind (recomputed_statement sha256 into_bigint width st (st_circuit_id st) p) (\<lambda>(bound, fs_statement).
     map_err (\<lambda>_. PyE_ProofGenerationFailed)
       (forge_proof (Sha256Backend sha256) into_bigint rand fill_bytes bound fs_statement AUTHORIZATION_REPETITIONS g))"

context payment_env
begin

lemma forge_payment_ok:
  assumes bind: "check_statement_binding sha256 into_bigint width st p = Inr ()"
    and cp: "wiring_compile into_bigint width p = Inr cp" and size: "length (c_nodes (cp_circuit cp)) + 8 \<le> MAX_CIRCUIT_NODES"
  shows "\<exists>pr. forge_payment sha256 into_bigint width rand fill_bytes st p g = Inr pr \<and>
    verify_payment_authorization sha256 into_bigint width st pr p = Some (Inr True)"
proof -
  let ?c = "bound_circuit (cp_circuit cp)" and ?fs = "payment_fs cp p st"
  note rec = recomputed_statement_eq [OF bind cp]
  have n: "length (c_nodes ?c) \<le> MAX_CIRCUIT_NODES" using size bound_compiled(5) [OF cp] by simp
  obtain pr where pr: "forge_proof (Sha256Backend sha256) into_bigint rand fill_bytes ?c ?fs 12 g = Inr pr" "np_statement pr = ?fs"
    "Verifier_verify sha256 (Sha256Backend sha256) into_bigint width ?c ?fs pr = Some (Inr VR_Valid)"
    using forge_proof_ok [OF rec(2) n, where count = 12 and rand = rand and g = g] by auto
  have "forge_payment sha256 into_bigint width rand fill_bytes st p g = Inr pr"
    using rec(1) [of "st_circuit_id st"] pr(1) by (simp add: forge_payment_def AUTHORIZATION_REPETITIONS_def)
  moreover have "verify_payment_authorization sha256 into_bigint width st pr p = Some (Inr True)"
    using rec(1) pr(2,3) by (simp add: verify_payment_authorization_def payment_fs_def)
  ultimately show ?thesis by blast
qed

end

section \<open>Properties\<close>

lemma payment_envI:
  assumes "compiler_field modulus into_bigint inverse_op width" "\<And>x. length (sha256 x) = 32" "\<And>g n. length (fst (fill_bytes g n)) = n"
  shows "payment_env modulus into_bigint inverse_op width sha256 fill_bytes"
proof -
  have "sha256_primitive sha256" by unfold_locales (rule assms(2))
  then have "fs_env (Sha256Backend sha256) fill_bytes"
    by (intro fs_envI) (simp_all add: Sha256Backend_def Sha256Backend_hash_def assms(2,3) sha256_primitive.expand_length)
  then show ?thesis by (intro payment_env.intro assms(1))
qed

interpretation low_payment: payment_env fp_modulus fp_into_bigint fp_inverse 16 low32 zero_fill
  by (rule payment_envI [OF fp_compiler_field]) (simp_all add: low32_def zero_fill_def)

text \<open>C11: authorisation is complete and refuses everything else. \<open>authorize_payment\<close> returns a proof exactly
  when the statement names the protocol version, the id of the policy and the id of its bound circuit, and
  the payment is authorised: valid policy, matching amount, caps kept, policy satisfied by the credential
  secrets. The proof then has \<open>AUTHORIZATION_REPETITIONS\<close> repetitions, and \<open>verify_payment_authorization\<close>,
  which does not see the witness, answers \<open>Ok(true)\<close>.\<close>

theorem payment_authorization_complete:
  assumes "compiler_field modulus (into_bigint :: 'f::comm_ring_1 \<Rightarrow> nat) inverse_op width"
    and "\<And>x. length (sha256 x) = 32" "\<And>g n. length (fst (fill_bytes g n)) = n"
    and small: "policy_small p" and cp: "wiring_compile into_bigint width p = Inr cp"
    and size: "length (c_nodes (cp_circuit cp)) + 8 \<le> MAX_CIRCUIT_NODES"
  shows "(case fst (authorize_payment sha256 into_bigint width inverse_op rand fill_bytes st w p g) of
      Inr pr \<Rightarrow> check_statement_binding sha256 into_bigint width st p = Inr () \<and> payment_ok sha256 st w p \<and>
        length (np_repetitions pr) = 12 \<and> verify_payment_authorization sha256 into_bigint width st pr p = Some (Inr True)
    | Inl e \<Rightarrow> check_statement_binding sha256 into_bigint width st p \<noteq> Inr () \<or> \<not> payment_ok sha256 st w p)"
proof -
  have env: "payment_env modulus into_bigint inverse_op width sha256 fill_bytes" by (rule payment_envI) (simp_all add: assms(1-3))
  let ?run = "authorize_payment sha256 into_bigint width inverse_op rand fill_bytes st w p g"
  have checks: "check_statement_binding sha256 into_bigint width st p = Inr ()" "payment_ok sha256 st w p" if "fst ?run = Inr pr" for pr
    using payment_env.authorize_checks [OF env that] compiler_field.relation_iff [OF assms(1) small] by blast+
  have run: "\<exists>pr g'. ?run = (Inr pr, g') \<and> length (np_repetitions pr) = 12 \<and>
      verify_payment_authorization sha256 into_bigint width st pr p = Some (Inr True)"
    if "check_statement_binding sha256 into_bigint width st p = Inr ()" "payment_ok sha256 st w p"
    by (rule payment_env.authorize_payment_ok [OF env small that(2,1) cp size])
  show ?thesis
  proof (cases "fst ?run")
    case (Inl e)
    then show ?thesis using run by fastforce
  next
    case (Inr pr)
    then show ?thesis using run checks [OF Inr] by fastforce
  qed
qed

text \<open>An authorisation can be forged. For every policy whose circuit is of permitted size and every statement that
  names it, \<open>verify_payment_authorization\<close> answers \<open>Ok(true)\<close> on a proof made from public data alone: no
  credential, no witness, and no condition on the amount.\<close>

theorem payment_authorization_forgeable:
  assumes "compiler_field modulus (into_bigint :: 'f::comm_ring_1 \<Rightarrow> nat) inverse_op width"
    and "\<And>x. length (sha256 x) = 32" "\<And>g n. length (fst (fill_bytes g n)) = n"
    and "check_statement_binding sha256 into_bigint width st p = Inr ()"
    and "wiring_compile into_bigint width p = Inr cp" "length (c_nodes (cp_circuit cp)) + 8 \<le> MAX_CIRCUIT_NODES"
  shows "\<exists>pr. forge_payment sha256 into_bigint width rand fill_bytes st p g = Inr pr \<and>
    verify_payment_authorization sha256 into_bigint width st pr p = Some (Inr True)"
proof -
  have env: "payment_env modulus into_bigint inverse_op width sha256 fill_bytes" by (rule payment_envI) (simp_all add: assms(1-3))
  show ?thesis by (rule payment_env.forge_payment_ok [OF env assms(4-6)])
qed

text \<open>\<open>verify_payment_authorization\<close> has the result \<open>Ok(false)\<close> in its type and documentation but never
  returns it: a proof with wrong outputs is an error of the proof layer and becomes \<open>ProofRejected\<close>.\<close>

theorem verify_never_false:
  "verify_payment_authorization sha256 into_bigint width st pr p \<noteq> Some (Inr False)"
proof -
  have "rbind (map_err map_inner z) (\<lambda>v. case v of VR_Valid \<Rightarrow> Inr VR_Valid | VR_Invalid \<Rightarrow> Inl PfE_OutputMismatch) \<noteq> Inr VR_Invalid" for z
    by (cases z) (simp_all split: verification_result.splits)
  then have "r \<noteq> Inr VR_Invalid" if "Verifier_verify sha256 B into_bigint width c fs pr = Some r" for B c fs r
    using that by (auto simp: Verifier_verify_def split: if_splits sum.splits)
  moreover have "r = Inr VR_Invalid" if "payment_verdict r = Inr False" for r
    using that by (cases r rule: payment_verdict.cases) (auto simp: proof_err_def)
  ultimately show ?thesis
    by (fastforce simp: verify_payment_authorization_def split: sum.splits prod.splits)
qed

section \<open>Witnesses\<close>

lemma cap_compiled:
  obtains cp where "wiring_compile fp_into_bigint 16 cap_policy = Inr cp" "length (c_nodes (cp_circuit cp)) + 8 \<le> MAX_CIRCUIT_NODES"
proof -
  obtain cp where cp: "compile_with_layout fp_into_bigint 16 cap_policy = Inr cp"
    using fp_compiler.compile_implements [of cap_policy] cap_policy_facts by auto
  have "length (c_nodes (cp_circuit cp)) + 8 \<le> MAX_CIRCUIT_NODES"
    using fp_compiler.compiled_size [OF cp] cap_policy_facts by (simp add: cap_policy_def MAX_CIRCUIT_NODES_def)
  with cp show thesis by (intro that) (simp_all add: wiring_compile_def)
qed

text \<open>A statement that names \<open>cap_policy\<close>, for an amount of \<open>a\<close> cents.\<close>

definition bound_statement :: "u64 \<Rightarrow> payment_statement" where
  "bound_statement a = cap_statement\<lparr>st_amount := \<lparr>am_value = a, am_unit = Cents\<rparr>, st_protocol_version := PROTOCOL_VERSION,
     st_circuit_id := (case payment_circuit_id low32 fp_into_bigint 16 cap_policy of Inr cid \<Rightarrow> cid)\<rparr>"

lemma bound_statement_ok: "check_statement_binding low32 fp_into_bigint 16 (bound_statement a) cap_policy = Inr ()"
proof -
  obtain cp where cp: "wiring_compile fp_into_bigint 16 cap_policy = Inr cp" by (rule cap_compiled)
  obtain d where "compute_id low32 fp_into_bigint 16 (bound_circuit (cp_circuit cp)) = Some d"
    using fp_compiler.bound_compiled(9) [OF cp, of low32] by blast
  then have "payment_circuit_id low32 fp_into_bigint 16 cap_policy = Inr d"
    using cp fp_compiler.payment_circuit_id_iff by blast
  moreover have "Policy_policy_id low32 cap_policy = Some (st_policy_id cap_statement)"
    using cap_payment_ok by (simp add: payment_ok_def)
  ultimately show ?thesis by (simp add: fp_compiler.check_statement_binding_iff bound_statement_def)
qed

lemma bound_payment_ok: "payment_ok low32 (bound_statement 3) cap_witness cap_policy"
  using cap_payment_ok by (simp add: payment_ok_def bound_statement_def cap_statement_def)

theorem payment_authorization_complete_witness:
  "\<exists>pr. fst (authorize_payment low32 fp_into_bigint 16 fp_inverse (\<lambda>g :: nat. (of_nat g, g + 1)) zero_fill
      (bound_statement 3) cap_witness cap_policy 0) = Inr pr \<and>
    verify_payment_authorization low32 fp_into_bigint 16 (bound_statement 3) pr cap_policy = Some (Inr True)"
proof -
  obtain cp where cp: "wiring_compile fp_into_bigint 16 cap_policy = Inr cp" "length (c_nodes (cp_circuit cp)) + 8 \<le> MAX_CIRCUIT_NODES"
    by (rule cap_compiled)
  show ?thesis
    using payment_authorization_complete [where ?sha256.0 = low32 and fill_bytes = zero_fill, OF fp_compiler_field low32.length_sha256 _
        cap_policy_facts(1) cp, where rand = "\<lambda>g :: nat. (of_nat g, g + 1)" and st = "bound_statement 3" and w = cap_witness and g = 0]
      bound_statement_ok [of 3] bound_payment_ok
    by (auto simp: zero_fill_def split: sum.splits)
qed

theorem payment_authorization_forgeable_witness:
  "(\<forall>w. Relation_validate low32 fp_into_bigint 16 fp_inverse (bound_statement 1000000) w cap_policy \<noteq> Inr ()) \<and>
   (\<exists>pr. forge_payment low32 fp_into_bigint 16 (\<lambda>g :: nat. (of_nat g, g + 1)) zero_fill (bound_statement 1000000) cap_policy 0 = Inr pr \<and>
     verify_payment_authorization low32 fp_into_bigint 16 (bound_statement 1000000) pr cap_policy = Some (Inr True))"
proof
  show "\<forall>w. Relation_validate low32 fp_into_bigint 16 fp_inverse (bound_statement 1000000) w cap_policy \<noteq> Inr ()"
    unfolding fp_compiler.relation_iff [OF cap_policy_facts(1)]
    by (auto simp: payment_ok_def caps_ok_def bound_statement_def cap_policy_def word_le_nat_alt)
  obtain cp where cp: "wiring_compile fp_into_bigint 16 cap_policy = Inr cp" "length (c_nodes (cp_circuit cp)) + 8 \<le> MAX_CIRCUIT_NODES"
    by (rule cap_compiled)
  show "\<exists>pr. forge_payment low32 fp_into_bigint 16 (\<lambda>g :: nat. (of_nat g, g + 1)) zero_fill (bound_statement 1000000) cap_policy 0 = Inr pr \<and>
     verify_payment_authorization low32 fp_into_bigint 16 (bound_statement 1000000) pr cap_policy = Some (Inr True)"
    by (rule payment_authorization_forgeable [OF fp_compiler_field _ _ bound_statement_ok cp]) (simp_all add: low32_def zero_fill_def)
qed

end
