(* ===== verification/Sdk.thy ===== *)
theory Sdk
  imports Payment_Authorization
begin

text \<open>
  Model of \<open>crates/sdk\<close>: the authorization artifact with its encoding and id, the configuration, the choice of
  a backend, and the two workflows \<open>Sdk::authorize\<close> and \<open>Sdk::verify\<close>. An \<open>Sdk\<close> is its frozen
  configuration. The result \<open>None\<close> of a workflow stands for a call that does not return, \<open>SdkE_Panic\<close> for a
  panic in a called component.
\<close>

section \<open>Types\<close>

definition AUTHORIZATION_ID_DOMAIN :: bytes where
  "AUTHORIZATION_ID_DOMAIN = ascii ''private-payment-auth/authorization/v1''"

definition AUTHORIZATION_VERSION :: u8 where "AUTHORIZATION_VERSION = 1"

record 'f authorization =
  au_version :: u8
  au_protocol_version :: u8
  au_backend_id :: bytes
  au_payment_id :: bytes
  au_policy_id :: digest
  au_circuit_id :: digest
  au_proof :: "'f noninteractive_proof"

definition Authorization_new ::
    "u8 \<Rightarrow> u8 \<Rightarrow> bytes \<Rightarrow> bytes \<Rightarrow> digest \<Rightarrow> digest \<Rightarrow> 'f noninteractive_proof \<Rightarrow> 'f authorization" where
  "Authorization_new version protocol_version backend_id payment_id pid cid pr =
     \<lparr>au_version = version, au_protocol_version = protocol_version, au_backend_id = backend_id, au_payment_id = payment_id,
      au_policy_id = pid, au_circuit_id = cid, au_proof = pr\<rparr>"

datatype sdk_error =
    SdkE_InvalidPayment
  | SdkE_InvalidPolicy
  | SdkE_InvalidWitness
  | SdkE_ArtifactMalformed
  | SdkE_VersionUnsupported
  | SdkE_BackendUnsupported
  | SdkE_BackendMismatch
  | SdkE_PaymentMismatch
  | SdkE_PolicyMismatch
  | SdkE_CircuitMismatch
  | SdkE_ProofInvalid
  | SdkE_AuthorizationGenerationFailed
  | SdkE_SelfVerificationFailed
  | SdkE_Panic

datatype verification_failure =
    VF_PaymentMismatch
  | VF_PolicyMismatch
  | VF_CircuitMismatch
  | VF_BackendMismatch
  | VF_VersionMismatch
  | VF_ProofInvalid

datatype sdk_verification_result =
    SV_Valid
  | SV_Invalid verification_failure

fun is_valid :: "sdk_verification_result \<Rightarrow> bool" where
  "is_valid SV_Valid = True"
| "is_valid (SV_Invalid _) = False"

section \<open>Configuration and backends\<close>

definition DEFAULT_PROTOCOL_VERSION :: u8 where "DEFAULT_PROTOCOL_VERSION = PROTOCOL_VERSION"
definition DEFAULT_REPETITIONS :: u32 where "DEFAULT_REPETITIONS = 12"

record sdk_config =
  cfg_protocol_version :: u8
  cfg_backend_id :: bytes
  cfg_repetitions :: u32
  cfg_self_verify :: bool

definition SdkConfig_default :: sdk_config where
  "SdkConfig_default = \<lparr>cfg_protocol_version = DEFAULT_PROTOCOL_VERSION, cfg_backend_id = Sha256Backend_ID,
     cfg_repetitions = DEFAULT_REPETITIONS, cfg_self_verify = True\<rparr>"

datatype backend_type = BT_Sha256 | BT_Shake256

fun BackendType_id :: "backend_type \<Rightarrow> bytes" where
  "BackendType_id BT_Sha256 = Sha256Backend_ID"
| "BackendType_id BT_Shake256 = Shake256Backend_ID"

definition backend_from_id :: "bytes \<Rightarrow> (sdk_error, backend_type) result" where
  "backend_from_id bid =
     (if bid = Sha256Backend_ID then Inr BT_Sha256
      else if bid = Shake256Backend_ID then Inr BT_Shake256
      else Inl SdkE_BackendUnsupported)"

section \<open>Encoding and identity\<close>

definition SUPPORTED_PROTOCOL_VERSIONS :: "u8 list" where "SUPPORTED_PROTOCOL_VERSIONS = [1, 2]"
definition HEADER_LEN :: nat where "HEADER_LEN = 1 + 1 + 16 + 32 + 32 + 32"

definition serialize_authorization :: "('f \<Rightarrow> nat) \<Rightarrow> 'f authorization \<Rightarrow> bytes" where
  "serialize_authorization into_bigint auth =
     [au_version auth] @ [au_protocol_version auth] @ au_backend_id auth @ au_payment_id auth @
     digest_bytes (au_policy_id auth) @ digest_bytes (au_circuit_id auth) @ serialize_proof into_bigint (au_proof auth)"

definition sdk_read_digest :: "bytes \<Rightarrow> (sdk_error, digest) result" where
  "sdk_read_digest bs = (if length bs \<noteq> 32 then Inl SdkE_ArtifactMalformed else Inr (Digest bs))"

fun sdk_proof_error :: "proof_error \<Rightarrow> sdk_error" where
  "sdk_proof_error PfE_InvalidVersion = SdkE_VersionUnsupported"
| "sdk_proof_error PfE_UnsupportedBackend = SdkE_BackendUnsupported"
| "sdk_proof_error PfE_Panic = SdkE_Panic"
| "sdk_proof_error _ = SdkE_ArtifactMalformed"

definition sdk_decode_proof :: "nat \<Rightarrow> bytes \<Rightarrow> (sdk_error, 'f::comm_ring_1 noninteractive_proof) result" where
  "sdk_decode_proof modulus bs = map_err sdk_proof_error (deserialize_proof modulus bs)"

text \<open>\<open>bytes[a..b]\<close>\<close>

definition slice_at :: "nat \<Rightarrow> nat \<Rightarrow> bytes \<Rightarrow> bytes" where
  "slice_at a b bs = take (b - a) (drop a bs)"

definition deserialize_authorization :: "nat \<Rightarrow> bytes \<Rightarrow> (sdk_error, 'f::comm_ring_1 authorization) result" where
  "deserialize_authorization modulus bs =
     (if length bs < HEADER_LEN then Inl SdkE_ArtifactMalformed
      else
        let version = bs ! 0 in
        if version \<noteq> AUTHORIZATION_VERSION then Inl SdkE_VersionUnsupported
        else
          let protocol_version = bs ! 1 in
          if protocol_version \<notin> set SUPPORTED_PROTOCOL_VERSIONS then Inl SdkE_VersionUnsupported
          else
            let backend_id = slice_at 2 18 bs in
            if backend_id \<notin> set SUPPORTED_BACKEND_IDS then Inl SdkE_BackendUnsupported
            else
              rbind (sdk_read_digest (slice_at 50 82 bs)) (\<lambda>pid.
              rbind (sdk_read_digest (slice_at 82 114 bs)) (\<lambda>cid.
              rbind (sdk_decode_proof modulus (drop HEADER_LEN bs)) (\<lambda>pr.
              Inr (Authorization_new version protocol_version backend_id (slice_at 18 50 bs) pid cid pr)))))"

text \<open>\<open>None\<close> is the panic of the length prefix on a proof of \<open>2 ^ 32\<close> bytes or more.\<close>

definition authorization_id :: "(bytes \<Rightarrow> bytes) \<Rightarrow> ('f \<Rightarrow> nat) \<Rightarrow> 'f authorization \<Rightarrow> digest option" where
  "authorization_id sha256 into_bigint auth =
     map_option (\<lambda>buf. Digest (Sha256Hash_hash_domain sha256 AUTHORIZATION_ID_DOMAIN buf))
       (encode_length_prefixed (serialize_proof into_bigint (au_proof auth))
         ([au_version auth] @ [au_protocol_version auth] @ au_backend_id auth @ au_payment_id auth @
          digest_bytes (au_policy_id auth) @ digest_bytes (au_circuit_id auth)))"

section \<open>Helpers of the workflows\<close>

definition PAYMENT_ENCODING_VERSION :: u8 where "PAYMENT_ENCODING_VERSION = 1"

definition validate_payment :: "payment \<Rightarrow> (sdk_error, unit) result" where
  "validate_payment pay = (if pay_version pay \<noteq> PAYMENT_ENCODING_VERSION then Inl SdkE_InvalidPayment else Inr ())"

definition nonce_domain :: bytes where "nonce_domain = ascii ''private-payment-auth/sdk/nonce/v1''"

definition deterministic_nonce :: "(bytes \<Rightarrow> bytes) \<Rightarrow> bytes \<Rightarrow> digest \<Rightarrow> digest \<Rightarrow> bytes" where
  "deterministic_nonce sha256 payment_id pid cid =
     Sha256Hash_hash_domain sha256 nonce_domain (payment_id @ digest_bytes pid @ digest_bytes cid)"

definition build_statement ::
    "(bytes \<Rightarrow> bytes) \<Rightarrow> payment \<Rightarrow> digest \<Rightarrow> digest \<Rightarrow> u8 \<Rightarrow> bytes \<Rightarrow> (sdk_error, payment_statement) result" where
  "build_statement sha256 pay pid cid protocol_version nonce =
     Inr \<lparr>st_payment_id = Payment_payment_id sha256 pay,
       st_amount = \<lparr>am_value = am_value (pay_amount pay), am_unit = am_unit (pay_amount pay)\<rparr>,
       st_recipient = pay_recipient pay, st_policy_id = pid, st_circuit_id = cid,
       st_protocol_version = protocol_version, st_nonce = nonce\<rparr>"

fun relation_to_sdk_error :: "payment_error \<Rightarrow> sdk_error" where
  "relation_to_sdk_error PyE_InvalidPolicy = SdkE_InvalidPolicy"
| "relation_to_sdk_error PyE_PolicyIdMismatch = SdkE_PolicyMismatch"
| "relation_to_sdk_error PyE_WitnessCountMismatch = SdkE_InvalidWitness"
| "relation_to_sdk_error PyE_MalformedCredentialSecret = SdkE_InvalidWitness"
| "relation_to_sdk_error PyE_AmountMismatch = SdkE_InvalidWitness"
| "relation_to_sdk_error PyE_AmountExceedsLimit = SdkE_InvalidWitness"
| "relation_to_sdk_error PyE_InvalidBitWitness = SdkE_InvalidWitness"
| "relation_to_sdk_error PyE_Panic = SdkE_Panic"
| "relation_to_sdk_error _ = SdkE_AuthorizationGenerationFailed"

text \<open>\<open>map_err(|_| e)\<close> on a policy or payment error; a panic stays a panic.\<close>

definition sdk_policy_err :: "sdk_error \<Rightarrow> policy_error \<Rightarrow> sdk_error" where
  "sdk_policy_err e pe = (if pe = PE_Panic then SdkE_Panic else e)"

definition sdk_payment_err :: "sdk_error \<Rightarrow> payment_error \<Rightarrow> sdk_error" where
  "sdk_payment_err e pe = (if pe = PyE_Panic then SdkE_Panic else e)"

section \<open>Verification\<close>

fun sdk_verdict :: "(payment_error, bool) result \<Rightarrow> (sdk_error, sdk_verification_result) result" where
  "sdk_verdict (Inr True) = Inr SV_Valid"
| "sdk_verdict (Inr False) = Inr (SV_Invalid VF_ProofInvalid)"
| "sdk_verdict (Inl e) = (if e = PyE_Panic then Inl SdkE_Panic else Inr (SV_Invalid VF_ProofInvalid))"

text \<open>Steps 3 to 5 of \<open>verify_with\<close> before the proof is checked: a failure, or the normalised policy with the
  statement.\<close>

definition recompute_bindings ::
    "(bytes \<Rightarrow> bytes) \<Rightarrow> ('f::comm_ring_1 \<Rightarrow> nat) \<Rightarrow> nat \<Rightarrow> payment \<Rightarrow> policy \<Rightarrow> 'f authorization \<Rightarrow>
     (sdk_error, verification_failure + policy \<times> payment_statement) result" where
  "recompute_bindings sha256 into_bigint width pay p auth =
     rbind (map_err (sdk_policy_err SdkE_InvalidPolicy) (policy_normalize p)) (\<lambda>normalized.
     rbind (map_err (sdk_policy_err SdkE_InvalidPolicy) (policy_id sha256 normalized)) (\<lambda>pid.
     if au_policy_id auth \<noteq> pid then Inr (Inl VF_PolicyMismatch) else
     rbind (map_err (sdk_payment_err SdkE_InvalidPolicy) (payment_circuit_id sha256 into_bigint width normalized)) (\<lambda>cid.
     if au_circuit_id auth \<noteq> cid then Inr (Inl VF_CircuitMismatch)
     else if au_payment_id auth \<noteq> pay_id pay then Inr (Inl VF_PaymentMismatch)
     else
       rbind (build_statement sha256 pay pid cid (au_protocol_version auth)
           (deterministic_nonce sha256 (au_payment_id auth) (au_policy_id auth) (au_circuit_id auth))) (\<lambda>st.
       Inr (Inr (normalized, st))))))"

definition verify_with ::
    "(bytes \<Rightarrow> bytes) \<Rightarrow> ('f::comm_ring_1 \<Rightarrow> nat) \<Rightarrow> nat \<Rightarrow> bytes \<Rightarrow> sdk_config \<Rightarrow> payment \<Rightarrow> policy \<Rightarrow> 'f authorization \<Rightarrow>
     (sdk_error, sdk_verification_result) result option" where
  "verify_with sha256 into_bigint width backend_id cfg pay p auth =
     (if backend_id \<noteq> Sha256Backend_ID then Some (Inl SdkE_BackendUnsupported)
      else if au_version auth \<noteq> AUTHORIZATION_VERSION then Some (Inr (SV_Invalid VF_VersionMismatch))
      else if au_backend_id auth \<noteq> cfg_backend_id cfg then Some (Inr (SV_Invalid VF_BackendMismatch))
      else if au_backend_id auth \<noteq> backend_id then Some (Inr (SV_Invalid VF_BackendMismatch))
      else
        (case recompute_bindings sha256 into_bigint width pay p auth of
           Inl e \<Rightarrow> Some (Inl e)
         | Inr (Inl failure) \<Rightarrow> Some (Inr (SV_Invalid failure))
         | Inr (Inr (normalized, st)) \<Rightarrow>
             map_option sdk_verdict (verify_payment_authorization sha256 into_bigint width st (au_proof auth) normalized)))"

definition sdk_verify ::
    "(bytes \<Rightarrow> bytes) \<Rightarrow> ('f::comm_ring_1 \<Rightarrow> nat) \<Rightarrow> nat \<Rightarrow> sdk_config \<Rightarrow> payment \<Rightarrow> policy \<Rightarrow> 'f authorization \<Rightarrow>
     (sdk_error, sdk_verification_result) result option" where
  "sdk_verify sha256 into_bigint width cfg pay p auth =
     (if au_backend_id auth \<noteq> cfg_backend_id cfg then Some (Inl SdkE_BackendMismatch)
      else
        (case backend_from_id (au_backend_id auth) of
           Inl e \<Rightarrow> Some (Inl e)
         | Inr BT_Sha256 \<Rightarrow> verify_with sha256 into_bigint width Sha256Backend_ID cfg pay p auth
         | Inr BT_Shake256 \<Rightarrow> Some (Inl SdkE_BackendUnsupported)))"

section \<open>Authorization\<close>

text \<open>Steps 1 to 6 of \<open>authorize_with\<close>.\<close>

definition prepare_authorization ::
    "(bytes \<Rightarrow> bytes) \<Rightarrow> ('f::comm_ring_1 \<Rightarrow> nat) \<Rightarrow> nat \<Rightarrow> ('f \<Rightarrow> 'f option) \<Rightarrow> sdk_config \<Rightarrow> payment \<Rightarrow> policy \<Rightarrow> private_witness \<Rightarrow>
     (sdk_error, policy \<times> digest \<times> digest \<times> payment_statement) result" where
  "prepare_authorization sha256 into_bigint width inverse_op cfg pay p w =
     rbind (validate_payment pay) (\<lambda>_.
     rbind (map_err (sdk_policy_err SdkE_InvalidPolicy) (policy_validate p)) (\<lambda>_.
     rbind (map_err (sdk_policy_err SdkE_InvalidPolicy) (policy_normalize p)) (\<lambda>normalized.
     rbind (map_err (sdk_policy_err SdkE_InvalidPolicy) (policy_id sha256 normalized)) (\<lambda>pid.
     rbind (map_err (sdk_payment_err SdkE_InvalidPolicy) (payment_circuit_id sha256 into_bigint width normalized)) (\<lambda>cid.
     rbind (build_statement sha256 pay pid cid (cfg_protocol_version cfg) (deterministic_nonce sha256 (pay_id pay) pid cid)) (\<lambda>st.
     rbind (map_err relation_to_sdk_error (Relation_validate sha256 into_bigint width inverse_op st w normalized)) (\<lambda>_.
     Inr (normalized, pid, cid, st))))))))"

definition authorize_with ::
    "(bytes \<Rightarrow> bytes) \<Rightarrow> ('f::comm_ring_1 \<Rightarrow> nat) \<Rightarrow> nat \<Rightarrow> ('f \<Rightarrow> 'f option) \<Rightarrow> ('g \<Rightarrow> 'f \<times> 'g) \<Rightarrow> ('g \<Rightarrow> nat \<Rightarrow> bytes \<times> 'g) \<Rightarrow>
     bytes \<Rightarrow> sdk_config \<Rightarrow> payment \<Rightarrow> policy \<Rightarrow> private_witness \<Rightarrow> 'g \<Rightarrow> ((sdk_error, 'f authorization) result \<times> 'g) option" where
  "authorize_with sha256 into_bigint width inverse_op rand fill_bytes backend_id cfg pay p w g =
     (if backend_id \<noteq> Sha256Backend_ID then Some (Inl SdkE_BackendUnsupported, g)
      else
        (case prepare_authorization sha256 into_bigint width inverse_op cfg pay p w of
           Inl e \<Rightarrow> Some (Inl e, g)
         | Inr (normalized, pid, cid, st) \<Rightarrow>
             (let (r, g') = authorize_payment sha256 into_bigint width inverse_op rand fill_bytes st w normalized g in
              (case map_err (sdk_payment_err SdkE_AuthorizationGenerationFailed) r of
                 Inl e \<Rightarrow> Some (Inl e, g')
               | Inr pr \<Rightarrow>
                   (let auth = Authorization_new AUTHORIZATION_VERSION (cfg_protocol_version cfg) backend_id (pay_id pay) pid cid pr in
                    if cfg_self_verify cfg then
                      (case verify_with sha256 into_bigint width backend_id cfg pay p auth of
                         None \<Rightarrow> None
                       | Some (Inl e) \<Rightarrow> Some (Inl e, g')
                       | Some (Inr res) \<Rightarrow>
                           if \<not> is_valid res then Some (Inl SdkE_SelfVerificationFailed, g') else Some (Inr auth, g'))
                    else Some (Inr auth, g'))))))"

definition sdk_authorize ::
    "(bytes \<Rightarrow> bytes) \<Rightarrow> ('f::comm_ring_1 \<Rightarrow> nat) \<Rightarrow> nat \<Rightarrow> ('f \<Rightarrow> 'f option) \<Rightarrow> ('g \<Rightarrow> 'f \<times> 'g) \<Rightarrow> ('g \<Rightarrow> nat \<Rightarrow> bytes \<times> 'g) \<Rightarrow>
     sdk_config \<Rightarrow> payment \<Rightarrow> policy \<Rightarrow> private_witness \<Rightarrow> 'g \<Rightarrow> ((sdk_error, 'f authorization) result \<times> 'g) option" where
  "sdk_authorize sha256 into_bigint width inverse_op rand fill_bytes cfg pay p w g =
     (case backend_from_id (cfg_backend_id cfg) of
        Inl e \<Rightarrow> Some (Inl e, g)
      | Inr BT_Sha256 \<Rightarrow> authorize_with sha256 into_bigint width inverse_op rand fill_bytes Sha256Backend_ID cfg pay p w g
      | Inr BT_Shake256 \<Rightarrow> Some (Inl SdkE_BackendUnsupported, g))"

definition authorize_sha256 ::
    "(bytes \<Rightarrow> bytes) \<Rightarrow> ('f::comm_ring_1 \<Rightarrow> nat) \<Rightarrow> nat \<Rightarrow> ('f \<Rightarrow> 'f option) \<Rightarrow> ('g \<Rightarrow> 'f \<times> 'g) \<Rightarrow> ('g \<Rightarrow> nat \<Rightarrow> bytes \<times> 'g) \<Rightarrow>
     sdk_config \<Rightarrow> payment \<Rightarrow> policy \<Rightarrow> private_witness \<Rightarrow> 'g \<Rightarrow> ((sdk_error, 'f authorization) result \<times> 'g) option" where
  "authorize_sha256 sha256 into_bigint width inverse_op rand fill_bytes cfg pay p w g =
     authorize_with sha256 into_bigint width inverse_op rand fill_bytes Sha256Backend_ID cfg pay p w g"

definition verify_sha256 ::
    "(bytes \<Rightarrow> bytes) \<Rightarrow> ('f::comm_ring_1 \<Rightarrow> nat) \<Rightarrow> nat \<Rightarrow> sdk_config \<Rightarrow> payment \<Rightarrow> policy \<Rightarrow> 'f authorization \<Rightarrow>
     (sdk_error, sdk_verification_result) result option" where
  "verify_sha256 sha256 into_bigint width cfg pay p auth = verify_with sha256 into_bigint width Sha256Backend_ID cfg pay p auth"

end
