(* ===== verification/Sdk_Correct.thy ===== *)
theory Sdk_Correct
  imports Sdk
begin

text \<open>
  Correctness of the SDK: what its encoding accepts, to which payment and policy a valid authorization is bound, that an
  authorization it issues is one it accepts, and that the forgery of the proof system reaches its interface.
\<close>

section \<open>Bindings\<close>

definition sdk_statement :: "(bytes \<Rightarrow> bytes) \<Rightarrow> payment \<Rightarrow> digest \<Rightarrow> digest \<Rightarrow> u8 \<Rightarrow> payment_statement" where
  "sdk_statement sha256 pay pid cid protocol_version =
     \<lparr>st_payment_id = Payment_payment_id sha256 pay, st_amount = pay_amount pay, st_recipient = pay_recipient pay,
      st_policy_id = pid, st_circuit_id = cid, st_protocol_version = protocol_version,
      st_nonce = deterministic_nonce sha256 (pay_id pay) pid cid\<rparr>"

lemma build_statement_eq:
  "build_statement sha256 pay pid cid protocol_version (deterministic_nonce sha256 (pay_id pay) pid cid) =
     Inr (sdk_statement sha256 pay pid cid protocol_version)"
  by (simp add: build_statement_def sdk_statement_def)

lemma normalize_twice [simp]: "normalize_node (normalize_node p) = normalize_node p"
  by (simp add: normal_form_normalize normalize_normal_form)

lemma policy_id_normalize [simp]: "policy_id sha256 (normalize_node p) = policy_id sha256 p"
  by (simp add: policy_id_def policy_normalize_def)

lemma map_err_Inr [simp]: "map_err f r = Inr x \<longleftrightarrow> r = Inr x"
  by (cases r) simp_all

lemma recompute_bindings_iff:
  "recompute_bindings sha256 into_bigint width pay p auth = Inr (Inr (n, st)) \<longleftrightarrow>
     n = normalize_node p \<and> policy_id sha256 p = Inr (au_policy_id auth) \<and>
     payment_circuit_id sha256 into_bigint width n = Inr (au_circuit_id auth) \<and> au_payment_id auth = pay_id pay \<and>
     st = sdk_statement sha256 pay (au_policy_id auth) (au_circuit_id auth) (au_protocol_version auth)"
  using build_statement_eq [of sha256 pay "au_policy_id auth" "au_circuit_id auth" "au_protocol_version auth"]
  by (auto simp: recompute_bindings_def policy_normalize_def)

lemma prepare_authorization_iff:
  "prepare_authorization sha256 into_bigint width inverse_op cfg pay p w = Inr (n, pid, cid, st) \<longleftrightarrow>
     n = normalize_node p \<and> pay_version pay = PAYMENT_ENCODING_VERSION \<and> policy_valid p \<and> policy_id sha256 p = Inr pid \<and>
     payment_circuit_id sha256 into_bigint width n = Inr cid \<and> st = sdk_statement sha256 pay pid cid (cfg_protocol_version cfg) \<and>
     Relation_validate sha256 into_bigint width inverse_op st w n = Inr ()"
  by (auto simp: prepare_authorization_def policy_normalize_def validate_payment_def build_statement_eq policy_validate_iff)

lemma sdk_verdict_Valid: "sdk_verdict r = Inr SV_Valid \<longleftrightarrow> r = Inr True"
  by (cases r rule: sdk_verdict.cases) auto

lemma backends_distinct [simp]: "Sha256Backend_ID \<noteq> Shake256Backend_ID" "Shake256Backend_ID \<noteq> Sha256Backend_ID"
  by (simp_all add: Sha256Backend_ID_def Shake256Backend_ID_def ascii_def)

lemma backend_from_id_iff: "backend_from_id bid = Inr t \<longleftrightarrow> bid = BackendType_id t"
  by (cases t) (auto simp: backend_from_id_def)

lemma verify_with_valid_iff:
  "verify_with sha256 into_bigint width Sha256Backend_ID cfg pay p auth = Some (Inr SV_Valid) \<longleftrightarrow>
     au_version auth = AUTHORIZATION_VERSION \<and> au_backend_id auth = Sha256Backend_ID \<and> cfg_backend_id cfg = Sha256Backend_ID \<and>
     (\<exists>st. recompute_bindings sha256 into_bigint width pay p auth = Inr (Inr (normalize_node p, st)) \<and>
        verify_payment_authorization sha256 into_bigint width st (au_proof auth) (normalize_node p) = Some (Inr True))"
proof (cases "recompute_bindings sha256 into_bigint width pay p auth")
  case (Inr r)
  then show ?thesis
    by (cases r) (auto simp: verify_with_def sdk_verdict_Valid recompute_bindings_iff dest: recompute_bindings_iff [THEN iffD1])
qed (simp add: verify_with_def)

lemma sdk_verify_eq:
  "cfg_backend_id cfg = Sha256Backend_ID \<Longrightarrow> au_backend_id auth = Sha256Backend_ID \<Longrightarrow>
   sdk_verify sha256 into_bigint width cfg pay p auth = verify_with sha256 into_bigint width Sha256Backend_ID cfg pay p auth"
  by (simp add: sdk_verify_def backend_from_id_def)

lemma sdk_verify_valid_iff:
  "sdk_verify sha256 into_bigint width cfg pay p auth = Some (Inr SV_Valid) \<longleftrightarrow>
     verify_with sha256 into_bigint width Sha256Backend_ID cfg pay p auth = Some (Inr SV_Valid)"
proof (cases "au_backend_id auth = cfg_backend_id cfg")
  case True
  show ?thesis
  proof (cases "backend_from_id (au_backend_id auth)")
    case (Inl e)
    then have "au_backend_id auth \<noteq> Sha256Backend_ID" by (auto simp: backend_from_id_def)
    then show ?thesis using Inl True by (auto simp: sdk_verify_def verify_with_valid_iff)
  next
    case (Inr t)
    then show ?thesis
      using True by (cases t) (simp_all add: sdk_verify_def verify_with_valid_iff, simp add: backend_from_id_iff)
  qed
qed (auto simp: sdk_verify_def verify_with_valid_iff)

text \<open>The proof inside an accepted authorization carries the values of the statement it was verified
  for: its last four public inputs are the amount, the recipient, the nonce and the payment id.\<close>

lemma verified_public_inputs:
  assumes "verify_payment_authorization sha256 into_bigint width st pr p = Some (Inr True)"
  obtains pubs where "sta_public_inputs (np_statement pr) = pubs @ binding_values st"
proof -
  obtain bound fs where fs: "recomputed_statement sha256 into_bigint width st (sta_circuit_id (np_statement pr)) p = Inr (bound, fs)"
    and v: "map_option payment_verdict (Verifier_verify sha256 (Sha256Backend sha256) into_bigint width bound fs pr) = Some (Inr True)"
    using assms by (auto simp: verify_payment_authorization_def split: sum.splits)
  have "Verifier_verify sha256 (Sha256Backend sha256) into_bigint width bound fs pr = Some (Inr VR_Valid)"
    using v by (auto elim!: payment_verdict.elims)
  then have "np_statement pr = fs"
    by (auto simp: Verifier_verify_def verify_structure_def ensure_def rbind_eq_Inr split: if_splits sum.splits)
  moreover obtain pubs where "sta_public_inputs fs = pubs @ binding_values st"
    using fs by (auto simp: recomputed_statement_def bound_public_inputs_def Let_def)
  ultimately show thesis using that by simp
qed

lemma verified_binding_values:
  assumes "verify_payment_authorization sha256 into_bigint width st (pr :: 'f noninteractive_proof) p = Some (Inr True)"
    "verify_payment_authorization sha256 into_bigint width st' pr p' = Some (Inr True)"
  shows "binding_values st' = (binding_values st :: 'f::comm_ring_1 list)"
proof -
  obtain pubs where "sta_public_inputs (np_statement pr) = pubs @ binding_values st" by (rule verified_public_inputs [OF assms(1)])
  moreover obtain pubs' where "sta_public_inputs (np_statement pr) = pubs' @ binding_values st'" by (rule verified_public_inputs [OF assms(2)])
  moreover have "length (binding_values st :: 'f list) = length (binding_values st' :: 'f list)" by (simp add: binding_values_def)
  ultimately show ?thesis using append_eq_append_conv by metis
qed

context compiler_field
begin

lemma amount_inject: "of_nat (unat a) = (of_nat (unat b) :: 'f) \<longleftrightarrow> a = (b :: u64)"
proof
  have "unat x < modulus" for x :: u64
    using unsigned_less [of x, where ?'a = nat] modulus_large by simp
  then show "a = b" if "of_nat (unat a) = (of_nat (unat b) :: 'f)"
    using that into_bigint_of_nat by (metis unsigned_word_eqI)
qed simp

end

section \<open>The round trip\<close>

text \<open>The payments the SDK authorises: the record has the supported version, the policy and its normal form
  are valid, and the witness satisfies the normal form, with the secrets in the order of its leaves.\<close>

definition sdk_payment_ok :: "(bytes \<Rightarrow> bytes) \<Rightarrow> payment \<Rightarrow> private_witness \<Rightarrow> policy \<Rightarrow> bool" where
  "sdk_payment_ok sha256 pay w p \<longleftrightarrow> pay_version pay = PAYMENT_ENCODING_VERSION \<and> policy_valid p \<and> policy_valid (normalize_node p) \<and>
     (\<exists>d. policy_id sha256 p = Inr d) \<and> witness_shape w (normalize_node p) \<and> pw_amount w = pay_amount pay \<and>
     caps_ok w (normalize_node p) \<and> sat sha256 (witness_of w (normalize_node p)) (normalize_node p)"

definition config_ok :: "sdk_config \<Rightarrow> bool" where
  "config_ok cfg \<longleftrightarrow> cfg_backend_id cfg = Sha256Backend_ID \<and> cfg_protocol_version cfg = PROTOCOL_VERSION"

lemma payment_ok_sdk:
  "policy_id sha256 p = Inr pid \<Longrightarrow>
   payment_ok sha256 (sdk_statement sha256 pay pid cid pv) w (normalize_node p) \<longleftrightarrow>
     policy_valid (normalize_node p) \<and> witness_shape w (normalize_node p) \<and> pw_amount w = pay_amount pay \<and>
     caps_ok w (normalize_node p) \<and> sat sha256 (witness_of w (normalize_node p)) (normalize_node p)"
  by (auto simp: payment_ok_def sdk_statement_def Policy_policy_id_def)

context payment_env
begin

lemma prepare_iff_ok:
  assumes small: "policy_small p" and cp: "wiring_compile into_bigint width (normalize_node p) = Inr cp"
  shows "(\<exists>x. prepare_authorization sha256 into_bigint width inverse_op cfg pay p w = Inr x) \<longleftrightarrow> sdk_payment_ok sha256 pay w p"
proof -
  obtain cid where "payment_circuit_id sha256 into_bigint width (normalize_node p) = Inr cid"
    using bound_compiled(9) [OF cp, of sha256] cp payment_circuit_id_iff by blast
  then show ?thesis
    using relation_iff [OF small_normalize [OF small]] payment_ok_sdk [of sha256 p]
    by (auto simp: prepare_authorization_iff sdk_payment_ok_def split_paired_Ex)
qed

lemma statement_bound:
  assumes "policy_id sha256 p = Inr pid" "payment_circuit_id sha256 into_bigint width (normalize_node p) = Inr cid"
  shows "check_statement_binding sha256 into_bigint width (sdk_statement sha256 pay pid cid pv) (normalize_node p) = Inr () \<longleftrightarrow>
    pv = PROTOCOL_VERSION"
  using assms by (auto simp: check_statement_binding_iff sdk_statement_def Policy_policy_id_def)

lemma sdk_round_trip:
  assumes small: "policy_small p" and cp: "wiring_compile into_bigint width (normalize_node p) = Inr cp"
    and size: "length (c_nodes (cp_circuit cp)) + 8 \<le> MAX_CIRCUIT_NODES"
    and cfg: "config_ok cfg" and ok: "sdk_payment_ok sha256 pay w p"
  shows "\<exists>auth g'. sdk_authorize sha256 into_bigint width inverse_op rand fill_bytes cfg pay p w g = Some (Inr auth, g') \<and>
    sdk_verify sha256 into_bigint width cfg pay p auth = Some (Inr SV_Valid)"
proof -
  let ?n = "normalize_node p"
  obtain pid cid st where prep: "prepare_authorization sha256 into_bigint width inverse_op cfg pay p w = Inr (?n, pid, cid, st)"
    using prepare_iff_ok [OF small cp] ok prepare_authorization_iff by (metis prod_cases4)
  then have ids: "policy_id sha256 p = Inr pid" "payment_circuit_id sha256 into_bigint width ?n = Inr cid"
    and st: "st = sdk_statement sha256 pay pid cid PROTOCOL_VERSION"
    using cfg by (auto simp: prepare_authorization_iff config_ok_def)
  have pay: "payment_ok sha256 st w ?n" using ok payment_ok_sdk [OF ids(1)] by (auto simp: st sdk_payment_ok_def)
  have bind: "check_statement_binding sha256 into_bigint width st ?n = Inr ()" using statement_bound [OF ids] by (simp add: st)
  obtain pr g' where pr: "authorize_payment sha256 into_bigint width inverse_op rand fill_bytes st w ?n g = (Inr pr, g')"
    "verify_payment_authorization sha256 into_bigint width st pr ?n = Some (Inr True)"
    using authorize_payment_ok [OF small_normalize [OF small] pay bind cp size] by blast
  let ?auth = "Authorization_new AUTHORIZATION_VERSION PROTOCOL_VERSION Sha256Backend_ID (pay_id pay) pid cid pr"
  have valid: "verify_with sha256 into_bigint width Sha256Backend_ID cfg pay p ?auth = Some (Inr SV_Valid)"
    using ids pr(2) st cfg by (auto simp: verify_with_valid_iff recompute_bindings_iff Authorization_new_def config_ok_def)
  then have "sdk_authorize sha256 into_bigint width inverse_op rand fill_bytes cfg pay p w g = Some (Inr ?auth, g')"
    using prep pr(1) cfg by (simp add: sdk_authorize_def backend_from_id_def authorize_with_def config_ok_def Let_def)
  moreover have "sdk_verify sha256 into_bigint width cfg pay p ?auth = Some (Inr SV_Valid)"
    using valid sdk_verify_valid_iff by blast
  ultimately show ?thesis by blast
qed

lemma sdk_authorize_only:
  assumes small: "policy_small p" and cp: "wiring_compile into_bigint width (normalize_node p) = Inr cp"
    and run: "\<nexists>e g'. sdk_authorize sha256 into_bigint width inverse_op rand fill_bytes cfg pay p w g = Some (Inl e, g')"
  shows "config_ok cfg \<and> sdk_payment_ok sha256 pay w p"
proof -
  have b: "cfg_backend_id cfg = Sha256Backend_ID"
    and run': "\<nexists>e g'. authorize_with sha256 into_bigint width inverse_op rand fill_bytes Sha256Backend_ID cfg pay p w g = Some (Inl e, g')"
    using run by (auto simp: sdk_authorize_def backend_from_id_iff split: sum.splits backend_type.splits)
  obtain n pid cid st where prep: "prepare_authorization sha256 into_bigint width inverse_op cfg pay p w = Inr (n, pid, cid, st)"
    using run' by (auto simp: authorize_with_def split: sum.splits)
  obtain pr g1 where "authorize_payment sha256 into_bigint width inverse_op rand fill_bytes st w n g = (Inr pr, g1)"
    using run' prep by (cases "authorize_payment sha256 into_bigint width inverse_op rand fill_bytes st w n g"; cases "fst (authorize_payment sha256 into_bigint width inverse_op rand fill_bytes st w n g)")
      (auto simp: authorize_with_def)
  then have "check_statement_binding sha256 into_bigint width st n = Inr ()" using authorize_checks [of rand st w n g pr] by simp
  then have "cfg_protocol_version cfg = PROTOCOL_VERSION" using prep statement_bound by (auto simp: prepare_authorization_iff)
  moreover have "sdk_payment_ok sha256 pay w p" using prep prepare_iff_ok [OF small cp] by blast
  ultimately show ?thesis using b by (simp add: config_ok_def)
qed

text \<open>An authorization with a forged proof.\<close>

lemma sdk_forged:
  assumes ids: "policy_id sha256 p = Inr pid" "payment_circuit_id sha256 into_bigint width (normalize_node p) = Inr cid"
    and cp: "wiring_compile into_bigint width (normalize_node p) = Inr cp"
    and size: "length (c_nodes (cp_circuit cp)) + 8 \<le> MAX_CIRCUIT_NODES" and cfg: "config_ok cfg"
  shows "\<exists>pr. forge_payment sha256 into_bigint width rand fill_bytes (sdk_statement sha256 pay pid cid PROTOCOL_VERSION) (normalize_node p) g = Inr pr \<and>
    sdk_verify sha256 into_bigint width cfg pay p (Authorization_new AUTHORIZATION_VERSION PROTOCOL_VERSION Sha256Backend_ID (pay_id pay) pid cid pr) =
      Some (Inr SV_Valid)"
proof -
  let ?st = "sdk_statement sha256 pay pid cid PROTOCOL_VERSION"
  obtain pr where "forge_payment sha256 into_bigint width rand fill_bytes ?st (normalize_node p) g = Inr pr"
    "verify_payment_authorization sha256 into_bigint width ?st pr (normalize_node p) = Some (Inr True)"
    using forge_payment_ok [OF _ cp size, where st = ?st and rand = rand and g = g] statement_bound [OF ids] by auto
  then show ?thesis
    using ids cfg by (auto simp: sdk_verify_valid_iff verify_with_valid_iff recompute_bindings_iff Authorization_new_def config_ok_def)
qed

end

section \<open>Encoding\<close>

definition authorization_ok :: "('f \<Rightarrow> nat) \<Rightarrow> 'f authorization \<Rightarrow> bool" where
  "authorization_ok into_bigint auth \<longleftrightarrow> au_version auth = AUTHORIZATION_VERSION \<and>
     au_protocol_version auth \<in> set SUPPORTED_PROTOCOL_VERSIONS \<and> au_backend_id auth \<in> set SUPPORTED_BACKEND_IDS \<and>
     length (au_payment_id auth) = 32 \<and> digest_wf (au_policy_id auth) \<and> digest_wf (au_circuit_id auth) \<and>
     noninteractive_ok into_bigint (au_proof auth)"

lemma header_split:
  assumes "HEADER_LEN \<le> length bs"
  shows "bs = [bs ! 0] @ [bs ! 1] @ slice_at 2 18 bs @ slice_at 18 50 bs @ slice_at 50 82 bs @ slice_at 82 114 bs @ drop HEADER_LEN bs"
    and "length (slice_at 2 18 bs) = 16" "length (slice_at 18 50 bs) = 32" "length (slice_at 50 82 bs) = 32" "length (slice_at 82 114 bs) = 32"
proof -
  obtain a b cs where bs: "bs = a # b # cs" using assms by (cases bs; cases "tl bs") (auto simp: HEADER_LEN_def)
  have cut: "drop k cs = take m (drop k cs) @ drop (k + m) cs" for k m
    by (metis append_take_drop_id drop_drop add.commute)
  show "bs = [bs ! 0] @ [bs ! 1] @ slice_at 2 18 bs @ slice_at 18 50 bs @ slice_at 50 82 bs @ slice_at 82 114 bs @ drop HEADER_LEN bs"
    using cut [of 0 16] cut [of 16 32] cut [of 48 32] cut [of 80 32] by (simp add: bs slice_at_def HEADER_LEN_def)
qed (use assms in \<open>simp_all add: slice_at_def HEADER_LEN_def\<close>)

context view_field
begin

lemma authorization_codec:
  "deserialize_authorization modulus bs = Inr auth \<longleftrightarrow>
     authorization_ok into_bigint auth \<and> bs = serialize_authorization into_bigint auth"
proof
  assume d: "deserialize_authorization modulus bs = Inr auth"
  then have len: "HEADER_LEN \<le> length bs" by (auto simp: deserialize_authorization_def split: if_splits)
  note parts = header_split [OF len]
  from d len have "authorization_ok into_bigint auth \<and> [bs ! 0] @ [bs ! 1] @ slice_at 2 18 bs @ slice_at 18 50 bs @ slice_at 50 82 bs @
      slice_at 82 114 bs @ drop HEADER_LEN bs = serialize_authorization into_bigint auth"
    using parts(2-5)
    by (auto simp: deserialize_authorization_def Let_def sdk_read_digest_def sdk_decode_proof_def proof_codec authorization_ok_def
        serialize_authorization_def Authorization_new_def digest_wf_def DIGEST_LEN_def split: if_splits)
  then show "authorization_ok into_bigint auth \<and> bs = serialize_authorization into_bigint auth"
    using parts(1) by simp
next
  assume ok: "authorization_ok into_bigint auth \<and> bs = serialize_authorization into_bigint auth"
  then have len: "length (au_backend_id auth) = 16" "length (au_payment_id auth) = 32" "length (digest_bytes (au_policy_id auth)) = 32"
      "length (digest_bytes (au_circuit_id auth)) = 32"
    using length_supported_backend [of "au_backend_id auth"]
    by (simp_all add: authorization_ok_def digest_wf_def DIGEST_LEN_def BACKEND_ID_LEN_def)
  have "deserialize_proof modulus (serialize_proof into_bigint (au_proof auth)) = Inr (au_proof auth)"
    using ok proof_codec by (auto simp: authorization_ok_def)
  then show "deserialize_authorization modulus bs = Inr auth"
    using ok len
    by (simp add: deserialize_authorization_def serialize_authorization_def Let_def slice_at_def sdk_read_digest_def sdk_decode_proof_def
        authorization_ok_def Authorization_new_def HEADER_LEN_def)
qed

end

section \<open>Properties\<close>

text \<open>C1: the SDK is correct end to end. For a policy whose circuit is of permitted size, \<open>authorize\<close> returns, and it
  returns an authorization exactly when the configuration names the SHA-256 backend and the protocol version
  of the proof system and the payment is authorised: the payment record has the supported version, the policy
  is valid before and after normalisation and small enough to be identified, and the witness has the
  amount of the payment, keeps the caps and satisfies the normalised policy. The verifier, from the payment, the
  policy and the authorization alone, then answers \<open>Valid\<close>.\<close>

theorem sdk_authorize_correct:
  assumes "compiler_field modulus (into_bigint :: 'f::comm_ring_1 \<Rightarrow> nat) inverse_op width"
    and "\<And>x. length (sha256 x) = 32" "\<And>g n. length (fst (fill_bytes g n)) = n"
    and small: "policy_small p" and cp: "wiring_compile into_bigint width (normalize_node p) = Inr cp"
    and size: "length (c_nodes (cp_circuit cp)) + 8 \<le> MAX_CIRCUIT_NODES"
  shows "case sdk_authorize sha256 into_bigint width inverse_op rand fill_bytes cfg pay p w g of
      None \<Rightarrow> False
    | Some (Inl e, g') \<Rightarrow> \<not> (config_ok cfg \<and> sdk_payment_ok sha256 pay w p)
    | Some (Inr auth, g') \<Rightarrow> config_ok cfg \<and> sdk_payment_ok sha256 pay w p \<and>
        sdk_verify sha256 into_bigint width cfg pay p auth = Some (Inr SV_Valid)"
proof -
  have env: "payment_env modulus into_bigint inverse_op width sha256 fill_bytes" by (rule payment_envI) (simp_all add: assms(1-3))
  let ?run = "sdk_authorize sha256 into_bigint width inverse_op rand fill_bytes cfg pay p w g"
  have good: "\<exists>auth g'. ?run = Some (Inr auth, g') \<and> sdk_verify sha256 into_bigint width cfg pay p auth = Some (Inr SV_Valid)"
    if "config_ok cfg \<and> sdk_payment_ok sha256 pay w p"
    using payment_env.sdk_round_trip [OF env small cp size] that by blast
  have bad: "\<exists>e g'. ?run = Some (Inl e, g')" if "\<not> (config_ok cfg \<and> sdk_payment_ok sha256 pay w p)"
    using payment_env.sdk_authorize_only [OF env small cp] that by blast
  show ?thesis using good bad by (cases "config_ok cfg \<and> sdk_payment_ok sha256 pay w p") fastforce+
qed

text \<open>C2: the SDK accepts a payment that nobody authorised. Whatever the payment, and for every policy with an
  id and a circuit of permitted size, an authorization built from the payment and the policy alone (a forged
  proof under the ids that \<open>verify\<close> recomputes) is \<open>Valid\<close>: no credential secret enters it.\<close>

theorem sdk_forgery:
  assumes "compiler_field modulus (into_bigint :: 'f::comm_ring_1 \<Rightarrow> nat) inverse_op width"
    and "\<And>x. length (sha256 x) = 32" "\<And>g n. length (fst (fill_bytes g n)) = n"
    and "policy_id sha256 p = Inr pid" "payment_circuit_id sha256 into_bigint width (normalize_node p) = Inr cid"
    and "wiring_compile into_bigint width (normalize_node p) = Inr cp" "length (c_nodes (cp_circuit cp)) + 8 \<le> MAX_CIRCUIT_NODES"
  shows "\<exists>pr. forge_payment sha256 into_bigint width rand fill_bytes (sdk_statement sha256 pay pid cid PROTOCOL_VERSION) (normalize_node p) g = Inr pr \<and>
    sdk_verify sha256 into_bigint width SdkConfig_default pay p
      (Authorization_new AUTHORIZATION_VERSION PROTOCOL_VERSION Sha256Backend_ID (pay_id pay) pid cid pr) = Some (Inr SV_Valid)"
proof -
  have env: "payment_env modulus into_bigint inverse_op width sha256 fill_bytes" by (rule payment_envI) (simp_all add: assms(1-3))
  have "config_ok SdkConfig_default" by (simp add: config_ok_def SdkConfig_default_def DEFAULT_PROTOCOL_VERSION_def)
  then show ?thesis by (rule payment_env.sdk_forged [OF env assms(4-7)])
qed

text \<open>C10: an authorization is bound to one payment and one policy. If \<open>Sdk::verify\<close> answers
  \<open>Valid\<close> for the same artifact with two payments and two policies, under any two configurations, then
  the payments have the same id and the same amount, their recipients and the digests of their encodings have
  the same residue in the field, and the policies have the same canonical form, or else the framed
  encodings of their canonical forms are a collision of SHA-256. The configurations do not matter: the
  \<open>protocol_version\<close> of the configuration, documented as the version expected of incoming authorizations, is
  not compared with that of the artifact, which only has to be the constant \<open>PROTOCOL_VERSION\<close>.\<close>

theorem sdk_verify_binds:
  assumes field: "compiler_field modulus (into_bigint :: 'f::comm_ring_1 \<Rightarrow> nat) inverse_op width"
    and small: "policy_small p" "policy_small p'"
    and valid: "sdk_verify sha256 into_bigint width cfg pay p auth = Some (Inr SV_Valid)"
      "sdk_verify sha256 into_bigint width cfg' pay' p' auth = Some (Inr SV_Valid)"
  shows "au_protocol_version auth = PROTOCOL_VERSION \<and> pay_id pay' = pay_id pay \<and>
    am_value (pay_amount pay') = am_value (pay_amount pay) \<and>
    digest_to_field (digest_bytes (pay_recipient pay')) = (digest_to_field (digest_bytes (pay_recipient pay)) :: 'f) \<and>
    digest_to_field (digest_bytes (Payment_payment_id sha256 pay')) = (digest_to_field (digest_bytes (Payment_payment_id sha256 pay)) :: 'f) \<and>
    (normalize_node p' = normalize_node p \<or>
      (let x = frame DOMAIN_POLICY (encode_policy (normalize_node p'));
           y = frame DOMAIN_POLICY (encode_policy (normalize_node p))
       in x \<noteq> y \<and> sha256 x = sha256 y))"
proof -
  note checks = valid [unfolded sdk_verify_valid_iff verify_with_valid_iff recompute_bindings_iff]
  let ?st = "\<lambda>pay. sdk_statement sha256 pay (au_policy_id auth) (au_circuit_id auth) (au_protocol_version auth)"
  have ids: "policy_id sha256 p = Inr (au_policy_id auth)" "policy_id sha256 p' = Inr (au_policy_id auth)"
    and pay: "pay_id pay' = pay_id pay"
    and ver: "verify_payment_authorization sha256 into_bigint width (?st pay) (au_proof auth) (normalize_node p) = Some (Inr True)"
      "verify_payment_authorization sha256 into_bigint width (?st pay') (au_proof auth) (normalize_node p') = Some (Inr True)"
    using checks by auto
  have b: "binding_values (?st pay') = (binding_values (?st pay) :: 'f list)" by (rule verified_binding_values [OF ver])
  then have "(of_nat (unat (am_value (pay_amount pay'))) :: 'f) = of_nat (unat (am_value (pay_amount pay)))"
    by (simp add: binding_values_def sdk_statement_def)
  then have "am_value (pay_amount pay') = am_value (pay_amount pay)" using compiler_field.amount_inject [OF field] by blast
  moreover have "check_statement_binding sha256 into_bigint width (?st pay) (normalize_node p) = Inr ()"
    using ver(1) by (auto simp: verify_payment_authorization_def recomputed_statement_def split: sum.splits)
  then have "au_protocol_version auth = PROTOCOL_VERSION"
    by (simp add: compiler_field.check_statement_binding_iff [OF field] sdk_statement_def)
  ultimately show ?thesis
    using b pay canonical_or_collision [OF small(2,1) ids(2,1)] by (auto simp: binding_values_def sdk_statement_def Let_def)
qed

text \<open>C27: the authorization encoding is canonical. \<open>deserialize_authorization\<close> accepts a byte string exactly when it is
  the encoding of an authorization with a supported version, protocol and backend, 32-byte ids and a well-formed proof,
  and it returns that authorization.\<close>

theorem authorization_encoding_canonical:
  assumes "field_ops modulus into_big" "modulus \<le> 256 ^ ELEMENT_WIDTH"
  shows "deserialize_authorization modulus bs = Inr auth \<longleftrightarrow> authorization_ok into_big auth \<and> bs = serialize_authorization into_big auth"
  by (rule view_field.authorization_codec [OF view_fieldI [OF assms]])

section \<open>Witnesses\<close>

definition cap_payment :: "u64 \<Rightarrow> payment" where
  "cap_payment a = \<lparr>pay_version = 1, pay_id = replicate 32 5, pay_amount = \<lparr>am_value = a, am_unit = Cents\<rparr>,
     pay_recipient = Digest (replicate 32 2), pay_nonce = replicate 32 9\<rparr>"

lemma cap_policy_id: obtains d where "policy_id low32 cap_policy = Inr d"
  using cap_payment_ok by (auto simp: payment_ok_def Policy_policy_id_def split: sum.splits)

lemma cap_circuit: obtains cp cid where
  "wiring_compile fp_into_bigint 16 (normalize_node cap_policy) = Inr cp" "length (c_nodes (cp_circuit cp)) + 8 \<le> MAX_CIRCUIT_NODES"
  "payment_circuit_id low32 fp_into_bigint 16 (normalize_node cap_policy) = Inr cid"
proof -
  obtain cp where cp: "wiring_compile fp_into_bigint 16 cap_policy = Inr cp" "length (c_nodes (cp_circuit cp)) + 8 \<le> MAX_CIRCUIT_NODES"
    by (rule cap_compiled)
  moreover obtain cid where "payment_circuit_id low32 fp_into_bigint 16 cap_policy = Inr cid"
    using fp_compiler.bound_compiled(9) [OF cp(1), of low32] cp(1) fp_compiler.payment_circuit_id_iff by blast
  ultimately show thesis by (intro that) (simp_all add: cap_policy_facts)
qed

lemma cap_sdk_ok: "sdk_payment_ok low32 (cap_payment 3) cap_witness cap_policy"
proof -
  obtain d where "policy_id low32 cap_policy = Inr d" by (rule cap_policy_id)
  then show ?thesis
    using cap_payment_ok cap_policy_facts
    by (simp add: sdk_payment_ok_def payment_ok_def cap_payment_def cap_statement_def PAYMENT_ENCODING_VERSION_def)
qed

lemma default_config_ok: "config_ok SdkConfig_default"
  by (simp add: config_ok_def SdkConfig_default_def DEFAULT_PROTOCOL_VERSION_def)

theorem sdk_authorize_correct_witness:
  "\<exists>auth g'. sdk_authorize low32 fp_into_bigint 16 fp_inverse (\<lambda>g :: nat. (of_nat g, g + 1)) zero_fill SdkConfig_default
      (cap_payment 3) cap_policy cap_witness 0 = Some (Inr auth, g') \<and>
    sdk_verify low32 fp_into_bigint 16 SdkConfig_default (cap_payment 3) cap_policy auth = Some (Inr SV_Valid)"
proof -
  obtain cp cid where cp: "wiring_compile fp_into_bigint 16 (normalize_node cap_policy) = Inr cp"
    "length (c_nodes (cp_circuit cp)) + 8 \<le> MAX_CIRCUIT_NODES" by (rule cap_circuit)
  show ?thesis
    using sdk_authorize_correct [where ?sha256.0 = low32 and fill_bytes = zero_fill, OF fp_compiler_field low32.length_sha256 _
        cap_policy_facts(1) cp, where rand = "\<lambda>g :: nat. (of_nat g, g + 1)" and cfg = SdkConfig_default and pay = "cap_payment 3" and
        w = cap_witness and g = 0] cap_sdk_ok default_config_ok
    by (auto simp: zero_fill_def split: option.splits prod.splits sum.splits)
qed

theorem sdk_forgery_witness:
  "(\<forall>w. \<not> sdk_payment_ok low32 (cap_payment 1000000) w cap_policy) \<and>
   (\<exists>auth. sdk_verify low32 fp_into_bigint 16 SdkConfig_default (cap_payment 1000000) cap_policy auth = Some (Inr SV_Valid))"
proof
  show "\<forall>w. \<not> sdk_payment_ok low32 (cap_payment 1000000) w cap_policy"
    by (auto simp: sdk_payment_ok_def caps_ok_def cap_payment_def cap_policy_facts word_le_nat_alt) (simp add: cap_policy_def)
  obtain cp cid where cp: "wiring_compile fp_into_bigint 16 (normalize_node cap_policy) = Inr cp"
    "length (c_nodes (cp_circuit cp)) + 8 \<le> MAX_CIRCUIT_NODES"
    and cid: "payment_circuit_id low32 fp_into_bigint 16 (normalize_node cap_policy) = Inr cid" by (rule cap_circuit)
  obtain d where d: "policy_id low32 cap_policy = Inr d" by (rule cap_policy_id)
  show "\<exists>auth. sdk_verify low32 fp_into_bigint 16 SdkConfig_default (cap_payment 1000000) cap_policy auth = Some (Inr SV_Valid)"
    using sdk_forgery [where ?sha256.0 = low32 and fill_bytes = zero_fill and rand = "\<lambda>g :: nat. (of_nat g, g + 1)" and
        g = 0, OF fp_compiler_field low32.length_sha256 _ d cid cp] by (auto simp: zero_fill_def)
qed

text \<open>An artifact issued for an amount of 3 is refused for the payment with the same id, recipient and nonce and the amount 2.\<close>

theorem sdk_verify_binds_witness:
  "\<exists>auth :: fp authorization. sdk_verify low32 fp_into_bigint 16 SdkConfig_default (cap_payment 3) cap_policy auth = Some (Inr SV_Valid) \<and>
    sdk_verify low32 fp_into_bigint 16 SdkConfig_default (cap_payment 2) cap_policy auth \<noteq> Some (Inr SV_Valid)"
proof -
  obtain cp cid where cp: "wiring_compile fp_into_bigint 16 (normalize_node cap_policy) = Inr cp"
    "length (c_nodes (cp_circuit cp)) + 8 \<le> MAX_CIRCUIT_NODES" by (rule cap_circuit)
  obtain auth where auth: "sdk_verify low32 fp_into_bigint 16 SdkConfig_default (cap_payment 3) cap_policy auth = Some (Inr SV_Valid)"
    using payment_env.sdk_round_trip [OF payment_envI [OF fp_compiler_field low32.length_sha256] cap_policy_facts(1) cp default_config_ok cap_sdk_ok,
        where fill_bytes = zero_fill and rand = "\<lambda>g :: nat. (of_nat g, g + 1)" and g = 0] by (auto simp: zero_fill_def)
  have "am_value (pay_amount (cap_payment 2)) \<noteq> am_value (pay_amount (cap_payment 3))" by (simp add: cap_payment_def)
  then show ?thesis using sdk_verify_binds [OF fp_compiler_field cap_policy_facts(1) cap_policy_facts(1) auth] auth by blast
qed

definition demo_authorization :: "fp authorization" where
  "demo_authorization = Authorization_new 1 2 Sha256Backend_ID (replicate 32 5) (Digest (replicate 32 6)) (Digest (replicate 32 7)) demo_noninteractive"

lemma demo_authorization_ok: "authorization_ok fp_into_bigint demo_authorization"
  using demo_noninteractive_ok
  by (simp add: authorization_ok_def demo_authorization_def Authorization_new_def AUTHORIZATION_VERSION_def SUPPORTED_PROTOCOL_VERSIONS_def
      SUPPORTED_BACKEND_IDS_def digest_wf_def DIGEST_LEN_def)

theorem authorization_encoding_canonical_witness:
  "deserialize_authorization fp_modulus (serialize_authorization fp_into_bigint demo_authorization) = Inr demo_authorization"
  using authorization_encoding_canonical [OF fp_ops.field_ops_axioms fp_view.modulus_fits] demo_authorization_ok by blast

end
