(* ===== verification/Mpcith_Robust.thy ===== *)
theory Mpcith_Robust
  imports Mpcith_Depends Mpcith_Codec
begin

text \<open>
  The verifier on untrusted proofs. For a valid circuit it returns on every proof whose views can be framed
  for the hash: no index, \<open>unwrap\<close> or slice fails and the dependence analysis ends, whatever the views, shares
  and broadcasts of the proof are.
\<close>

section \<open>Replaying an arbitrary view\<close>

text \<open>A step of the replay either fails with an error or keeps the values computed so far.\<close>

definition keeps :: "'f replay \<Rightarrow> ('a \<Rightarrow> 'f replay) \<Rightarrow> (mpcith_error, 'a) result \<Rightarrow> bool" where
  "keeps s state r \<longleftrightarrow> (case r of Inl e \<Rightarrow> e \<noteq> MpE_Panic | Inr x \<Rightarrow> rs_values (state x) = rs_values s)"

lemma keeps_simps [simp]:
  "keeps s state (Inl e) \<longleftrightarrow> e \<noteq> MpE_Panic" "keeps s state (Inr x) \<longleftrightarrow> rs_values (state x) = rs_values s"
  by (simp_all add: keeps_def)

lemma keeps_rbind:
  "keeps s state r \<Longrightarrow> (\<And>x. r = Inr x \<Longrightarrow> rs_values (state x) = rs_values s \<Longrightarrow> keeps s state' (f x)) \<Longrightarrow> keeps s state' (rbind r f)"
  by (cases r) simp_all

lemma keeps_get: "e \<noteq> MpE_Panic \<Longrightarrow> (\<And>x. keeps s state (f x)) \<Longrightarrow> keeps s state (rbind (get_or e xs i) f)"
  by (simp add: get_or_def)

lemma keeps_take: "(\<And>op s'. rs_values s' = rs_values s \<Longrightarrow> keeps s0 state (f (op, s'))) \<Longrightarrow> keeps s0 state (rbind (take_op view s) f)"
  by (simp add: take_op_def get_or_def)

lemma keeps_expect:
  assumes "rs_values s = rs_values s0"
  shows "keeps s0 (\<lambda>s. s) (expect_add view out x s)" "keeps s0 (\<lambda>s. s) (expect_mul_public view out y x s)"
    "keeps s0 (\<lambda>s. s) (expect_beaver view out i d e x s)"
  unfolding expect_add_def expect_mul_public_def expect_beaver_def
  by (rule keeps_take; simp add: assms split: local_operation.splits)+

lemma keeps_replay_op:
  "keeps s snd (replay_add view out va vb s)" "keeps s snd (replay_mul view globals out va vb s)"
proof -
  have *: "keeps s snd (rbind r (\<lambda>s'. Inr (v, s')))" if "keeps s (\<lambda>s. s) r" for r v
    using that by (cases r) simp_all
  have "keeps s snd (replay_beaver view globals out x y s)" for x y
    unfolding replay_beaver_def Let_def
    by (intro keeps_get) (auto intro!: keeps_get * keeps_expect)
  then show "keeps s snd (replay_add view out va vb s)" "keeps s snd (replay_mul view globals out va vb s)"
    by (cases va; cases vb; simp add: replay_add_def replay_mul_def * keeps_expect)+
qed

lemma replay_node_no_panic:
  assumes "node_wf (length (rs_values s)) node"
  shows "replay_node publics view globals index node s \<noteq> Inl MpE_Panic"
    and "replay_node publics view globals index node s = Inr s' \<Longrightarrow> length (rs_values s') = Suc (length (rs_values s))"
proof -
  have *: "rbind r (\<lambda>(val, s). Inr (s\<lparr>rs_values := rs_values s @ [val]\<rparr>)) \<noteq> Inl MpE_Panic \<and>
      (\<forall>s'. rbind r (\<lambda>(val, s). Inr (s\<lparr>rs_values := rs_values s @ [val]\<rparr>)) = Inr s' \<longrightarrow> length (rs_values s') = Suc (length (rs_values s)))"
    if "keeps s snd r" for r :: "(mpcith_error, 'a replay_val \<times> 'a replay) result"
    using that by (cases r) (auto split: prod.splits)
  have "keeps s snd (case node of
          SecretInput \<Rightarrow>
            rbind (get_or MpE_InconsistentView (pv_input_shares view) (rs_next_secret s)) (\<lambda>share.
            Inr (RV_Shared share, s\<lparr>rs_next_secret := rs_next_secret s + 1\<rparr>))
        | PublicInput \<Rightarrow>
            rbind (get_or MpE_InvalidStatement publics (rs_next_public s)) (\<lambda>v.
            Inr (RV_Public v, s\<lparr>rs_next_public := rs_next_public s + 1\<rparr>))
        | Constant c \<Rightarrow> Inr (RV_Public c, s)
        | Add a b \<Rightarrow>
            rbind (mp_index (rs_values s) (as_usize a)) (\<lambda>va.
            rbind (mp_index (rs_values s) (as_usize b)) (\<lambda>vb. replay_add view (of_nat index) va vb s))
        | Mul a b \<Rightarrow>
            rbind (mp_index (rs_values s) (as_usize a)) (\<lambda>va.
            rbind (mp_index (rs_values s) (as_usize b)) (\<lambda>vb. replay_mul view globals (of_nat index) va vb s)))"
    using assms by (cases node) (simp_all add: keeps_get mp_index_def keeps_replay_op)
  from * [OF this] show "replay_node publics view globals index node s \<noteq> Inl MpE_Panic"
    "replay_node publics view globals index node s = Inr s' \<Longrightarrow> length (rs_values s') = Suc (length (rs_values s))"
    by (simp_all add: replay_node_def Let_def)
qed

lemma replay_nodes_no_panic:
  "length (rs_values s) = index \<Longrightarrow> \<forall>i<length nodes. node_wf (index + i) (nodes ! i) \<Longrightarrow>
   replay_nodes publics view globals index nodes s \<noteq> Inl MpE_Panic \<and>
   (\<forall>s'. replay_nodes publics view globals index nodes s = Inr s' \<longrightarrow> length (rs_values s') = index + length nodes)"
proof (induction nodes arbitrary: index s)
  case (Cons node nodes)
  have "node_wf (length (rs_values s)) node" using Cons.prems by force
  note step = replay_node_no_panic [OF this]
  show ?case
  proof (cases "replay_node publics view globals index node s")
    case (Inl e)
    then show ?thesis using step(1) by auto
  next
    case (Inr s1)
    have "length (rs_values s1) = Suc index" using step(2) [OF Inr] Cons.prems(1) by simp
    moreover have "\<forall>i<length nodes. node_wf (Suc index + i) (nodes ! i)" using Cons.prems(2) by force
    ultimately show ?thesis using Cons.IH [of s1 "Suc index"] Inr by simp
  qed
qed simp

lemma replay_party_no_panic:
  assumes "circuit_wf c"
  shows "replay_party st view c globals \<noteq> Inl MpE_Panic"
    and "replay_party st view c globals = Inr vals \<Longrightarrow> length vals = length (c_nodes c)"
  using assms replay_nodes_no_panic [of replay_start 0 "c_nodes c" "ms_public_inputs st" view globals]
  by (auto simp: replay_party_def replay_start_def circuit_wf_def nodes_wf_def rbind_eq_Inl split: if_splits)

section \<open>Verifying an arbitrary repetition\<close>

lemma rmap_no_panic: "(\<And>x. x \<in> set xs \<Longrightarrow> f x \<noteq> Inl e) \<Longrightarrow> rmap f xs \<noteq> Inl e"
  by (induction xs) (auto simp: rbind_eq_Inl)

lemma rmap_all: "rmap f xs = Inr ys \<Longrightarrow> (\<And>x y. x \<in> set xs \<Longrightarrow> f x = Inr y \<Longrightarrow> P y) \<Longrightarrow> \<forall>y\<in>set ys. P y"
  by (induction xs arbitrary: ys) (force simp: Ball_def)+

lemma add_replays_no_panic: "\<forall>vals\<in>set replays. i < length vals \<Longrightarrow> add_replays tot i replays \<noteq> Inl MpE_Panic"
  by (induction replays arbitrary: tot) (auto simp: mp_index_def split: replay_val.splits)

lemma output_loop_returns:
  assumes "circuit_wf c" "\<forall>vals\<in>set replays. length vals = length (c_nodes c)"
  shows "\<forall>i\<in>set outs. as_usize i < length (c_nodes c) \<Longrightarrow>
    \<exists>r. output_loop c expected hidden replays k outs = Some r \<and> r \<noteq> Inl MpE_Panic"
proof (induction outs arbitrary: k)
  case (Cons nid outs)
  have dep: "node_depends_on_secrets c nid = Some (Inr (deps (c_nodes c) ! as_usize nid))"
    using node_depends_eq [OF assms(1)] Cons.prems by simp
  have "add_replays (hidden ! k) (as_usize nid) replays \<noteq> Inl MpE_Panic"
    using add_replays_no_panic [of replays "as_usize nid"] assms(2) Cons.prems by simp
  moreover obtain r where "output_loop c expected hidden replays (Suc k) outs = Some r" "r \<noteq> Inl MpE_Panic"
    using Cons.IH [of "Suc k"] Cons.prems by auto
  ultimately show ?case
    using dep by (auto simp: get_or_def split: sum.splits bool.splits)
qed simp

text \<open>The views of a repetition can be framed for the hash.\<close>

definition views_fit :: "('f \<Rightarrow> nat) \<Rightarrow> 'f repetition \<Rightarrow> bool" where
  "views_fit into_bigint r \<longleftrightarrow> (\<forall>ov\<in>set (rep_opened_views r). fits_u32 (commitment_message into_bigint (ov_view ov)))"

lemma verify_commitment_no_panic:
  assumes "\<And>x. length (hash x) = 32" "fits_u32 (commitment_message into_bigint v)"
  shows "verify_commitment hash into_bigint c v r \<noteq> Inl MpE_Panic"
proof (cases "length r = RANDOMNESS_LEN")
  case True
  then have "backend_commit hash (commitment_message into_bigint v) r = Some (hash (commit_input (commitment_message into_bigint v) r))"
    using commit_eq [OF assms(2), of r hash] by (simp add: commit_def fits_u32_def RANDOMNESS_LEN_def)
  then show ?thesis using True by (simp add: verify_commitment_def CommitmentRandomness_new_def first_32_def assms(1))
qed (simp add: verify_commitment_def CommitmentRandomness_new_def)

lemma check_opened_no_panic:
  assumes "\<And>x. length (hash x) = 32" "fits_u32 (commitment_message into_bigint (ov_view ov))"
    and "length (rep_commitments r) = unat PARTY_COUNT" "pv_party_id (ov_view ov) < PARTY_COUNT"
  shows "check_opened hash into_bigint r ov \<noteq> Inl MpE_Panic"
  using assms(3,4) verify_commitment_no_panic [OF assms(1,2)]
  by (auto simp: check_opened_def mp_index_def rbind_eq_Inl Let_def ensure_def word_less_nat_alt split: if_splits)

lemma global_masks_no_panic: "global_masks r \<noteq> Inl MpE_Panic"
proof -
  have "global_mask acc k ovs \<noteq> Inl MpE_Panic" for acc :: 'a and k ovs
    by (induction ovs arbitrary: acc) (auto simp: get_or_def)
  then show ?thesis by (auto simp: global_masks_def intro!: rmap_no_panic)
qed

lemma others_less: "PartyId_new b = Inr h \<Longrightarrow> p \<in> set (others h) \<Longrightarrow> p < PARTY_COUNT"
  by (auto simp: others_def PartyId_new_def PARTY_COUNT_def split: if_splits)

lemma verify_repetition_returns:
  assumes hash: "\<And>x. length (hash x) = 32" and wf: "circuit_wf c" and fit: "views_fit into_bigint r"
  shows "\<exists>v. verify_repetition hash into_bigint st r c = Some v \<and> v \<noteq> Inl MpE_Panic"
proof -
  define checked where "checked =
    rbind (map_err (\<lambda>_. MpE_InvalidChallenge) (PartyId_new (hidden_party (rep_challenge r)))) (\<lambda>hidden.
    rbind (ensure (length (rep_commitments r) = unat PARTY_COUNT) MpE_MissingCommitment) (\<lambda>_.
    rbind (ensure (\<not> (length (rep_opened_views r) \<noteq> 2 \<or>
        pv_party_id (ov_view (rep_opened_views r ! 0)) \<noteq> others hidden ! 0 \<or>
        pv_party_id (ov_view (rep_opened_views r ! 1)) \<noteq> others hidden ! 1)) MpE_MissingResponse) (\<lambda>_.
    rbind (rmap (check_opened hash into_bigint r) (rep_opened_views r)) (\<lambda>_.
    rbind (global_masks r) (\<lambda>globals.
    rmap (\<lambda>opened. replay_party st (ov_view opened) c globals) (rep_opened_views r))))))"
  have "checked \<noteq> Inl MpE_Panic"
  proof
    assume p: "checked = Inl MpE_Panic"
    obtain h where h: "PartyId_new (hidden_party (rep_challenge r)) = Inr h"
      "length (rep_commitments r) = unat PARTY_COUNT" "length (rep_opened_views r) = 2"
      "pv_party_id (ov_view (rep_opened_views r ! 0)) = others h ! 0" "pv_party_id (ov_view (rep_opened_views r ! 1)) = others h ! 1"
      using p by (auto simp: checked_def rbind_eq_Inl ensure_def map_err_def split: if_splits sum.splits)
    have "pv_party_id (ov_view ov) < PARTY_COUNT" if "ov \<in> set (rep_opened_views r)" for ov
    proof -
      have "length (others h) = 2" by (simp add: others_def)
      then have "pv_party_id (ov_view ov) \<in> set (others h)"
        using that h(3-5) by (auto simp: in_set_conv_nth less_2_cases_iff)
      then show ?thesis using others_less [OF h(1)] by blast
    qed
    then have "rmap (check_opened hash into_bigint r) (rep_opened_views r) \<noteq> Inl MpE_Panic"
      using fit h(2) by (intro rmap_no_panic check_opened_no_panic hash) (auto simp: views_fit_def)
    moreover have "rmap (\<lambda>opened. replay_party st (ov_view opened) c globals) (rep_opened_views r) \<noteq> Inl MpE_Panic" for globals
      by (intro rmap_no_panic replay_party_no_panic(1) [OF wf])
    ultimately show False
      using p global_masks_no_panic by (auto simp: checked_def rbind_eq_Inl ensure_def map_err_def split: if_splits sum.splits)
  qed
  moreover have "\<exists>v. check_outputs st r c replays = Some v \<and> v \<noteq> Inl MpE_Panic" if "checked = Inr replays" for replays
  proof -
    have "\<forall>vals\<in>set replays. length vals = length (c_nodes c)"
      using that replay_party_no_panic(2) [OF wf] by (auto simp: checked_def dest!: rmap_all [where P = "\<lambda>vals. length vals = length (c_nodes c)"])
    then show ?thesis
      using output_loop_returns [OF wf] wf by (auto simp: check_outputs_def circuit_wf_def)
  qed
  ultimately show ?thesis
    unfolding verify_repetition_def Let_def checked_def [symmetric] by (cases checked) auto
qed

lemma verify_loop_returns:
  assumes "\<And>x. length (hash x) = 32" "circuit_wf c"
  shows "\<forall>r\<in>set reps. views_fit into_bigint r \<Longrightarrow>
    \<exists>v. verify_loop hash into_bigint st c k reps = Some v \<and> v \<noteq> Inl MpE_Panic"
proof (induction reps arbitrary: k)
  case (Cons r reps)
  obtain v where "verify_repetition hash into_bigint st r c = Some v" "v \<noteq> Inl MpE_Panic"
    using verify_repetition_returns [where hash = hash and r = r and st = st and into_bigint = into_bigint, OF assms] Cons.prems by auto
  then show ?case using Cons.IH [of "Suc k"] Cons.prems by (cases v) auto
qed simp

end
