(* ===== verification/Verifier_Robust.thy ===== *)
theory Verifier_Robust
  imports Mpcith_Robust Sdk_Correct Policy_Profile
begin

text \<open>
  The whole verifier on untrusted bytes: \<open>Verifier::verify\<close>, \<open>verify_payment_authorization\<close> and the
  SDK's \<open>verify\<close> return on every authorization that \<open>deserialize_authorization\<close> accepts, for every payment,
  policy and configuration, and no step of them panics. As everywhere in the development, the functions are those of a build
  without debug assertions; where the one assertion that untrusted input can reach holds is stated with \<open>Policy_Profile\<close>.
\<close>

section \<open>Views of a decoded proof\<close>

lemma length_concat_mem: "x \<in> set xs \<Longrightarrow> length (f x) \<le> length (concat (map f xs))"
  by (induction xs) auto

text \<open>A view is no longer than the encoding of the proof that carries it.\<close>

lemma opening_length:
  assumes "r \<in> set (np_repetitions p)" "vr \<in> set (zip (pr_opened_views r) (pr_opening_randomness r))"
  shows "length (encode_view into_bigint (fst vr)) \<le> length (serialize_proof into_bigint p)"
proof -
  have "length (encode_view into_bigint (fst vr)) \<le> length (encode_opening into_bigint vr)"
    by (simp add: encode_opening_def Let_def)
  also have "\<dots> \<le> length (encode_proof_repetition into_bigint r)"
    using length_concat_mem [OF assms(2), of "encode_opening into_bigint"] by (simp add: encode_proof_repetition_def)
  also have "\<dots> \<le> length (serialize_proof into_bigint p)"
    using length_concat_mem [OF assms(1), of "encode_proof_repetition into_bigint"] by (simp add: serialize_proof_def put_vec_def)
  finally show ?thesis .
qed

text \<open>The repetitions that the proof layer hands to the MPC-in-the-head verifier.\<close>

abbreviation inner_repetitions :: "'f noninteractive_proof \<Rightarrow> 'f repetition list" where
  "inner_repetitions p \<equiv> map (\<lambda>(index, r). to_inner_repetition r index) (indexed (np_repetitions p))"

lemma short_views_fit:
  assumes "length (serialize_proof into_bigint p) < 2 ^ 31" "r \<in> set (inner_repetitions p)"
  shows "views_fit into_bigint r"
proof -
  obtain index q where q: "q \<in> set (np_repetitions p)" "r = to_inner_repetition q index"
    using assms(2) by (auto simp: indexed_def dest: set_zip_rightD)
  have "fits_u32 (commitment_message into_bigint (ov_view ov))" if ov: "ov \<in> set (rep_opened_views r)" for ov
  proof -
    obtain vr where vr: "vr \<in> set (zip (pr_opened_views q) (pr_opening_randomness q))" "ov_view ov = fst vr"
      using ov by (force simp: q(2) to_inner_repetition_def)
    have "length (encode_view into_bigint (fst vr)) < 2 ^ 31"
      using opening_length [OF q(1) vr(1), of into_bigint] assms(1) by linarith
    then show ?thesis
      by (simp add: vr(2) commitment_message_def fits_u32_def len_prefixed_def VIEW_COMMITMENT_DOMAIN_def ascii_def)
  qed
  then show ?thesis by (simp add: views_fit_def)
qed

section \<open>The proof layer\<close>

context fs_env
begin

lemma derive_all_no_panic: "derive_all B into_bigint st sessions \<noteq> Inl PfE_Panic"
proof (cases "sessions = [] \<or> list_ex (\<lambda>s. length (fs_commitments s) \<noteq> 3) sessions")
  case False
  then show ?thesis using derive_all_ok [of sessions into_bigint st] by (auto simp: list_ex_iff)
qed (simp add: derive_all_def)

lemma Verifier_verify_returns:
  assumes val: "ProofStatement_validate sha256 into_bigint width st c = Inr ()"
    and fit: "\<forall>r\<in>set (inner_repetitions p). views_fit into_bigint r"
  shows "\<exists>v. Verifier_verify sha256 B into_bigint width c st p = Some v \<and> v \<noteq> Inl PfE_Panic"
proof -
  have wf: "circuit_wf c" using val by (simp add: ProofStatement_validate_iff MpcithStatement_validate_iff)
  have "verify_structure sha256 B into_bigint width c st p \<noteq> Inl PfE_Panic"
    using val derive_all_no_panic by (auto simp: verify_structure_def rbind_eq_Inl ensure_def split: if_splits)
  moreover obtain v where "mpcith_verify sha256 (be_hash B) into_bigint width (to_mpcith st) \<lparr>mp_repetitions = inner_repetitions p\<rparr> c = Some v"
      "v \<noteq> Inl MpE_Panic"
    using verify_loop_returns [where hash = "be_hash B" and st = "to_mpcith st" and k = 0, OF length_hash wf fit] val
    by (cases "np_repetitions p = []") (auto simp: mpcith_verify_def ProofStatement_validate_iff)
  moreover have "rbind (map_err map_inner v) (\<lambda>verdict. case verdict of VR_Valid \<Rightarrow> Inr VR_Valid | VR_Invalid \<Rightarrow> Inl PfE_OutputMismatch) \<noteq> Inl PfE_Panic"
    using calculation(3) by (cases v) (auto simp: map_inner_def split: verification_result.splits)
  ultimately show ?thesis by (auto simp: Verifier_verify_def split: sum.splits)
qed

end

section \<open>Policies\<close>

lemma distinct_credentials_no_panic: "check_distinct_credentials ms \<noteq> Inl PE_Panic"
proof -
  have "distinct_credentials_loop seen ms \<noteq> Inl PE_Panic" for seen
    by (induction seen ms rule: distinct_credentials_loop.induct) auto
  then show ?thesis by (simp add: check_distinct_credentials_def)
qed

lemma validate_no_panic: "fst (validate_impl p ctx) \<noteq> Inl PE_Panic" "fst (validate_members ms ctx) \<noteq> Inl PE_Panic"
proof (induction p ctx and ms ctx rule: validate_impl_validate_members.induct)
  case (1 p ctx)
  then show ?case
    using distinct_credentials_no_panic by (cases p) (auto simp: validate_impl.simps Let_def split: sum.splits)
qed (auto split: sum.splits prod.splits)

lemma policy_validate_no_panic: "policy_validate p \<noteq> Inl PE_Panic"
  by (simp add: policy_validate_def validate_no_panic)

lemma policy_id_no_panic: "policy_id sha256 p \<noteq> Inl PE_Panic"
  by (simp add: policy_id_def policy_normalize_def Let_def)

context compiler_field
begin

lemma wiring_compile_no_panic: "wiring_compile into_bigint width p \<noteq> Inl PyE_Panic"
proof (cases "policy_validate (normalize_node p)")
  case (Inl e)
  then show ?thesis
    using compile_with_layout_invalid [OF Inl, of into_bigint width] policy_validate_no_panic [of "normalize_node p"]
    by (auto simp: wiring_compile_def policy_err_def)
next
  case (Inr u)
  then show ?thesis using compile_run [of p] policy_validate_iff [of "normalize_node p"] by (auto simp: wiring_compile_def)
qed

lemma payment_circuit_id_no_panic: "payment_circuit_id sha256 into_bigint width p \<noteq> Inl PyE_Panic"
proof (cases "wiring_compile into_bigint width p")
  case (Inr cp)
  then show ?thesis using bound_compiled(3) [OF Inr] bound_compiled(9) [OF Inr, of sha256] by (auto simp: payment_circuit_id_def)
qed (use wiring_compile_no_panic in \<open>auto simp: payment_circuit_id_def\<close>)

lemma recompute_bindings_no_panic: "recompute_bindings sha256 into_bigint width pay p auth \<noteq> Inl SdkE_Panic"
  using policy_id_no_panic payment_circuit_id_no_panic
  by (auto simp: recompute_bindings_def policy_normalize_def build_statement_def rbind_eq_Inl map_err_eq_Inl sdk_policy_err_def
      sdk_payment_err_def split: if_splits)

end

section \<open>Payments and the SDK\<close>

context payment_env
begin

lemma verify_payment_returns:
  assumes ids: "policy_id sha256 p = Inr pid" "payment_circuit_id sha256 into_bigint width (normalize_node p) = Inr cid"
    and fit: "\<forall>r\<in>set (inner_repetitions pr). views_fit into_bigint r"
  shows "\<exists>v. verify_payment_authorization sha256 into_bigint width (sdk_statement sha256 pay pid cid pv) pr (normalize_node p) = Some v \<and>
    v \<noteq> Inl PyE_Panic"
proof (cases "pv = PROTOCOL_VERSION")
  case True
  let ?st = "sdk_statement sha256 pay pid cid pv"
  have bind: "check_statement_binding sha256 into_bigint width ?st (normalize_node p) = Inr ()" using statement_bound [OF ids] True by simp
  obtain cp where cp: "wiring_compile into_bigint width (normalize_node p) = Inr cp" using ids(2) payment_circuit_id_iff by blast
  note rec = recomputed_statement_eq [OF bind cp]
  obtain v where v: "Verifier_verify sha256 (Sha256Backend sha256) into_bigint width (bound_circuit (cp_circuit cp))
      (payment_fs cp (normalize_node p) ?st) pr = Some v" "v \<noteq> Inl PfE_Panic"
    using Verifier_verify_returns [OF rec(2) fit] by blast
  have "payment_verdict v \<noteq> Inl PyE_Panic"
    using v(2) by (cases v rule: payment_verdict.cases) (auto simp: proof_err_def)
  then show ?thesis using rec(1) v(1) by (simp add: verify_payment_authorization_def)
next
  case False
  then show ?thesis
    by (simp add: verify_payment_authorization_def recomputed_statement_def check_statement_binding_def sdk_statement_def)
qed

lemma sdk_verify_returns:
  assumes fit: "\<forall>r\<in>set (inner_repetitions (au_proof auth)). views_fit into_bigint r"
  shows "\<exists>v. sdk_verify sha256 into_bigint width cfg pay p auth = Some v \<and> v \<noteq> Inl SdkE_Panic"
proof -
  have run: "\<exists>v. verify_with sha256 into_bigint width Sha256Backend_ID cfg pay p auth = Some v \<and> v \<noteq> Inl SdkE_Panic"
  proof (cases "recompute_bindings sha256 into_bigint width pay p auth")
    case (Inl e)
    then show ?thesis using recompute_bindings_no_panic [of sha256 pay p auth] by (simp add: verify_with_def)
  next
    case (Inr r)
    show ?thesis
    proof (cases r)
      case (Inr x)
      obtain n st where x: "x = (n, st)" by (cases x)
      from \<open>recompute_bindings sha256 into_bigint width pay p auth = Inr r\<close> Inr x
      have b: "n = normalize_node p" "policy_id sha256 p = Inr (au_policy_id auth)"
        "payment_circuit_id sha256 into_bigint width (normalize_node p) = Inr (au_circuit_id auth)"
        "st = sdk_statement sha256 pay (au_policy_id auth) (au_circuit_id auth) (au_protocol_version auth)"
        by (auto simp: recompute_bindings_iff)
      obtain v where v: "verify_payment_authorization sha256 into_bigint width st (au_proof auth) n = Some v" "v \<noteq> Inl PyE_Panic"
        using verify_payment_returns [OF b(2,3) fit] b(1,4) by blast
      then have "sdk_verdict v \<noteq> Inl SdkE_Panic" by (cases v rule: sdk_verdict.cases) auto
      then show ?thesis using v(1) \<open>recompute_bindings sha256 into_bigint width pay p auth = Inr r\<close> Inr x by (simp add: verify_with_def)
    qed (simp add: verify_with_def Inr)
  qed
  have "backend_from_id bid \<noteq> Inl SdkE_Panic" for bid by (simp add: backend_from_id_def)
  then show ?thesis using run by (auto simp: sdk_verify_def split: sum.splits backend_type.splits)
qed

end

section \<open>Properties\<close>

text \<open>C9: the verifier is total and panic-free on untrusted input. Whatever bytes (of less than 2 GiB)
  \<open>deserialize_authorization\<close> accepts, and whatever the payment, the policy and the configuration are, the SDK's
  \<open>verify\<close> of a release build returns with an answer or an error: the recursion over the circuit ends and no index, slice,
  \<open>expect\<close> or length conversion fails. In a build with debug assertions the size assertion of \<open>Policy::encode\<close> is
  also met: \<open>verify\<close> normalises and identifies the policy it is given and its normal form, without validating it first, and
  these calls return what they return in a release build if the policy encodes within \<open>MAX_ENCODED_SIZE\<close>. Beyond that size,
  for instance for \<open>oversized\<close>, a debug build panics there.\<close>

theorem sdk_verify_total:
  assumes "compiler_field modulus (into_bigint :: 'f::comm_ring_1 \<Rightarrow> nat) inverse_op width" "modulus \<le> 256 ^ ELEMENT_WIDTH"
    and "\<And>x. length (sha256 x) = 32"
    and auth: "deserialize_authorization modulus bs = Inr auth" and short: "length bs < 2 ^ 31"
  shows "(\<exists>v. sdk_verify sha256 into_bigint width cfg pay p auth = Some v \<and> v \<noteq> Inl SdkE_Panic) \<and>
    (length (encode_policy p) \<le> MAX_ENCODED_SIZE \<longrightarrow>
      (\<forall>q\<in>{p, normalize_node p}. normalize_checked True q = Some (normalize_node q) \<and>
         policy_id_checked True sha256 q = Some (policy_id sha256 q))) \<and>
    policy_id_checked True sha256 oversized = None"
proof (intro conjI impI)
  have env: "payment_env modulus into_bigint inverse_op width sha256 (\<lambda>(g :: unit) n. (replicate n 0, g))"
    by (rule payment_envI) (simp_all add: assms(1,3))
  have vf: "view_field modulus into_bigint"
    using assms(1,2) by (intro view_fieldI) (simp_all add: compiler_field_def prime_field_def)
  have "bs = serialize_authorization into_bigint auth" using view_field.authorization_codec [OF vf] auth by blast
  then have "length (serialize_proof into_bigint (au_proof auth)) < 2 ^ 31" using short by (simp add: serialize_authorization_def)
  then show "\<exists>v. sdk_verify sha256 into_bigint width cfg pay p auth = Some v \<and> v \<noteq> Inl SdkE_Panic"
    by (intro payment_env.sdk_verify_returns [OF env]) (blast intro: short_views_fit)
next
  assume "length (encode_policy p) \<le> MAX_ENCODED_SIZE"
  then have "fits_profile True q" if "q \<in> {p, normalize_node p}" for q
    using that fits_small [of True p] by (auto simp: fits_profile_def)
  then show "\<forall>q\<in>{p, normalize_node p}. normalize_checked True q = Some (normalize_node q) \<and>
      policy_id_checked True sha256 q = Some (policy_id sha256 q)"
    using fits_normalize fits_policy_id by blast
qed (rule oversized_panics)

theorem sdk_verify_total_witness:
  "(\<exists>v. sdk_verify low32 fp_into_bigint 16 SdkConfig_default (cap_payment 7) (Threshold 9 [And []]) demo_authorization = Some v \<and> v \<noteq> Inl SdkE_Panic) \<and>
   normalize_checked True (Threshold 9 [And []]) = Some (Threshold 9 [And []])"
proof -
  have "deserialize_authorization fp_modulus (serialize_authorization fp_into_bigint demo_authorization) = Inr demo_authorization"
    using demo_authorization_ok fp_view.authorization_codec by blast
  moreover have "length (serialize_authorization fp_into_bigint demo_authorization) < 2 ^ 31"
    by (simp add: demo_authorization_def Authorization_new_def serialize_authorization_def serialize_proof_def demo_noninteractive_def put_vec_def
        ProofStatement_encode_def encode_proof_repetition_def encode_opening_def Let_def demo_view_def encode_view_def Sha256Backend_ID_def ascii_def
        put_element_def ELEMENT_WIDTH_def encode_triple_def numeral_3_eq_3)
  moreover have "length (encode_policy (Threshold 9 [And []])) \<le> MAX_ENCODED_SIZE" "normalize_node (Threshold 9 [And []]) = Threshold 9 [And []]"
    by (simp_all add: encode_policy_def MAX_ENCODED_SIZE_def normalize_combinator_eq canonical_members_def)
  ultimately show ?thesis
    using sdk_verify_total [OF fp_compiler_field fp_view.modulus_fits low32.length_sha256,
        where auth = demo_authorization and cfg = SdkConfig_default and pay = "cap_payment 7" and p = "Threshold 9 [And []]"]
    by simp
qed

end
