(* ===== verification/Sdk_Wire.thy ===== *)
theory Sdk_Wire
  imports Sdk_Correct
begin

text \<open>
  The artifact on the wire. Everything the prover returns is well formed in the sense of the encodings, so an
  authorization survives serialisation: the bytes that \<open>serialize\<close> writes are read back by \<open>deserialize\<close> as the
  same authorization. The id of an authorization determines it up to hash collisions.
\<close>

section \<open>Views and repetitions of a run are well formed\<close>

lemma operation_below_wf: "operation_below n op \<Longrightarrow> n \<le> 2 ^ 32 \<Longrightarrow> operation_wf op"
  by (cases op) simp_all

lemma honest_opening_ok:
  assumes hp: "honest_partial hash into_bigint st c witness partial vals parties"
    and size: "length (c_nodes c) \<le> MAX_CIRCUIT_NODES" and fit: "circuit_wf c" "inputs_fit c witness (ms_public_inputs st)" and p: "p < 3"
  shows "opening_ok into_bigint (par_views partial ! p, par_randomness partial ! p)"
    and "length (ps_opened_values (parties ! p)) < 2 ^ 32"
proof -
  obtain inputs where run: "run_ok (trace witness (ms_public_inputs st) (c_nodes c)) (deps (c_nodes c)) inputs vals parties"
    and len: "length (inputs p) = length witness"
    using hp p by (auto simp: honest_partial_def)
  have n: "length vals = length (c_nodes c)" using run by (auto simp: run_ok_def dest!: arg_cong [of _ _ length])
  have w: "length witness \<le> length (c_nodes c)"
    using fit secret_leaves_le [of "c_nodes c"] by (simp add: inputs_fit_def circuit_wf_def)
  have sizes: "length (ps_input_shares (parties ! p)) \<le> 1000000" "length (ps_local_operations (parties ! p)) \<le> 1000000"
    "length (ps_triple_shares (parties ! p)) \<le> 1000000" "length (ps_opened_values (parties ! p)) \<le> 2000000"
    "list_all (operation_below (length vals)) (ps_local_operations (parties ! p))"
    using run p n w len size by (auto simp: run_ok_def parties_inv_def sizes_le_def MAX_CIRCUIT_NODES_def)
  show "length (ps_opened_values (parties ! p)) < 2 ^ 32" using sizes(4) by simp
  have "list_all operation_wf (ps_local_operations (parties ! p))"
    using n size by (intro list.pred_mono_strong [OF sizes(5)] operation_below_wf [where n = "length vals"]) (auto simp: MAX_CIRCUIT_NODES_def)
  moreover have "of_nat p < PARTY_COUNT" using p by (auto simp: less_3 PARTY_COUNT_def)
  ultimately have wf: "view_wf (par_views partial ! p)"
    using sizes(1-4) honest_nth(1) [OF hp p] by (simp add: view_wf_def)
  have "length (encode_view into_bigint (par_views partial ! p)) \<le> 21 + 32 * 1000000 + 105 * 1000000 + 96 * 1000000 + 32 * 2000000"
    using length_encode_view [of into_bigint "par_views partial ! p"] sizes(1-4) honest_nth(1) [OF hp p] by simp
  moreover have "length (par_randomness partial ! p) = RANDOMNESS_LEN_MPCITH" using hp p by (simp add: honest_partial_def)
  ultimately show "opening_ok into_bigint (par_views partial ! p, par_randomness partial ! p)" using wf by (simp add: opening_ok_def)
qed

lemma finish_repetition_wf:
  assumes ready: "prover_ready pv" and part: "partial_ok hash into_bigint pv i partial" and ch: "hidden_party ch < PARTY_COUNT"
    and outs: "length (c_outputs (mpv_circuit pv)) < 2 ^ 32" and fin: "finish_repetition partial ch = Inr r"
  shows "proof_repetition_ok into_bigint (to_proof_repetition r)"
proof -
  let ?c = "mpv_circuit pv"
  obtain vals parties where hp: "honest_partial hash into_bigint (mpv_statement pv) ?c (mpv_witness pv) partial vals parties"
    using part by (auto simp: partial_ok_def)
  define h where "h = unat (hidden_party ch)"
  have h: "h < 3" "ch = \<lparr>hidden_party = of_nat h\<rparr>" using ch by (simp_all add: h_def PARTY_COUNT_def word_less_nat_alt)
  have wf: "circuit_wf ?c" and fit: "inputs_fit ?c (mpv_witness pv) (ms_public_inputs (mpv_statement pv))"
    and size: "length (c_nodes ?c) \<le> MAX_CIRCUIT_NODES"
    using ready by (simp_all add: prover_ready_def)
  have r: "r = response partial h (map (\<lambda>nid. hidden_share h (vals ! as_usize nid)) (c_outputs ?c))"
    using finish_honest [OF hp wf h(1)] fin h(2) by simp
  note fields = to_proof_sorted [OF finish_fields(3) [OF fin]]
  have "opening_ok into_bigint vr" if "vr \<in> set (zip (map ov_view (map (opened_of partial) (other h))) (map ov_randomness (map (opened_of partial) (other h))))" for vr
    using that honest_opening_ok(1) [OF hp size wf fit] other_less [OF h(1)] by (auto simp: opened_of_def zip_map_map in_set_zip)
  moreover have "digest_wf d" if "d \<in> set (par_commitments partial)" for d
    using that hp by (auto simp: honest_partial_def in_set_conv_nth)
  moreover have "length (par_commitments partial) = 3" using hp by (simp add: honest_partial_def)
  moreover have "length (par_broadcasts partial ! h) < 2 ^ 32"
    using honest_opening_ok(2) [OF hp size wf fit h(1)] honest_nth(2) [OF hp h(1)] by simp
  ultimately show ?thesis
    using outs ch unfolding proof_repetition_ok_def fields by (simp add: r response_def h(2))
qed

section \<open>Proofs and authorizations\<close>

lemma compute_id_digest:
  assumes "\<And>x. length (sha256 x) = 32" "compute_id sha256 into_bigint width c = Some d"
  shows "digest_wf d"
  using assms by (auto simp: compute_id_def Sha256Hash_hash_domain_def Sha256Hash_hash_def digest_wf_def DIGEST_LEN_def)

context fs_env
begin

text \<open>Every proof that the prover returns can be encoded.\<close>

lemma Prover_prove_wf:
  assumes new: "Prover_new sha256 into_bigint width c st w = Inr pp" and size: "length (c_nodes c) \<le> MAX_CIRCUIT_NODES"
    and st: "statement_ok st" and count: "k \<noteq> 0" "unat k \<le> MAX_PROOF_REPETITIONS" and id: "be_id B \<in> set SUPPORTED_BACKEND_IDS"
    and run: "Prover_prove sha256 B into_bigint width rand fill pp k g = (Inr p, g')"
  shows "noninteractive_ok into_bigint p"
proof -
  obtain pv partials challenges reps where r: "pv = \<lparr>mpv_circuit = c, mpv_statement = to_mpcith st, mpv_witness = w\<rparr>" "prover_ready pv"
    "list_all2 (partial_ok (be_hash B) into_bigint pv) [0..<unat k] partials"
    "list_all (\<lambda>ch. hidden_party ch < PARTY_COUNT) challenges" "length challenges = unat k"
    "p = assemble B st reps" "length reps = unat k" "rmap (\<lambda>(p, ch). finish_repetition p ch) (zip partials challenges) = Inr reps"
    by (rule Prover_prove_run [OF new size count(1), of rand g]) (rule that, use run in simp_all)
  have outs: "length (c_outputs (mpv_circuit pv)) < 2 ^ 32"
    using r(1,2) st by (auto simp: prover_ready_def statement_ok_def to_mpcith_def)
  have "proof_repetition_ok into_bigint (to_proof_repetition (reps ! i))" if "i < unat k" for i
  proof (rule finish_repetition_wf [OF r(2) _ _ outs])
    show "partial_ok (be_hash B) into_bigint pv i (partials ! i)" using r(3) that by (auto simp: list_all2_conv_all_nth)
    show "hidden_party (challenges ! i) < PARTY_COUNT" using r(4,5) that by (simp add: list_all_length)
    show "finish_repetition (partials ! i) (challenges ! i) = Inr (reps ! i)"
      using r(3,5,8) that by (auto simp: rmap_nth dest!: list_all2_lengthD)
  qed
  then have "proof_repetition_ok into_bigint x" if "x \<in> set (map to_proof_repetition reps)" for x
    using that r(7) by (auto simp: in_set_conv_nth)
  then show ?thesis
    using count(2) id st r(7)
    by (simp add: noninteractive_ok_def r(6) assemble_def PROTOCOL_VERSION_def PROOF_ENCODING_VERSION_def)
qed

end

context payment_env
begin

lemma length_sha256: "length (sha256 x) = 32"
  using length_hash by (simp add: Sha256Backend_def Sha256Backend_hash_def)

lemma authorize_payment_wf:
  assumes run: "authorize_payment sha256 into_bigint width inverse_op rand fill_bytes st w p g = (Inr pr, g')"
    and cp: "wiring_compile into_bigint width p = Inr cp" and size: "length (c_nodes (cp_circuit cp)) + 8 \<le> MAX_CIRCUIT_NODES"
  shows "noninteractive_ok into_bigint pr"
proof -
  let ?c = "bound_circuit (cp_circuit cp)"
  obtain secs pubs outs cid pp where ev: "reference_outputs ?c secs (pubs @ binding_values st) = Inr outs"
    and cid: "compute_id sha256 into_bigint width ?c = Some cid"
    and new: "Prover_new sha256 into_bigint width ?c \<lparr>sta_circuit_id = cid, sta_public_inputs = pubs @ binding_values st, sta_expected_outputs = outs\<rparr> secs = Inr pp"
    and prove: "Prover_prove sha256 (Sha256Backend sha256) into_bigint width rand fill_bytes pp AUTHORIZATION_REPETITIONS g = (Inr pr, g')"
    using run cp bound_compiled(3) [OF cp]
    by (auto simp: authorize_payment_def obind_def Let_def split: sum.splits prod.splits option.splits)
  let ?st = "\<lparr>sta_circuit_id = cid, sta_public_inputs = pubs @ binding_values st, sta_expected_outputs = outs\<rparr>"
  have n: "length (c_nodes ?c) \<le> MAX_CIRCUIT_NODES" using size bound_compiled(5) [OF cp] by simp
  have "ProofStatement_validate sha256 into_bigint width ?st ?c = Inr ()" using new by (auto simp: Prover_new_def)
  then have len: "length (pubs @ binding_values st) = c_num_public ?c" "length outs = length (c_outputs ?c)"
    by (auto simp: ProofStatement_validate_iff MpcithStatement_validate_iff to_mpcith_def)
  have "node_count (normalize_node p) \<le> 10000"
    using compiled_implements(1) [OF bound_compiled(1) [OF cp]] by (simp add: policy_valid_def MAX_POLICY_NODES_def)
  then have "length outs \<le> 10001"
    using len(2) bound_compiled(6) [OF cp] implements_outputs [OF bound_compiled(2) [OF cp]] by simp
  moreover have "c_num_public ?c \<le> length (c_nodes ?c)"
    using bound_compiled(4) [OF cp] by (simp add: circuit_wf_def public_leaves_def)
  ultimately have "statement_ok ?st"
    using len(1) n compute_id_digest [OF length_sha256 cid] by (simp add: statement_ok_def MAX_CIRCUIT_NODES_def)
  then show ?thesis
    using Prover_prove_wf [OF new n _ _ _ _ prove]
    by (simp add: AUTHORIZATION_REPETITIONS_def MAX_PROOF_REPETITIONS_def Sha256Backend_def SUPPORTED_BACKEND_IDS_def)
qed

lemma sdk_authorize_wf:
  assumes run: "sdk_authorize sha256 into_bigint width inverse_op rand fill_bytes cfg pay p w g = Some (Inr auth, g')"
    and cp: "wiring_compile into_bigint width (normalize_node p) = Inr cp"
    and size: "length (c_nodes (cp_circuit cp)) + 8 \<le> MAX_CIRCUIT_NODES" and pay: "length (pay_id pay) = 32"
  shows "authorization_ok into_bigint auth"
proof -
  have run': "authorize_with sha256 into_bigint width inverse_op rand fill_bytes Sha256Backend_ID cfg pay p w g = Some (Inr auth, g')"
    using run by (auto simp: sdk_authorize_def split: sum.splits backend_type.splits)
  then obtain n pid cid st where prep: "prepare_authorization sha256 into_bigint width inverse_op cfg pay p w = Inr (n, pid, cid, st)"
    by (auto simp: authorize_with_def split: sum.splits)
  then have n: "n = normalize_node p" and ids: "policy_id sha256 p = Inr pid" "payment_circuit_id sha256 into_bigint width n = Inr cid"
    and st: "st = sdk_statement sha256 pay pid cid (cfg_protocol_version cfg)"
    by (auto simp: prepare_authorization_iff)
  obtain pr where pr: "authorize_payment sha256 into_bigint width inverse_op rand fill_bytes st w n g = (Inr pr, g')"
    and auth: "auth = Authorization_new AUTHORIZATION_VERSION (cfg_protocol_version cfg) Sha256Backend_ID (pay_id pay) pid cid pr"
    using run' prep by (auto simp: authorize_with_def Let_def split: sum.splits prod.splits option.splits if_splits)
  have "check_statement_binding sha256 into_bigint width st n = Inr ()" using authorize_checks [of rand st w n g pr] pr by simp
  then have "cfg_protocol_version cfg = PROTOCOL_VERSION" using statement_bound ids by (simp add: n st)
  moreover have "digest_wf pid"
    using ids(1) length_sha256 by (auto simp: policy_id_def Let_def Sha256Backend_hash_domain_def digest_wf_def DIGEST_LEN_def split: if_splits)
  moreover have "digest_wf cid" using ids(2) compute_id_digest [OF length_sha256] by (auto simp: payment_circuit_id_iff)
  moreover have "noninteractive_ok into_bigint pr" using authorize_payment_wf [OF pr [unfolded n] cp size] .
  ultimately show ?thesis
    using pay by (simp add: authorization_ok_def auth Authorization_new_def PROTOCOL_VERSION_def SUPPORTED_PROTOCOL_VERSIONS_def SUPPORTED_BACKEND_IDS_def)
qed

end

section \<open>Identity\<close>

text \<open>What is hashed for the id of an authorization.\<close>

definition authorization_id_input :: "('f \<Rightarrow> nat) \<Rightarrow> 'f authorization \<Rightarrow> bytes" where
  "authorization_id_input into_bigint auth = len_prefixed AUTHORIZATION_ID_DOMAIN @
     [au_version auth] @ [au_protocol_version auth] @ au_backend_id auth @ au_payment_id auth @
     digest_bytes (au_policy_id auth) @ digest_bytes (au_circuit_id auth) @ len_prefixed (serialize_proof into_bigint (au_proof auth))"

lemma authorization_id_eq:
  "authorization_id sha256 into_bigint auth =
     (if fits_u32 (serialize_proof into_bigint (au_proof auth)) then Some (Digest (sha256 (authorization_id_input into_bigint auth))) else None)"
  by (simp add: authorization_id_def encode_length_prefixed_def fits_u32_def authorization_id_input_def len_prefixed_def
      Sha256Hash_hash_domain_def Sha256Hash_hash_def)

context view_field
begin

lemma authorization_id_input_inject:
  assumes "authorization_ok into_bigint a" "authorization_ok into_bigint b"
    and "authorization_id_input into_bigint a = authorization_id_input into_bigint b"
  shows "a = b"
proof -
  have len: "length (au_backend_id x) = 16" "length (au_payment_id x) = 32" "length (digest_bytes (au_policy_id x)) = 32"
    "length (digest_bytes (au_circuit_id x)) = 32" if "authorization_ok into_bigint x" for x
    using that length_supported_backend [of "au_backend_id x"]
    by (simp_all add: authorization_ok_def digest_wf_def DIGEST_LEN_def BACKEND_ID_LEN_def)
  have "serialize_authorization into_bigint a = serialize_authorization into_bigint b"
    using assms(3) len [OF assms(1)] len [OF assms(2)]
    by (simp add: authorization_id_input_def serialize_authorization_def len_prefixed_def)
  then show ?thesis
    using assms(1,2) authorization_codec [of "serialize_authorization into_bigint a" a] authorization_codec [of "serialize_authorization into_bigint a" b] by simp
qed

end

section \<open>Properties\<close>

text \<open>C12: an authorization survives the wire. Whenever \<open>authorize\<close> returns an authorization for a payment with a
  32-byte id and a policy whose circuit is of permitted size, the artifact is well formed: its version, protocol and
  backend are supported, its ids have 32 bytes, and its proof has the shape the encoding fixes. So the
  bytes written by \<open>serialize\<close> are accepted by \<open>deserialize\<close>, which returns the same authorization, and the receiver's
  \<open>verify\<close> answers \<open>Valid\<close>.\<close>

theorem authorization_wire:
  assumes field: "compiler_field modulus (into_bigint :: 'f::comm_ring_1 \<Rightarrow> nat) inverse_op width" "modulus \<le> 256 ^ ELEMENT_WIDTH"
    and prims: "\<And>x. length (sha256 x) = 32" "\<And>g n. length (fst (fill_bytes g n)) = n"
    and small: "policy_small p" and cp: "wiring_compile into_bigint width (normalize_node p) = Inr cp"
    and size: "length (c_nodes (cp_circuit cp)) + 8 \<le> MAX_CIRCUIT_NODES" and pay: "length (pay_id pay) = 32"
    and run: "sdk_authorize sha256 into_bigint width inverse_op rand fill_bytes cfg pay p w g = Some (Inr auth, g')"
  shows "authorization_ok into_bigint auth \<and>
    deserialize_authorization modulus (serialize_authorization into_bigint auth) = Inr auth \<and>
    sdk_verify sha256 into_bigint width cfg pay p auth = Some (Inr SV_Valid)"
proof -
  have env: "payment_env modulus into_bigint inverse_op width sha256 fill_bytes"
    by (rule payment_envI [OF field(1)]) (simp_all add: prims)
  have ok: "authorization_ok into_bigint auth" by (rule payment_env.sdk_authorize_wf [OF env run cp size pay])
  have "view_field modulus into_bigint"
    using field by (intro view_fieldI) (auto simp: compiler_field_def prime_field_def)
  then have "deserialize_authorization modulus (serialize_authorization into_bigint auth) = Inr auth"
    using view_field.authorization_codec ok by blast
  moreover have "config_ok cfg \<and> sdk_payment_ok sha256 pay w p"
    using payment_env.sdk_authorize_only [OF env small cp, of rand cfg pay w g] run by auto
  then have "sdk_verify sha256 into_bigint width cfg pay p auth = Some (Inr SV_Valid)"
    using payment_env.sdk_round_trip [OF env small cp size, of cfg pay w rand g] run by auto
  ultimately show ?thesis using ok by blast
qed

text \<open>C34: the id of an authorization identifies it. Two well-formed authorizations with the same id are equal,
  or they exhibit two different inputs on which SHA-256 collides: the hashed bytes determine the versions, the
  backend, the payment, policy and circuit ids, and the whole proof.\<close>

theorem authorization_id_collision:
  assumes "field_ops modulus into_big" "modulus \<le> 256 ^ ELEMENT_WIDTH"
    and "authorization_ok into_big a" "authorization_ok into_big b"
    and "authorization_id sha256 into_big a = Some d" "authorization_id sha256 into_big b = Some d"
  shows "a = b \<or> authorization_id_input into_big a \<noteq> authorization_id_input into_big b \<and>
    sha256 (authorization_id_input into_big a) = sha256 (authorization_id_input into_big b)"
  using assms(5,6) view_field.authorization_id_input_inject [OF view_fieldI [OF assms(1,2)] assms(3,4)]
  by (auto simp: authorization_id_eq split: if_splits)

section \<open>Witnesses\<close>

theorem authorization_wire_witness:
  "\<exists>auth g'. sdk_authorize low32 fp_into_bigint 16 fp_inverse (\<lambda>g :: nat. (of_nat g, g + 1)) zero_fill SdkConfig_default
      (cap_payment 3) cap_policy cap_witness 0 = Some (Inr auth, g') \<and>
    deserialize_authorization fp_modulus (serialize_authorization fp_into_bigint auth) = Inr auth"
proof -
  obtain cp cid where cp: "wiring_compile fp_into_bigint 16 (normalize_node cap_policy) = Inr cp"
    "length (c_nodes (cp_circuit cp)) + 8 \<le> MAX_CIRCUIT_NODES" by (rule cap_circuit)
  obtain auth g' where run: "sdk_authorize low32 fp_into_bigint 16 fp_inverse (\<lambda>g :: nat. (of_nat g, g + 1)) zero_fill SdkConfig_default
      (cap_payment 3) cap_policy cap_witness 0 = Some (Inr auth, g')"
    using payment_env.sdk_round_trip [OF payment_envI [OF fp_compiler_field low32.length_sha256] cap_policy_facts(1) cp default_config_ok cap_sdk_ok,
        where fill_bytes = zero_fill and rand = "\<lambda>g :: nat. (of_nat g, g + 1)" and g = 0] by (auto simp: zero_fill_def)
  have "length (pay_id (cap_payment 3)) = 32" by (simp add: cap_payment_def)
  from authorization_wire [OF fp_compiler_field fp_view.modulus_fits low32.length_sha256 _ cap_policy_facts(1) cp this run]
  show ?thesis using run by (auto simp: zero_fill_def)
qed

lemma demo_proof_fits: "fits_u32 (serialize_proof fp_into_bigint demo_noninteractive)"
proof -
  have "length (encode_view fp_into_bigint (demo_view p)) \<le> 500" for p
    using length_encode_view [of fp_into_bigint "demo_view p"] by (simp add: demo_view_def)
  from this [of 0] this [of 1] this [of 2] show ?thesis
    by (simp add: fits_u32_def serialize_proof_def demo_noninteractive_def put_vec_def encode_proof_repetition_def encode_opening_def
        ProofStatement_encode_def put_element_def ELEMENT_WIDTH_def Sha256Backend_ID_def ascii_def Let_def length_concat sum_list_replicate)
qed

text \<open>A constant function collides on two authorizations for different payments.\<close>

theorem authorization_id_collision_witness:
  "let a = demo_authorization; b = demo_authorization\<lparr>au_payment_id := replicate 32 8\<rparr>
   in authorization_id_input fp_into_bigint a \<noteq> authorization_id_input fp_into_bigint b"
proof -
  let ?b = "demo_authorization\<lparr>au_payment_id := replicate 32 8\<rparr>"
  have "authorization_ok fp_into_bigint ?b" using demo_authorization_ok by (simp add: authorization_ok_def)
  moreover have "authorization_id (\<lambda>_. []) fp_into_bigint x = Some (Digest [])" if "x = demo_authorization \<or> x = ?b" for x
    using that demo_proof_fits by (auto simp: authorization_id_eq demo_authorization_def Authorization_new_def)
  ultimately have "demo_authorization = ?b \<or> authorization_id_input fp_into_bigint demo_authorization \<noteq> authorization_id_input fp_into_bigint ?b"
    using authorization_id_collision [OF fp_ops.field_ops_axioms fp_view.modulus_fits demo_authorization_ok, of ?b "\<lambda>_. []" "Digest []"] by blast
  then show ?thesis by (auto simp: demo_authorization_def Authorization_new_def)
qed

end
