(* ===== verification/Cursor.thy ===== *)
theory Cursor
  imports Codec
begin

text \<open>
  The structs \<open>Cursor\<close> and \<open>Reader\<close> of the decoders: a byte slice with a position. The codec theories
  read from the list of the bytes not read yet; here the readers are written as in the source, with the
  position, index expressions that can panic, and the reservation of vectors before their elements
  are read. A panic or a refused reservation is \<open>None\<close>. The relation \<open>refines\<close> says that a cursor program
  computes what a reader of the remaining bytes computes and never panics; its rules follow the
  shape of the programs, so that a decoder is related to its model by applying them.
\<close>

section \<open>Programs over a cursor\<close>

record cursor =
  cur_bytes :: bytes
  cur_pos :: nat

type_synonym ('e, 'a) cursor_op = "cursor \<Rightarrow> (('e, 'a) result \<times> cursor) option"

definition Cursor_new :: "bytes \<Rightarrow> cursor" where
  "Cursor_new bs = \<lparr>cur_bytes = bs, cur_pos = 0\<rparr>"

text \<open>\<open>let x = m?; f(x)\<close>, and an expression that does not touch the cursor.\<close>

definition cbind :: "('e, 'a) cursor_op \<Rightarrow> ('a \<Rightarrow> ('e, 'b) cursor_op) \<Rightarrow> ('e, 'b) cursor_op" where
  "cbind m f c = (case m c of None \<Rightarrow> None | Some (Inl e, c') \<Rightarrow> Some (Inl e, c') | Some (Inr x, c') \<Rightarrow> f x c')"

definition clift :: "('e, 'a) result \<Rightarrow> ('e, 'a) cursor_op" where
  "clift r c = Some (r, c)"

text \<open>An expression that can panic.\<close>

definition cpartial :: "('e, 'a) result option \<Rightarrow> ('e, 'a) cursor_op" where
  "cpartial r c = map_option (\<lambda>x. (x, c)) r"

text \<open>\<open>&bytes[a..b]\<close> and \<open>bytes[i]\<close>\<close>

definition slice_range :: "bytes \<Rightarrow> nat \<Rightarrow> nat \<Rightarrow> bytes option" where
  "slice_range bs a b = (if a \<le> b \<and> b \<le> length bs then Some (take (b - a) (drop a bs)) else None)"

definition byte_at :: "bytes \<Rightarrow> nat \<Rightarrow> u8 option" where
  "byte_at bs i = (if i < length bs then Some (bs ! i) else None)"

text \<open>\<open>read_bytes\<close> and \<open>take_slice\<close> exist in two forms. One compares \<open>pos + len\<close> with the length of the slice; the
  other subtracts the position from the length, which panics when the position is beyond the end.\<close>

definition read_bytes_add :: "'e \<Rightarrow> nat \<Rightarrow> ('e, bytes) cursor_op" where
  "read_bytes_add err len c =
     (if cur_pos c + len > length (cur_bytes c) then Some (Inl err, c)
      else map_option (\<lambda>raw. (Inr raw, c\<lparr>cur_pos := cur_pos c + len\<rparr>)) (slice_range (cur_bytes c) (cur_pos c) (cur_pos c + len)))"

definition read_bytes_sub :: "'e \<Rightarrow> nat \<Rightarrow> ('e, bytes) cursor_op" where
  "read_bytes_sub err len c =
     (if cur_pos c > length (cur_bytes c) then None
      else if length (cur_bytes c) - cur_pos c < len then Some (Inl err, c)
      else map_option (\<lambda>raw. (Inr raw, c\<lparr>cur_pos := cur_pos c + len\<rparr>)) (slice_range (cur_bytes c) (cur_pos c) (cur_pos c + len)))"

text \<open>The integer readers on top of a \<open>read_bytes\<close>. The array \<open>[raw[0], raw[1], raw[2], raw[3]]\<close> is four index
  expressions; \<open>buf.copy_from_slice(slice)\<close> panics unless the lengths agree.\<close>

definition cursor_u8 :: "(nat \<Rightarrow> ('e, bytes) cursor_op) \<Rightarrow> ('e, u8) cursor_op" where
  "cursor_u8 rb = cbind (rb 1) (\<lambda>raw. cpartial (map_option Inr (byte_at raw 0)))"

definition cursor_u32 :: "(nat \<Rightarrow> ('e, bytes) cursor_op) \<Rightarrow> ('e, u32) cursor_op" where
  "cursor_u32 rb = cbind (rb 4) (\<lambda>raw. cpartial
     (case (byte_at raw 0, byte_at raw 1, byte_at raw 2, byte_at raw 3) of
        (Some a, Some b, Some c, Some d) \<Rightarrow> Some (Inr (u32_from_be_bytes [a, b, c, d]))
      | _ \<Rightarrow> None))"

definition copy_from_slice :: "nat \<Rightarrow> bytes \<Rightarrow> bytes option" where
  "copy_from_slice n raw = (if length raw = n then Some raw else None)"

text \<open>\<open>Vec::with_capacity(n)\<close> followed by \<open>for _ in 0..count { xs.push(read(c)?) }\<close>. Whether the allocator grants
  room for \<open>n\<close> elements is the parameter \<open>grants\<close>; a refusal aborts.\<close>

definition Vec_with_capacity :: "(nat \<Rightarrow> bool) \<Rightarrow> nat \<Rightarrow> ('e, unit) cursor_op" where
  "Vec_with_capacity grants n c = (if grants n then Some (Inr (), c) else None)"

fun push_n :: "('e, 'a) cursor_op \<Rightarrow> nat \<Rightarrow> ('e, 'a list) cursor_op" where
  "push_n m 0 = clift (Inr [])"
| "push_n m (Suc n) = cbind m (\<lambda>x. cbind (push_n m n) (\<lambda>xs. clift (Inr (x # xs))))"

definition collect_n :: "(nat \<Rightarrow> bool) \<Rightarrow> nat \<Rightarrow> ('e, 'a) cursor_op \<Rightarrow> nat \<Rightarrow> ('e, 'a list) cursor_op" where
  "collect_n grants cap m n = cbind (Vec_with_capacity grants cap) (\<lambda>_. push_n m n)"

text \<open>A decoder that makes its own cursor on a slice and returns the value with the position it reached; a call of it on
  \<open>&bytes[c.pos..]\<close> with \<open>c.pos += consumed\<close>; and \<open>if c.pos != bytes.len()\<close>.\<close>

definition run_cursor :: "('e, 'a) cursor_op \<Rightarrow> bytes \<Rightarrow> ('e, 'a \<times> nat) result option" where
  "run_cursor m bs = (case m (Cursor_new bs) of None \<Rightarrow> None
     | Some (Inl e, c) \<Rightarrow> Some (Inl e) | Some (Inr x, c) \<Rightarrow> Some (Inr (x, cur_pos c)))"

definition advance_by :: "(bytes \<Rightarrow> ('e, 'a \<times> nat) result option) \<Rightarrow> ('e, 'a) cursor_op" where
  "advance_by dec c = (case slice_range (cur_bytes c) (cur_pos c) (length (cur_bytes c)) of None \<Rightarrow> None
     | Some bs \<Rightarrow> (case dec bs of None \<Rightarrow> None | Some (Inl e) \<Rightarrow> Some (Inl e, c)
        | Some (Inr (x, consumed)) \<Rightarrow> Some (Inr x, c\<lparr>cur_pos := cur_pos c + consumed\<rparr>)))"

definition cursor_finish :: "'e \<Rightarrow> ('e, unit) cursor_op" where
  "cursor_finish err c = Some (if cur_pos c \<noteq> length (cur_bytes c) then Inl err else Inr (), c)"

definition decode_all :: "('e, 'a) cursor_op \<Rightarrow> bytes \<Rightarrow> ('e, 'a) result option" where
  "decode_all m bs = map_option fst (m (Cursor_new bs))"

section \<open>Refinement\<close>

named_theorems refine_rules

definition refines :: "('e, 'a) cursor_op \<Rightarrow> (bytes \<Rightarrow> ('e, 'a \<times> bytes) result) \<Rightarrow> bool" where
  "refines m r \<longleftrightarrow> (\<forall>bs pos. pos \<le> length bs \<longrightarrow>
     (case r (drop pos bs) of
        Inl e \<Rightarrow> \<exists>c. m \<lparr>cur_bytes = bs, cur_pos = pos\<rparr> = Some (Inl e, c)
      | Inr (x, rest) \<Rightarrow> \<exists>pos'. m \<lparr>cur_bytes = bs, cur_pos = pos\<rparr> = Some (Inr x, \<lparr>cur_bytes = bs, cur_pos = pos'\<rparr>) \<and>
          pos \<le> pos' \<and> pos' \<le> length bs \<and> rest = drop pos' bs))"

text \<open>A program that ends a decoder: its model does not return the bytes left.\<close>

definition concludes :: "('e, 'a) cursor_op \<Rightarrow> (bytes \<Rightarrow> ('e, 'a) result) \<Rightarrow> bool" where
  "concludes m r \<longleftrightarrow> (\<forall>bs pos. pos \<le> length bs \<longrightarrow> (\<exists>c. m \<lparr>cur_bytes = bs, cur_pos = pos\<rparr> = Some (r (drop pos bs), c)))"

lemma refines_Inl: "refines m r \<Longrightarrow> pos \<le> length bs \<Longrightarrow> r (drop pos bs) = Inl e \<Longrightarrow> \<exists>c. m \<lparr>cur_bytes = bs, cur_pos = pos\<rparr> = Some (Inl e, c)"
  unfolding refines_def by fastforce

lemma refines_Inr:
  assumes "refines m r" "pos \<le> length bs" "r (drop pos bs) = Inr (x, rest)"
  obtains pos' where "m \<lparr>cur_bytes = bs, cur_pos = pos\<rparr> = Some (Inr x, \<lparr>cur_bytes = bs, cur_pos = pos'\<rparr>)"
    "pos \<le> pos'" "pos' \<le> length bs" "rest = drop pos' bs"
  using assms unfolding refines_def by fastforce

lemma refines_return [refine_rules]: "refines (clift (Inr x)) (\<lambda>bs. Inr (x, bs))"
  by (auto simp: refines_def clift_def)

lemma refines_error [refine_rules]: "refines (clift (Inl e)) (\<lambda>bs. Inl e)"
  by (auto simp: refines_def clift_def)

lemma refines_if [refine_rules]: "(b \<Longrightarrow> refines m r) \<Longrightarrow> (\<not> b \<Longrightarrow> refines m' r') \<Longrightarrow> refines (if b then m else m') (\<lambda>bs. if b then r bs else r' bs)"
  by simp

lemma cbind_clift [simp]: "cbind (clift (Inr x)) f = f x" "cbind (clift (Inl e)) f = clift (Inl e)"
  by (simp_all add: fun_eq_iff cbind_def clift_def)

lemma cbind_reserve: "grants n \<Longrightarrow> cbind (Vec_with_capacity grants n) f = f ()"
  by (simp add: fun_eq_iff cbind_def Vec_with_capacity_def)

lemma refines_bind_when:
  assumes m: "refines m r" and f: "\<And>bs x rest. r bs = Inr (x, rest) \<Longrightarrow> refines (f x) (g x)"
  shows "refines (cbind m f) (\<lambda>bs. rbind (r bs) (\<lambda>(x, rest). g x rest))"
  unfolding refines_def
proof (intro allI impI)
  fix bs :: bytes and pos assume pos: "pos \<le> length bs"
  let ?c = "\<lparr>cur_bytes = bs, cur_pos = pos\<rparr>"
  show "case rbind (r (drop pos bs)) (\<lambda>(x, rest). g x rest) of Inl e \<Rightarrow> \<exists>c. cbind m f ?c = Some (Inl e, c)
    | Inr (y, rest) \<Rightarrow> \<exists>pos'. cbind m f ?c = Some (Inr y, \<lparr>cur_bytes = bs, cur_pos = pos'\<rparr>) \<and> pos \<le> pos' \<and> pos' \<le> length bs \<and> rest = drop pos' bs"
  proof (cases "r (drop pos bs)")
    case (Inl e)
    then show ?thesis using refines_Inl [OF m pos] by (auto simp: cbind_def)
  next
    case (Inr p)
    obtain x rest where p: "p = (x, rest)" by (cases p)
    obtain pos' where step: "m ?c = Some (Inr x, \<lparr>cur_bytes = bs, cur_pos = pos'\<rparr>)" "pos \<le> pos'" "pos' \<le> length bs" "rest = drop pos' bs"
      using refines_Inr [OF m pos] Inr p by metis
    then show ?thesis
      using f [OF Inr [unfolded p], unfolded refines_def, rule_format, OF step(3)] Inr p
      by (auto simp: cbind_def split: sum.splits intro: le_trans)
  qed
qed

lemma refines_bind [refine_rules]:
  "refines m r \<Longrightarrow> (\<And>x. refines (f x) (g x)) \<Longrightarrow> refines (cbind m f) (\<lambda>bs. rbind (r bs) (\<lambda>(x, rest). g x rest))"
  by (rule refines_bind_when)

lemma refines_pure [refine_rules]: "(\<And>x. p = Inr x \<Longrightarrow> refines (f x) (g x)) \<Longrightarrow> refines (cbind (clift p) f) (\<lambda>bs. rbind p (\<lambda>x. g x bs))"
  by (cases p) (simp_all add: refines_error)

lemma refines_lift [refine_rules]: "refines (clift p) (\<lambda>bs. rbind p (\<lambda>x. Inr (x, bs)))"
  by (cases p) (simp_all add: refines_return refines_error)

lemma rbind_read_vec: "rbind (read_vec e dec bs) g = rbind (read_u32 e bs) (\<lambda>(n, rest). rbind (read_n dec (unat n) rest) g)"
  by (cases "read_u32 e bs") (auto simp: read_vec_def)

lemma refines_push [refine_rules]: "refines m r \<Longrightarrow> refines (push_n m n) (read_n r n)"
proof (induction n)
  case 0
  have "read_n r 0 = (\<lambda>bs. Inr ([], bs))" by (rule ext) simp
  then show ?case by (simp only: push_n.simps) (rule refines_return)
next
  case (Suc n)
  have "read_n r (Suc n) = (\<lambda>bs. rbind (r bs) (\<lambda>(x, rest). rbind (read_n r n rest) (\<lambda>(xs, rest'). Inr (x # xs, rest'))))"
    by (rule ext) simp
  then show ?case by (simp only: push_n.simps) (intro refine_rules Suc)
qed

lemma refines_reserve [refine_rules]: "grants n \<Longrightarrow> refines (f ()) r \<Longrightarrow> refines (cbind (Vec_with_capacity grants n) f) r"
  by (simp add: cbind_reserve)

lemma refines_collect [refine_rules]: "grants cap \<Longrightarrow> refines m r \<Longrightarrow> refines (collect_n grants cap m n) (read_n r n)"
  unfolding collect_n_def by (intro refines_reserve refines_push)

text \<open>Partial expressions that are defined.\<close>

lemma refines_bind_partial:
  assumes m: "refines m r" and f: "\<And>bs x rest. r bs = Inr (x, rest) \<Longrightarrow> f x = Some (h x)"
  shows "refines (cbind m (\<lambda>x. cpartial (f x))) (\<lambda>bs. rbind (r bs) (\<lambda>(x, rest). rbind (h x) (\<lambda>y. Inr (y, rest))))"
  unfolding refines_def
proof (intro allI impI)
  fix bs :: bytes and pos assume pos: "pos \<le> length bs"
  let ?m = "cbind m (\<lambda>x. cpartial (f x)) \<lparr>cur_bytes = bs, cur_pos = pos\<rparr>"
  show "case rbind (r (drop pos bs)) (\<lambda>(x, rest). rbind (h x) (\<lambda>y. Inr (y, rest))) of Inl e \<Rightarrow> \<exists>c. ?m = Some (Inl e, c)
    | Inr (y, rest) \<Rightarrow> \<exists>pos'. ?m = Some (Inr y, \<lparr>cur_bytes = bs, cur_pos = pos'\<rparr>) \<and> pos \<le> pos' \<and> pos' \<le> length bs \<and> rest = drop pos' bs"
  proof (cases "r (drop pos bs)")
    case (Inl e)
    then show ?thesis using refines_Inl [OF m pos] by (auto simp: cbind_def)
  next
    case (Inr p)
    obtain x rest where p: "p = (x, rest)" by (cases p)
    with Inr obtain pos' where "m \<lparr>cur_bytes = bs, cur_pos = pos\<rparr> = Some (Inr x, \<lparr>cur_bytes = bs, cur_pos = pos'\<rparr>)"
      "pos \<le> pos'" "pos' \<le> length bs" "rest = drop pos' bs"
      using refines_Inr [OF m pos] by metis
    then show ?thesis using Inr p f [of "drop pos bs" x rest] by (cases "h x") (auto simp: cbind_def cpartial_def)
  qed
qed

section \<open>Decoders called from decoders\<close>

definition consumed :: "nat \<Rightarrow> ('e, 'a \<times> bytes) result \<Rightarrow> ('e, 'a \<times> nat) result" where
  "consumed n r = rbind r (\<lambda>(x, rest). Inr (x, n - length rest))"

lemma refines_run: "refines m r \<Longrightarrow> run_cursor m bs = Some (consumed (length bs) (r bs))"
  unfolding refines_def run_cursor_def Cursor_new_def consumed_def
  by (drule spec [where x = bs], drule spec [where x = 0]) (auto split: sum.splits)

lemma refines_rest: "refines m r \<Longrightarrow> r bs = Inr (x, rest) \<Longrightarrow> \<exists>n \<le> length bs. rest = drop n bs"
  by (erule refines_Inr [where pos = 0 and bs = bs]) auto

lemma refines_length: "refines m r \<Longrightarrow> r bs = Inr (x, rest) \<Longrightarrow> length rest \<le> length bs"
  by (auto dest: refines_rest)

lemma consumed_all: "length rest \<le> length bs \<Longrightarrow> length bs - length rest = length bs \<longleftrightarrow> rest = []"
  by (cases rest) auto

lemma refines_call [refine_rules]:
  assumes m: "refines m r" and f: "\<And>x left. length left \<le> length raw \<Longrightarrow> refines (f x (length raw - length left)) (g x left)"
  shows "refines (cbind (cpartial (run_cursor m raw)) (\<lambda>(x, n). f x n)) (\<lambda>bs. rbind (r raw) (\<lambda>(x, left). g x left bs))"
proof -
  have "cpartial (run_cursor m raw) = clift (consumed (length raw) (r raw))"
    by (simp add: fun_eq_iff cpartial_def clift_def refines_run [OF m])
  then show ?thesis
    using f refines_length [OF m, of raw] refines_error
    by (cases "r raw") (auto simp: consumed_def)
qed

lemma refines_call_err [refine_rules]:
  assumes m: "refines m r" and f: "\<And>x left. length left \<le> length raw \<Longrightarrow> refines (f x (length raw - length left)) (g x left)"
  shows "refines (cbind (cpartial (map_option (map_err h) (run_cursor m raw))) (\<lambda>(x, n). f x n)) (\<lambda>bs. rbind (map_err h (r raw)) (\<lambda>(x, left). g x left bs))"
proof -
  have "cpartial (map_option (map_err h) (run_cursor m raw)) = clift (map_err h (consumed (length raw) (r raw)))"
    by (simp add: fun_eq_iff cpartial_def clift_def refines_run [OF m])
  then show ?thesis
    using f refines_length [OF m, of raw] refines_error
    by (cases "r raw") (auto simp: consumed_def map_err_def)
qed

lemma refines_advance [refine_rules]:
  assumes "refines m r"
  shows "refines (advance_by (run_cursor m)) r"
  unfolding refines_def
proof (intro allI impI)
  fix bs :: bytes and pos assume pos: "pos \<le> length bs"
  let ?m = "advance_by (run_cursor m) \<lparr>cur_bytes = bs, cur_pos = pos\<rparr>"
  have m: "?m = Some (case r (drop pos bs) of Inl e \<Rightarrow> (Inl e, \<lparr>cur_bytes = bs, cur_pos = pos\<rparr>)
      | Inr (x, rest) \<Rightarrow> (Inr x, \<lparr>cur_bytes = bs, cur_pos = pos + (length bs - pos - length rest)\<rparr>))"
    using pos by (simp add: advance_by_def slice_range_def refines_run [OF assms] consumed_def split: sum.splits prod.splits)
  show "case r (drop pos bs) of Inl e \<Rightarrow> \<exists>c. ?m = Some (Inl e, c)
    | Inr (x, rest) \<Rightarrow> \<exists>pos'. ?m = Some (Inr x, \<lparr>cur_bytes = bs, cur_pos = pos'\<rparr>) \<and> pos \<le> pos' \<and> pos' \<le> length bs \<and> rest = drop pos' bs"
  proof (cases "r (drop pos bs)")
    case (Inl e)
    then show ?thesis by (simp add: m)
  next
    case (Inr p)
    obtain x rest where p: "p = (x, rest)" by (cases p)
    with Inr obtain n where "n \<le> length bs - pos" "rest = drop (pos + n) bs"
      using refines_rest [OF assms, of "drop pos bs" x rest] by (auto simp: add.commute)
    then show ?thesis using pos by (simp add: m Inr p)
  qed
qed

lemma refines_remaining: "(\<And>n. refines (m n) (r n)) \<Longrightarrow> refines (\<lambda>c. m (length (cur_bytes c) - cur_pos c) c) (\<lambda>bs. r (length bs) bs)"
  unfolding refines_def length_drop cursor.simps by blast

section \<open>The end of a decoder\<close>

lemma concludes_bind [refine_rules]:
  assumes m: "refines m r" and f: "\<And>x. concludes (f x) (g x)"
  shows "concludes (cbind m f) (\<lambda>bs. rbind (r bs) (\<lambda>(x, rest). g x rest))"
  unfolding concludes_def
proof (intro allI impI)
  fix bs :: bytes and pos assume pos: "pos \<le> length bs"
  show "\<exists>c. cbind m f \<lparr>cur_bytes = bs, cur_pos = pos\<rparr> = Some (rbind (r (drop pos bs)) (\<lambda>(x, rest). g x rest), c)"
  proof (cases "r (drop pos bs)")
    case (Inl e)
    then show ?thesis using refines_Inl [OF m pos] by (auto simp: cbind_def)
  next
    case (Inr p)
    obtain x rest where p: "p = (x, rest)" by (cases p)
    with Inr obtain pos' where "m \<lparr>cur_bytes = bs, cur_pos = pos\<rparr> = Some (Inr x, \<lparr>cur_bytes = bs, cur_pos = pos'\<rparr>)"
      "pos' \<le> length bs" "rest = drop pos' bs"
      using refines_Inr [OF m pos] by metis
    then show ?thesis using Inr p f [of x, unfolded concludes_def] by (auto simp: cbind_def)
  qed
qed

lemma concludes_pure [refine_rules]: "(\<And>x. p = Inr x \<Longrightarrow> concludes (f x) (g x)) \<Longrightarrow> concludes (cbind (clift p) f) (\<lambda>bs. rbind p (\<lambda>x. g x bs))"
  by (cases p) (simp_all add: concludes_def clift_def)

lemma concludes_if [refine_rules]: "(b \<Longrightarrow> concludes m r) \<Longrightarrow> (\<not> b \<Longrightarrow> concludes m' r') \<Longrightarrow> concludes (if b then m else m') (\<lambda>bs. if b then r bs else r' bs)"
  by simp

lemma concludes_lift [refine_rules]: "concludes (clift p) (\<lambda>bs. p)"
  by (simp add: concludes_def clift_def)

lemma concludes_reserve [refine_rules]: "grants n \<Longrightarrow> concludes (f ()) r \<Longrightarrow> concludes (cbind (Vec_with_capacity grants n) f) r"
  by (simp add: cbind_reserve)

lemma cbind_finish:
  "cbind (cursor_finish err) f c = (if cur_pos c \<noteq> length (cur_bytes c) then Some (Inl err, c) else f () c)"
  by (simp add: cbind_def cursor_finish_def)

lemma concludes_finish [refine_rules]: "concludes (f ()) r \<Longrightarrow> concludes (cbind (cursor_finish err) f) (\<lambda>bs. rbind (ensure (bs = []) err) (\<lambda>_. r bs))"
  by (fastforce simp: concludes_def cbind_finish ensure_def)

lemma concludes_finish_if [refine_rules]: "concludes (f ()) r \<Longrightarrow> concludes (cbind (cursor_finish err) f) (\<lambda>bs. if bs \<noteq> [] then Inl err else r bs)"
  by (fastforce simp: concludes_def cbind_finish)

lemma concludes_decode: "concludes m r \<Longrightarrow> decode_all m bs = Some (r bs)"
  unfolding concludes_def decode_all_def Cursor_new_def by (drule spec [where x = bs], drule spec [where x = 0]) auto

section \<open>Byte readers\<close>

text \<open>The contract of \<open>read_bytes\<close>, and what is built on it.\<close>

locale byte_reader =
  fixes rb :: "nat \<Rightarrow> ('e, bytes) cursor_op" and err :: 'e
  assumes refines_bytes: "refines (rb n) (read_slice err n)"
begin

lemma refines_u8: "refines (cursor_u8 rb) (read_u8 err)"
proof -
  have "read_u8 err = (\<lambda>bs. rbind (read_slice err 1 bs) (\<lambda>(raw, rest). rbind (Inr (raw ! 0)) (\<lambda>y. Inr (y, rest))))"
    by (simp add: fun_eq_iff read_u8_def)
  then show ?thesis
    unfolding cursor_u8_def
    by (simp only:) (rule refines_bind_partial [OF refines_bytes], auto simp: read_slice_Inr byte_at_def)
qed

lemma refines_u32: "refines (cursor_u32 rb) (read_u32 err)"
proof -
  have "read_u32 err = (\<lambda>bs. rbind (read_slice err 4 bs) (\<lambda>(raw, rest). rbind (Inr (u32_from_be_bytes raw)) (\<lambda>y. Inr (y, rest))))"
    by (simp add: fun_eq_iff read_u32_def)
  moreover have "[raw ! 0, raw ! Suc 0, raw ! 2, raw ! 3] = raw" if "length raw = 4" for raw :: bytes
    using that by (intro nth_equalityI) (auto simp: less_Suc_eq numeral_eq_Suc)
  ultimately show ?thesis
    unfolding cursor_u32_def
    by (simp only:) (rule refines_bind_partial [OF refines_bytes], auto simp: read_slice_Inr byte_at_def)
qed

lemma refines_copy: "refines (cbind (rb n) (\<lambda>raw. cpartial (map_option (\<lambda>buf. Inr (h buf)) (copy_from_slice n raw))))
    (\<lambda>bs. rbind (read_slice err n bs) (\<lambda>(raw, rest). Inr (h raw, rest)))"
  using refines_bind_partial [OF refines_bytes, where h = "\<lambda>raw. Inr (h raw)"]
  by (simp add: read_slice_Inr copy_from_slice_def)

end

interpretation add_reader: byte_reader "read_bytes_add err" err for err
  by unfold_locales (auto simp: refines_def read_bytes_add_def read_slice_def slice_range_def add.commute)

interpretation sub_reader: byte_reader "read_bytes_sub err" err for err
  by unfold_locales (auto simp: refines_def read_bytes_sub_def read_slice_def slice_range_def add.commute)

declare add_reader.refines_bytes [refine_rules] add_reader.refines_u8 [refine_rules] add_reader.refines_u32 [refine_rules]
  sub_reader.refines_bytes [refine_rules] sub_reader.refines_u8 [refine_rules] sub_reader.refines_u32 [refine_rules]

end
