(* ===== verification/Cursor_Decoders.thy ===== *)
theory Cursor_Decoders
  imports Cursor Policy Proof_System
begin

text \<open>
  The decoders of \<open>crates/policy\<close>, \<open>crates/circuit\<close>, \<open>crates/mpcith\<close> and \<open>crates/proof\<close> over their position-based
  cursors, and their refinement of the readers used in the rest of the development. The parameter \<open>grants\<close> says
  which reservations of vectors succeed. All decoders but the one of policies reserve room for at most 1024
  elements before reading them.
\<close>

text \<open>What the decoders with bounded reservations rely on: vectors of up to 1024 elements can be allocated.\<close>

locale small_vectors =
  fixes grants :: "nat \<Rightarrow> bool"
  assumes modest: "n \<le> 1024 \<Longrightarrow> grants n"

interpretation exact_vectors: small_vectors "\<lambda>n. n \<le> 1024"
  by unfold_locales

section \<open>Policies\<close>

definition Reader_take_byte :: "(policy_error, u8) cursor_op" where
  "Reader_take_byte c =
     (if cur_pos c \<ge> length (cur_bytes c) then Some (Inl PE_MalformedEncoding, c)
      else map_option (\<lambda>byte. (Inr byte, c\<lparr>cur_pos := cur_pos c + 1\<rparr>)) (byte_at (cur_bytes c) (cur_pos c)))"

definition Reader_take_slice :: "nat \<Rightarrow> (policy_error, bytes) cursor_op" where
  "Reader_take_slice = read_bytes_add PE_MalformedEncoding"

definition Reader_take_u32 :: "(policy_error, u32) cursor_op" where
  "Reader_take_u32 = cbind (Reader_take_slice 4) (\<lambda>raw. cpartial (map_option (\<lambda>buf. Inr (u32_from_be_bytes buf)) (copy_from_slice 4 raw)))"

definition Reader_take_u64 :: "(policy_error, u64) cursor_op" where
  "Reader_take_u64 = cbind (Reader_take_slice 8) (\<lambda>raw. cpartial (map_option (\<lambda>buf. Inr (u64_from_be_bytes buf)) (copy_from_slice 8 raw)))"

definition Reader_take_u16 :: "(policy_error, u16) cursor_op" where
  "Reader_take_u16 = cbind (Reader_take_slice 2) (\<lambda>raw. cpartial (map_option (\<lambda>buf. Inr (u16_from_be_bytes buf)) (copy_from_slice 2 raw)))"

text \<open>The reservation is for the declared number of members, before any is read.\<close>

fun Reader_take_node :: "(nat \<Rightarrow> bool) \<Rightarrow> nat \<Rightarrow> (policy_error, policy) cursor_op" where
  "Reader_take_node grants 0 = clift (Inl PE_MalformedEncoding)"
| "Reader_take_node grants (Suc fuel) =
     cbind Reader_take_byte (\<lambda>tag.
     if tag = TAG_AMOUNT_AT_MOST then cbind Reader_take_u64 (\<lambda>limit. clift (Inr (AmountAtMost limit)))
     else if tag = TAG_CREDENTIAL then
       cbind (Reader_take_slice CREDENTIAL_ID_LEN) (\<lambda>raw.
       cpartial (map_option (\<lambda>buf. Inr (Credential buf)) (copy_from_slice CREDENTIAL_ID_LEN raw)))
     else if tag = TAG_THRESHOLD then
       cbind Reader_take_u16 (\<lambda>k. cbind Reader_take_u32 (\<lambda>count.
       cbind (collect_n grants (unat count) (Reader_take_node grants fuel) (unat count)) (\<lambda>members. clift (Inr (Threshold k members)))))
     else if tag = TAG_AND then
       cbind Reader_take_u32 (\<lambda>count.
       cbind (collect_n grants (unat count) (Reader_take_node grants fuel) (unat count)) (\<lambda>members. clift (Inr (And members))))
     else if tag = TAG_OR then
       cbind Reader_take_u32 (\<lambda>count.
       cbind (collect_n grants (unat count) (Reader_take_node grants fuel) (unat count)) (\<lambda>members. clift (Inr (Or members))))
     else clift (Inl PE_MalformedEncoding))"

definition Reader_remaining :: "cursor \<Rightarrow> nat option" where
  "Reader_remaining c = (if cur_pos c > length (cur_bytes c) then None else Some (length (cur_bytes c) - cur_pos c))"

definition Reader_finish :: "(policy_error, unit) cursor_op" where
  "Reader_finish c = map_option (\<lambda>n. (ensure (n = 0) PE_TrailingBytes, c)) (Reader_remaining c)"

definition Reader_decode :: "(nat \<Rightarrow> bool) \<Rightarrow> bytes \<Rightarrow> (policy_error, policy) result option" where
  "Reader_decode grants = decode_all (
     cbind Reader_take_byte (\<lambda>version.
     if version \<noteq> POLICY_ENCODING_VERSION then clift (Inl PE_UnknownVersion) else
     cbind (\<lambda>c. Reader_take_node grants (length (cur_bytes c) - cur_pos c) c) (\<lambda>p.
     cbind Reader_finish (\<lambda>_. clift (Inr p)))))"

lemma refines_take_byte [refine_rules]: "refines Reader_take_byte (read_u8 PE_MalformedEncoding)"
  unfolding refines_def
  by (auto simp: Reader_take_byte_def read_u8_def read_slice_def byte_at_def rbind_def hd_drop_conv_nth hd_conv_nth split: if_splits)

lemmas refines_take_slice [refine_rules] = add_reader.refines_bytes [of PE_MalformedEncoding, folded Reader_take_slice_def]

lemmas refines_take_copy [refine_rules] = add_reader.refines_copy [of PE_MalformedEncoding, folded Reader_take_slice_def]

lemma refines_take_uN [refine_rules]:
  "refines Reader_take_u16 (read_u16 PE_MalformedEncoding)" "refines Reader_take_u32 (read_u32 PE_MalformedEncoding)"
  "refines Reader_take_u64 (read_u64 PE_MalformedEncoding)"
  unfolding Reader_take_u16_def Reader_take_u32_def Reader_take_u64_def read_u16_def [abs_def] read_u32_def [abs_def] read_u64_def [abs_def]
  by (intro refines_take_copy)+

lemma refines_take_node: "(\<And>count :: u32. grants (unat count)) \<Longrightarrow> refines (Reader_take_node grants fuel) (take_node fuel)"
proof (induction fuel)
  case 0
  have "take_node 0 = (\<lambda>bs. Inl PE_MalformedEncoding)" by (rule ext) simp
  then show ?case by (simp only: Reader_take_node.simps) (intro refine_rules)
next
  case (Suc fuel)
  show ?case
    unfolding Reader_take_node.simps take_node.simps [THEN ext]
    by (intro refine_rules Suc)
qed

lemma concludes_Reader_finish: "concludes (f ()) r \<Longrightarrow> concludes (cbind Reader_finish f) (\<lambda>bs. if bs \<noteq> [] then Inl PE_TrailingBytes else r bs)"
  by (fastforce simp: concludes_def cbind_def Reader_finish_def Reader_remaining_def ensure_def)

lemma Reader_decode_eq:
  assumes "\<And>count :: u32. grants (unat count)"
  shows "Reader_decode grants bs = Some (decode_policy bs)"
  unfolding Reader_decode_def decode_policy_def [abs_def]
  by (rule concludes_decode)
    (intro refine_rules concludes_Reader_finish refines_remaining [where m = "Reader_take_node grants" and r = take_node] refines_take_node assms)

section \<open>Circuits\<close>

definition circuit_read_bytes :: "nat \<Rightarrow> (circuit_error, bytes) cursor_op" where
  "circuit_read_bytes = read_bytes_add CE_UnexpectedEnd"

definition circuit_read_u8 :: "(circuit_error, u8) cursor_op" where
  "circuit_read_u8 = cursor_u8 circuit_read_bytes"

definition circuit_read_u32 :: "(circuit_error, u32) cursor_op" where
  "circuit_read_u32 = cursor_u32 circuit_read_bytes"

definition circuit_decode_node :: "nat \<Rightarrow> nat \<Rightarrow> (circuit_error, 'f::comm_ring_1 node) cursor_op" where
  "circuit_decode_node modulus width =
     cbind circuit_read_u8 (\<lambda>tag.
     if tag = TAG_SECRET_INPUT then clift (Inr SecretInput)
     else if tag = TAG_PUBLIC_INPUT then clift (Inr PublicInput)
     else if tag = TAG_CONSTANT then
       cbind (circuit_read_bytes width) (\<lambda>raw.
       cbind (clift (ok_or CE_MalformedNode (circuit_element_from_be_bytes modulus raw))) (\<lambda>v. clift (Inr (Constant v))))
     else if tag = TAG_ADD then cbind circuit_read_u32 (\<lambda>a. cbind circuit_read_u32 (\<lambda>b. clift (Inr (Add a b))))
     else if tag = TAG_MUL then cbind circuit_read_u32 (\<lambda>a. cbind circuit_read_u32 (\<lambda>b. clift (Inr (Mul a b))))
     else clift (Inl CE_MalformedNode))"

definition circuit_deserialize :: "(nat \<Rightarrow> bool) \<Rightarrow> nat \<Rightarrow> nat \<Rightarrow> bytes \<Rightarrow> (circuit_error, 'f::comm_ring_1 circuit) result option" where
  "circuit_deserialize grants modulus width = decode_all (
     cbind circuit_read_u8 (\<lambda>version.
     if version \<noteq> ENCODING_VERSION then clift (Inl CE_UnsupportedVersion) else
     cbind circuit_read_u32 (\<lambda>num_nodes.
     if unat num_nodes > MAX_CIRCUIT_NODES then clift (Inl CE_ExcessiveSize) else
     cbind (collect_n grants (min (unat num_nodes) 1024) (circuit_decode_node modulus width) (unat num_nodes)) (\<lambda>nodes.
     cbind circuit_read_u32 (\<lambda>num_outputs.
     cbind (collect_n grants (min (unat num_outputs) 1024) circuit_read_u32 (unat num_outputs)) (\<lambda>outputs.
     cbind (cursor_finish CE_TrailingBytes) (\<lambda>_.
     let c = \<lparr>c_nodes = nodes, c_num_secret = secret_leaves nodes, c_num_public = public_leaves nodes, c_outputs = outputs\<rparr>
     in clift (rbind (validate c) (\<lambda>_. Inr c)))))))))"

lemmas circuit_refines [refine_rules] =
  add_reader.refines_bytes [of CE_UnexpectedEnd, folded circuit_read_bytes_def]
  add_reader.refines_u8 [of CE_UnexpectedEnd, folded circuit_read_bytes_def, folded circuit_read_u8_def]
  add_reader.refines_u32 [of CE_UnexpectedEnd, folded circuit_read_bytes_def, folded circuit_read_u32_def]

lemma refines_decode_node [refine_rules]: "refines (circuit_decode_node modulus width) (decode_node modulus width)"
  unfolding circuit_decode_node_def decode_node_def [abs_def] by (intro refine_rules)

context small_vectors
begin

lemma circuit_deserialize_eq: "circuit_deserialize grants modulus width bs = Some (deserialize modulus width bs)"
  unfolding circuit_deserialize_def deserialize_def [abs_def] Let_def
  by (rule concludes_decode) (intro refine_rules modest min.cobounded2)

end

section \<open>Interactive proofs\<close>

definition mpcith_read_bytes :: "nat \<Rightarrow> (mpcith_error, bytes) cursor_op" where
  "mpcith_read_bytes = read_bytes_sub MpE_MalformedEncoding"

definition mpcith_read_u8 :: "(mpcith_error, u8) cursor_op" where
  "mpcith_read_u8 = cursor_u8 mpcith_read_bytes"

definition mpcith_read_u32 :: "(mpcith_error, u32) cursor_op" where
  "mpcith_read_u32 = cursor_u32 mpcith_read_bytes"

definition mpcith_read_party_id :: "(mpcith_error, party_id) cursor_op" where
  "mpcith_read_party_id = cbind mpcith_read_u8 (\<lambda>b. clift (map_err (\<lambda>_. MpE_MalformedEncoding) (PartyId_new b)))"

definition mpcith_read_element :: "nat \<Rightarrow> (mpcith_error, 'f::comm_ring_1) cursor_op" where
  "mpcith_read_element modulus = cbind (mpcith_read_bytes ELEMENT_WIDTH) (\<lambda>raw. clift (ok_or MpE_MalformedEncoding (element_from_be_bytes modulus raw)))"

definition mpcith_read_elements :: "(nat \<Rightarrow> bool) \<Rightarrow> nat \<Rightarrow> nat \<Rightarrow> (mpcith_error, 'f::comm_ring_1 list) cursor_op" where
  "mpcith_read_elements grants modulus n = collect_n grants (min n 1024) (mpcith_read_element modulus) n"

definition mpcith_decode_operation :: "nat \<Rightarrow> (mpcith_error, 'f::comm_ring_1 local_operation) cursor_op" where
  "mpcith_decode_operation modulus =
     cbind mpcith_read_u8 (\<lambda>tag.
     if tag = OP_TAG_ADD then
       cbind mpcith_read_u32 (\<lambda>output. cbind (mpcith_read_element modulus) (\<lambda>share. clift (Inr (Op_Add output share))))
     else if tag = OP_TAG_MUL_PUBLIC then
       cbind mpcith_read_u32 (\<lambda>output. cbind (mpcith_read_element modulus) (\<lambda>public.
       cbind (mpcith_read_element modulus) (\<lambda>share. clift (Inr (Op_MulPublic output public share)))))
     else if tag = OP_TAG_BEAVER_MUL then
       cbind mpcith_read_u32 (\<lambda>output. cbind mpcith_read_u32 (\<lambda>triple_index.
       cbind (mpcith_read_element modulus) (\<lambda>d. cbind (mpcith_read_element modulus) (\<lambda>e.
       cbind (mpcith_read_element modulus) (\<lambda>share. clift (Inr (Op_BeaverMul output (unat triple_index) d e share)))))))
     else clift (Inl MpE_MalformedEncoding))"

definition mpcith_decode_triple :: "nat \<Rightarrow> (mpcith_error, 'f::comm_ring_1 triple_share) cursor_op" where
  "mpcith_decode_triple modulus =
     cbind (mpcith_read_element modulus) (\<lambda>a. cbind (mpcith_read_element modulus) (\<lambda>b. cbind (mpcith_read_element modulus) (\<lambda>c.
     clift (Inr \<lparr>ts_a = a, ts_b = b, ts_c = c\<rparr>))))"

definition mpcith_view_body :: "(nat \<Rightarrow> bool) \<Rightarrow> nat \<Rightarrow> (mpcith_error, 'f::comm_ring_1 party_view) cursor_op" where
  "mpcith_view_body grants modulus =
     cbind mpcith_read_u32 (\<lambda>rid.
     cbind mpcith_read_party_id (\<lambda>pid.
     cbind mpcith_read_u32 (\<lambda>n_shares. cbind (mpcith_read_elements grants modulus (unat n_shares)) (\<lambda>inputs.
     cbind mpcith_read_u32 (\<lambda>n_ops. cbind (collect_n grants (min (unat n_ops) 1024) (mpcith_decode_operation modulus) (unat n_ops)) (\<lambda>ops.
     cbind mpcith_read_u32 (\<lambda>n_triples. cbind (collect_n grants (min (unat n_triples) 1024) (mpcith_decode_triple modulus) (unat n_triples)) (\<lambda>triples.
     cbind mpcith_read_u32 (\<lambda>n_opened. cbind (mpcith_read_elements grants modulus (unat n_opened)) (\<lambda>opened.
     clift (Inr \<lparr>pv_repetition_id = rid, pv_party_id = pid, pv_input_shares = inputs, pv_local_operations = ops,
       pv_triple_shares = triples, pv_opened_values = opened\<rparr>)))))))))))"

definition mpcith_decode_view :: "(nat \<Rightarrow> bool) \<Rightarrow> nat \<Rightarrow> bytes \<Rightarrow> (mpcith_error, 'f::comm_ring_1 party_view \<times> nat) result option" where
  "mpcith_decode_view grants modulus = run_cursor (mpcith_view_body grants modulus)"

definition mpcith_decode_challenge :: "bytes \<Rightarrow> (mpcith_error, challenge \<times> nat) result option" where
  "mpcith_decode_challenge = run_cursor (cbind mpcith_read_party_id (\<lambda>p. clift (Inr \<lparr>hidden_party = p\<rparr>)))"

text \<open>The challenge is decoded from \<open>&bytes[c.pos..]\<close>; then \<open>c.pos += 1\<close>.\<close>

definition mpcith_challenge_at :: "(mpcith_error, challenge) cursor_op" where
  "mpcith_challenge_at c = (case slice_range (cur_bytes c) (cur_pos c) (length (cur_bytes c)) of None \<Rightarrow> None
     | Some bs \<Rightarrow> (case mpcith_decode_challenge bs of None \<Rightarrow> None | Some (Inl e) \<Rightarrow> Some (Inl MpE_MalformedEncoding, c)
        | Some (Inr (ch, _)) \<Rightarrow> Some (Inr ch, c\<lparr>cur_pos := cur_pos c + 1\<rparr>)))"

text \<open>\<open><[u8; 32]>::try_from(raw).map_err(..)\<close>\<close>

definition try_from_slice :: "'e \<Rightarrow> nat \<Rightarrow> bytes \<Rightarrow> ('e, bytes) result" where
  "try_from_slice err n raw = (if length raw = n then Inr raw else Inl err)"

definition mpcith_read_commitment :: "(mpcith_error, digest) cursor_op" where
  "mpcith_read_commitment = cbind (mpcith_read_bytes DIGEST_LEN_MPCITH) (\<lambda>raw.
     cbind (clift (try_from_slice MpE_MalformedEncoding 32 raw)) (\<lambda>d. clift (Inr (Digest d))))"

definition mpcith_read_opened :: "(nat \<Rightarrow> bool) \<Rightarrow> nat \<Rightarrow> (mpcith_error, 'f::comm_ring_1 opened_view) cursor_op" where
  "mpcith_read_opened grants modulus =
     cbind mpcith_read_u32 (\<lambda>len. cbind (mpcith_read_bytes (unat len)) (\<lambda>view_bytes.
     cbind (cpartial (mpcith_decode_view grants modulus view_bytes)) (\<lambda>(v, _).
     cbind (mpcith_read_bytes RANDOMNESS_LEN_MPCITH) (\<lambda>raw. clift (Inr \<lparr>ov_view = v, ov_randomness = raw\<rparr>)))))"

definition mpcith_repetition_body :: "(nat \<Rightarrow> bool) \<Rightarrow> nat \<Rightarrow> (mpcith_error, 'f::comm_ring_1 repetition) cursor_op" where
  "mpcith_repetition_body grants modulus =
     cbind mpcith_read_u32 (\<lambda>rid.
     cbind (collect_n grants (unat PARTY_COUNT) mpcith_read_commitment (unat PARTY_COUNT)) (\<lambda>commitments.
     cbind mpcith_challenge_at (\<lambda>ch.
     cbind mpcith_read_u32 (\<lambda>n_hidden_out. cbind (mpcith_read_elements grants modulus (unat n_hidden_out)) (\<lambda>outs.
     cbind mpcith_read_u32 (\<lambda>n_broadcasts. cbind (mpcith_read_elements grants modulus (unat n_broadcasts)) (\<lambda>broadcasts.
     cbind (collect_n grants 2 (mpcith_read_opened grants modulus) 2) (\<lambda>opened.
     clift (Inr \<lparr>rep_id = rid, rep_commitments = commitments, rep_challenge = ch, rep_opened_views = opened,
       rep_hidden_output_shares = outs, rep_hidden_broadcasts = broadcasts\<rparr>)))))))))"

definition mpcith_decode_repetition :: "(nat \<Rightarrow> bool) \<Rightarrow> nat \<Rightarrow> bytes \<Rightarrow> (mpcith_error, 'f::comm_ring_1 repetition \<times> nat) result option" where
  "mpcith_decode_repetition grants modulus = run_cursor (mpcith_repetition_body grants modulus)"

definition mpcith_decode_proof :: "(nat \<Rightarrow> bool) \<Rightarrow> nat \<Rightarrow> bytes \<Rightarrow> (mpcith_error, 'f::comm_ring_1 mpcith_proof) result option" where
  "mpcith_decode_proof grants modulus = decode_all (
     cbind mpcith_read_u8 (\<lambda>version.
     cbind (clift (ensure (version = MPCITH_ENCODING_VERSION) MpE_MalformedEncoding)) (\<lambda>_.
     cbind mpcith_read_u32 (\<lambda>n_reps.
     cbind (clift (ensure (\<not> unat n_reps > MAX_REPETITIONS) MpE_MalformedEncoding)) (\<lambda>_.
     cbind (collect_n grants (min (unat n_reps) 1024) (advance_by (mpcith_decode_repetition grants modulus)) (unat n_reps)) (\<lambda>reps.
     cbind (cursor_finish MpE_MalformedEncoding) (\<lambda>_. clift (Inr \<lparr>mp_repetitions = reps\<rparr>))))))))"

lemmas mpcith_refines [refine_rules] =
  sub_reader.refines_bytes [of MpE_MalformedEncoding, folded mpcith_read_bytes_def]
  sub_reader.refines_u8 [of MpE_MalformedEncoding, folded mpcith_read_bytes_def, folded mpcith_read_u8_def]
  sub_reader.refines_u32 [of MpE_MalformedEncoding, folded mpcith_read_bytes_def, folded mpcith_read_u32_def]

lemma refines_read_party_id [refine_rules]: "refines mpcith_read_party_id read_party_id"
  unfolding mpcith_read_party_id_def read_party_id_def [abs_def] by (intro refine_rules)

lemma refines_read_element [refine_rules]: "refines (mpcith_read_element modulus) (read_element MpE_MalformedEncoding modulus)"
  unfolding mpcith_read_element_def read_element_def [abs_def] by (intro refine_rules)

lemma refines_decode_operation [refine_rules]: "refines (mpcith_decode_operation modulus) (decode_operation modulus)"
  unfolding mpcith_decode_operation_def decode_operation_def [abs_def] by (intro refine_rules)

lemma refines_decode_triple [refine_rules]: "refines (mpcith_decode_triple modulus) (decode_triple modulus)"
  unfolding mpcith_decode_triple_def decode_triple_def [abs_def] by (intro refine_rules)

text \<open>The conversion to an array never fails: a read returns as many bytes as asked for.\<close>

lemma try_from_exact:
  "cbind (read_bytes_sub err n) (\<lambda>raw. cbind (clift (try_from_slice e n raw)) f) = cbind (read_bytes_sub err n) f"
  by (rule ext) (simp add: cbind_def [of "read_bytes_sub err n"] read_bytes_sub_def slice_range_def try_from_slice_def)

lemma refines_digest [refine_rules]: "refines mpcith_read_commitment (read_digest MpE_MalformedEncoding)"
  unfolding mpcith_read_commitment_def mpcith_read_bytes_def read_digest_def [abs_def] DIGEST_LEN_MPCITH_def try_from_exact
  by (intro refine_rules)

lemma refines_challenge_at [refine_rules]:
  "refines mpcith_challenge_at (\<lambda>bs. map_err (\<lambda>_. MpE_MalformedEncoding) (decode_challenge bs))"
proof -
  have body: "refines (cbind mpcith_read_party_id (\<lambda>p. clift (Inr \<lparr>hidden_party = p\<rparr>))) decode_challenge"
    unfolding decode_challenge_def [abs_def] by (intro refine_rules)
  have one: "decode_challenge bs = Inr (ch, rest) \<Longrightarrow> bs \<noteq> [] \<and> rest = drop 1 bs" for bs ch rest
    by (auto simp: decode_challenge_def read_party_id_def u8_codec.dec_iff)
  show ?thesis
    unfolding refines_def
  proof (intro allI impI)
    fix bs :: bytes and pos assume "pos \<le> length bs"
    then show "case map_err (\<lambda>_. MpE_MalformedEncoding) (decode_challenge (drop pos bs)) of
        Inl e \<Rightarrow> \<exists>c. mpcith_challenge_at \<lparr>cur_bytes = bs, cur_pos = pos\<rparr> = Some (Inl e, c)
      | Inr (x, rest) \<Rightarrow> \<exists>pos'. mpcith_challenge_at \<lparr>cur_bytes = bs, cur_pos = pos\<rparr> = Some (Inr x, \<lparr>cur_bytes = bs, cur_pos = pos'\<rparr>) \<and>
          pos \<le> pos' \<and> pos' \<le> length bs \<and> rest = drop pos' bs"
      by (cases "decode_challenge (drop pos bs)")
        (auto simp: map_err_def mpcith_challenge_at_def slice_range_def mpcith_decode_challenge_def refines_run [OF body] consumed_def dest!: one)
  qed
qed

context small_vectors
begin

lemma refines_read_elements: "refines (mpcith_read_elements grants modulus n) (read_n (read_element MpE_MalformedEncoding modulus) n)"
  unfolding mpcith_read_elements_def by (intro refine_rules modest) simp

lemma refines_view_body: "refines (mpcith_view_body grants modulus) (decode_view modulus)"
  unfolding mpcith_view_body_def decode_view_def [abs_def] rbind_read_vec
  by (intro refine_rules refines_read_elements modest min.cobounded2)

lemma refines_read_opened: "refines (mpcith_read_opened grants modulus) (decode_opened modulus)"
  unfolding mpcith_read_opened_def decode_opened_def [abs_def] mpcith_decode_view_def
  by (intro refine_rules refines_view_body modest)

lemma refines_repetition_body: "refines (mpcith_repetition_body grants modulus) (decode_repetition modulus)"
  unfolding mpcith_repetition_body_def decode_repetition_def [abs_def] rbind_read_vec
  by (intro refine_rules refines_read_elements refines_read_opened modest) (simp_all add: PARTY_COUNT_def)

lemma mpcith_decode_proof_eq: "mpcith_decode_proof grants modulus bs = Some (decode_proof modulus bs)"
  unfolding mpcith_decode_proof_def decode_proof_def [abs_def] mpcith_decode_repetition_def
  by (rule concludes_decode) (intro refine_rules refines_repetition_body modest min.cobounded2)

end

section \<open>Statements and proofs\<close>

text \<open>\<open>statement.rs\<close> and \<open>encoding.rs\<close> each have a cursor of their own.\<close>

definition statement_read_bytes :: "nat \<Rightarrow> (proof_error, bytes) cursor_op" where
  "statement_read_bytes = read_bytes_sub PfE_MalformedEncoding"

definition statement_read_u8 :: "(proof_error, u8) cursor_op" where
  "statement_read_u8 = cursor_u8 statement_read_bytes"

definition statement_read_u32 :: "(proof_error, u32) cursor_op" where
  "statement_read_u32 = cursor_u32 statement_read_bytes"

definition statement_read_element :: "nat \<Rightarrow> (proof_error, 'f::comm_ring_1) cursor_op" where
  "statement_read_element modulus = cbind (statement_read_bytes 32) (\<lambda>raw. clift (ok_or PfE_MalformedEncoding (element_from_be_bytes modulus raw)))"

definition statement_read_digest :: "(proof_error, digest) cursor_op" where
  "statement_read_digest = cbind (statement_read_bytes 32) (\<lambda>raw.
     cbind (clift (try_from_slice PfE_MalformedEncoding 32 raw)) (\<lambda>d. clift (Inr (Digest d))))"

definition statement_prefix_body :: "(nat \<Rightarrow> bool) \<Rightarrow> nat \<Rightarrow> (proof_error, 'f::comm_ring_1 proof_statement) cursor_op" where
  "statement_prefix_body grants modulus =
     cbind statement_read_u8 (\<lambda>version.
     cbind (clift (ensure (version = PROOF_STATEMENT_VERSION) PfE_InvalidVersion)) (\<lambda>_.
     cbind statement_read_digest (\<lambda>cid.
     cbind statement_read_u32 (\<lambda>n_pub. cbind (collect_n grants (min (unat n_pub) 1024) (statement_read_element modulus) (unat n_pub)) (\<lambda>pub.
     cbind statement_read_u32 (\<lambda>n_out. cbind (collect_n grants (min (unat n_out) 1024) (statement_read_element modulus) (unat n_out)) (\<lambda>outs.
     clift (Inr \<lparr>sta_circuit_id = cid, sta_public_inputs = pub, sta_expected_outputs = outs\<rparr>))))))))"

definition statement_decode_prefix :: "(nat \<Rightarrow> bool) \<Rightarrow> nat \<Rightarrow> bytes \<Rightarrow> (proof_error, 'f::comm_ring_1 proof_statement \<times> nat) result option" where
  "statement_decode_prefix grants modulus = run_cursor (statement_prefix_body grants modulus)"

definition statement_decode :: "(nat \<Rightarrow> bool) \<Rightarrow> nat \<Rightarrow> bytes \<Rightarrow> (proof_error, 'f::comm_ring_1 proof_statement) result option" where
  "statement_decode grants modulus bs = map_option (\<lambda>r. rbind r (\<lambda>(st, n).
     if n \<noteq> length bs then Inl PfE_MalformedEncoding else Inr st)) (statement_decode_prefix grants modulus bs)"

definition proof_read_bytes :: "nat \<Rightarrow> (proof_error, bytes) cursor_op" where
  "proof_read_bytes = read_bytes_sub PfE_MalformedEncoding"

definition proof_read_u8 :: "(proof_error, u8) cursor_op" where
  "proof_read_u8 = cursor_u8 proof_read_bytes"

definition proof_read_u32 :: "(proof_error, u32) cursor_op" where
  "proof_read_u32 = cursor_u32 proof_read_bytes"

definition proof_read_element :: "nat \<Rightarrow> (proof_error, 'f::comm_ring_1) cursor_op" where
  "proof_read_element modulus = cbind (proof_read_bytes 32) (\<lambda>raw. clift (ok_or PfE_MalformedEncoding (element_from_be_bytes modulus raw)))"

definition proof_read_digest :: "(proof_error, digest) cursor_op" where
  "proof_read_digest = cbind (proof_read_bytes 32) (\<lambda>raw.
     cbind (clift (try_from_slice PfE_MalformedEncoding 32 raw)) (\<lambda>d. clift (Inr (Digest d))))"

definition proof_read_opening :: "(nat \<Rightarrow> bool) \<Rightarrow> nat \<Rightarrow> (proof_error, 'f::comm_ring_1 party_view \<times> bytes) cursor_op" where
  "proof_read_opening grants modulus =
     cbind proof_read_u32 (\<lambda>len. cbind (proof_read_bytes (unat len)) (\<lambda>view_bytes.
     cbind (cpartial (map_option (map_err (\<lambda>_. PfE_MalformedEncoding)) (mpcith_decode_view grants modulus view_bytes))) (\<lambda>(v, n).
     cbind (clift (ensure (\<not> n \<noteq> length view_bytes) PfE_MalformedEncoding)) (\<lambda>_.
     cbind (proof_read_bytes RANDOMNESS_LEN_MPCITH) (\<lambda>raw. clift (Inr (v, raw)))))))"

definition proof_decode_repetition :: "(nat \<Rightarrow> bool) \<Rightarrow> nat \<Rightarrow> (proof_error, 'f::comm_ring_1 proof_repetition) cursor_op" where
  "proof_decode_repetition grants modulus =
     cbind (collect_n grants 3 proof_read_digest 3) (\<lambda>commitments.
     cbind proof_read_u8 (\<lambda>b.
     cbind (clift (map_err (\<lambda>_. PfE_MalformedEncoding) (PartyId_new b))) (\<lambda>hidden.
     cbind proof_read_u32 (\<lambda>n_broadcasts.
     cbind (collect_n grants (min (unat n_broadcasts) 1024) (proof_read_element modulus) (unat n_broadcasts)) (\<lambda>broadcasts.
     cbind proof_read_u32 (\<lambda>n_hidden_out.
     cbind (collect_n grants (min (unat n_hidden_out) 1024) (proof_read_element modulus) (unat n_hidden_out)) (\<lambda>outs.
     cbind proof_read_u32 (\<lambda>n_opened.
     cbind (clift (ensure (\<not> unat n_opened \<noteq> 2) PfE_MalformedEncoding)) (\<lambda>_.
     cbind (Vec_with_capacity grants 2) (\<lambda>_.
     cbind (collect_n grants 2 (proof_read_opening grants modulus) (unat n_opened)) (\<lambda>opened.
     clift (Inr \<lparr>pr_commitments = commitments, pr_challenge = \<lparr>hidden_party = hidden\<rparr>, pr_opened_views = map fst opened,
       pr_opening_randomness = map snd opened, pr_hidden_broadcasts = broadcasts, pr_hidden_output_shares = outs\<rparr>))))))))))))"

definition proof_deserialize :: "(nat \<Rightarrow> bool) \<Rightarrow> nat \<Rightarrow> bytes \<Rightarrow> (proof_error, 'f::comm_ring_1 noninteractive_proof) result option" where
  "proof_deserialize grants modulus = decode_all (
     cbind proof_read_u8 (\<lambda>version.
     cbind (clift (ensure (version = PROOF_ENCODING_VERSION) PfE_InvalidVersion)) (\<lambda>_.
     cbind proof_read_u8 (\<lambda>protocol.
     cbind (clift (ensure (protocol = PROTOCOL_ID) PfE_InvalidVersion)) (\<lambda>_.
     cbind (proof_read_bytes BACKEND_ID_LEN) (\<lambda>raw.
     cbind (clift (try_from_slice PfE_MalformedEncoding BACKEND_ID_LEN raw)) (\<lambda>bid.
     cbind (clift (ensure (bid \<in> set SUPPORTED_BACKEND_IDS) PfE_UnsupportedBackend)) (\<lambda>_.
     cbind (advance_by (statement_decode_prefix grants modulus)) (\<lambda>st.
     cbind proof_read_u32 (\<lambda>n_reps.
     cbind (clift (ensure (\<not> unat n_reps > MAX_PROOF_REPETITIONS) PfE_ExcessiveRepetitions)) (\<lambda>_.
     cbind (collect_n grants (min (unat n_reps) 1024) (proof_decode_repetition grants modulus) (unat n_reps)) (\<lambda>reps.
     cbind (cursor_finish PfE_MalformedEncoding) (\<lambda>_.
     clift (Inr \<lparr>np_version = version, np_protocol_id = protocol, np_backend_id = bid, np_statement = st,
       np_repetitions = reps\<rparr>))))))))))))))"

lemmas statement_refines [refine_rules] =
  sub_reader.refines_bytes [of PfE_MalformedEncoding, folded statement_read_bytes_def]
  sub_reader.refines_u8 [of PfE_MalformedEncoding, folded statement_read_bytes_def, folded statement_read_u8_def]
  sub_reader.refines_u32 [of PfE_MalformedEncoding, folded statement_read_bytes_def, folded statement_read_u32_def]

lemma refines_statement_element [refine_rules]: "refines (statement_read_element modulus) (read_element PfE_MalformedEncoding modulus)"
  unfolding statement_read_element_def read_element_def [abs_def] ELEMENT_WIDTH_def by (intro refine_rules)

lemma refines_statement_digest [refine_rules]: "refines statement_read_digest (read_digest PfE_MalformedEncoding)"
  unfolding statement_read_digest_def statement_read_bytes_def read_digest_def [abs_def] DIGEST_LEN_MPCITH_def try_from_exact
  by (intro refine_rules)

lemmas proof_refines [refine_rules] =
  sub_reader.refines_bytes [of PfE_MalformedEncoding, folded proof_read_bytes_def]
  sub_reader.refines_u8 [of PfE_MalformedEncoding, folded proof_read_bytes_def, folded proof_read_u8_def]
  sub_reader.refines_u32 [of PfE_MalformedEncoding, folded proof_read_bytes_def, folded proof_read_u32_def]

lemma refines_proof_element [refine_rules]: "refines (proof_read_element modulus) (read_element PfE_MalformedEncoding modulus)"
  unfolding proof_read_element_def read_element_def [abs_def] ELEMENT_WIDTH_def by (intro refine_rules)

lemma refines_proof_digest [refine_rules]: "refines proof_read_digest (read_digest PfE_MalformedEncoding)"
  unfolding proof_read_digest_def proof_read_bytes_def read_digest_def [abs_def] DIGEST_LEN_MPCITH_def try_from_exact
  by (intro refine_rules)

context small_vectors
begin

lemma refines_statement_prefix [refine_rules]: "refines (statement_prefix_body grants modulus) (ProofStatement_decode_prefix modulus)"
  unfolding statement_prefix_body_def ProofStatement_decode_prefix_def [abs_def] rbind_read_vec
  by (intro refine_rules modest min.cobounded2)

lemma statement_decode_eq: "statement_decode grants modulus bs = Some (ProofStatement_decode modulus bs :: (proof_error, 'f::comm_ring_1 proof_statement) result)"
  using refines_length [OF refines_statement_prefix [where ?'a = 'f], of modulus bs]
  by (cases "ProofStatement_decode_prefix modulus bs :: (proof_error, 'f proof_statement \<times> bytes) result")
    (auto simp: statement_decode_def statement_decode_prefix_def ProofStatement_decode_def refines_run [OF refines_statement_prefix] consumed_def consumed_all)

lemma refines_proof_opening: "refines (proof_read_opening grants modulus) (decode_opening modulus)"
proof -
  have left: "ensure (\<not> length raw - length left \<noteq> length raw) e = ensure (left = []) e" if "length left \<le> length raw"
    for raw left :: bytes and e :: proof_error
    using that by (cases left) (auto simp: ensure_def)
  show ?thesis
    unfolding proof_read_opening_def decode_opening_def [abs_def] mpcith_decode_view_def
    by (intro refine_rules refines_view_body) (simp only: left, intro refine_rules)
qed

lemma refines_proof_repetition: "refines (proof_decode_repetition grants modulus) (decode_proof_repetition modulus)"
  unfolding proof_decode_repetition_def decode_proof_repetition_def [abs_def] rbind_read_vec
  by (intro refine_rules refines_proof_opening modest min.cobounded2) simp_all

lemma proof_deserialize_eq: "proof_deserialize grants modulus bs = Some (deserialize_proof modulus bs)"
  unfolding proof_deserialize_def deserialize_proof_def [abs_def] statement_decode_prefix_def proof_read_bytes_def try_from_exact
  by (rule concludes_decode) (intro refine_rules refines_proof_repetition modest min.cobounded2)

end

section \<open>Properties\<close>

text \<open>C25: the position-based decoders are safe and agree with their models. If vectors of up to 1024 elements can be
  allocated, then on every byte string, however long the vectors it declares, the decoders of circuits, interactive proofs,
  statements and non-interactive proofs return what the readers over the remaining bytes return: no index expression,
  slice, subtraction or array conversion panics, and no reservation is refused.\<close>

theorem decoders_refine:
  assumes "\<And>n. n \<le> 1024 \<Longrightarrow> grants n"
  shows "circuit_deserialize grants modulus width bs = Some (deserialize modulus width bs :: (circuit_error, 'f::comm_ring_1 circuit) result) \<and>
    mpcith_decode_proof grants modulus bs = Some (decode_proof modulus bs :: (mpcith_error, 'f mpcith_proof) result) \<and>
    statement_decode grants modulus bs = Some (ProofStatement_decode modulus bs :: (proof_error, 'f proof_statement) result) \<and>
    proof_deserialize grants modulus bs = Some (deserialize_proof modulus bs :: (proof_error, 'f noninteractive_proof) result)"
proof -
  have "small_vectors grants" using assms by unfold_locales
  then show ?thesis
    by (intro conjI small_vectors.circuit_deserialize_eq small_vectors.mpcith_decode_proof_eq small_vectors.statement_decode_eq
        small_vectors.proof_deserialize_eq)
qed

lemma reserve_refused:
  assumes "\<not> grants (unat (count :: u32))"
  shows "Reader_decode grants ([1, 4] @ u32_to_be_bytes count) = None"
proof -
  obtain a b c d where bytes: "u32_to_be_bytes count = [a, b, c, d]"
  proof -
    have "length (u32_to_be_bytes count) = Suc (Suc (Suc (Suc 0)))" by simp
    then show ?thesis using that by (auto simp only: length_Suc_conv length_0_conv)
  qed
  then have count: "u32_from_be_bytes [a, b, c, d] = count" by (metis u32_from_to_be_bytes)
  have "Reader_take_node grants (Suc fuel) \<lparr>cur_bytes = [1, 4, a, b, c, d], cur_pos = 1\<rparr> = None" for fuel
    using assms
    by (simp add: cbind_def Reader_take_byte_def byte_at_def policy_tags Reader_take_u32_def Reader_take_slice_def read_bytes_add_def
        slice_range_def copy_from_slice_def cpartial_def count collect_n_def Vec_with_capacity_def)
  from this [of "Suc (Suc (Suc (Suc 0)))"] show ?thesis
    by (simp add: Reader_decode_def decode_all_def Cursor_new_def cbind_def Reader_take_byte_def byte_at_def POLICY_ENCODING_VERSION_def bytes del: Reader_take_node.simps)
qed

lemma declared_members_missing:
  assumes "count \<noteq> (0 :: u32)"
  shows "decode_policy ([1, 4] @ u32_to_be_bytes count) = Inl PE_MalformedEncoding"
proof -
  obtain n where n: "unat count = Suc n" using assms by (cases "unat count") (auto simp: unat_eq_0)
  have "take_node fuel [] = Inl PE_MalformedEncoding" for fuel
    by (cases fuel) (simp_all add: read_u8_def read_slice_def)
  then have "take_node (Suc fuel) (4 # u32_to_be_bytes count) = Inl PE_MalformedEncoding" for fuel
    using read_uN_append(3) [of PE_MalformedEncoding count "[]"] by (simp add: policy_tags n)
  from this [of 4] show ?thesis by (simp add: decode_policy_def POLICY_ENCODING_VERSION_def del: take_node.simps)
qed

text \<open>C40: the policy decoder reserves what its input declares. If vectors of every 32-bit length can be allocated, it agrees
  with its model. If one length cannot, six bytes abort it, which declare a conjunction of that many members and hold
  none; the model answers that the encoding is malformed.\<close>

theorem policy_decoder_allocation:
  "((\<forall>count :: u32. grants (unat count)) \<longrightarrow> Reader_decode grants bs = Some (decode_policy bs)) \<and>
   (\<not> grants (unat (count :: u32)) \<longrightarrow> Reader_decode grants ([1, 4] @ u32_to_be_bytes count) = None \<and>
      (count \<noteq> 0 \<longrightarrow> decode_policy ([1, 4] @ u32_to_be_bytes count) = Inl PE_MalformedEncoding))"
  using Reader_decode_eq [of grants bs] reserve_refused declared_members_missing by blast

theorem decoders_refine_witness:
  "circuit_deserialize (\<lambda>n. n \<le> 1024) 7 1 [1, 0, 0, 0, 3, 0] = Some (Inl CE_UnexpectedEnd :: (circuit_error, fp circuit) result)"
proof -
  have "u32_from_be_bytes [0, 0, 0, 3] = 3" by code_simp
  moreover have "read_n (decode_node 7 1) 3 [0] = (Inl CE_UnexpectedEnd :: (circuit_error, fp node list \<times> bytes) result)"
    by (simp add: numeral_3_eq_3 decode_node_def circuit_tags read_u8_def read_slice_def)
  ultimately have "deserialize 7 1 [1, 0, 0, 0, 3, 0] = (Inl CE_UnexpectedEnd :: (circuit_error, fp circuit) result)"
    by (simp add: deserialize_def ENCODING_VERSION_def MAX_CIRCUIT_NODES_def read_u8_def read_u32_def read_slice_def)
  then show ?thesis
    using decoders_refine [of "\<lambda>n. n \<le> 1024" 7 1 "[1, 0, 0, 0, 3, 0]", where ?'f = fp] by simp
qed

theorem policy_decoder_allocation_witness:
  "Reader_decode (\<lambda>n. n \<le> 1024) [1, 4, 255, 255, 255, 255] = None \<and> Reader_decode (\<lambda>_. True) [1, 4, 0, 0, 0, 0] = Some (Inr (And []))"
proof -
  have refused: "\<not> unat (4294967295 :: u32) \<le> 1024" by simp
  have bytes: "u32_to_be_bytes 4294967295 = [255, 255, 255, 255]" by (simp add: u32_to_be_bytes_def be_bytes_numeral)
  have "decode_policy [1, 4, 0, 0, 0, 0] = Inr (And [])" by code_simp
  then show ?thesis
    using policy_decoder_allocation [of "\<lambda>n. n \<le> 1024" "[]" 4294967295] refused bytes
      policy_decoder_allocation [of "\<lambda>_. True" "[1, 4, 0, 0, 0, 0]" 0]
    by (simp only:) simp
qed

end
