(* ===== verification/Format.thy ===== *)
theory Format
  imports Crypto_Core
begin

text \<open>
  The text that the workspace prints: the parts of \<open>core::fmt\<close> its \<open>Debug\<close> and \<open>Display\<close> implementations use
  (decimal and hexadecimal integers, and the builders \<open>debug_struct\<close>, \<open>debug_tuple\<close> and \<open>debug_list\<close>
  without the alternate flag), and the container \<open>SecretBytes\<close> of \<open>crates/crypto-core/src/secret.rs\<close>. The
  names of the functions say which implementation they translate: \<open>X_debug\<close> is the \<open>Debug\<close> of \<open>X\<close> and
  \<open>X_display\<close> its \<open>Display\<close>.
\<close>

section \<open>Integers\<close>

definition digit_char :: "nat \<Rightarrow> char" where
  "digit_char n = (if n < 10 then char_of (48 + n) else char_of (87 + n))"

fun decimal :: "nat \<Rightarrow> string" where
  "decimal n = (if n < 10 then [digit_char n] else decimal (n div 10) @ [digit_char (n mod 10)])"

declare decimal.simps [simp del]

text \<open>The format \<open>{b:02x}\<close> of a byte.\<close>

definition u8_hex :: "u8 \<Rightarrow> string" where
  "u8_hex b = [digit_char (unat b div 16), digit_char (unat b mod 16)]"

definition hex :: "bytes \<Rightarrow> string" where
  "hex bs = concat (map u8_hex bs)"

lemma of_char_digit: "n < 16 \<Longrightarrow> (of_char (digit_char n) :: nat) = (if n < 10 then 48 + n else 87 + n)"
  by (simp add: digit_char_def)

lemma digit_char_inject:
  assumes "a < 16" "b < 16"
  shows "digit_char a = digit_char b \<longleftrightarrow> a = b"
proof
  assume "digit_char a = digit_char b"
  then have "(of_char (digit_char a) :: nat) = of_char (digit_char b)" by (rule arg_cong)
  then have "(if a < 10 then 48 + a else 87 + a) = (if b < 10 then 48 + b else 87 + b)"
    by (simp only: of_char_digit assms)
  then show "a = b" by (simp split: if_splits)
qed simp

lemma length_hex [simp]: "length (hex bs) = 2 * length bs"
  by (induction bs) (simp_all add: hex_def u8_hex_def)

lemma u8_hex_inject: "u8_hex a = u8_hex b \<longleftrightarrow> a = b"
proof
  assume "u8_hex a = u8_hex b"
  moreover have "unat x div 16 < 16" "unat x mod 16 < 16" for x :: u8
    using unsigned_less [of x, where ?'a = nat] by (simp_all add: div_less_iff_less_mult)
  ultimately have "unat a div 16 = unat b div 16" "unat a mod 16 = unat b mod 16"
    by (simp_all add: u8_hex_def digit_char_inject)
  then have "unat a = unat b" by (metis div_mult_mod_eq)
  then show "a = b" by (simp add: word_unat_eq_iff)
qed simp

lemma hex_inject [simp]: "hex a = hex b \<longleftrightarrow> a = b"
proof
  show "hex a = hex b \<Longrightarrow> a = b"
  proof (induction a arbitrary: b)
    case Nil
    then show ?case by (cases b) (simp_all add: hex_def u8_hex_def)
  next
    case (Cons x a)
    then obtain y b' where "b = y # b'" by (cases b) (simp_all add: hex_def u8_hex_def)
    with Cons show ?case using u8_hex_inject [of x y] by (auto simp: hex_def u8_hex_def)
  qed
qed simp

section \<open>Builders\<close>

definition separated :: "string list \<Rightarrow> string" where
  "separated xs = (case xs of [] \<Rightarrow> [] | x # ys \<Rightarrow> x @ concat (map (\<lambda>y. '', '' @ y) ys))"

definition debug_field :: "string \<times> string \<Rightarrow> string" where
  "debug_field f = fst f @ '': '' @ snd f"

text \<open>\<open>debug_struct(name).field(..)..finish()\<close> for at least one field, and \<open>finish_non_exhaustive\<close>.\<close>

definition debug_struct :: "string \<Rightarrow> (string \<times> string) list \<Rightarrow> string" where
  "debug_struct name fields = name @ '' { '' @ separated (map debug_field fields) @ '' }''"

definition debug_struct_open :: "string \<Rightarrow> (string \<times> string) list \<Rightarrow> string" where
  "debug_struct_open name fields = name @ '' { '' @ separated (map debug_field fields @ [''..'']) @ '' }''"

definition debug_tuple :: "string \<Rightarrow> string list \<Rightarrow> string" where
  "debug_tuple name xs = name @ ''('' @ separated xs @ '')''"

definition debug_list :: "string list \<Rightarrow> string" where
  "debug_list xs = ''['' @ separated xs @ '']''"

text \<open>\<open>Debug\<close> of a string slice; the strings printed here have no character that is escaped.\<close>

definition debug_str :: "string \<Rightarrow> string" where
  "debug_str s = [CHR 0x22] @ s @ [CHR 0x22]"

definition debug_bool :: "bool \<Rightarrow> string" where
  "debug_bool b = (if b then ''true'' else ''false'')"

definition debug_option :: "string option \<Rightarrow> string" where
  "debug_option x = (case x of None \<Rightarrow> ''None'' | Some s \<Rightarrow> debug_tuple ''Some'' [s])"

section \<open>Secret bytes\<close>

datatype secret_bytes = SecretBytes (secret_inner: bytes)

definition SecretBytes_new :: "bytes \<Rightarrow> secret_bytes" where
  "SecretBytes_new bs = SecretBytes bs"

definition SecretBytes_as_bytes :: "secret_bytes \<Rightarrow> bytes" where
  "SecretBytes_as_bytes s = secret_inner s"

text \<open>Writing through \<open>as_bytes_mut\<close>: the borrowed slice keeps its length.\<close>

definition SecretBytes_write :: "(bytes \<Rightarrow> bytes) \<Rightarrow> secret_bytes \<Rightarrow> secret_bytes" where
  "SecretBytes_write f s = (let bs = f (secret_inner s) in if length bs = length (secret_inner s) then SecretBytes bs else s)"

definition SecretBytes_len :: "secret_bytes \<Rightarrow> nat" where
  "SecretBytes_len s = length (secret_inner s)"

definition SecretBytes_is_empty :: "secret_bytes \<Rightarrow> bool" where
  "SecretBytes_is_empty s \<longleftrightarrow> secret_inner s = []"

text \<open>The derived \<open>Zeroize\<close>, which \<open>ZeroizeOnDrop\<close> runs too, is the one of \<open>Vec<u8>\<close> in the crate \<open>zeroize\<close>,
  the parameter \<open>vec_zeroize\<close>.\<close>

definition SecretBytes_zeroize :: "(bytes \<Rightarrow> bytes) \<Rightarrow> secret_bytes \<Rightarrow> secret_bytes" where
  "SecretBytes_zeroize vec_zeroize s = SecretBytes (vec_zeroize (secret_inner s))"

definition SecretBytes_debug :: "secret_bytes \<Rightarrow> string" where
  "SecretBytes_debug s = ''SecretBytes([REDACTED])''"

definition CommitmentRandomness_debug :: "bytes \<Rightarrow> string" where
  "CommitmentRandomness_debug r = ''CommitmentRandomness([REDACTED])''"

section \<open>Digests and backends\<close>

definition Digest_hex :: "digest \<Rightarrow> string" where
  "Digest_hex d = concat (map u8_hex (digest_bytes d))"

definition Digest_debug :: "digest \<Rightarrow> string" where
  "Digest_debug d = ''Digest('' @ Digest_hex d @ '')''"

definition Digest_display :: "digest \<Rightarrow> string" where
  "Digest_display d = Digest_hex d"

definition BackendId_debug :: "bytes \<Rightarrow> string" where
  "BackendId_debug b = ''BackendId('' @ hex b @ '')''"

definition BackendId_display :: "bytes \<Rightarrow> string" where
  "BackendId_display b = hex b"

definition GenericDigest_debug :: "bytes \<Rightarrow> bytes \<Rightarrow> string" where
  "GenericDigest_debug backend_id bs = ''GenericDigest<'' @ BackendId_display backend_id @ ''>(REDACTED)''"

fun CryptoCoreError_display :: "crypto_core_error \<Rightarrow> string" where
  "CryptoCoreError_display CC_InvalidLength = ''invalid length''"
| "CryptoCoreError_display CC_MalformedEncoding = ''malformed encoding''"
| "CryptoCoreError_display CC_InvalidCommitment = ''invalid commitment''"
| "CryptoCoreError_display CC_RngFailure = ''rng failure''"
| "CryptoCoreError_display CC_InvalidInput = ''invalid input''"

lemma Digest_display_inject [simp]: "Digest_display a = Digest_display b \<longleftrightarrow> a = b"
  using hex_inject [of "digest_bytes a" "digest_bytes b"]
  by (cases a; cases b) (simp add: Digest_display_def Digest_hex_def hex_def)

end
