(* ===== verification/Error_Messages.thy ===== *)
theory Error_Messages
  imports Format Secret_Sharing Sdk
begin

text \<open>
  The \<open>Display\<close> messages of the error types of all crates. The constructors that stand for a panic are no values
  of the Rust types and have no message: \<open>None\<close>. The messages of the SDK are pairwise different,
  so its errors can be told from their text.
\<close>

fun SecretSharingError_display :: "secret_sharing_error \<Rightarrow> string option" where
  "SecretSharingError_display SS_InvalidThreshold = Some ''invalid threshold''"
| "SecretSharingError_display SS_InvalidShareCount = Some ''invalid share count''"
| "SecretSharingError_display SS_ThresholdGreaterThanCount = Some ''threshold is greater than share count''"
| "SecretSharingError_display SS_EmptyInput = Some ''empty input''"
| "SecretSharingError_display SS_InsufficientShares = Some ''insufficient shares for reconstruction''"
| "SecretSharingError_display SS_DuplicateShareIndex = Some ''duplicate share index''"
| "SecretSharingError_display SS_InvalidShareIndex = Some ''share index out of range''"
| "SecretSharingError_display SS_IncompatibleMetadata = Some ''incompatible share metadata''"
| "SecretSharingError_display SS_MalformedEncoding = Some ''malformed encoding''"
| "SecretSharingError_display SS_InvalidFieldElement = Some ''invalid field element''"
| "SecretSharingError_display SS_RngFailure = Some ''rng failure''"
| "SecretSharingError_display SS_ReconstructionFailure = Some ''reconstruction failure''"
| "SecretSharingError_display SS_SecretTooLargeForField = Some ''secret too large for the field modulus''"
| "SecretSharingError_display SS_Panic = None"

fun MpcError_display :: "mpc_error \<Rightarrow> string" where
  "MpcError_display Mpc_InvalidPartyCount = ''invalid party count''"
| "MpcError_display Mpc_InvalidPartyId = ''invalid party id''"
| "MpcError_display Mpc_DuplicateParty = ''duplicate party''"
| "MpcError_display Mpc_MissingParty = ''missing party''"
| "MpcError_display Mpc_ContextMismatch = ''sharing context mismatch''"
| "MpcError_display Mpc_InvalidShare = ''invalid share''"
| "MpcError_display Mpc_InsufficientShares = ''insufficient shares''"
| "MpcError_display Mpc_TripleExhaustion = ''beaver triple exhaustion''"
| "MpcError_display Mpc_TripleReuse = ''beaver triple reuse detected''"
| "MpcError_display Mpc_RngFailure = ''rng failure''"
| "MpcError_display Mpc_InvalidOperation = ''invalid operation''"
| "MpcError_display Mpc_RevealMisuse = ''reveal policy misuse''"

fun CircuitError_display :: "circuit_error \<Rightarrow> string option" where
  "CircuitError_display CE_InvalidReference = Some ''invalid node reference''"
| "CircuitError_display CE_ForwardReference = Some ''reference to a later node''"
| "CircuitError_display CE_MissingOutput = Some ''circuit declares no outputs''"
| "CircuitError_display CE_InvalidInputCount = Some ''input count mismatch''"
| "CircuitError_display CE_MalformedNode = Some ''malformed node''"
| "CircuitError_display CE_MpcFault = Some ''mpc protocol fault during evaluation''"
| "CircuitError_display CE_UnsupportedVersion = Some ''unsupported encoding version''"
| "CircuitError_display CE_TrailingBytes = Some ''trailing bytes after circuit''"
| "CircuitError_display CE_UnexpectedEnd = Some ''unexpected end of encoding''"
| "CircuitError_display CE_ExcessiveSize = Some ''encoded structure exceeds maximum permitted size''"
| "CircuitError_display CE_Panic = None"

fun PolicyError_display :: "policy_error \<Rightarrow> string option" where
  "PolicyError_display PE_InvalidThreshold = Some ''threshold must be at least one''"
| "PolicyError_display PE_ThresholdExceedsCount = Some ''threshold exceeds member count''"
| "PolicyError_display PE_DuplicateCredential = Some ''duplicate credential in threshold members''"
| "PolicyError_display PE_InvalidCredentialId = Some ''credential id must be non-zero''"
| "PolicyError_display PE_EmptyPolicy = Some ''combinator must have at least one member''"
| "PolicyError_display PE_MaxDepthExceeded = Some ''policy exceeds maximum depth''"
| "PolicyError_display PE_MaxNodesExceeded = Some ''policy exceeds maximum node count''"
| "PolicyError_display PE_MaxArityExceeded = Some ''threshold exceeds maximum arity''"
| "PolicyError_display PE_MaxCredentialsExceeded = Some ''policy references too many credentials''"
| "PolicyError_display PE_MaxCombinatorChildrenExceeded = Some ''combinator exceeds maximum children''"
| "PolicyError_display PE_EncodedSizeExceeded = Some ''policy encoding exceeds maximum size''"
| "PolicyError_display PE_UnknownVersion = Some ''unknown policy encoding version''"
| "PolicyError_display PE_MalformedEncoding = Some ''malformed policy encoding''"
| "PolicyError_display PE_TrailingBytes = Some ''trailing bytes after policy encoding''"
| "PolicyError_display PE_WitnessMismatch = Some ''witness does not match policy''"
| "PolicyError_display PE_CompilationFailure = Some ''policy compilation to circuit failed''"
| "PolicyError_display PE_CircuitValidationFailure = Some ''compiled circuit failed validation''"
| "PolicyError_display PE_Panic = None"

fun AmountError_display :: "amount_error \<Rightarrow> string" where
  "AmountError_display AE_UnknownUnit = ''unknown amount unit''"
| "AmountError_display AE_InvalidVersion = ''unsupported amount encoding version''"
| "AmountError_display AE_MalformedEncoding = ''truncated amount encoding''"
| "AmountError_display AE_TrailingBytes = ''trailing bytes after amount encoding''"

fun PaymentError_display :: "payment_error \<Rightarrow> string option" where
  "PaymentError_display PyE_InvalidPolicy = Some ''invalid policy''"
| "PaymentError_display PyE_PolicyIdMismatch = Some ''policy id mismatch''"
| "PaymentError_display PyE_WitnessCountMismatch = Some ''witness does not cover policy credentials''"
| "PaymentError_display PyE_MalformedCredentialSecret = Some ''malformed credential secret''"
| "PaymentError_display PyE_CredentialCommitmentMismatch = Some ''credential does not match its commitment''"
| "PaymentError_display PyE_ThresholdNotMet = Some ''credential threshold not met''"
| "PaymentError_display PyE_AmountExceedsLimit = Some ''amount exceeds spending limit''"
| "PaymentError_display PyE_AmountMismatch = Some ''witness amount differs from statement''"
| "PaymentError_display PyE_InvalidBitWitness = Some ''range-check digit witness is inconsistent''"
| "PaymentError_display PyE_PolicyNotSatisfied = Some ''policy not satisfied''"
| "PaymentError_display PyE_ProofGenerationFailed = Some ''proof generation failed''"
| "PaymentError_display PyE_ProofRejected = Some ''proof rejected''"
| "PaymentError_display PyE_StatementMismatch = Some ''proof statement mismatch''"
| "PaymentError_display PyE_Panic = None"

fun MpcithError_display :: "mpcith_error \<Rightarrow> string option" where
  "MpcithError_display MpE_InvalidStatement = Some ''invalid statement''"
| "MpcithError_display MpE_InvalidCircuit = Some ''invalid circuit''"
| "MpcithError_display MpE_InvalidChallenge = Some ''invalid challenge''"
| "MpcithError_display MpE_InvalidRepetitionCount = Some ''invalid repetition count''"
| "MpcithError_display MpE_MissingCommitment = Some ''missing commitment''"
| "MpcithError_display MpE_MalformedCommitment = Some ''malformed commitment''"
| "MpcithError_display MpE_MissingResponse = Some ''missing response''"
| "MpcithError_display MpE_InvalidOpening = Some ''invalid opening''"
| "MpcithError_display MpE_CommitmentMismatch = Some ''commitment mismatch''"
| "MpcithError_display MpE_InconsistentView = Some ''inconsistent party view''"
| "MpcithError_display MpE_InvalidOperation = Some ''invalid operation''"
| "MpcithError_display MpE_OutputMismatch = Some ''output mismatch''"
| "MpcithError_display MpE_MalformedEncoding = Some ''malformed encoding''"
| "MpcithError_display MpE_InvalidProtocolState = Some ''invalid protocol state''"
| "MpcithError_display MpE_Panic = None"

fun ProofError_display :: "proof_error \<Rightarrow> string option" where
  "ProofError_display PfE_InvalidStatement = Some ''invalid statement''"
| "ProofError_display PfE_InvalidCircuit = Some ''invalid circuit''"
| "ProofError_display PfE_InvalidWitness = Some ''invalid witness''"
| "ProofError_display PfE_ChallengeMismatch = Some ''fiat-shamir challenge mismatch''"
| "ProofError_display PfE_VerificationFailed = Some ''verification failed''"
| "ProofError_display PfE_MalformedEncoding = Some ''malformed encoding''"
| "ProofError_display PfE_InvalidVersion = Some ''invalid version''"
| "ProofError_display PfE_CircuitIdMismatch = Some ''circuit id mismatch''"
| "ProofError_display PfE_OutputMismatch = Some ''output mismatch''"
| "ProofError_display PfE_UnsupportedBackend = Some ''unsupported cryptographic backend''"
| "ProofError_display PfE_ExcessiveRepetitions = Some ''proof exceeds maximum permitted repetition count''"
| "ProofError_display PfE_Panic = None"

fun SdkError_display :: "sdk_error \<Rightarrow> string option" where
  "SdkError_display SdkE_InvalidPayment = Some ''payment object is invalid: check version, fields, and nonce''"
| "SdkError_display SdkE_InvalidPolicy = Some ''policy is invalid: check structure, normalization, and size limits''"
| "SdkError_display SdkE_InvalidWitness = Some ''witness does not match the policy/circuit binding''"
| "SdkError_display SdkE_ArtifactMalformed = Some ''authorization artifact is malformed: truncated bytes or bad encoding''"
| "SdkError_display SdkE_VersionUnsupported = Some ''authorization version is not supported by this SDK''"
| "SdkError_display SdkE_BackendUnsupported = Some ''authorization was produced under an unsupported cryptographic backend''"
| "SdkError_display SdkE_BackendMismatch = Some (''verifier backend does not match the authorization'' @ [CHR 0x27] @ ''s bound backend'')"
| "SdkError_display SdkE_PaymentMismatch = Some ''authorization payment binding does not match the expected payment''"
| "SdkError_display SdkE_PolicyMismatch = Some ''authorization policy binding does not match the expected policy''"
| "SdkError_display SdkE_CircuitMismatch = Some ''authorization circuit binding does not match the expected policy''"
| "SdkError_display SdkE_ProofInvalid = Some ''authorization proof is invalid''"
| "SdkError_display SdkE_AuthorizationGenerationFailed = Some ''authorization generation failed''"
| "SdkError_display SdkE_SelfVerificationFailed = Some ''self-verification of the generated authorization failed''"
| "SdkError_display SdkE_Panic = None"

fun VerificationFailure_display :: "verification_failure \<Rightarrow> string" where
  "VerificationFailure_display VF_PaymentMismatch = ''payment binding does not match expected payment''"
| "VerificationFailure_display VF_PolicyMismatch = ''policy binding does not match expected policy''"
| "VerificationFailure_display VF_CircuitMismatch = ''circuit binding does not match expected policy''"
| "VerificationFailure_display VF_BackendMismatch = ''authorization was produced under an unsupported cryptographic backend''"
| "VerificationFailure_display VF_VersionMismatch = ''authorization version is not supported by this SDK''"
| "VerificationFailure_display VF_ProofInvalid = ''authorization proof is invalid''"


fun StatementError_display :: "statement_error \<Rightarrow> string option" where
  "StatementError_display SE_InvalidVersion = Some ''unsupported statement version''"
| "StatementError_display SE_MalformedEncoding = Some ''truncated statement encoding''"
| "StatementError_display SE_TrailingBytes = Some ''trailing bytes after statement''"
| "StatementError_display (SE_InvalidAmount err) = Some (''invalid amount: '' @ AmountError_display err)"
| "StatementError_display SE_Panic = None"

fun RangeCheckError_display :: "range_check_error \<Rightarrow> string" where
  "RangeCheckError_display ValueAboveLimit = ''amount exceeds limit''"

text \<open>A caller of the SDK can tell the errors and the reasons of a failed verification from their messages.\<close>

lemma SdkError_display_inject: "SdkError_display e = SdkError_display e' \<longleftrightarrow> e = e'"
  by (cases e; cases e') simp_all

lemma VerificationFailure_display_inject: "VerificationFailure_display e = VerificationFailure_display e' \<longleftrightarrow> e = e'"
  by (cases e; cases e') simp_all

lemma StatementError_display_inject: "StatementError_display e = StatementError_display e' \<longleftrightarrow> e = e'"
proof (cases e; cases e')
  fix a b assume "e = SE_InvalidAmount a" "e' = SE_InvalidAmount b"
  then show "StatementError_display e = StatementError_display e' \<longleftrightarrow> e = e'" by (cases a; cases b) simp_all
qed simp_all

end
