(* ===== verification/Debug_Output.thy ===== *)
theory Debug_Output
  imports Error_Messages Mpcith_Prover
begin

text \<open>
  The \<open>Debug\<close> output of the types that carry secrets, from \<open>crates/mpc\<close> to \<open>crates/sdk\<close>, hand-written and derived,
  and the \<open>Zeroize\<close> implementations that erase them. Two questions are settled: what a log line with such a value
  can depend on, and where the output shows more than the implementations intend. The \<open>Debug\<close> of field
  elements belongs to \<open>ark_ff\<close> and is the parameter \<open>fmt\<close>.
\<close>

section \<open>Shares\<close>

definition SSShare_debug :: "'f share \<Rightarrow> string" where
  "SSShare_debug s = debug_struct ''Share'' [(''version'', decimal (unat (sh_version s))), (''threshold'', decimal (unat (sh_threshold s))),
     (''share_count'', decimal (unat (sh_share_count s))), (''index'', decimal (unat (sh_index s))), (''value'', debug_str ''[REDACTED]'')]"

definition MpcShare_debug :: "'f \<Rightarrow> string" where
  "MpcShare_debug s = ''Share([REDACTED])''"

definition SharedValue_debug :: "'f shared_value \<Rightarrow> string" where
  "SharedValue_debug v = ''SharedValue([REDACTED])''"

definition BeaverTriple_debug :: "'f beaver_triple \<Rightarrow> string" where
  "BeaverTriple_debug t = ''BeaverTriple([REDACTED])''"

definition PublicValue_debug :: "('f \<Rightarrow> string) \<Rightarrow> 'f \<Rightarrow> string" where
  "PublicValue_debug fmt v = debug_tuple ''PublicValue'' [fmt v]"

definition MpcShare_zeroize :: "'f::zero \<Rightarrow> 'f" where
  "MpcShare_zeroize s = 0"

definition SharedValue_zeroize :: "'f::zero shared_value \<Rightarrow> 'f shared_value" where
  "SharedValue_zeroize v = SharedValue (map MpcShare_zeroize (shares v))"

definition BeaverTriple_zeroize :: "'f::zero beaver_triple \<Rightarrow> 'f beaver_triple" where
  "BeaverTriple_zeroize t = \<lparr>bt_a = SharedValue_zeroize (bt_a t), bt_b = SharedValue_zeroize (bt_b t), bt_c = SharedValue_zeroize (bt_c t)\<rparr>"

section \<open>Policies and witnesses\<close>

definition CredentialId_debug :: "credential_id \<Rightarrow> string" where
  "CredentialId_debug c = ''CredentialId('' @ hex c @ '')''"

definition CredentialId_display :: "credential_id \<Rightarrow> string" where
  "CredentialId_display c = hex c"

definition AmountLimit_debug :: "u64 \<Rightarrow> string" where
  "AmountLimit_debug l = ''AmountLimit('' @ decimal (unat l) @ '')''"

definition AmountLimit_display :: "u64 \<Rightarrow> string" where
  "AmountLimit_display l = decimal (unat l)"

definition ThresholdK_display :: "u16 \<Rightarrow> string" where
  "ThresholdK_display k = decimal (unat k)"

fun Policy_debug :: "policy \<Rightarrow> string" where
  "Policy_debug (AmountAtMost limit) = ''AmountAtMost('' @ AmountLimit_display limit @ '')''"
| "Policy_debug (Credential cid) = ''Credential('' @ CredentialId_display cid @ '')''"
| "Policy_debug (Threshold k members) = ''Threshold(k='' @ ThresholdK_display k @ '', '' @ debug_list (map Policy_debug members) @ '')''"
| "Policy_debug (And members) = ''And('' @ debug_list (map Policy_debug members) @ '')''"
| "Policy_debug (Or members) = ''Or('' @ debug_list (map Policy_debug members) @ '')''"

definition PolicyWitness_debug :: "policy_witness \<Rightarrow> string" where
  "PolicyWitness_debug w = debug_struct ''PolicyWitness''
     [(''credential_secrets'', debug_list (map (\<lambda>(cid, s). debug_tuple [] [CredentialId_debug cid, SecretBytes_debug (SecretBytes s)]) (credential_secrets w))),
      (''amount'', debug_option (map_option AmountLimit_debug (w_amount w)))]"

definition Amount_debug :: "amount \<Rightarrow> string" where
  "Amount_debug a = debug_struct ''Amount'' [(''value'', decimal (unat (am_value a))), (''unit'', case am_unit a of Cents \<Rightarrow> ''Cents'')]"

definition PrivateWitness_debug :: "private_witness \<Rightarrow> string" where
  "PrivateWitness_debug w = debug_struct_open ''PrivateWitness'' [(''credentials'', decimal (length (pw_secrets w))), (''amount'', Amount_debug (pw_amount w))]"

definition PrivateWitness_zeroize :: "(bytes \<Rightarrow> bytes) \<Rightarrow> private_witness \<Rightarrow> private_witness" where
  "PrivateWitness_zeroize vec_zeroize w = w\<lparr>pw_secrets := map (\<lambda>s. secret_inner (SecretBytes_zeroize vec_zeroize (SecretBytes s))) (pw_secrets w),
     pw_amount := (pw_amount w)\<lparr>am_value := 0\<rparr>, pw_amount_bits := map (\<lambda>_. False) (pw_amount_bits w),
     pw_difference_bits := map (\<lambda>_. False) (pw_difference_bits w)\<rparr>"

section \<open>The interactive protocol\<close>

definition NodeId_debug :: "node_id \<Rightarrow> string" where
  "NodeId_debug n = debug_tuple ''NodeId'' [decimal (unat n)]"

definition RepetitionId_debug :: "repetition_id \<Rightarrow> string" where
  "RepetitionId_debug r = debug_tuple ''RepetitionId'' [decimal (unat r)]"

definition PartyId_debug :: "party_id \<Rightarrow> string" where
  "PartyId_debug p = debug_tuple ''PartyId'' [decimal (unat p)]"

definition Challenge_debug :: "challenge \<Rightarrow> string" where
  "Challenge_debug ch = debug_struct ''Challenge'' [(''hidden_party'', PartyId_debug (hidden_party ch))]"

definition ViewCommitment_debug :: "digest \<Rightarrow> string" where
  "ViewCommitment_debug c = debug_tuple ''ViewCommitment'' [Digest_debug c]"

definition TripleShare_debug :: "'f triple_share \<Rightarrow> string" where
  "TripleShare_debug t = ''TripleShare([REDACTED])''"

fun LocalOperation_debug :: "'f local_operation \<Rightarrow> string" where
  "LocalOperation_debug (Op_Add output share) = debug_struct ''Add'' [(''output'', NodeId_debug output)]"
| "LocalOperation_debug (Op_MulPublic output public share) = debug_struct ''MulPublic'' [(''output'', NodeId_debug output)]"
| "LocalOperation_debug (Op_BeaverMul output triple_index d e share) =
     debug_struct ''BeaverMul'' [(''output'', NodeId_debug output), (''triple_index'', decimal triple_index)]"

definition PartyView_debug :: "'f party_view \<Rightarrow> string" where
  "PartyView_debug v = debug_struct ''PartyView''
     [(''repetition_id'', RepetitionId_debug (pv_repetition_id v)), (''party_id'', PartyId_debug (pv_party_id v)),
      (''input_shares'', debug_str (''['' @ decimal (length (pv_input_shares v)) @ '' REDACTED]'')),
      (''local_operations'', decimal (length (pv_local_operations v))),
      (''triple_shares'', debug_str (''['' @ decimal (length (pv_triple_shares v)) @ '' REDACTED]'')),
      (''opened_values'', decimal (length (pv_opened_values v)))]"

definition OpenedView_debug :: "'f opened_view \<Rightarrow> string" where
  "OpenedView_debug ov = debug_struct ''OpenedView''
     [(''view'', PartyView_debug (ov_view ov)), (''randomness'', SecretBytes_debug (SecretBytes (ov_randomness ov)))]"

definition Repetition_debug :: "'f repetition \<Rightarrow> string" where
  "Repetition_debug r = debug_struct ''Repetition''
     [(''id'', RepetitionId_debug (rep_id r)), (''commitments'', decimal (length (rep_commitments r))),
      (''challenge'', Challenge_debug (rep_challenge r)), (''opened_views'', debug_list (map OpenedView_debug (rep_opened_views r))),
      (''hidden_output_shares'', decimal (length (rep_hidden_output_shares r))),
      (''hidden_broadcasts'', decimal (length (rep_hidden_broadcasts r)))]"

definition MpcithProof_debug :: "'f mpcith_proof \<Rightarrow> string" where
  "MpcithProof_debug p = debug_struct ''MpcithProof'' [(''repetitions'', debug_list (map Repetition_debug (mp_repetitions p)))]"

definition PartialRepetition_debug :: "('f \<Rightarrow> string) \<Rightarrow> 'f partial_repetition \<Rightarrow> string" where
  "PartialRepetition_debug fmt p = debug_struct ''PartialRepetition''
     [(''id'', RepetitionId_debug (par_id p)), (''commitments'', debug_list (map ViewCommitment_debug (par_commitments p))),
      (''views'', debug_list (map PartyView_debug (par_views p))),
      (''randomness'', debug_list (map (\<lambda>r. SecretBytes_debug (SecretBytes r)) (par_randomness p))),
      (''output_vals'', debug_list (map (\<lambda>(shared, ss). debug_tuple [] [debug_bool shared, debug_list (map fmt ss)]) (par_output_vals p))),
      (''broadcasts'', debug_list (map (\<lambda>bs. debug_list (map fmt bs)) (par_broadcasts p)))]"

section \<open>Proofs and authorizations\<close>

definition CircuitId_debug :: "digest \<Rightarrow> string" where
  "CircuitId_debug d = ''CircuitId('' @ Digest_display d @ '')''"

definition ProofStatement_debug :: "('f \<Rightarrow> string) \<Rightarrow> 'f proof_statement \<Rightarrow> string" where
  "ProofStatement_debug fmt st = debug_struct ''Statement'' [(''circuit_id'', CircuitId_debug (sta_circuit_id st)),
     (''public_inputs'', debug_list (map (PublicValue_debug fmt) (sta_public_inputs st))),
     (''expected_outputs'', debug_list (map (PublicValue_debug fmt) (sta_expected_outputs st)))]"

definition ProofRepetition_debug :: "'f proof_repetition \<Rightarrow> string" where
  "ProofRepetition_debug r = debug_struct ''ProofRepetition''
     [(''commitments'', decimal (length (pr_commitments r))), (''challenge'', Challenge_debug (pr_challenge r)),
      (''opened_views'', debug_list (map PartyView_debug (pr_opened_views r))),
      (''opening_randomness'', decimal (length (pr_opening_randomness r))),
      (''hidden_output_shares'', decimal (length (pr_hidden_output_shares r))),
      (''hidden_broadcasts'', decimal (length (pr_hidden_broadcasts r)))]"

definition NonInteractiveProof_debug :: "('f \<Rightarrow> string) \<Rightarrow> 'f noninteractive_proof \<Rightarrow> string" where
  "NonInteractiveProof_debug fmt p = debug_struct ''NonInteractiveProof''
     [(''version'', decimal (unat (np_version p))), (''protocol_id'', decimal (unat (np_protocol_id p))),
      (''backend_id'', BackendId_debug (np_backend_id p)), (''statement'', ProofStatement_debug fmt (np_statement p)),
      (''repetitions'', debug_list (map ProofRepetition_debug (np_repetitions p)))]"

definition Authorization_debug :: "'f authorization \<Rightarrow> string" where
  "Authorization_debug a = debug_struct ''Authorization''
     [(''version'', decimal (unat (au_version a))), (''protocol_version'', decimal (unat (au_protocol_version a))),
      (''backend_id'', BackendId_debug (au_backend_id a)), (''payment_id'', debug_list (map u8_hex (au_payment_id a))),
      (''policy_id'', Digest_debug (au_policy_id a)), (''circuit_id'', Digest_debug (au_circuit_id a)),
      (''proof'', ''<redacted: '' @ decimal (length (np_repetitions (au_proof a))) @ '' repetitions>'')]"

definition PolicyId_debug :: "digest \<Rightarrow> string" where
  "PolicyId_debug d = ''PolicyId('' @ Digest_display d @ '')''"

definition ProofId_debug :: "digest \<Rightarrow> string" where
  "ProofId_debug d = ''ProofId('' @ Digest_display d @ '')''"

definition AuthorizationId_debug :: "digest \<Rightarrow> string" where
  "AuthorizationId_debug d = ''AuthorizationId('' @ Digest_display d @ '')''"

section \<open>Erasure\<close>

text \<open>A proof with everything erased that a view commitment hides or that belongs to the hidden party.\<close>

definition erase_opened :: "'f::zero opened_view \<Rightarrow> 'f opened_view" where
  "erase_opened ov = \<lparr>ov_view = PartyView_zeroize (ov_view ov), ov_randomness = []\<rparr>"

definition erase_repetition :: "'f::zero repetition \<Rightarrow> 'f repetition" where
  "erase_repetition r = r\<lparr>rep_opened_views := map erase_opened (rep_opened_views r),
     rep_hidden_output_shares := map (\<lambda>_. 0) (rep_hidden_output_shares r), rep_hidden_broadcasts := map (\<lambda>_. 0) (rep_hidden_broadcasts r)\<rparr>"

definition erase_proof_repetition :: "'f::zero proof_repetition \<Rightarrow> 'f proof_repetition" where
  "erase_proof_repetition r = r\<lparr>pr_commitments := map (\<lambda>_. digest_ZERO) (pr_commitments r),
     pr_opened_views := map PartyView_zeroize (pr_opened_views r), pr_opening_randomness := map (\<lambda>_. []) (pr_opening_randomness r),
     pr_hidden_output_shares := map (\<lambda>_. 0) (pr_hidden_output_shares r), pr_hidden_broadcasts := map (\<lambda>_. 0) (pr_hidden_broadcasts r)\<rparr>"

definition erase_proof :: "'f::zero noninteractive_proof \<Rightarrow> 'f noninteractive_proof" where
  "erase_proof p = p\<lparr>np_repetitions := map erase_proof_repetition (np_repetitions p)\<rparr>"

lemma LocalOperation_debug_zeroize [simp]: "LocalOperation_debug (zeroize_operation op) = LocalOperation_debug op"
  by (cases op) simp_all

lemma PartyView_debug_zeroize [simp]: "PartyView_debug (PartyView_zeroize v) = PartyView_debug v"
  by (simp add: PartyView_debug_def PartyView_zeroize_def)

lemma OpenedView_debug_erase [simp]: "OpenedView_debug (erase_opened ov) = OpenedView_debug ov"
  by (simp add: OpenedView_debug_def erase_opened_def SecretBytes_debug_def)

lemma Repetition_debug_erase [simp]: "Repetition_debug (erase_repetition r) = Repetition_debug r"
  by (simp add: Repetition_debug_def erase_repetition_def comp_def)

lemma ProofRepetition_debug_erase [simp]: "ProofRepetition_debug (erase_proof_repetition r) = ProofRepetition_debug r"
  by (simp add: ProofRepetition_debug_def erase_proof_repetition_def comp_def)

lemma NonInteractiveProof_debug_erase [simp]: "NonInteractiveProof_debug fmt (erase_proof p) = NonInteractiveProof_debug fmt p"
  by (simp add: NonInteractiveProof_debug_def erase_proof_def comp_def)

lemma MpcithProof_debug_erase [simp]:
  "MpcithProof_debug \<lparr>mp_repetitions = map erase_repetition (mp_repetitions p)\<rparr> = MpcithProof_debug p"
  by (simp add: MpcithProof_debug_def comp_def)

text \<open>What \<open>zeroize\<close> leaves of a view is independent of the shares it held.\<close>

fun operation_shape :: "'f local_operation \<Rightarrow> nat \<times> node_id \<times> nat \<times> 'f option" where
  "operation_shape (Op_Add output share) = (0, output, 0, None)"
| "operation_shape (Op_MulPublic output public share) = (1, output, 0, Some public)"
| "operation_shape (Op_BeaverMul output triple_index d e share) = (2, output, triple_index, None)"

lemma zeroize_operation_shape: "zeroize_operation a = zeroize_operation b \<longleftrightarrow> operation_shape a = operation_shape b"
  by (cases a; cases b) auto

lemma map_zero_iff: "map (\<lambda>_. z) xs = map (\<lambda>_. z) ys \<longleftrightarrow> length xs = length ys"
  by (simp add: map_replicate_const)

lemma PartyView_zeroize_iff:
  "PartyView_zeroize v = PartyView_zeroize v' \<longleftrightarrow>
     pv_repetition_id v = pv_repetition_id v' \<and> pv_party_id v = pv_party_id v' \<and>
     length (pv_input_shares v) = length (pv_input_shares v') \<and>
     map operation_shape (pv_local_operations v) = map operation_shape (pv_local_operations v') \<and>
     length (pv_triple_shares v) = length (pv_triple_shares v') \<and> length (pv_opened_values v) = length (pv_opened_values v')"
proof -
  have "map zeroize_operation xs = map zeroize_operation ys \<longleftrightarrow> map operation_shape xs = map operation_shape ys" for xs ys :: "'a local_operation list"
    by (simp add: list_eq_iff_nth_eq zeroize_operation_shape cong: conj_cong)
  then show ?thesis
    by (cases v; cases v') (auto simp: PartyView_zeroize_def map_zero_iff map_replicate_const)
qed

lemma separated_focus: "separated (xs @ a # ys) = separated (xs @ b # ys) \<longleftrightarrow> a = b"
  by (cases xs) (simp_all add: separated_def)

section \<open>Properties\<close>

text \<open>No secret is shown. The \<open>Debug\<close> output of a proof does not change when all that the views, the openings
  and the hidden party's shares hold is replaced by zeros; that of an authorization, of a private
  witness, of a policy witness and of a Shamir share does not change when the proof, the credential secrets and digits, and the
  share value are replaced.\<close>

theorem debug_hides_secrets:
  "NonInteractiveProof_debug fmt (erase_proof p) = NonInteractiveProof_debug fmt p \<and>
   MpcithProof_debug \<lparr>mp_repetitions = map erase_repetition (mp_repetitions mp)\<rparr> = MpcithProof_debug mp \<and>
   Authorization_debug (a\<lparr>au_proof := erase_proof (au_proof a)\<rparr>) = Authorization_debug a \<and>
   PrivateWitness_debug (w\<lparr>pw_secrets := map (\<lambda>_. []) (pw_secrets w), pw_amount_bits := [], pw_difference_bits := []\<rparr>) = PrivateWitness_debug w \<and>
   PolicyWitness_debug (u\<lparr>credential_secrets := map (\<lambda>(cid, s). (cid, [])) (credential_secrets u)\<rparr>) = PolicyWitness_debug u \<and>
   SSShare_debug (sh\<lparr>sh_value := v\<rparr>) = SSShare_debug sh"
  by (simp add: Authorization_debug_def PrivateWitness_debug_def PolicyWitness_debug_def SSShare_debug_def SecretBytes_debug_def
      erase_proof_def [of "au_proof a"] comp_def case_prod_unfold)

text \<open>One type is not redacted. \<open>PartialRepetition\<close> derives its \<open>Debug\<close>, and prints the output shares of all three
  parties: the output for two repetitions that differ only in one output share of one party differs as soon as
  the two field elements print differently.\<close>

theorem partial_repetition_debug_reveals:
  assumes "fmt x \<noteq> fmt y" and "par_output_vals q = before @ (True, ss @ x # ts) # after"
  shows "PartialRepetition_debug fmt q \<noteq> PartialRepetition_debug fmt (q\<lparr>par_output_vals := before @ (True, ss @ y # ts) # after\<rparr>)"
proof -
  let ?val = "\<lambda>z. debug_tuple [] [debug_bool True, debug_list (map fmt (ss @ z # ts))]"
  have "debug_list (map fmt ss @ fmt x # map fmt ts) \<noteq> debug_list (map fmt ss @ fmt y # map fmt ts)"
    using assms(1) separated_focus [of "map fmt ss" "fmt x" "map fmt ts" "fmt y"] by (simp add: debug_list_def)
  then have val: "?val x \<noteq> ?val y" by (simp add: debug_tuple_def separated_def)
  let ?out = "map (\<lambda>(shared, ss). debug_tuple [] [debug_bool shared, debug_list (map fmt ss)])"
  have "debug_list (?out before @ ?val x # ?out after) \<noteq> debug_list (?out before @ ?val y # ?out after)"
    using val separated_focus [of "?out before" "?val x" "?out after" "?val y"] by (simp add: debug_list_def)
  then show ?thesis
    by (simp add: PartialRepetition_debug_def debug_struct_def separated_def debug_field_def assms(2))
qed

theorem partial_repetition_debug_reveals_witness:
  "let q = \<lambda>v. \<lparr>par_id = 0, par_commitments = [], par_views = [], par_randomness = [], par_output_vals = [(True, [v, 2, 3])], par_broadcasts = []\<rparr>
   in PartialRepetition_debug decimal (q 1) \<noteq> PartialRepetition_debug decimal (q 5)"
  using partial_repetition_debug_reveals [of decimal 1 5
      "\<lparr>par_id = 0, par_commitments = [], par_views = [], par_randomness = [], par_output_vals = [(True, [1, 2, 3])], par_broadcasts = []\<rparr>" "[]" "[]" "[2, 3]" "[]"]
  by (simp add: decimal.simps digit_char_def)

end
