(* ===== verification/Debug_Privacy.thy ===== *)
theory Debug_Privacy
  imports Debug_Output Proof_Security
begin

text \<open>
  A log line with a proof does not depend on the witness. The sizes of the views are fixed by the circuit: how many
  operations and triples a party records is determined by which nodes depend on secrets. The \<open>Debug\<close> output
  shows sizes, ids, the challenges and the statement only.
\<close>

section \<open>Sizes of views\<close>

text \<open>The operations and the triples that party \<open>p\<close> records for one node.\<close>

fun gate_sizes :: "nat \<Rightarrow> bool list \<Rightarrow> 'f node \<Rightarrow> nat \<times> nat" where
  "gate_sizes p ds (Add a b) =
     (if ds ! as_usize a \<and> ds ! as_usize b \<or> (ds ! as_usize a \<or> ds ! as_usize b) \<and> p = 0 then (1, 0) else (0, 0))"
| "gate_sizes p ds (Mul a b) =
     (if ds ! as_usize a \<and> ds ! as_usize b then (1, 1) else if ds ! as_usize a \<or> ds ! as_usize b then (1, 0) else (0, 0))"
| "gate_sizes p ds _ = (0, 0)"

fun circuit_sizes :: "nat \<Rightarrow> bool list \<Rightarrow> 'f node list \<Rightarrow> nat \<times> nat" where
  "circuit_sizes p ds [] = (0, 0)"
| "circuit_sizes p ds (n # ns) =
     (fst (gate_sizes p ds n) + fst (circuit_sizes p (ds @ [dep_node ds n]) ns),
      snd (gate_sizes p ds n) + snd (circuit_sizes p (ds @ [dep_node ds n]) ns))"

definition grown :: "nat \<times> nat \<Rightarrow> 'f party_state \<Rightarrow> 'f party_state \<Rightarrow> bool" where
  "grown k s s' \<longleftrightarrow> ps_input_shares s' = ps_input_shares s \<and>
     length (ps_local_operations s') = length (ps_local_operations s) + fst k \<and>
     length (ps_triple_shares s') = length (ps_triple_shares s) + snd k \<and>
     length (ps_opened_values s') = length (ps_opened_values s) + 2 * snd k"

lemma grown_refl: "grown (0, 0) s s"
  by (simp add: grown_def)

lemma grown_trans: "grown k s t \<Longrightarrow> grown l t u \<Longrightarrow> grown (fst k + fst l, snd k + snd l) s u"
  by (simp add: grown_def)

lemma grown_push: "grown (Suc 0, 0) s (push_operation op s)"
  by (simp add: grown_def)

lemma grown_beaver: "grown (Suc 0, Suc 0) s (beaver_update out ti xs ys ta tb tc d e p s)"
  by (simp add: grown_def)

lemma prover_add_grown:
  assumes "prover_add out va vb parties = (val, parties')" "p < 3"
  shows "nv_shared val = (nv_shared va \<or> nv_shared vb)"
    "grown (if nv_shared va \<and> nv_shared vb \<or> (nv_shared va \<or> nv_shared vb) \<and> p = 0 then (1, 0) else (0, 0)) (parties ! p) (parties' ! p)"
  using assms by (cases va; cases vb; auto simp: prover_add_simps grown_refl grown_push)+

lemma prover_mul_grown:
  assumes run: "prover_mul rand out va vb parties g = ((val, parties'), g')" and p: "p < 3"
  shows "nv_shared val = (nv_shared va \<or> nv_shared vb) \<and>
    grown (if nv_shared va \<and> nv_shared vb then (1, 1) else if nv_shared va \<or> nv_shared vb then (1, 0) else (0, 0)) (parties ! p) (parties' ! p)"
proof (cases "nv_shared va \<and> nv_shared vb")
  case True
  then obtain xs ys where v: "va = NV_Shared xs" "vb = NV_Shared ys" by (cases va; cases vb) auto
  show ?thesis using run unfolding v by (rule prover_mul_shared) (use p in \<open>simp add: grown_beaver\<close>)
next
  case False
  then show ?thesis using run p by (cases va; cases vb) (auto simp: prover_mul_simps grown_refl grown_push)
qed

lemma prover_node_grown:
  assumes run: "prover_node rand pub k n ns np vals parties g = (Inr (ns', np', val, parties'), g')" and p: "p < 3"
  shows "nv_shared val = dep_node (map nv_shared vals) n \<and> grown (gate_sizes p (map nv_shared vals) n) (parties ! p) (parties' ! p)"
proof (cases n)
  case (Add a b)
  then obtain va vb where v: "mp_index vals (as_usize a) = Inr va" "mp_index vals (as_usize b) = Inr vb"
    "prover_add (of_nat k) va vb parties = (val, parties')"
    using run by (auto simp: prover_node_def obind_def Let_def split: sum.splits prod.splits)
  then show ?thesis
    using prover_add_grown [OF v(3) p] Add by (auto simp: mp_index_def split: if_splits)
next
  case (Mul a b)
  then obtain va vb where v: "mp_index vals (as_usize a) = Inr va" "mp_index vals (as_usize b) = Inr vb"
    "prover_mul rand (of_nat k) va vb parties g = ((val, parties'), g')"
    using run by (auto simp: prover_node_def obind_def Let_def split: sum.splits prod.splits)
  then show ?thesis
    using prover_mul_grown [OF v(3) p] Mul by (auto simp: mp_index_def split: if_splits)
qed (use run in \<open>auto simp: prover_node_def obind_def Let_def grown_refl split: sum.splits prod.splits\<close>)

lemma prover_nodes_grown:
  assumes "prover_nodes rand pub k nodes ns np vals parties g = (Inr (vals', parties'), g')" and p: "p < 3"
  shows "grown (circuit_sizes p (map nv_shared vals) nodes) (parties ! p) (parties' ! p)"
  using assms(1)
proof (induction nodes arbitrary: k ns np vals parties g)
  case Nil
  then show ?case by (simp add: grown_refl)
next
  case (Cons n nodes)
  then obtain ns1 np1 val parties1 g1 where
    one: "prover_node rand pub k n ns np vals parties g = (Inr (ns1, np1, val, parties1), g1)" and
    rest: "prover_nodes rand pub (Suc k) nodes ns1 np1 (vals @ [val]) parties1 g1 = (Inr (vals', parties'), g')"
    by (auto simp: obind_def split: sum.splits prod.splits)
  note s = prover_node_grown [OF one p]
  show ?case using grown_trans [OF conjunct2 [OF s] Cons.IH [OF rest]] s by simp
qed

section \<open>Sizes of a committed repetition\<close>

definition view_sizes :: "'f party_view \<Rightarrow> nat \<times> nat \<times> nat \<times> nat" where
  "view_sizes v = (length (pv_input_shares v), length (pv_local_operations v), length (pv_triple_shares v), length (pv_opened_values v))"

definition expected_sizes :: "'f circuit \<Rightarrow> nat \<Rightarrow> nat \<Rightarrow> nat \<times> nat \<times> nat \<times> nat" where
  "expected_sizes c n p = (let (ops, triples) = circuit_sizes p [] (c_nodes c) in (n, ops, triples, 2 * triples))"

lemma commit_views_views:
  "commit_views hash into_bigint fill_bytes rid parties ps g = (Inr committed, g') \<Longrightarrow> length parties = 3 \<Longrightarrow> \<forall>p\<in>set ps. p < 3 \<Longrightarrow>
   map (\<lambda>(c, r, v). v) committed = map (\<lambda>p. view_of rid p (parties ! p)) ps \<and> length committed = length ps"
  by (induction ps arbitrary: g committed)
    (auto simp: obind_def build_view_eq split: sum.splits prod.splits)

lemma prover_nodes_length:
  "prover_nodes rand pub k nodes ns np vals parties g = (Inr (vals', parties'), g') \<Longrightarrow> length parties = 3 \<Longrightarrow> length parties' = 3"
proof (induction nodes arbitrary: k ns np vals parties g)
  case (Cons n nodes)
  then obtain ns1 np1 val parties1 g1 where
    one: "prover_node rand pub k n ns np vals parties g = (Inr (ns1, np1, val, parties1), g1)" and
    rest: "prover_nodes rand pub (Suc k) nodes ns1 np1 (vals @ [val]) parties1 g1 = (Inr (vals', parties'), g')"
    by (auto simp: obind_def split: sum.splits prod.splits)
  have "length parties1 = 3"
    using one Cons.prems(2)
    by (auto simp: prover_node_def prover_add_def prover_mul_def obind_def Let_def split: node.splits sum.splits prod.splits if_splits)
  then show ?case by (rule Cons.IH [OF rest])
qed simp

lemma commit_repetition_sizes:
  assumes run: "commit_repetition hash into_bigint rand fill_bytes pv rid g = (Inr partial, g')" and p: "p < 3"
  shows "pv_repetition_id (par_views partial ! p) = rid" "pv_party_id (par_views partial ! p) = of_nat p"
    "view_sizes (par_views partial ! p) = expected_sizes (mpv_circuit pv) (length (mpv_witness pv)) p"
    "length (par_broadcasts partial ! p) = snd (snd (snd (expected_sizes (mpv_circuit pv) (length (mpv_witness pv)) p)))"
    "length (par_output_vals partial) = length (c_outputs (mpv_circuit pv))" "length (par_commitments partial) = 3"
proof -
  obtain parties0 g0 where sh: "share_inputs rand (mpv_witness pv) start_parties g = (parties0, g0)" by fastforce
  obtain inputs where inputs: "\<And>p. p < 3 \<Longrightarrow> length (inputs p) = length (mpv_witness pv)" "run_ok [] [] inputs [] parties0"
    "\<And>p. p < 3 \<Longrightarrow> ps_input_shares (parties0 ! p) = inputs p \<and> ps_local_operations (parties0 ! p) = [] \<and>
       ps_triple_shares (parties0 ! p) = [] \<and> ps_opened_values (parties0 ! p) = []"
    using share_inputs_start [OF sh] by metis
  have len0: "length parties0 = 3" using inputs(2) by (auto simp: run_ok_def parties_inv_def)
  obtain vals parties g1 outs committed where
    nodes: "prover_nodes rand (ms_public_inputs (mpv_statement pv)) 0 (c_nodes (mpv_circuit pv)) 0 0 [] parties0 g0 = (Inr (vals, parties), g1)"
    and outs: "rmap (\<lambda>nid. rbind (mp_index vals (as_usize nid)) (\<lambda>v.
         Inr (case v of NV_Public _ \<Rightarrow> (False, [0, 0, 0]) | NV_Shared s \<Rightarrow> (True, s)))) (c_outputs (mpv_circuit pv)) = Inr outs"
    and com: "commit_views hash into_bigint fill_bytes rid parties [0..<3] g1 = (Inr committed, g')"
    and partial: "partial = \<lparr>par_id = rid, par_commitments = map fst committed, par_views = map (\<lambda>(c, r, v). v) committed,
       par_randomness = map (\<lambda>(c, r, v). r) committed, par_output_vals = outs, par_broadcasts = map ps_opened_values parties\<rparr>"
    using run sh
    by (auto simp: commit_repetition_def obind_def start_parties_def PARTY_COUNT_def simp del: upt_rec_numeral split: sum.splits prod.splits)
  have len: "length parties = 3" by (rule prover_nodes_length [OF nodes len0])
  have views: "par_views partial ! p = view_of rid p (parties ! p)" "length committed = 3"
    using commit_views_views [OF com len] p by (simp_all add: partial del: upt_rec_numeral)
  have "grown (circuit_sizes p [] (c_nodes (mpv_circuit pv))) (parties0 ! p) (parties ! p)"
    using prover_nodes_grown [OF nodes p] by simp
  then have sizes: "view_sizes (view_of rid p (parties ! p)) = expected_sizes (mpv_circuit pv) (length (mpv_witness pv)) p"
    using inputs(1,3) [OF p] by (simp add: view_sizes_def expected_sizes_def grown_def split: prod.splits)
  then show "view_sizes (par_views partial ! p) = expected_sizes (mpv_circuit pv) (length (mpv_witness pv)) p" by (simp only: views(1))
  show "length (par_broadcasts partial ! p) = snd (snd (snd (expected_sizes (mpv_circuit pv) (length (mpv_witness pv)) p)))"
    using len p by (simp add: partial view_sizes_def flip: sizes)
  show "pv_repetition_id (par_views partial ! p) = rid" "pv_party_id (par_views partial ! p) = of_nat p" by (simp_all add: views(1))
  show "length (par_output_vals partial) = length (c_outputs (mpv_circuit pv))" using outs by (simp add: partial rmap_nth)
  show "length (par_commitments partial) = 3" using views(2) by (simp add: partial)
qed

section \<open>The output for a proof\<close>

lemma PartyView_debug_sizes:
  assumes "pv_repetition_id v = pv_repetition_id v'" "pv_party_id v = pv_party_id v'" "view_sizes v = view_sizes v'"
  shows "PartyView_debug v = PartyView_debug v'"
  using assms by (simp add: PartyView_debug_def view_sizes_def)

lemma commit_all_nth:
  "commit_all hash into_bigint rand fill_bytes pv ks g = (Inr partials, g') \<Longrightarrow> length partials = length ks \<and>
   (\<forall>i<length ks. \<exists>g g'. commit_repetition hash into_bigint rand fill_bytes pv (of_nat (ks ! i)) g = (Inr (partials ! i), g'))"
proof (induction ks arbitrary: g partials)
  case (Cons k ks)
  then obtain q g1 qs where q: "commit_repetition hash into_bigint rand fill_bytes pv (of_nat k) g = (Inr q, g1)"
    "commit_all hash into_bigint rand fill_bytes pv ks g1 = (Inr qs, g')" "partials = q # qs"
    by (auto simp: obind_def split: sum.splits prod.splits)
  show ?case using Cons.IH [OF q(2)] q(1,3) by (auto simp: nth_Cons' less_Suc_eq_0_disj)
qed simp

text \<open>Two runs for the same circuit, repetition and challenge, on witnesses of the same length.\<close>

lemma finish_debug_eq:
  assumes run: "commit_repetition hash into_bigint rand fill_bytes pv rid g = (Inr partial, gx)"
      "commit_repetition hash into_bigint rand' fill_bytes' pv' rid g' = (Inr partial', gx')"
    and ok: "prover_ready pv" "partial_ok hash into_bigint pv i partial" "prover_ready pv'" "partial_ok hash into_bigint pv' i partial'"
    and same: "mpv_circuit pv' = mpv_circuit pv" "length (mpv_witness pv') = length (mpv_witness pv)"
    and ch: "hidden_party ch < PARTY_COUNT"
    and fin: "finish_repetition partial ch = Inr r" "finish_repetition partial' ch = Inr r'"
  shows "ProofRepetition_debug (to_proof_repetition r) = ProofRepetition_debug (to_proof_repetition r')"
proof -
  define h where "h = unat (hidden_party ch)"
  have h: "h < 3" "ch = \<lparr>hidden_party = of_nat h\<rparr>" using ch by (simp_all add: h_def PARTY_COUNT_def word_less_nat_alt)
  have resp: "\<exists>outs. x = response q h outs \<and> length outs = length (c_outputs (mpv_circuit v))"
    if part: "partial_ok hash into_bigint v i q" and ready: "prover_ready v" and fin: "finish_repetition q ch = Inr x" for v q x
  proof -
    obtain vals parties where hp: "honest_partial hash into_bigint (mpv_statement v) (mpv_circuit v) (mpv_witness v) q vals parties"
      using part by (auto simp: partial_ok_def)
    have "circuit_wf (mpv_circuit v)" using ready by (simp add: prover_ready_def)
    from finish_honest [OF hp this h(1)] fin show ?thesis by (auto simp: h(2))
  qed
  obtain outs outs' where r: "r = response partial h outs" "r' = response partial' h outs'" "length outs = length outs'"
    using resp [OF ok(2,1) fin(1)] resp [OF ok(4,3) fin(2)] same(1) by auto
  note fields = to_proof_sorted [OF finish_fields(3) [OF fin(1)]] to_proof_sorted [OF finish_fields(3) [OF fin(2)]]
  note sizes = commit_repetition_sizes [OF run(1)] and sizes' = commit_repetition_sizes [OF run(2)]
  have "PartyView_debug (par_views partial ! p) = PartyView_debug (par_views partial' ! p)" if "p < 3" for p
    using sizes [OF that] sizes' [OF that] same by (intro PartyView_debug_sizes) simp_all
  then have views: "map (\<lambda>p. PartyView_debug (par_views partial ! p)) (other h) = map (\<lambda>p. PartyView_debug (par_views partial' ! p)) (other h)"
    using other_less [OF h(1)] by simp
  show ?thesis
    unfolding ProofRepetition_debug_def fields
    using views sizes(4,6) [OF h(1)] sizes'(4,6) [OF h(1)] same r(3)
    by (simp add: r(1,2) response_def opened_of_def comp_def del: map_eq_conv)
qed

text \<open>C24: a log line with a proof tells nothing about the witness. For one circuit and statement, let the prover run
  twice, on any two witnesses, from any states of any generators. When the two proofs carry the same challenges, their
  \<open>Debug\<close> output is the same string: the views, the openings and the shares of the hidden party enter it only
  through sizes, which the circuit fixes.\<close>

theorem proof_debug_private:
  assumes B: "\<And>x. length (be_hash B x) = 32" "\<And>d x n. \<exists>out. be_expand B d x n = Some out \<and> length out = n"
    and fill: "\<And>g n. length (fst (fill_bytes g n)) = n" "\<And>g n. length (fst (fill_bytes' g n)) = n"
    and new: "Prover_new sha256 into_bigint width c st w = Inr pp" "Prover_new sha256 into_bigint width c st w' = Inr pp'"
    and size: "length (c_nodes c) \<le> MAX_CIRCUIT_NODES" "k \<noteq> 0"
    and run: "Prover_prove sha256 B into_bigint width rand fill_bytes pp k g = (Inr p, gx)"
      "Prover_prove sha256 B into_bigint width rand' fill_bytes' pp' k g' = (Inr p', gx')"
    and chs: "map pr_challenge (np_repetitions p) = map pr_challenge (np_repetitions p')"
  shows "NonInteractiveProof_debug fmt p = NonInteractiveProof_debug fmt p'"
proof -
  have envs: "fs_env B fill_bytes" "fs_env B fill_bytes'" by (rule fs_envI; use B fill in simp)+
  obtain pv partials challenges reps g1 where r: "pv = \<lparr>mpv_circuit = c, mpv_statement = to_mpcith st, mpv_witness = w\<rparr>" "prover_ready pv"
    "commit_phase (be_hash B) into_bigint rand fill_bytes pv k g = (Inr partials, g1)"
    "list_all2 (partial_ok (be_hash B) into_bigint pv) [0..<unat k] partials"
    "list_all (\<lambda>ch. hidden_party ch < PARTY_COUNT) challenges" "length challenges = unat k"
    "p = assemble B st reps" "length reps = unat k" "rmap (\<lambda>(p, ch). finish_repetition p ch) (zip partials challenges) = Inr reps"
    by (rule fs_env.Prover_prove_run [OF envs(1) new(1) size, of rand g]) (rule that, use run(1) in simp_all)
  obtain pv' partials' challenges' reps' g2 where r': "pv' = \<lparr>mpv_circuit = c, mpv_statement = to_mpcith st, mpv_witness = w'\<rparr>" "prover_ready pv'"
    "commit_phase (be_hash B) into_bigint rand' fill_bytes' pv' k g' = (Inr partials', g2)"
    "list_all2 (partial_ok (be_hash B) into_bigint pv') [0..<unat k] partials'"
    "length challenges' = unat k"
    "p' = assemble B st reps'" "length reps' = unat k" "rmap (\<lambda>(p, ch). finish_repetition p ch) (zip partials' challenges') = Inr reps'"
    by (rule fs_env.Prover_prove_run [OF envs(2) new(2) size, of rand' g']) (rule that, use run(2) in simp_all)
  have w: "length w' = length w" using new by (auto simp: Prover_new_def)
  have "ProofRepetition_debug (to_proof_repetition (reps ! i)) = ProofRepetition_debug (to_proof_repetition (reps' ! i))" if i: "i < unat k" for i
  proof -
    have len: "length partials = unat k" "length partials' = unat k" using r(4) r'(4) by (auto dest: list_all2_lengthD)
    have fin: "finish_repetition (partials ! i) (challenges ! i) = Inr (reps ! i)" "finish_repetition (partials' ! i) (challenges' ! i) = Inr (reps' ! i)"
      using r(9) [unfolded rmap_nth, THEN conjunct2, rule_format, of i] r'(8) [unfolded rmap_nth, THEN conjunct2, rule_format, of i] r(6) r'(5) len i
      by simp_all
    have "pr_challenge (to_proof_repetition (reps ! i)) = pr_challenge (to_proof_repetition (reps' ! i))"
      using arg_cong [OF chs, of "\<lambda>xs. xs ! i"] r(7,8) r'(6,7) i by (simp add: assemble_def)
    then have ch: "challenges' ! i = challenges ! i" using finish_fields(2) [OF fin(1)] finish_fields(2) [OF fin(2)] by simp
    obtain g3 g4 where one: "commit_repetition (be_hash B) into_bigint rand fill_bytes pv (of_nat i) g3 = (Inr (partials ! i), g4)"
      using commit_all_nth [of "be_hash B" into_bigint rand fill_bytes pv "[0..<unat k]" g partials] r(3) size(2) i
      by (auto simp: commit_phase_def)
    obtain g5 g6 where two: "commit_repetition (be_hash B) into_bigint rand' fill_bytes' pv' (of_nat i) g5 = (Inr (partials' ! i), g6)"
      using commit_all_nth [of "be_hash B" into_bigint rand' fill_bytes' pv' "[0..<unat k]" g' partials'] r'(3) size(2) i
      by (auto simp: commit_phase_def)
    from finish_debug_eq [OF one two r(2) _ r'(2) _ _ _ _ fin(1) fin(2) [unfolded ch]]
    show ?thesis using r(1,4,5,6) r'(1,4) w i by (auto simp: list_all2_conv_all_nth list_all_length)
  qed
  then have "map ProofRepetition_debug (np_repetitions p) = map ProofRepetition_debug (np_repetitions p')"
    using r(7,8) r'(6,7) by (intro nth_equalityI) (simp_all add: assemble_def)
  then show ?thesis by (simp add: NonInteractiveProof_debug_def r(7) r'(6) assemble_def comp_def)
qed

section \<open>Witness\<close>

text \<open>A backend with constant output: all challenges are equal.\<close>

definition flat_backend :: backend where
  "flat_backend = Shake256Backend (\<lambda>x n. replicate n 0)"

interpretation flat_env: fs_env flat_backend zero_fill
  by unfold_locales
    (simp_all add: flat_backend_def Shake256Backend_def Shake256Backend_hash_def Shake256Backend_expand_def zero_fill_def)

lemma flat_derive_one:
  assumes "derive_one flat_backend into_bigint st sessions i = Inr ch"
  shows "ch = \<lparr>hidden_party = 0\<rparr>"
proof -
  have "u64_from_be_bytes (take 8 (replicate 64 0)) = 0" by (simp add: u64_from_be_bytes_def be_value_def numeral_eq_Suc)
  then show ?thesis
    using assms
    by (auto simp: derive_one_def flat_backend_def Shake256Backend_def Shake256Backend_expand_def Let_def PartyId_new_def PARTY_COUNT_def
        simp del: take_replicate)
qed

lemma flat_challenges:
  assumes "joint_challenges flat_backend into_bigint st sessions = Inr chs"
  shows "chs = replicate (length sessions) \<lparr>hidden_party = 0\<rparr>"
proof (intro nth_equalityI)
  have d: "length chs = length sessions \<and> (\<forall>i<length sessions. derive_one flat_backend into_bigint st
      (map (\<lambda>(rid, commitments). FsSession_new rid commitments) sessions) i = Inr (chs ! i))"
    using assms by (auto simp: joint_challenges_def derive_all_def rmap_nth split: if_splits)
  then show "length chs = length (replicate (length sessions) \<lparr>hidden_party = 0\<rparr>)" by simp
  show "chs ! i = replicate (length sessions) \<lparr>hidden_party = 0\<rparr> ! i" if "i < length chs" for i
    using d that flat_derive_one by fastforce
qed

lemma flat_proof:
  assumes "Prover_new low32 fp_into_bigint 16 demo_circuit st w = Inr pp"
  obtains p g' where "Prover_prove low32 flat_backend fp_into_bigint 16 rand zero_fill pp 2 g = (Inr p, g')"
    "map pr_challenge (np_repetitions p) = replicate 2 \<lparr>hidden_party = 0\<rparr>"
proof -
  have size: "length (c_nodes demo_circuit) \<le> MAX_CIRCUIT_NODES" by (simp add: demo_circuit_def MAX_CIRCUIT_NODES_def)
  obtain partials challenges reps g' where
    r: "joint_challenges flat_backend fp_into_bigint st (map (\<lambda>p. (par_id p, par_commitments p)) partials) = Inr challenges"
    "length challenges = 2" "Prover_prove low32 flat_backend fp_into_bigint 16 rand zero_fill pp 2 g = (Inr (assemble flat_backend st reps), g')"
    "answers partials challenges reps" "length reps = 2"
    by (rule flat_env.Prover_prove_run [OF assms size, where count = 2 and rand = rand and g = g]) (simp, rule that, simp_all)
  have "challenges = replicate 2 \<lparr>hidden_party = 0\<rparr>" using flat_challenges [OF r(1)] r(2) by simp
  then have "map pr_challenge (np_repetitions (assemble flat_backend st reps)) = replicate 2 \<lparr>hidden_party = 0\<rparr>"
    using r(2,4,5) by (intro nth_equalityI) (auto simp: assemble_def answers_def)
  then show thesis using r(3) that by blast
qed

theorem proof_debug_private_witness:
  "\<exists>p p' g g'. Prover_prove low32 flat_backend fp_into_bigint 16 (\<lambda>g :: nat. (of_nat g, g + 1)) zero_fill
      \<lparr>pp_circuit = demo_circuit, pp_statement = demo_proof_statement, pp_witness = [4]\<rparr> 2 0 = (Inr p, g) \<and>
    Prover_prove low32 flat_backend fp_into_bigint 16 (\<lambda>g :: nat. (of_nat g, g + 1)) zero_fill
      \<lparr>pp_circuit = demo_circuit, pp_statement = demo_proof_statement, pp_witness = [9]\<rparr> 2 7 = (Inr p', g') \<and>
    NonInteractiveProof_debug (\<lambda>x. decimal (fp_into_bigint x)) p = NonInteractiveProof_debug (\<lambda>x. decimal (fp_into_bigint x)) p'"
proof -
  have new: "Prover_new low32 fp_into_bigint 16 demo_circuit demo_proof_statement [9] =
     Inr \<lparr>pp_circuit = demo_circuit, pp_statement = demo_proof_statement, pp_witness = [9]\<rparr>"
    using demo_Prover_new by (auto simp: Prover_new_def)
  obtain p g where p: "Prover_prove low32 flat_backend fp_into_bigint 16 (\<lambda>g :: nat. (of_nat g, g + 1)) zero_fill
      \<lparr>pp_circuit = demo_circuit, pp_statement = demo_proof_statement, pp_witness = [4]\<rparr> 2 0 = (Inr p, g)"
    "map pr_challenge (np_repetitions p) = replicate 2 \<lparr>hidden_party = 0\<rparr>" by (rule flat_proof [OF demo_Prover_new])
  obtain p' g' where p': "Prover_prove low32 flat_backend fp_into_bigint 16 (\<lambda>g :: nat. (of_nat g, g + 1)) zero_fill
      \<lparr>pp_circuit = demo_circuit, pp_statement = demo_proof_statement, pp_witness = [9]\<rparr> 2 7 = (Inr p', g')"
    "map pr_challenge (np_repetitions p') = replicate 2 \<lparr>hidden_party = 0\<rparr>" by (rule flat_proof [OF new])
  have "NonInteractiveProof_debug (\<lambda>x. decimal (fp_into_bigint x)) p = NonInteractiveProof_debug (\<lambda>x. decimal (fp_into_bigint x)) p'"
    by (rule proof_debug_private [OF flat_env.length_hash flat_env.expand_returns flat_env.length_fill flat_env.length_fill demo_Prover_new new _ _ p(1) p'(1)])
      (use p(2) p'(2) in \<open>simp_all add: demo_circuit_def MAX_CIRCUIT_NODES_def\<close>)
  then show ?thesis using p(1) p'(1) by blast
qed

end
