(* ===== verification/Spec2Isabelle.thy ===== *)
theory Spec2Isabelle
  imports Crypto_Core Secret_Sharing Mpc Circuit Circuit_Encoding Policy Policy_Normalize Policy_Profile Compiler_Inputs Payment_Wiring
    Mpcith_Security Mpcith_Privacy Proof_Security Payment_Authorization Sdk_Correct Verifier_Robust
    Sdk_Wire Cursor_Decoders Debug_Privacy
begin

text \<open>
  Verification of the workspace \<open>private-payment-auth\<close>: private authorisation of payments by
  MPC-in-the-head proofs. A payer shows that the credentials and the amount of a payment satisfy a
  policy without showing the credentials; a verifier checks the proof against the payment and the
  policy. This theory collects the development; it has no definitions of its own.

  \<^bold>\<open>The program.\<close> The crates form a stack, each using the ones before it.
  \<^item> \<open>crypto-core\<close>: canonical encodings, digests, hash backends and commitments.
  \<^item> \<open>secret-sharing\<close>: Shamir sharing of byte strings over a prime field.
  \<^item> \<open>mpc\<close>: additive sharing, Beaver triples and a simulator of the parties.
  \<^item> \<open>circuit\<close>: arithmetic circuits, their builder, evaluators, byte format and id.
  \<^item> \<open>policy\<close>: policy trees over credentials and amount limits, their validation, normal form,
    encoding and id, the evaluator on a witness, and the compiler to circuits.
  \<^item> \<open>payment\<close>: amounts, payments and statements, the relation that says when a payment is authorised,
    the circuit bound to a statement, and proving and verifying a payment.
  \<^item> \<open>mpcith\<close>: the interactive three-party protocol with one hidden party per repetition.
  \<^item> \<open>proof\<close>: the non-interactive proof system, with challenges from a hash of the commitments.
  \<^item> \<open>sdk\<close>: the artifact \<open>Authorization\<close> and the entry points \<open>authorize\<close> and \<open>verify\<close>.

  \<^bold>\<open>Conventions.\<close> A \<open>Result\<close> is a sum (\<open>Inl\<close> is the error), and every error type of a crate is a
  datatype with the constructors of the source. A panic (\<open>expect\<close>, an index out of range, a failed
  conversion) is an explicit value: the constructor ending in \<open>_Panic\<close>, or \<open>None\<close>. The functions are those of a
  release build, in which \<open>debug_assert!\<close> is compiled out. Of the six debug assertions of the crates one can fail, that of
  \<open>encode\<close> in \<open>policy/src/encoding.rs\<close> on the size of the encoding: \<open>policy_encode\<close> and the theory \<open>Policy_Profile\<close>
  model it, with a flag for the build. The others compare the width of an encoded field element with the width
  of the field (\<open>circuit/src/encoding.rs\<close>, \<open>mpcith/src/encoding.rs\<close>, \<open>proof/src/encoding.rs\<close>, \<open>proof/src/statement.rs\<close>) or
  repeat that a shared value has a share (\<open>mpc/src/types.rs\<close>). Code that threads
  mutable state is a function from state to result and state (\<open>op\<close> in \<open>Prelude\<close>). Rust integers are
  words of their width; \<open>usize\<close> is \<open>nat\<close>. A reader over a byte slice returns the bytes not read yet; that the
  position-based cursors of the source compute the same is proved in \<open>Cursor_Decoders\<close>.
  Third-party code is a parameter: the prime field (\<open>ark_ff\<close>) is a commutative ring with the
  operations \<open>into_bigint\<close> and \<open>inverse\<close>, specified by the locales \<open>field_ops\<close> and \<open>prime_field\<close>; the hash
  functions are functions on bytes, specified by their output length; the generator is a state with
  its draw functions. The locales are interpreted on concrete instances: the field of integers modulo the
  order of the Ed25519 scalar field for the laws of the conversions, and the integers modulo a prime of 67 bits,
  with its primality proved here, for the laws that need inverses and for the witnesses.

  \<^bold>\<open>Theories.\<close>
  \<^item> \<open>Prelude\<close>, \<open>Codec\<close>, \<open>Prime_Field\<close>: results, big-endian integers, the locale \<open>codec\<close> of canonical
    byte formats with its combinators, and the field laws (Fermat's theorem, a primality certificate).
  \<^item> \<open>Crypto_Core\<close> (\<open>crypto-core/src\<close>): encoding, hash domains, backends, commitments; a commitment binds up
    to collisions.
  \<^item> \<open>Secret_Sharing\<close> (\<open>secret-sharing/src\<close>): \<open>split\<close> and \<open>reconstruct\<close>; reconstruction, hiding (one choice of the drawn
    coefficients explains \<open>threshold - 1\<close> shares for each secret), totality, canonical shares.
  \<^item> \<open>Mpc\<close> (\<open>mpc/src\<close>): sharing, triples and simulator; multiplication reveals the product, shares are
    private. The locale \<open>triple_provider\<close> is the contract between the simulator and a provider.
  \<^item> \<open>Circuit\<close>, \<open>Circuit_Encoding\<close> (\<open>circuit/src\<close>): every sequence of builder calls yields a valid circuit; the
    reference evaluator computes the unique solution; evaluation under MPC refines it; format and id.
  \<^item> \<open>Policy\<close>, \<open>Policy_Normalize\<close> (\<open>policy/src\<close>): validation and evaluation against declarative
    definitions, canonical encoding, the normal form keeps the meaning and forgets order, ids. \<open>Policy_Profile\<close>:
    normalisation and ids with the debug assertion of \<open>encode\<close>, which holds for policies within \<open>MAX_ENCODED_SIZE\<close>.
  \<^item> \<open>Policy_Compiler\<close> (\<open>policy/src/compiler.rs\<close>, \<open>range_check.rs\<close>), \<open>Compiler_Steps\<close> (a program logic for
    code that grows a circuit), \<open>Compiler_Correct\<close> (the circuit refines the denotation of the policy, size
    bound, exactness and limits of the range check), \<open>Compiler_Inputs\<close> (inputs from a witness, agreement with
    the native evaluator), \<open>Compiler_Layout\<close> (the slots).
  \<^item> \<open>Payment\<close>, \<open>Payment_Relation\<close>, \<open>Payment_Wiring\<close>, \<open>Payment_Authorization\<close> (\<open>payment/src\<close>): statements and their
    format, the relation against its specification \<open>payment_ok\<close>, agreement of prover and verifier on the
    bound circuit, completeness of authorisation.
  \<^item> \<open>Mpcith\<close>, \<open>Mpcith_Prover\<close>, \<open>Mpcith_Verifier\<close> (\<open>mpcith/src\<close>): definitions. \<open>Mpcith_Codec\<close>: formats.
    \<open>Mpcith_Depends\<close>: the dependence search of the verifier ends. \<open>Mpcith_Replay\<close>: simulation of the prover
    by the replay. \<open>Mpcith_Protocol\<close>, \<open>Mpcith_Security\<close>: completeness for all challenges, and the responses a
    prover can choose freely. \<open>Mpcith_Privacy\<close>: a relational logic for random tapes, and privacy of the opened
    views. \<open>Mpcith_Robust\<close>: the verifier never panics.
  \<^item> \<open>Proof_System\<close>, \<open>Proof_Codec\<close>, \<open>Proof_Security\<close> (\<open>proof/src\<close>): the Fiat-Shamir layer, its formats, completeness,
    binding of the hash input, and forgery.
  \<^item> \<open>Sdk\<close>, \<open>Sdk_Correct\<close>, \<open>Verifier_Robust\<close> (\<open>sdk/src\<close>): the entry points, correctness end to end, to which payment and
    policy a valid authorization is bound, and totality of verification on untrusted bytes. \<open>Sdk_Wire\<close>: what \<open>authorize\<close> returns is
    well formed and survives the byte format; the id identifies an authorization.
  \<^item> \<open>Cursor\<close>, \<open>Cursor_Decoders\<close> (the \<open>encoding.rs\<close> of \<open>policy\<close>, \<open>circuit\<close>, \<open>mpcith\<close>, \<open>proof\<close>, and \<open>proof/src/statement.rs\<close>):
    programs over a slice with a position, with panics and refused reservations as \<open>None\<close>; a refinement calculus; the decoders
    as written, each a refinement of its reader over the remaining bytes. The locale \<open>byte_reader\<close> is the contract of
    \<open>read_bytes\<close>, interpreted on its two forms.
  \<^item> \<open>Format\<close>, \<open>Error_Messages\<close>, \<open>Debug_Output\<close>, \<open>Debug_Privacy\<close> (\<open>crypto-core/src/secret.rs\<close>, the \<open>error.rs\<close> files and the
    \<open>Debug\<close>, \<open>Display\<close> and \<open>Zeroize\<close> implementations): the printed text of values and errors; the text of a proof is
    independent of the witness and of the random draws.

  \<^bold>\<open>What the theorems show.\<close> Honest use works: an authorised payment gets an authorization that verifies, and
  \<open>authorize\<close> refuses every other payment. An authorization verifies for one payment id and amount only, and,
  up to collisions of SHA-256, for one canonical policy. The layers agree: policy evaluator, compiled circuit, shared evaluation and the replay of
  opened views compute the same function. Opened views are private: witnesses with the same outputs give the same
  views, under a bijection of the prover's random draws. All byte formats but one are canonical, the exception being the
  interactive proof format, whose decoder ignores bytes after a view. Verification of untrusted bytes returns in a release build,
  and the cursors of the decoders stay within bounds on every input. An authorization reaches its receiver unchanged, and the
  logged text of a proof shows nothing of the witness.
  The development also shows what does \<^emph>\<open>not\<close> hold. The shares of the hidden party are sent after the
  challenge and bound by nothing, so a proof of any statement can be made without a witness
  (\<open>Proof_Security.proof_forgery\<close>, \<open>Sdk_Correct.sdk_forgery\<close>); the sum of the booleanity terms of the range check
  can vanish for digits that are not boolean (\<open>Compiler_Correct.range_check_forgeable\<close>); six bytes make the policy decoder
  reserve room for four billion members (\<open>Cursor_Decoders.policy_decoder_allocation\<close>); the derived \<open>Debug\<close> of
  \<open>PartialRepetition\<close> prints shares (\<open>Debug_Output.partial_repetition_debug_reveals\<close>).

  \<^bold>\<open>Bounds and fuel.\<close> The policy decoder takes the number of bytes as fuel, and every call consumes a byte; the
  retry loop of random elements takes the number of attempts the source allows; the expansion of \<open>Sha256Backend\<close> has
  one round for each output byte as fuel, each giving 32, and is proved to return. The dependence search of the
  verifier is a \<open>partial_function\<close> and is proved to return on every valid circuit. Completeness of proofs is stated for circuits of
  at most \<open>MAX_CIRCUIT_NODES\<close> nodes, for which the encoding of a view fits the 32-bit length of the commitment;
  a compiled policy has at most 6000 nodes per policy node.

  \<^bold>\<open>Not modelled.\<close> The alternate form of \<open>Debug\<close> output, erasure of secrets from memory beyond the assignments the code
  makes, the timing of comparisons, stack depth of the recursive functions, memory use beyond the reservations of the decoders,
  and the crate \<open>verifier\<close>, which has no code. Accessors are the selectors of the records, and \<open>Clone\<close> is the identity.
  The rest of the repository is tests, benchmarks and fuzz targets.
  Probability is not modelled: privacy is stated as a bijection between the random choices for two secrets, or as
  existence and uniqueness of the choices that explain an observation. The hiding of commitments and the randomness of
  challenges are properties of the hash functions, which are parameters.
\<close>

end
